(* ===== verification/Co_Prelude.thy ===== *)
theory Co_Prelude
  imports Main "HOL-Library.Word" "HOL-Library.Multiset" "HOL-Library.Product_Lexorder"
begin

text \<open>
  Shared vocabulary of the development: the faults a C++ operation can end in, the results
  of operations that can end in one, the names of the model's basic types, the callbacks of
  the runtime in defunctionalised form, and the generic facts about lists and 64-bit counters
  that the components share.
\<close>

section \<open>Faults, results, basic types\<close>

text \<open>
  An operation of the library may fail an \<^verbatim>\<open>assert\<close>, dereference a null pointer, throw
  \<^verbatim>\<open>std::invalid_argument\<close> or \<^verbatim>\<open>std::logic_error\<close>, or index outside a container. Each is a
  value here. \<open>Inl\<close> carries the fault, \<open>Inr\<close> the outcome of a normal return.
\<close>

datatype fault =
    Assertion_Failed
  | Null_Dereference
  | Invalid_Argument
  | Logic_Error
  | Out_Of_Bounds

type_synonym 'a result = "fault + 'a"

type_synonym u8 = "8 word"
type_synonym u32 = "32 word"
type_synonym u64 = "64 word"

text \<open>
  A fiber is named by its creation number: the \<open>n\<close>-th fiber object constructed in the process
  is \<open>n\<close>. Its \<^verbatim>\<open>m_id\<close> is that number in the 64-bit counter \<^verbatim>\<open>s_fiber_id\<close>.
\<close>

type_synonym fid = nat

text \<open>
  The \<^verbatim>\<open>std::function<void()>\<close> values the runtime itself builds, one constructor per lambda
  or \<^verbatim>\<open>std::bind\<close> of the source, beside the user's own callbacks:
  \<^item> \<open>OnTimerCb c f\<close> is \<^verbatim>\<open>std::bind(&OnTimer, weak_cond, cb)\<close> of \<^verbatim>\<open>addConditionTimer\<close>;
  \<^item> \<open>WakeFiberCb f\<close> is the lambda of the sleep hooks that schedules the fiber \<open>f\<close>;
  \<^item> \<open>CancelEventCb w fd ev\<close> is the timeout lambda of \<^verbatim>\<open>do_io\<close> and \<^verbatim>\<open>connect_with_timeout\<close>
    over the weak reference \<open>w\<close> to its \<^verbatim>\<open>timer_info\<close>.
\<close>

datatype callback =
    UserCb nat
  | OnTimerCb nat callback
  | WakeFiberCb fid
  | CancelEventCb nat int u32

section \<open>Collections of facts\<close>

named_theorems queue_simps \<open>effect of an operation on the queue it works on\<close>
named_theorems frame_simps \<open>fields that an operation leaves alone\<close>
named_theorems inv_intros \<open>preservation of component invariants\<close>

section \<open>Erasing by position\<close>

text \<open>\<^verbatim>\<open>container.erase(it)\<close> for the iterator at position \<open>i\<close>.\<close>

definition erase_at :: "nat \<Rightarrow> 'a list \<Rightarrow> 'a list" where
  "erase_at i xs = take i xs @ drop (Suc i) xs"

lemma erase_at_split:
  "i < length xs \<Longrightarrow> xs = take i xs @ xs ! i # drop (Suc i) xs"
  by (rule id_take_nth_drop)

lemma mset_erase_at: "i < length xs \<Longrightarrow> mset xs = add_mset (xs ! i) (mset (erase_at i xs))"
  by (subst erase_at_split, assumption) (simp add: erase_at_def)

lemma set_erase_at_subset: "set (erase_at i xs) \<subseteq> set xs"
  by (auto simp: erase_at_def dest: in_set_takeD in_set_dropD)

lemma set_erase_at: "i < length xs \<Longrightarrow> set xs = insert (xs ! i) (set (erase_at i xs))"
  by (metis mset_erase_at set_mset_add_mset_insert set_mset_mset)

lemma length_erase_at: "i < length xs \<Longrightarrow> length (erase_at i xs) = length xs - 1"
  by (simp add: erase_at_def)

lemma sorted_wrt_erase_at: "sorted_wrt P xs \<Longrightarrow> sorted_wrt P (erase_at i xs)"
proof (cases "i < length xs")
  case True
  assume "sorted_wrt P xs"
  then have "sorted_wrt P (take i xs @ xs ! i # drop (Suc i) xs)"
    by (simp only: erase_at_split [OF True, symmetric])
  then show ?thesis by (simp add: erase_at_def sorted_wrt_append)
next
  case False
  assume "sorted_wrt P xs"
  with False show ?thesis by (simp add: erase_at_def)
qed

lemma distinct_erase_at:
  "distinct xs \<Longrightarrow> i < length xs \<Longrightarrow> distinct (erase_at i xs) \<and> xs ! i \<notin> set (erase_at i xs)"
  using mset_erase_at [of i xs]
  by (metis distinct.simps(2) mset.simps(2) mset_eq_imp_distinct_iff set_mset_mset)

lemma map_erase_at: "map f (erase_at i xs) = erase_at i (map f xs)"
  by (simp add: erase_at_def take_map drop_map)

section \<open>64-bit counters that have not wrapped\<close>

text \<open>
  The task sequence and the fiber id are unsigned 64-bit counters. Facts about their order
  hold as long as the counter has not reached its last value.
\<close>

lemma counter_less_Suc:
  assumes "(n :: u64) \<noteq> - 1"
  shows "n < n + 1"
proof -
  have "unat n \<noteq> unat (- 1 :: u64)" using assms unsigned_word_eqI by blast
  moreover have "unat n < 2 ^ 64" using unsigned_less [of n] by simp
  ultimately have "unat n < 2 ^ 64 - 1"
    by (simp add: unsigned_minus_1_eq_mask mask_eq_exp_minus_1)
  then show ?thesis by (simp add: word_less_nat_alt unat_word_ariths)
qed

lemma counter_le_imp_less_Suc:
  assumes "(n :: u64) \<noteq> - 1" and "m \<le> n"
  shows "m < n + 1"
  using counter_less_Suc [OF assms(1)] assms(2) by simp

lemma counter_Suc: "(n :: u64) \<noteq> - 1 \<Longrightarrow> unat (n + 1) = Suc (unat n)"
  using counter_less_Suc [of n] unsigned_less [of n]
  by (auto simp: word_less_nat_alt unat_word_ariths mod_Suc split: if_splits)

section \<open>Words read as natural numbers\<close>

lemma unat_less_iff: "unat (a :: 'a :: len word) < unat b \<longleftrightarrow> a < b"
  by (simp add: word_less_nat_alt)

lemma unat_le_iff_word: "unat (a :: 'a :: len word) \<le> unat b \<longleftrightarrow> a \<le> b"
  by (simp add: word_le_nat_alt)

lemma unat_eq_iff_word: "unat (a :: 'a :: len word) = unat b \<longleftrightarrow> a = b"
  using unsigned_word_eqI by blast

lemma unat_u8_bound: "unat (b :: u8) < 256"
  using unsigned_less [of b] by simp

lemma unat_ucast_u8_u64: "unat (ucast (b :: u8) :: u64) = unat b"
  by (simp add: unsigned_ucast_eq take_bit_nat_eq_self unat_u8_bound less_le_trans [OF unat_u8_bound])

lemma unat_ucast_u64_u8: "unat w < 256 \<Longrightarrow> unat (ucast (w :: u64) :: u8) = unat w"
  by (simp add: unsigned_ucast_eq take_bit_nat_eq_self)

section \<open>Refinement\<close>

text \<open>A sequence of operations, and whether each may be called where it is.\<close>

fun run_ops :: "('s \<Rightarrow> 'o \<Rightarrow> 's result) \<Rightarrow> 's \<Rightarrow> 'o list \<Rightarrow> 's result" where
  "run_ops step s [] = Inr s"
| "run_ops step s (x # xs) = (case step s x of Inl e \<Rightarrow> Inl e | Inr s1 \<Rightarrow> run_ops step s1 xs)"

fun ops_ok :: "('s \<Rightarrow> 'o \<Rightarrow> bool) \<Rightarrow> ('s \<Rightarrow> 'o \<Rightarrow> 's result) \<Rightarrow> 's \<Rightarrow> 'o list \<Rightarrow> bool" where
  "ops_ok allowed step s [] = True"
| "ops_ok allowed step s (x # xs) =
     (allowed s x \<and> (case step s x of Inl e \<Rightarrow> True | Inr s1 \<Rightarrow> ops_ok allowed step s1 xs))"

lemma ops_ok_mono:
  "ops_ok P step s xs \<Longrightarrow> (\<And>t x. P t x \<Longrightarrow> Q t x) \<Longrightarrow> ops_ok Q step s xs"
  by (induction xs arbitrary: s) (auto split: sum.splits)

lemma ops_ok_both:
  "ops_ok P step s xs \<Longrightarrow> (c \<longrightarrow> ops_ok Q step s xs) \<Longrightarrow> ops_ok (\<lambda>t x. P t x \<and> (c \<longrightarrow> Q t x)) step s xs"
  by (induction xs arbitrary: s) (auto split: sum.splits)

text \<open>
  A component implements a specification when every allowed operation in a good state succeeds,
  keeps the state good and does to the view of the state what the specification does.
\<close>

locale simulation =
  fixes good :: "'s \<Rightarrow> bool" and allowed :: "'s \<Rightarrow> 'o \<Rightarrow> bool" and step :: "'s \<Rightarrow> 'o \<Rightarrow> 's result"
    and spec :: "'o \<Rightarrow> 'a \<Rightarrow> 'a" and view :: "'s \<Rightarrow> 'a"
  assumes step_sim: "good s \<Longrightarrow> allowed s x \<Longrightarrow>
    \<exists>s1. step s x = Inr s1 \<and> good s1 \<and> view s1 = spec x (view s)"
begin

lemma run_sim:
  "good s \<Longrightarrow> ops_ok allowed step s xs \<Longrightarrow>
    \<exists>s1. run_ops step s xs = Inr s1 \<and> good s1 \<and> view s1 = fold spec xs (view s)"
proof (induction xs arbitrary: s)
  case (Cons x xs)
  from step_sim [OF Cons.prems(1)] Cons.prems(2)
  obtain s1 where "step s x = Inr s1" "good s1" "view s1 = spec x (view s)" by auto
  with Cons.IH [of s1] Cons.prems(2) show ?case by simp
qed simp

end

end
