(* ===== verification/Sched_Policy.thy ===== *)
theory Sched_Policy
  imports Co_Prelude
begin

text \<open>
  The task queue of \<^verbatim>\<open>Scheduler\<close> (include/mycoroutine/scheduler.h, src/scheduler.cpp): the
  tasks, the scheduling policies, \<^verbatim>\<open>scheduleEx\<close>, the configuration setters and
  \<^verbatim>\<open>pickNextTaskLocked\<close>. Each operation is one critical section under \<^verbatim>\<open>m_mutex\<close>, so each
  is one function of the scheduler's state. The abstract specification of the selection is
  \<open>policy_key\<close>: a policy picks the matching task with the least key.
\<close>

section \<open>Data\<close>

datatype SchedulePolicy = FIFO | PRIORITY | MLFQ | EDF | HYBRID

record ScheduleOptions =
  opt_thread :: int
  opt_priority :: int
  opt_deadline_ms :: u64

definition default_options :: ScheduleOptions where
  "default_options = \<lparr>opt_thread = -1, opt_priority = 0, opt_deadline_ms = 0\<rparr>"

record MLFQConfig =
  levels :: u8
  demote_on_yield :: bool
  enable_aging :: bool
  aging_sequence_gap :: u64

definition default_MLFQConfig :: MLFQConfig where
  "default_MLFQConfig =
     \<lparr>levels = 3, demote_on_yield = True, enable_aging = True, aging_sequence_gap = 64\<rparr>"

record ScheduleTask =
  task_fiber :: "fid option"
  task_cb :: "callback option"
  task_thread :: int
  task_priority :: int
  mlfq_level :: u8
  deadline_ms :: u64
  sequence :: u64

text \<open>
  The template parameter \<^verbatim>\<open>FiberOrCb\<close> of \<^verbatim>\<open>scheduleEx\<close>: a shared pointer to a fiber (or a
  pointer to one, which is emptied by the \<^verbatim>\<open>swap\<close> of the task's constructor) or a
  \<^verbatim>\<open>std::function\<close> (or a pointer to one); both may be null.
\<close>

datatype FiberOrCb = FiberPtr "fid option" | Callback "callback option"

fun ScheduleTask_ctor :: "FiberOrCb \<Rightarrow> int \<Rightarrow> ScheduleTask" where
  "ScheduleTask_ctor (FiberPtr f) thr =
     \<lparr>task_fiber = f, task_cb = None, task_thread = thr, task_priority = 0,
      mlfq_level = 0, deadline_ms = 0, sequence = 0\<rparr>"
| "ScheduleTask_ctor (Callback c) thr =
     \<lparr>task_fiber = None, task_cb = c, task_thread = thr, task_priority = 0,
      mlfq_level = 0, deadline_ms = 0, sequence = 0\<rparr>"

definition task_reset :: "ScheduleTask \<Rightarrow> ScheduleTask" where
  "task_reset t = t\<lparr>task_fiber := None, task_cb := None, task_thread := -1\<rparr>"

record Scheduler =
  m_tasks :: "ScheduleTask list"
  m_policy :: SchedulePolicy
  m_mlfqConfig :: MLFQConfig
  m_taskSequence :: u64
  m_activeThreadCount :: u64
  m_idleThreadCount :: u64
  m_stopping :: bool

definition init_Scheduler :: Scheduler where
  "init_Scheduler =
     \<lparr>m_tasks = [], m_policy = FIFO, m_mlfqConfig = default_MLFQConfig, m_taskSequence = 0,
      m_activeThreadCount = 0, m_idleThreadCount = 0, m_stopping = False\<rparr>"

section \<open>Configuration\<close>

definition NormalizeMLFQConfig :: "MLFQConfig \<Rightarrow> MLFQConfig" where
  "NormalizeMLFQConfig config =
     (let normalized = config;
          normalized = (if levels normalized = 0 then normalized\<lparr>levels := 1\<rparr> else normalized);
          normalized = (if aging_sequence_gap normalized = 0
                        then normalized\<lparr>aging_sequence_gap := 1\<rparr> else normalized)
      in normalized)"

definition setPolicy :: "Scheduler \<Rightarrow> SchedulePolicy \<Rightarrow> Scheduler" where
  "setPolicy s policy = s\<lparr>m_policy := policy\<rparr>"

definition setMLFQConfig :: "Scheduler \<Rightarrow> MLFQConfig \<Rightarrow> Scheduler" where
  "setMLFQConfig s config = s\<lparr>m_mlfqConfig := NormalizeMLFQConfig config\<rparr>"

definition hasIdleThreads :: "Scheduler \<Rightarrow> bool" where
  "hasIdleThreads s \<longleftrightarrow> m_idleThreadCount s > 0"

section \<open>Enqueueing\<close>

text \<open>
  The critical section of \<^verbatim>\<open>scheduleEx\<close>. The second component says whether \<^verbatim>\<open>tickle()\<close> is
  called after the lock is released: when the queue was empty on entry, even for a null task.
\<close>

definition scheduleEx :: "Scheduler \<Rightarrow> FiberOrCb \<Rightarrow> ScheduleOptions \<Rightarrow> Scheduler \<times> bool" where
  "scheduleEx s fc options =
     (let need_tickle = (m_tasks s = []);
          task = ScheduleTask_ctor fc (opt_thread options)
      in if task_fiber task \<noteq> None \<or> task_cb task \<noteq> None
         then let task = task\<lparr>task_priority := opt_priority options, mlfq_level := 0,
                              deadline_ms := opt_deadline_ms options,
                              sequence := m_taskSequence s\<rparr>
              in (s\<lparr>m_taskSequence := m_taskSequence s + 1, m_tasks := m_tasks s @ [task]\<rparr>,
                  need_tickle)
         else (s, need_tickle))"

definition scheduleLock :: "Scheduler \<Rightarrow> FiberOrCb \<Rightarrow> int \<Rightarrow> Scheduler \<times> bool" where
  "scheduleLock s fc thread = scheduleEx s fc (default_options\<lparr>opt_thread := thread\<rparr>)"

text \<open>
  \<^verbatim>\<open>SchedulerRef::schedule\<close>: the weak handle the synchronisation primitives keep. The
  reference holds the scheduler until \<^verbatim>\<open>invalidate()\<close>.
\<close>

definition SchedulerRef_schedule ::
    "Scheduler option \<Rightarrow> fid option \<Rightarrow> int \<Rightarrow> Scheduler option \<times> bool" where
  "SchedulerRef_schedule r fiber thread =
     (case fiber of None \<Rightarrow> (r, False)
      | Some f \<Rightarrow>
        (case r of None \<Rightarrow> (None, False)
         | Some s \<Rightarrow> (let (s', tick) = scheduleLock s (FiberPtr (Some f)) thread
                      in (Some s', tick))))"

definition SchedulerRef_invalidate :: "Scheduler option \<Rightarrow> Scheduler option" where
  "SchedulerRef_invalidate r = None"

section \<open>Comparison lambdas of pickNextTaskLocked\<close>

definition match_thread :: "int \<Rightarrow> ScheduleTask \<Rightarrow> bool" where
  "match_thread thread_id task \<longleftrightarrow> task_thread task = -1 \<or> task_thread task = thread_id"

definition better_priority :: "ScheduleTask \<Rightarrow> ScheduleTask \<Rightarrow> bool" where
  "better_priority lhs rhs =
     (if task_priority lhs \<noteq> task_priority rhs then task_priority lhs > task_priority rhs
      else sequence lhs < sequence rhs)"

definition effective_mlfq_level :: "Scheduler \<Rightarrow> ScheduleTask \<Rightarrow> u8" where
  "effective_mlfq_level s task =
     (let max_level = levels (m_mlfqConfig s) - 1;
          base_level = (if mlfq_level task > max_level then max_level else mlfq_level task)
      in if \<not> enable_aging (m_mlfqConfig s) \<or> base_level = 0 \<or> sequence task \<ge> m_taskSequence s
         then base_level
         else let wait_gap = m_taskSequence s - sequence task;
                  promote = wait_gap div aging_sequence_gap (m_mlfqConfig s)
              in if promote \<ge> ucast base_level then 0
                 else ucast (ucast base_level - promote))"

definition better_mlfq :: "Scheduler \<Rightarrow> ScheduleTask \<Rightarrow> ScheduleTask \<Rightarrow> bool" where
  "better_mlfq s lhs rhs =
     (let lhs_level = effective_mlfq_level s lhs; rhs_level = effective_mlfq_level s rhs
      in if lhs_level \<noteq> rhs_level then lhs_level < rhs_level else sequence lhs < sequence rhs)"

definition better_edf :: "ScheduleTask \<Rightarrow> ScheduleTask \<Rightarrow> bool" where
  "better_edf lhs rhs =
     (let lhs_has_deadline = deadline_ms lhs > 0; rhs_has_deadline = deadline_ms rhs > 0
      in if lhs_has_deadline \<noteq> rhs_has_deadline then lhs_has_deadline
         else if lhs_has_deadline \<and> rhs_has_deadline \<and> deadline_ms lhs \<noteq> deadline_ms rhs
         then deadline_ms lhs < deadline_ms rhs
         else sequence lhs < sequence rhs)"

definition better_hybrid :: "ScheduleTask \<Rightarrow> ScheduleTask \<Rightarrow> bool" where
  "better_hybrid lhs rhs =
     (let lhs_has_deadline = deadline_ms lhs > 0; rhs_has_deadline = deadline_ms rhs > 0
      in if lhs_has_deadline \<noteq> rhs_has_deadline then lhs_has_deadline
         else if lhs_has_deadline \<and> rhs_has_deadline
         then (if deadline_ms lhs \<noteq> deadline_ms rhs then deadline_ms lhs < deadline_ms rhs
               else better_priority lhs rhs)
         else better_priority lhs rhs)"

definition better :: "Scheduler \<Rightarrow> ScheduleTask \<Rightarrow> ScheduleTask \<Rightarrow> bool" where
  "better s it best =
     (case m_policy s of
        FIFO \<Rightarrow> False
      | PRIORITY \<Rightarrow> better_priority it best
      | MLFQ \<Rightarrow> better_mlfq s it best
      | EDF \<Rightarrow> better_edf it best
      | HYBRID \<Rightarrow> better_hybrid it best)"

section \<open>The scans and the selection\<close>

text \<open>
  The two loops over \<^verbatim>\<open>m_tasks\<close>. \<open>i\<close> is the position of the iterator; the results are the
  position found (\<open>None\<close> is \<^verbatim>\<open>m_tasks.end()\<close>) and \<^verbatim>\<open>tickle_me\<close>.
\<close>

fun fifo_scan :: "('t \<Rightarrow> bool) \<Rightarrow> 't list \<Rightarrow> nat \<Rightarrow> bool \<Rightarrow> nat option \<times> bool" where
  "fifo_scan matches [] i tickle_me = (None, tickle_me)"
| "fifo_scan matches (it # its) i tickle_me =
     (if matches it then (Some i, tickle_me) else fifo_scan matches its (Suc i) True)"

fun best_scan ::
    "('t \<Rightarrow> 't \<Rightarrow> bool) \<Rightarrow> ('t \<Rightarrow> bool) \<Rightarrow> 't list \<Rightarrow> nat \<Rightarrow> (nat \<times> 't) option \<Rightarrow> bool
     \<Rightarrow> (nat \<times> 't) option \<times> bool" where
  "best_scan btr matches [] i best_it tickle_me = (best_it, tickle_me)"
| "best_scan btr matches (it # its) i best_it tickle_me =
     (if \<not> matches it then best_scan btr matches its (Suc i) best_it True
      else case best_it of
             None \<Rightarrow> best_scan btr matches its (Suc i) (Some (i, it)) tickle_me
           | Some (j, best) \<Rightarrow>
               best_scan btr matches its (Suc i)
                 (if btr it best then Some (i, it) else best_it) tickle_me)"

text \<open>The state, the task moved out (\<open>None\<close> where the C++ returns false), \<^verbatim>\<open>tickle_me\<close>.\<close>

definition take_task ::
    "Scheduler \<Rightarrow> nat option \<Rightarrow> bool \<Rightarrow> Scheduler \<times> ScheduleTask option \<times> bool" where
  "take_task s it tickle_me =
     (case it of
        None \<Rightarrow> (s, None, tickle_me)
      | Some i \<Rightarrow>
          let out_task = m_tasks s ! i; rest = erase_at i (m_tasks s)
          in (s\<lparr>m_tasks := rest\<rparr>, Some out_task, if rest \<noteq> [] then True else tickle_me))"

definition pickNextTaskLocked ::
    "Scheduler \<Rightarrow> int \<Rightarrow> Scheduler \<times> ScheduleTask option \<times> bool" where
  "pickNextTaskLocked s thread_id =
     (if m_tasks s = [] then (s, None, False)
      else if m_policy s = FIFO
      then let (it, tickle_me) = fifo_scan (match_thread thread_id) (m_tasks s) 0 False
           in take_task s it tickle_me
      else let (best_it, tickle_me) =
                 best_scan (better s) (match_thread thread_id) (m_tasks s) 0 None False
           in take_task s (map_option fst best_it) tickle_me)"

text \<open>
  The second critical section of the worker loop: a fiber that comes back \<^verbatim>\<open>READY\<close> under
  \<^verbatim>\<open>MLFQ\<close> is demoted and put back with a fresh sequence number. \<open>ready\<close> is the test
  \<^verbatim>\<open>task.fiber->getState() == Fiber::READY\<close>; the second component is \<^verbatim>\<open>mlfq_requeue\<close>.
\<close>

definition mlfq_requeue :: "Scheduler \<Rightarrow> ScheduleTask \<Rightarrow> bool \<Rightarrow> Scheduler \<times> bool" where
  "mlfq_requeue s task ready =
     (if m_policy s = MLFQ \<and> task_fiber task \<noteq> None \<and> ready
      then let max_level = levels (m_mlfqConfig s) - 1;
               task = (if demote_on_yield (m_mlfqConfig s) \<and> mlfq_level task < max_level
                       then task\<lparr>mlfq_level := mlfq_level task + 1\<rparr> else task);
               task = task\<lparr>sequence := m_taskSequence s\<rparr>
           in (s\<lparr>m_taskSequence := m_taskSequence s + 1, m_tasks := m_tasks s @ [task]\<rparr>, True)
      else (s, False))"

text \<open>\<^verbatim>\<open>Scheduler::stopping\<close>, the base class's.\<close>

definition stopping :: "Scheduler \<Rightarrow> bool" where
  "stopping s \<longleftrightarrow> m_stopping s \<and> m_tasks s = [] \<and> m_activeThreadCount s = 0"

section \<open>The scan contract\<close>

text \<open>
  What the selection loop needs from a comparison lambda: it is a strict partial order, so
  the loop's candidate is minimal among the matching tasks seen so far.
\<close>

locale task_order =
  fixes btr :: "'t \<Rightarrow> 't \<Rightarrow> bool"
  assumes irrefl: "\<not> btr a a"
    and trans: "btr a b \<Longrightarrow> btr b c \<Longrightarrow> btr a c"
begin

lemma best_scan_keeps:
  assumes "best_scan btr matches ts i (Some (j, b)) tk = (r, tk')"
  shows "\<exists>k c. r = Some (k, c) \<and> (c = b \<or> btr c b) \<and>
    ((k, c) = (j, b) \<or> (k, c) \<in> set (enumerate i ts) \<and> matches c) \<and>
    (\<forall>u \<in> set ts. matches u \<longrightarrow> \<not> btr u c)"
  using assms
proof (induction ts arbitrary: i j b tk)
  case Nil
  then show ?case by auto
next
  case (Cons t ts)
  show ?case
  proof (cases "matches t")
    case False
    with Cons.prems have "best_scan btr matches ts (Suc i) (Some (j, b)) True = (r, tk')"
      by simp
    from Cons.IH [OF this] False show ?thesis by auto
  next
    case True
    define b' where "b' = (if btr t b then (i, t) else (j, b))"
    with True Cons.prems have
      "best_scan btr matches ts (Suc i) (Some (fst b', snd b')) tk = (r, tk')"
      by (simp split: if_splits)
    from Cons.IH [OF this] obtain k c where kc: "r = Some (k, c)"
      "c = snd b' \<or> btr c (snd b')"
      "(k, c) = b' \<or> (k, c) \<in> set (enumerate (Suc i) ts) \<and> matches c"
      "\<forall>u \<in> set ts. matches u \<longrightarrow> \<not> btr u c" by auto
    have "c = b \<or> btr c b" and "\<not> btr t c"
      using kc(2) irrefl trans by (auto simp: b'_def split: if_splits)
    with kc True show ?thesis by (auto simp: b'_def split: if_splits)
  qed
qed

lemma best_scan_from_None:
  assumes "best_scan btr matches ts i None tk = (r, tk')"
  shows "(r = None \<and> (\<forall>u \<in> set ts. \<not> matches u)) \<or>
    (\<exists>k c. r = Some (k, c) \<and> (k, c) \<in> set (enumerate i ts) \<and> matches c \<and>
      (\<forall>u \<in> set ts. matches u \<longrightarrow> \<not> btr u c))"
  using assms
proof (induction ts arbitrary: i tk)
  case Nil
  then show ?case by simp
next
  case (Cons t ts)
  show ?case
  proof (cases "matches t")
    case False
    with Cons.prems have "best_scan btr matches ts (Suc i) None True = (r, tk')" by simp
    from Cons.IH [OF this] False show ?thesis by auto
  next
    case True
    with Cons.prems have "best_scan btr matches ts (Suc i) (Some (i, t)) tk = (r, tk')" by simp
    from best_scan_keeps [OF this] obtain k c where "r = Some (k, c)" "c = t \<or> btr c t"
      "(k, c) = (i, t) \<or> (k, c) \<in> set (enumerate (Suc i) ts) \<and> matches c"
      "\<forall>u \<in> set ts. matches u \<longrightarrow> \<not> btr u c" by blast
    moreover have "\<not> btr t c" using \<open>c = t \<or> btr c t\<close> irrefl trans by blast
    ultimately show ?thesis using True by auto
  qed
qed

lemma best_scan_minimal:
  assumes "best_scan btr matches ts 0 None tk = (Some (k, c), tk')"
  shows "k < length ts" and "ts ! k = c" and "matches c"
    and "\<And>u. u \<in> set ts \<Longrightarrow> matches u \<Longrightarrow> \<not> btr u c"
  using best_scan_from_None [OF assms] by (auto simp: in_set_enumerate_eq)

end

text \<open>With a total order on tasks of different sequence numbers, the choice is unique.\<close>

locale task_total_order = task_order btr for btr :: "'t \<Rightarrow> 't \<Rightarrow> bool" +
  fixes seq :: "'t \<Rightarrow> 'n"
  assumes total: "seq a \<noteq> seq b \<Longrightarrow> btr a b \<or> btr b a"
begin

lemma best_scan_least:
  assumes scan: "best_scan btr matches ts 0 None tk = (Some (k, c), tk')"
    and uniq: "\<And>a b. a \<in> set ts \<Longrightarrow> b \<in> set ts \<Longrightarrow> seq a = seq b \<Longrightarrow> a = b"
    and u: "u \<in> set ts" "matches u" "u \<noteq> c"
  shows "btr c u"
proof -
  note m = best_scan_minimal [OF scan]
  have "c \<in> set ts" using m(1,2) by auto
  with uniq u(1,3) have "seq c \<noteq> seq u" by blast
  with total have "btr c u \<or> btr u c" by blast
  with m(4) u(1,2) show ?thesis by blast
qed

end

section \<open>The comparison lambdas are orders\<close>

lemmas better_defs = better_priority_def better_edf_def better_hybrid_def better_mlfq_def Let_def

interpretation prio_order: task_total_order better_priority sequence
  by unfold_locales (auto simp: better_defs split: if_splits)

interpretation edf_order: task_total_order better_edf sequence
  by unfold_locales (auto simp: better_defs split: if_splits)

interpretation hybrid_order: task_total_order better_hybrid sequence
  by unfold_locales (auto simp: better_defs split: if_splits)

interpretation mlfq_order: task_total_order "better_mlfq s" sequence for s
  by unfold_locales (auto simp: better_defs split: if_splits)

lemma better_irrefl: "\<not> better s a a"
  by (cases "m_policy s")
    (simp_all add: better_def prio_order.irrefl edf_order.irrefl hybrid_order.irrefl
      mlfq_order.irrefl)

lemma better_trans: "better s a b \<Longrightarrow> better s b c \<Longrightarrow> better s a c"
  by (cases "m_policy s")
    (auto simp: better_def intro: prio_order.trans edf_order.trans hybrid_order.trans
      mlfq_order.trans)

interpretation policy_order: task_order "better s" for s
  by unfold_locales (fact better_irrefl better_trans)+

lemma better_total:
  "m_policy s \<noteq> FIFO \<Longrightarrow> sequence a \<noteq> sequence b \<Longrightarrow> better s a b \<or> better s b a"
  by (cases "m_policy s")
    (auto simp: better_def dest: prio_order.total edf_order.total hybrid_order.total
      mlfq_order.total)

section \<open>Abstract specification: the least key\<close>

text \<open>
  One lexicographic key for the five policies: the level or "no deadline" class, the
  deadline, the negated priority, the sequence number. \<open>FIFO\<close> is the order of arrival.
\<close>

definition policy_key :: "Scheduler \<Rightarrow> ScheduleTask \<Rightarrow> nat \<times> nat \<times> int \<times> nat" where
  "policy_key s t =
     (case m_policy s of
        FIFO \<Rightarrow> (0, 0, 0, unat (sequence t))
      | PRIORITY \<Rightarrow> (0, 0, - task_priority t, unat (sequence t))
      | MLFQ \<Rightarrow> (unat (effective_mlfq_level s t), 0, 0, unat (sequence t))
      | EDF \<Rightarrow> (if deadline_ms t > 0 then 0 else 1, unat (deadline_ms t), 0, unat (sequence t))
      | HYBRID \<Rightarrow> (if deadline_ms t > 0 then 0 else 1, unat (deadline_ms t),
                   - task_priority t, unat (sequence t)))"

lemma better_iff_key:
  "m_policy s \<noteq> FIFO \<Longrightarrow> better s a b \<longleftrightarrow> policy_key s a < policy_key s b"
  by (cases "m_policy s")
    (auto simp: better_def better_defs policy_key_def unat_less_iff unat_le_iff_word
      unat_eq_iff_word word_gt_0 order.strict_iff_order split: if_splits)

section \<open>The queue invariant\<close>

text \<open>
  Tasks stand in the queue in the order of their sequence numbers, all of them issued
  already; the MLFQ configuration is normalised; no null task is queued.
\<close>

definition config_ok :: "MLFQConfig \<Rightarrow> bool" where
  "config_ok c \<longleftrightarrow> levels c \<noteq> 0 \<and> aging_sequence_gap c \<noteq> 0"

definition has_work :: "ScheduleTask \<Rightarrow> bool" where
  "has_work t \<longleftrightarrow> task_fiber t \<noteq> None \<or> task_cb t \<noteq> None"

definition queue_ok :: "Scheduler \<Rightarrow> bool" where
  "queue_ok s \<longleftrightarrow>
     sorted_wrt (\<lambda>a b. sequence a < sequence b) (m_tasks s) \<and>
     (\<forall>t \<in> set (m_tasks s). sequence t < m_taskSequence s \<and> has_work t) \<and>
     config_ok (m_mlfqConfig s)"

lemma queue_ok_init: "queue_ok init_Scheduler"
  by (simp add: queue_ok_def init_Scheduler_def config_ok_def default_MLFQConfig_def)

lemma queue_ok_inj:
  assumes "queue_ok s" and "a \<in> set (m_tasks s)" "b \<in> set (m_tasks s)"
    and "sequence a = sequence b"
  shows "a = b"
proof -
  obtain i j where ij: "i < length (m_tasks s)" "j < length (m_tasks s)"
    "a = m_tasks s ! i" "b = m_tasks s ! j"
    using assms(2,3) by (metis in_set_conv_nth)
  have "\<not> i < j" "\<not> j < i"
    using assms(1,4) ij by (fastforce simp: queue_ok_def sorted_wrt_iff_nth_less)+
  with ij show ?thesis by simp
qed

lemma NormalizeMLFQConfig_ok: "config_ok (NormalizeMLFQConfig c)"
  by (simp add: NormalizeMLFQConfig_def config_ok_def Let_def)

lemma queue_ok_append:
  assumes ok: "queue_ok s" and t: "sequence t = m_taskSequence s" "has_work t"
    and nowrap: "m_taskSequence s \<noteq> - 1"
  shows "queue_ok (s\<lparr>m_taskSequence := m_taskSequence s + 1, m_tasks := m_tasks s @ [t]\<rparr>)"
proof -
  have "\<forall>u \<in> set (m_tasks s). sequence u < m_taskSequence s + 1"
    using ok counter_less_Suc [OF nowrap] by (auto simp: queue_ok_def)
  with ok t counter_less_Suc [OF nowrap] show ?thesis
    by (auto simp: queue_ok_def sorted_wrt_append)
qed

lemma queue_ok_scheduleEx [inv_intros]:
  "queue_ok s \<Longrightarrow> m_taskSequence s \<noteq> - 1 \<Longrightarrow> queue_ok (fst (scheduleEx s fc options))"
  by (auto simp: scheduleEx_def Let_def has_work_def intro!: queue_ok_append)

lemma queue_ok_requeue [inv_intros]:
  "queue_ok s \<Longrightarrow> m_taskSequence s \<noteq> - 1 \<Longrightarrow> queue_ok (fst (mlfq_requeue s task ready))"
  by (auto simp: mlfq_requeue_def Let_def has_work_def intro!: queue_ok_append)

lemma queue_ok_setPolicy [inv_intros]: "queue_ok s \<Longrightarrow> queue_ok (setPolicy s p)"
  by (simp add: queue_ok_def setPolicy_def)

lemma queue_ok_setMLFQConfig [inv_intros]: "queue_ok s \<Longrightarrow> queue_ok (setMLFQConfig s c)"
  by (simp add: queue_ok_def setMLFQConfig_def NormalizeMLFQConfig_ok)

lemma queue_ok_erase: "queue_ok s \<Longrightarrow> queue_ok (s\<lparr>m_tasks := erase_at i (m_tasks s)\<rparr>)"
  using set_erase_at_subset [of i "m_tasks s"]
  by (auto simp: queue_ok_def intro: sorted_wrt_erase_at)

section \<open>What a pick does\<close>

lemma fifo_scan_result:
  "fifo_scan matches ts i tk = (r, tk') \<Longrightarrow>
     (r = None \<and> (\<forall>u \<in> set ts. \<not> matches u) \<and> tk' = (tk \<or> ts \<noteq> [])) \<or>
     (\<exists>k < length ts. r = Some (i + k) \<and> matches (ts ! k) \<and> (\<forall>j < k. \<not> matches (ts ! j)) \<and>
        tk' = (tk \<or> k \<noteq> 0))"
proof (induction ts arbitrary: i tk)
  case Nil
  then show ?case by simp
next
  case (Cons t ts)
  show ?case
  proof (cases "matches t")
    case True
    with Cons.prems show ?thesis by auto
  next
    case False
    with Cons.prems have "fifo_scan matches ts (Suc i) True = (r, tk')" by simp
    from Cons.IH [OF this] show ?thesis
    proof (elim disjE exE conjE)
      fix k assume k: "k < length ts" "r = Some (Suc i + k)" "matches (ts ! k)"
        "\<forall>j < k. \<not> matches (ts ! j)" "tk' = (True \<or> k \<noteq> 0)"
      with False have "\<forall>j < Suc k. \<not> matches ((t # ts) ! j)" by (auto simp: less_Suc_eq_0_disj)
      with k show ?thesis by (intro disjI2 exI [of _ "Suc k"]) simp
    qed (use False in simp)
  qed
qed

lemma best_scan_tickle:
  "snd (best_scan btr matches ts i best tk) = (tk \<or> (\<exists>u \<in> set ts. \<not> matches u))"
  by (induction btr matches ts i best tk rule: best_scan.induct)
    (auto split: option.splits prod.splits)

lemma take_task_tickle:
  "take_task s (Some i) tk = (s', r, tk') \<Longrightarrow>
     r = Some (m_tasks s ! i) \<and> s' = s\<lparr>m_tasks := erase_at i (m_tasks s)\<rparr> \<and>
     tk' = (erase_at i (m_tasks s) \<noteq> [] \<or> tk)"
  by (simp add: take_task_def Let_def) (metis)

text \<open>One case distinction for every policy: the rest of the component proofs uses only this.\<close>

lemma erase_keeps:
  "i < length ts \<Longrightarrow> u \<in> set ts \<Longrightarrow> u \<noteq> ts ! i \<Longrightarrow> erase_at i ts \<noteq> []"
  using set_erase_at [of i ts] by auto

lemma pick_result:
  assumes "pickNextTaskLocked s tid = (s', r, tk)"
  obtains (none) "r = None" "s' = s" "\<And>u. u \<in> set (m_tasks s) \<Longrightarrow> \<not> match_thread tid u"
      "tk \<longleftrightarrow> m_tasks s' \<noteq> []"
  | (some) i where "i < length (m_tasks s)" "r = Some (m_tasks s ! i)"
      "s' = s\<lparr>m_tasks := erase_at i (m_tasks s)\<rparr>" "match_thread tid (m_tasks s ! i)"
      "\<And>j. m_policy s = FIFO \<Longrightarrow> j < i \<Longrightarrow> \<not> match_thread tid (m_tasks s ! j)"
      "\<And>u. m_policy s \<noteq> FIFO \<Longrightarrow> u \<in> set (m_tasks s) \<Longrightarrow> match_thread tid u \<Longrightarrow>
         \<not> better s u (m_tasks s ! i)"
      "tk \<longleftrightarrow> m_tasks s' \<noteq> []"
proof -
  let ?m = "match_thread tid" and ?ts = "m_tasks s"
  consider (empty) "?ts = []" | (fifo) "?ts \<noteq> []" "m_policy s = FIFO"
    | (best) "?ts \<noteq> []" "m_policy s \<noteq> FIFO" by blast
  then show ?thesis
  proof cases
    case empty
    with assms show ?thesis by (intro none) (auto simp: pickNextTaskLocked_def)
  next
    case fifo
    obtain it tk0 where scan: "fifo_scan ?m ?ts 0 False = (it, tk0)" by fastforce
    with assms fifo have t: "take_task s it tk0 = (s', r, tk)"
      by (simp add: pickNextTaskLocked_def)
    from fifo_scan_result [OF scan] show ?thesis
    proof (elim disjE exE conjE)
      assume "it = None" "\<forall>u \<in> set ?ts. \<not> ?m u" "tk0 = (False \<or> ?ts \<noteq> [])"
      with t show ?thesis by (intro none) (auto simp: take_task_def)
    next
      fix k assume k: "k < length ?ts" "it = Some (0 + k)" "?m (?ts ! k)"
        "\<forall>j < k. \<not> ?m (?ts ! j)" "tk0 = (False \<or> k \<noteq> 0)"
      then have "k \<noteq> 0 \<Longrightarrow> erase_at k ?ts \<noteq> []" by (auto simp: erase_at_def)
      with k fifo take_task_tickle [OF t [unfolded k(2)]] show ?thesis
        by (intro some [of k]) auto
    qed
  next
    case best
    obtain b tk0 where scan: "best_scan (better s) ?m ?ts 0 None False = (b, tk0)" by fastforce
    with assms best have t: "take_task s (map_option fst b) tk0 = (s', r, tk)"
      by (simp add: pickNextTaskLocked_def)
    have tk0: "tk0 \<longleftrightarrow> (\<exists>u \<in> set ?ts. \<not> ?m u)"
      using best_scan_tickle [of "better s" ?m ?ts 0 None False] by (simp add: scan)
    show ?thesis
    proof (cases b)
      case None
      with policy_order.best_scan_from_None [OF scan] have "\<forall>u \<in> set ?ts. \<not> ?m u" by auto
      with None t tk0 best show ?thesis
        by (intro none) (auto simp: take_task_def dest: hd_in_set)
    next
      case (Some p)
      obtain k c where p: "p = (k, c)" by fastforce
      note m = policy_order.best_scan_minimal [OF scan [unfolded Some p]]
      have "tk0 \<Longrightarrow> erase_at k ?ts \<noteq> []"
        using tk0 m(1-3) erase_keeps [of k ?ts] by auto
      with m best take_task_tickle [of s k tk0 s' r tk] t Some p show ?thesis
        by (intro some [of k]) auto
    qed
  qed
qed

lemma pick_state:
  assumes "pickNextTaskLocked s tid = (s', r, tk)"
  shows "queue_ok s \<Longrightarrow> queue_ok s'"
    and "m_policy s' = m_policy s" and "m_mlfqConfig s' = m_mlfqConfig s"
    and "m_taskSequence s' = m_taskSequence s" and "m_stopping s' = m_stopping s"
    and "m_activeThreadCount s' = m_activeThreadCount s"
  using assms by (cases rule: pick_result; auto intro: queue_ok_erase)+

section \<open>Runs of the queue\<close>

text \<open>
  The operations on the queue, each one critical section under \<^verbatim>\<open>m_mutex\<close>, and a run of
  them with the tasks it handed out. \<open>matching_picks\<close> counts the picks by threads that may run \<open>t\<close>.
\<close>

datatype queue_op =
    OpSchedule FiberOrCb ScheduleOptions
  | OpRequeue ScheduleTask bool
  | OpPick int
  | OpSetPolicy SchedulePolicy
  | OpSetMLFQConfig MLFQConfig

fun queue_step :: "Scheduler \<Rightarrow> queue_op \<Rightarrow> Scheduler \<times> ScheduleTask list" where
  "queue_step s (OpSchedule fc opts) = (fst (scheduleEx s fc opts), [])"
| "queue_step s (OpRequeue t ready) = (fst (mlfq_requeue s t ready), [])"
| "queue_step s (OpPick tid) =
     (case pickNextTaskLocked s tid of (s', r, _) \<Rightarrow>
        (s', case r of None \<Rightarrow> [] | Some t \<Rightarrow> [t]))"
| "queue_step s (OpSetPolicy p) = (setPolicy s p, [])"
| "queue_step s (OpSetMLFQConfig c) = (setMLFQConfig s c, [])"

fun reconfigures :: "queue_op \<Rightarrow> bool" where
  "reconfigures (OpSetPolicy p) = True"
| "reconfigures (OpSetMLFQConfig c) = True"
| "reconfigures _ = False"

fun queue_run :: "Scheduler \<Rightarrow> queue_op list \<Rightarrow> Scheduler \<times> ScheduleTask list" where
  "queue_run s [] = (s, [])"
| "queue_run s (x # xs) =
     (case queue_step s x of (s1, ts1) \<Rightarrow>
       (case queue_run s1 xs of (s2, ts2) \<Rightarrow> (s2, ts1 @ ts2)))"

fun matching_picks :: "ScheduleTask \<Rightarrow> queue_op list \<Rightarrow> nat" where
  "matching_picks t [] = 0"
| "matching_picks t (OpPick tid # xs) =
     (if match_thread tid t then 1 else 0) + matching_picks t xs"
| "matching_picks t (x # xs) = matching_picks t xs"

definition older :: "Scheduler \<Rightarrow> ScheduleTask \<Rightarrow> ScheduleTask list" where
  "older s t = filter (\<lambda>u. sequence u < sequence t) (m_tasks s)"

lemma scheduleEx_shape:
  "fst (scheduleEx s fc opts) = s \<or>
   (\<exists>t. fst (scheduleEx s fc opts) =
      s\<lparr>m_taskSequence := m_taskSequence s + 1, m_tasks := m_tasks s @ [t]\<rparr> \<and>
      sequence t = m_taskSequence s \<and> has_work t)"
  by (auto simp: scheduleEx_def Let_def has_work_def)

lemma requeue_shape:
  "fst (mlfq_requeue s u ready) = s \<or>
   (\<exists>t. fst (mlfq_requeue s u ready) =
      s\<lparr>m_taskSequence := m_taskSequence s + 1, m_tasks := m_tasks s @ [t]\<rparr> \<and>
      sequence t = m_taskSequence s \<and> has_work t)"
  by (auto simp: mlfq_requeue_def Let_def has_work_def)

section \<open>Aging\<close>

definition base_mlfq_level :: "Scheduler \<Rightarrow> ScheduleTask \<Rightarrow> nat" where
  "base_mlfq_level s t = min (unat (mlfq_level t)) (unat (levels (m_mlfqConfig s) - 1))"

text \<open>The level with the 64-bit and 8-bit arithmetic of the lambda read as numbers.\<close>

lemma effective_mlfq_level_nat:
  "unat (effective_mlfq_level s t) =
     (if enable_aging (m_mlfqConfig s) \<and> sequence t < m_taskSequence s
      then base_mlfq_level s t -
        (unat (m_taskSequence s) - unat (sequence t)) div unat (aging_sequence_gap (m_mlfqConfig s))
      else base_mlfq_level s t)"
proof -
  define base where "base = (if mlfq_level t > levels (m_mlfqConfig s) - 1
    then levels (m_mlfqConfig s) - 1 else mlfq_level t)"
  define promote where "promote =
    (m_taskSequence s - sequence t) div aging_sequence_gap (m_mlfqConfig s)"
  have base: "unat base = base_mlfq_level s t"
    by (auto simp: base_def base_mlfq_level_def min_def not_less word_le_nat_alt
        word_less_nat_alt)
  have eff: "effective_mlfq_level s t =
    (if \<not> enable_aging (m_mlfqConfig s) \<or> base = 0 \<or> sequence t \<ge> m_taskSequence s then base
     else if promote \<ge> ucast base then 0 else ucast (ucast base - promote))"
    by (simp add: effective_mlfq_level_def Let_def base_def promote_def)
  show ?thesis
  proof (cases "\<not> enable_aging (m_mlfqConfig s) \<or> base = 0 \<or> sequence t \<ge> m_taskSequence s")
    case True
    then show ?thesis using base by (auto simp: eff not_less not_le)
  next
    case False
    then have p: "unat promote = (unat (m_taskSequence s) - unat (sequence t)) div
      unat (aging_sequence_gap (m_mlfqConfig s))"
      by (simp add: promote_def unat_div unat_sub not_le less_imp_le)
    show ?thesis
    proof (cases "promote \<ge> ucast base")
      case True
      then have "unat base \<le> unat promote" by (simp add: word_le_nat_alt unat_ucast_u8_u64)
      with True False base p show ?thesis by (auto simp: eff not_le)
    next
      case le: False
      then have "unat (ucast base - promote) = unat base - unat promote"
        by (simp add: unat_sub less_imp_le unat_ucast_u8_u64)
      then have "unat (ucast (ucast base - promote) :: u8) = unat base - unat promote"
        using unat_u8_bound [of base] by (simp add: unat_ucast_u64_u8)
      with le False base p show ?thesis by (auto simp: eff not_le)
    qed
  qed
qed

text \<open>A task at effective level 0 stays there while the sequence counter advances.\<close>

lemma effective_zero_mono:
  assumes "effective_mlfq_level s t = 0" and le: "m_taskSequence s \<le> m_taskSequence s'"
    and c: "m_mlfqConfig s' = m_mlfqConfig s" and lt: "sequence t < m_taskSequence s"
  shows "effective_mlfq_level s' t = 0"
proof -
  have z: "unat (effective_mlfq_level s t) = 0" using assms(1) by simp
  have "(unat (m_taskSequence s) - unat (sequence t)) div unat (aging_sequence_gap (m_mlfqConfig s))
    \<le> (unat (m_taskSequence s') - unat (sequence t)) div unat (aging_sequence_gap (m_mlfqConfig s))"
    using le by (intro div_le_mono) (simp add: word_le_nat_alt)
  with z c lt le have "unat (effective_mlfq_level s' t) = 0"
    by (auto simp: effective_mlfq_level_nat base_mlfq_level_def split: if_splits)
  then show ?thesis by (simp add: unat_eq_zero)
qed

section \<open>No starvation\<close>

lemma older_erase:
  assumes "queue_ok s" and "t \<in> set (m_tasks s)" and "i < length (m_tasks s)"
    and "sequence (m_tasks s ! i) < sequence t"
  shows "length (older (s\<lparr>m_tasks := erase_at i (m_tasks s)\<rparr>) t) < length (older s t)"
proof -
  let ?P = "\<lambda>u. sequence u < sequence t"
  have "mset (older s t) =
    add_mset (m_tasks s ! i) (mset (older (s\<lparr>m_tasks := erase_at i (m_tasks s)\<rparr>) t))"
    using mset_erase_at [OF assms(3)] assms(4) by (simp add: older_def)
  then have "size (mset (older s t)) =
    Suc (size (mset (older (s\<lparr>m_tasks := erase_at i (m_tasks s)\<rparr>) t)))" by simp
  then show ?thesis by simp
qed

lemma older_erase_le:
  "length (older (s\<lparr>m_tasks := erase_at i (m_tasks s)\<rparr>) t) \<le> length (older s t)"
proof -
  have "mset (erase_at i (m_tasks s)) \<subseteq># mset (m_tasks s)"
    by (cases "i < length (m_tasks s)")
      (use mset_erase_at [of i "m_tasks s"] in \<open>auto simp: erase_at_def\<close>)
  then have "filter_mset (\<lambda>u. sequence u < sequence t) (mset (erase_at i (m_tasks s)))
    \<subseteq># filter_mset (\<lambda>u. sequence u < sequence t) (mset (m_tasks s))"
    by (rule multiset_filter_mono)
  from size_mset_mono [OF this] show ?thesis by (simp add: older_def flip: size_mset)
qed

text \<open>The step of the argument: what one operation does to a task at effective level 0.\<close>

lemma level_zero_pick:
  assumes "queue_ok s" and "m_policy s = MLFQ" and t: "t \<in> set (m_tasks s)"
    and z: "effective_mlfq_level s t = 0" and m: "match_thread tid t"
    and pick: "pickNextTaskLocked s tid = (s', r, tk)"
  shows "r = Some t \<or>
    (t \<in> set (m_tasks s') \<and> length (older s' t) < length (older s t))"
  using pick
proof (cases rule: pick_result)
  case none
  with t m show ?thesis by blast
next
  case (some i)
  let ?c = "m_tasks s ! i"
  have "\<not> better s t ?c" using some(6) t m assms(2) by simp
  then have le: "\<not> sequence t < sequence ?c"
    using z assms(2) by (auto simp: better_def better_defs word_gt_0 split: if_splits)
  show ?thesis
  proof (cases "?c = t")
    case True
    with some show ?thesis by simp
  next
    case False
    then have "sequence ?c \<noteq> sequence t" using queue_ok_inj [OF assms(1)] t some(1) by auto
    with le have "sequence ?c < sequence t" by simp
    with False some older_erase [OF assms(1) t some(1)] set_erase_at [OF some(1)] t
    show ?thesis by auto
  qed
qed

lemma pick_keeps_or_takes:
  assumes "pickNextTaskLocked s tid = (s', r, tk)" and "t \<in> set (m_tasks s)"
  shows "r = Some t \<or> (t \<in> set (m_tasks s') \<and> length (older s' t) \<le> length (older s t))"
  using assms(1)
proof (cases rule: pick_result)
  case (some i)
  with assms(2) set_erase_at [OF some(1)] older_erase_le [of i s t] show ?thesis by auto
qed (use assms(2) in auto)

lemma append_keeps:
  assumes "sequence u = m_taskSequence s" and "sequence t < m_taskSequence s"
    and "t \<in> set (m_tasks s)"
  shows "t \<in> set (m_tasks (s\<lparr>m_taskSequence := m_taskSequence s + 1, m_tasks := m_tasks s @ [u]\<rparr>))"
    and "older (s\<lparr>m_taskSequence := m_taskSequence s + 1, m_tasks := m_tasks s @ [u]\<rparr>) t = older s t"
  using assms by (auto simp: older_def)

definition starve_inv :: "Scheduler \<Rightarrow> ScheduleTask \<Rightarrow> bool" where
  "starve_inv s t \<longleftrightarrow> queue_ok s \<and> m_policy s = MLFQ \<and> t \<in> set (m_tasks s) \<and>
     sequence t < m_taskSequence s \<and> effective_mlfq_level s t = 0"

lemma starve_inv_append:
  assumes "starve_inv s t" and "sequence u = m_taskSequence s" "has_work u"
    and "m_taskSequence s \<noteq> - 1"
  shows "starve_inv (s\<lparr>m_taskSequence := m_taskSequence s + 1, m_tasks := m_tasks s @ [u]\<rparr>) t"
    (is "starve_inv ?s' t")
proof -
  have lt: "m_taskSequence s < m_taskSequence s + 1" by (rule counter_less_Suc) fact
  note inv = assms(1) [unfolded starve_inv_def]
  have seq: "m_taskSequence ?s' = m_taskSequence s + 1" by simp
  have "effective_mlfq_level ?s' t = 0"
  proof (rule effective_zero_mono)
    show "m_taskSequence s \<le> m_taskSequence ?s'" unfolding seq by (rule less_imp_le [OF lt])
  qed (use inv in simp_all)
  moreover have "queue_ok ?s'"
    using inv assms(2-4) by (intro queue_ok_append) blast+
  moreover have "sequence t < m_taskSequence s + 1"
    using inv lt by (blast intro: order.strict_trans)
  ultimately show ?thesis using inv by (simp add: starve_inv_def)
qed

lemma starve_inv_grow:
  assumes "starve_inv s t" and "m_taskSequence s \<noteq> - 1"
    and "s1 = s \<or> (\<exists>u. s1 = s\<lparr>m_taskSequence := m_taskSequence s + 1, m_tasks := m_tasks s @ [u]\<rparr>
        \<and> sequence u = m_taskSequence s \<and> has_work u)"
  shows "starve_inv s1 t \<and> length (older s1 t) \<le> length (older s t) \<and>
    unat (m_taskSequence s1) \<le> Suc (unat (m_taskSequence s))"
  using assms(3)
proof (elim disjE exE conjE)
  fix u assume u: "s1 = s\<lparr>m_taskSequence := m_taskSequence s + 1, m_tasks := m_tasks s @ [u]\<rparr>"
    "sequence u = m_taskSequence s" "has_work u"
  have "sequence t < m_taskSequence s" "t \<in> set (m_tasks s)"
    using assms(1) by (simp_all add: starve_inv_def)
  from starve_inv_append [OF assms(1) u(2,3) assms(2)] append_keeps(2) [OF u(2) this]
    counter_Suc [OF assms(2)]
  show ?thesis by (simp add: u(1))
qed (use assms(1) in simp)

lemma starve_inv_pick:
  assumes "starve_inv s t" and "pickNextTaskLocked s tid = (s1, r, tk)" and "r \<noteq> Some t"
  shows "starve_inv s1 t \<and>
    length (older s1 t) + (if match_thread tid t then 1 else 0) \<le> length (older s t) \<and>
    m_taskSequence s1 = m_taskSequence s"
proof -
  note inv = assms(1) [unfolded starve_inv_def] and st = pick_state [OF assms(2)]
  have "effective_mlfq_level s1 t = effective_mlfq_level s t"
    by (simp add: effective_mlfq_level_def Let_def st)
  with inv st pick_keeps_or_takes [OF assms(2)] assms(3) have "starve_inv s1 t"
    by (auto simp: starve_inv_def)
  moreover have "length (older s1 t) + (if match_thread tid t then 1 else 0) \<le> length (older s t)"
    using level_zero_pick [of s t tid s1 r tk] pick_keeps_or_takes [OF assms(2), of t] inv assms(2,3)
    by auto
  ultimately show ?thesis using st by blast
qed

lemma starve_inv_step:
  assumes "starve_inv s t" and "m_taskSequence s \<noteq> - 1"
    and "queue_step s x = (s1, ts)" and "t \<notin> set ts" and "\<not> reconfigures x"
  shows "starve_inv s1 t \<and> length (older s1 t) + matching_picks t [x] \<le> length (older s t) \<and>
    unat (m_taskSequence s1) \<le> Suc (unat (m_taskSequence s))"
proof (cases x)
  case (OpSchedule fc opts)
  with assms(3) scheduleEx_shape [of s fc opts] starve_inv_grow [OF assms(1,2), of s1]
  show ?thesis by auto
next
  case (OpRequeue u ready)
  with assms(3) requeue_shape [of s u ready] starve_inv_grow [OF assms(1,2), of s1]
  show ?thesis by auto
next
  case (OpPick tid)
  obtain s' r tk where pick: "pickNextTaskLocked s tid = (s', r, tk)" by (metis prod_cases3)
  with OpPick assms(3,4) have "s' = s1" "r \<noteq> Some t" by auto
  with starve_inv_pick [OF assms(1), of tid s1 r tk] pick OpPick show ?thesis by simp
qed (use assms(5) in simp_all)

lemma matching_picks_Cons: "matching_picks t (x # xs) = matching_picks t [x] + matching_picks t xs"
  by (cases x) simp_all

lemma starve_run:
  assumes "starve_inv s t" and "unat (m_taskSequence s) + length ops < 2 ^ 64 - 1"
    and "length (older s t) < matching_picks t ops" and "\<forall>x \<in> set ops. \<not> reconfigures x"
  shows "t \<in> set (snd (queue_run s ops))"
  using assms
proof (induction ops arbitrary: s)
  case Nil
  then show ?case by simp
next
  case (Cons x xs)
  obtain s1 ts1 where st: "queue_step s x = (s1, ts1)" by fastforce
  have nw: "m_taskSequence s \<noteq> - 1"
    using Cons.prems(2) by (auto simp: unsigned_minus_1_eq_mask mask_eq_exp_minus_1)
  show ?case
  proof (cases "t \<in> set ts1")
    case True
    with st show ?thesis by (auto split: prod.split)
  next
    case False
    from starve_inv_step [OF Cons.prems(1) nw st False] Cons.prems(2-4) matching_picks_Cons [of t x xs]
    have "t \<in> set (snd (queue_run s1 xs))" by (intro Cons.IH) simp_all
    with st show ?thesis by (auto split: prod.split)
  qed
qed

lemma aged_effective_zero:
  assumes "config_ok (m_mlfqConfig s)" and "enable_aging (m_mlfqConfig s)"
    and "base_mlfq_level s t * unat (aging_sequence_gap (m_mlfqConfig s))
      \<le> unat (m_taskSequence s) - unat (sequence t)"
    and "sequence t < m_taskSequence s"
  shows "effective_mlfq_level s t = 0"
proof -
  have "0 < unat (aging_sequence_gap (m_mlfqConfig s))"
    using assms(1) by (simp add: config_ok_def unat_gt_0)
  then have "base_mlfq_level s t
    \<le> (unat (m_taskSequence s) - unat (sequence t)) div unat (aging_sequence_gap (m_mlfqConfig s))"
    using assms(3) by (simp add: less_eq_div_iff_mult_less_eq)
  then have "unat (effective_mlfq_level s t) = 0"
    using assms(2,4) by (simp add: effective_mlfq_level_nat)
  then show ?thesis by (simp add: unat_eq_zero)
qed

lemma queue_ok_step:
  "queue_ok s \<Longrightarrow> m_taskSequence s \<noteq> - 1 \<Longrightarrow> queue_ok (fst (queue_step s x))"
  by (cases x) (auto intro: inv_intros split: prod.split dest: pick_state(1))

lemma step_sequence:
  assumes "m_taskSequence s \<noteq> - 1"
  shows "unat (m_taskSequence (fst (queue_step s x))) \<le> Suc (unat (m_taskSequence s))"
proof (cases x)
  case (OpSchedule fc opts)
  then show ?thesis using scheduleEx_shape [of s fc opts] counter_Suc [OF assms] by auto
next
  case (OpRequeue u ready)
  then show ?thesis using requeue_shape [of s u ready] counter_Suc [OF assms] by auto
next
  case (OpPick tid)
  then show ?thesis by (auto split: prod.split dest: pick_state(4))
qed (simp_all add: setPolicy_def setMLFQConfig_def)

section \<open>Properties\<close>

abbreviation (input) mk_task :: "fid \<Rightarrow> int \<Rightarrow> u8 \<Rightarrow> u64 \<Rightarrow> u64 \<Rightarrow> ScheduleTask" where
  "mk_task f prio lvl dl sq \<equiv>
     \<lparr>task_fiber = Some f, task_cb = None, task_thread = -1, task_priority = prio,
      mlfq_level = lvl, deadline_ms = dl, sequence = sq\<rparr>"

text \<open>
  Whatever the policy, the task \<^verbatim>\<open>pickNextTaskLocked\<close> hands to a thread may run
  there and has the strictly least \<open>policy_key\<close> among all queued tasks that may run there:
  arrival order for FIFO, priority, aged level, deadline, or deadline then priority, with
  ties broken by the sequence number.
\<close>

lemma pick_policy_least:
  assumes "queue_ok s" and "pickNextTaskLocked s tid = (s', Some t, tk)"
  shows "t \<in> set (m_tasks s) \<and> match_thread tid t \<and>
    (\<forall>u \<in> set (m_tasks s). match_thread tid u \<longrightarrow> u \<noteq> t \<longrightarrow> policy_key s t < policy_key s u)"
  using assms(2)
proof (cases rule: pick_result)
  case (some i)
  have "policy_key s t < policy_key s u"
    if u: "u \<in> set (m_tasks s)" "match_thread tid u" "u \<noteq> t" for u
  proof (cases "m_policy s = FIFO")
    case True
    obtain j where j: "j < length (m_tasks s)" "u = m_tasks s ! j"
      using u(1) by (metis in_set_conv_nth)
    then have "i < j" using some(2,5) True u(2,3) by (metis linorder_neqE_nat option.inject)
    then have "sequence t < sequence u"
      using assms(1) j some(2) by (auto simp: queue_ok_def sorted_wrt_iff_nth_less)
    with True show ?thesis by (simp add: policy_key_def unat_less_iff)
  next
    case False
    have "sequence u \<noteq> sequence t"
      using queue_ok_inj [OF assms(1) u(1), of t] u(3) some(1,2) by auto
    with False some u show ?thesis
      using better_total [of s u t] better_iff_key [of s t u] by auto
  qed
  with some show ?thesis by auto
qed simp

text \<open>
  A pick never loses, duplicates, reorders or changes a task: the queue is the
  old one with exactly the returned task cut out, nothing else of the scheduler changes, the
  pick fails only when no queued task may run on the thread, and \<^verbatim>\<open>tickle_me\<close> is set exactly
  when tasks remain for other threads.
\<close>

lemma pick_conserves_queue:
  assumes "pickNextTaskLocked s tid = (s', r, tk)"
  shows "\<exists>xs ys. m_tasks s = xs @ (case r of None \<Rightarrow> [] | Some t \<Rightarrow> [t]) @ ys \<and>
      s' = s\<lparr>m_tasks := xs @ ys\<rparr> \<and>
      (r = None \<longleftrightarrow> (\<forall>u \<in> set (m_tasks s). \<not> match_thread tid u)) \<and>
      (tk \<longleftrightarrow> xs @ ys \<noteq> [])"
  using assms
proof (cases rule: pick_result)
  case none
  then show ?thesis by (intro exI [of _ "[]"] exI [of _ "m_tasks s"]) auto
next
  case (some i)
  have "m_tasks s ! i \<in> set (m_tasks s)" using some(1) by simp
  with some erase_at_split [OF some(1)] show ?thesis
    by (intro exI [of _ "take i (m_tasks s)"] exI [of _ "drop (Suc i) (m_tasks s)"])
      (auto simp: erase_at_def)
qed

text \<open>
  The reference: sort the tasks the thread may run by their key, take the first, cut it out of
  the queue, and wake another thread when something is left.
\<close>

definition spec_pick :: "Scheduler \<Rightarrow> int \<Rightarrow> Scheduler \<times> ScheduleTask option \<times> bool" where
  "spec_pick s tid =
     (case sort_key (policy_key s) (filter (match_thread tid) (m_tasks s)) of
        [] \<Rightarrow> (s, None, m_tasks s \<noteq> [])
      | t # _ \<Rightarrow> let rest = remove1 t (m_tasks s) in (s\<lparr>m_tasks := rest\<rparr>, Some t, rest \<noteq> []))"

lemma queue_ok_distinct: "queue_ok s \<Longrightarrow> distinct (m_tasks s)"
  by (auto simp: queue_ok_def sorted_wrt_iff_nth_less distinct_conv_nth)
    (metis linorder_neqE_nat order_less_irrefl)

lemma sort_key_head: "sort_key key xs = h # hs \<Longrightarrow> h \<in> set xs \<and> (\<forall>x \<in> set xs. key h \<le> key x)"
  by (metis list.set_intros(1) set_ConsD set_sort sorted_sort_key sorted_simps(2) list.simps(9) order_refl
      imageI list.set_map)

text \<open>
  Property C4. The selection loop, with its iterators, its fast path for FIFO, its five
  comparisons and its way of noticing work for others, is a sort: on every queue the scheduler
  can have, \<^verbatim>\<open>pickNextTaskLocked\<close> returns the task, the queue and the \<^verbatim>\<open>tickle_me\<close> that come of
  sorting the tasks the thread may run by \<open>policy_key\<close> and cutting out the first: arrival order
  for FIFO, priority, aged level, deadline, or deadline then priority, with ties broken by the
  sequence number.
\<close>

theorem pick_reference:
  assumes "queue_ok s"
  shows "pickNextTaskLocked s tid = spec_pick s tid"
proof -
  obtain s' r tk where p: "pickNextTaskLocked s tid = (s', r, tk)" by (rule prod_cases3)
  from pick_conserves_queue [OF p] obtain xs ys where
    c: "m_tasks s = xs @ (case r of None \<Rightarrow> [] | Some t \<Rightarrow> [t]) @ ys" "s' = s\<lparr>m_tasks := xs @ ys\<rparr>"
      "r = None \<longleftrightarrow> (\<forall>u \<in> set (m_tasks s). \<not> match_thread tid u)" "tk \<longleftrightarrow> xs @ ys \<noteq> []" by blast
  show ?thesis
  proof (cases r)
    case None
    with c have "filter (match_thread tid) (m_tasks s) = []" by (simp add: filter_empty_conv)
    with None c p show ?thesis by (simp add: spec_pick_def)
  next
    case (Some t)
    note L = pick_policy_least [OF assms p [unfolded Some]]
    have t: "t \<in> set (filter (match_thread tid) (m_tasks s))" using L by simp
    obtain h hs where h: "sort_key (policy_key s) (filter (match_thread tid) (m_tasks s)) = h # hs"
      using t by (metis list.exhaust list.set(1) empty_iff set_sort)
    have "h = t" using sort_key_head [OF h] t L by (metis filter_is_subset subsetD set_filter mem_Collect_eq leD)
    moreover have "remove1 t (m_tasks s) = xs @ ys"
      using queue_ok_distinct [OF assms] c(1) Some by (simp add: remove1_append)
    ultimately show ?thesis using h c p Some by (simp add: spec_pick_def)
  qed
qed

lemma pick_reference_witness:
  "\<exists>s. queue_ok s \<and> length (m_tasks s) = 3 \<and> m_policy s = EDF \<and>
    pickNextTaskLocked s 5 = spec_pick s 5 \<and> (\<exists>tk s'. spec_pick s 5 = (s', Some (mk_task 9 0 0 100 2), tk))"
proof -
  define s where "s = init_Scheduler\<lparr>m_policy := EDF, m_taskSequence := 3,
    m_tasks := [mk_task 7 0 0 0 0, mk_task 8 0 0 300 1, mk_task 9 0 0 100 2]\<rparr>"
  have ok: "queue_ok s"
    by (simp add: s_def queue_ok_def init_Scheduler_def config_ok_def default_MLFQConfig_def has_work_def)
  obtain s' tk where pick: "pickNextTaskLocked s 5 = (s', Some (mk_task 9 0 0 100 2), tk)"
    by (simp add: s_def pickNextTaskLocked_def init_Scheduler_def match_thread_def better_def
        better_edf_def take_task_def erase_at_def Let_def)
  note R = pick_reference [OF ok, of 5]
  have "length (m_tasks s) = 3" "m_policy s = EDF" by (simp_all add: s_def)
  with ok R trans [OF R [symmetric] pick] show ?thesis by (intro exI [of _ s]) blast
qed

text \<open>
  No operation of the queue, in any order, breaks its invariant: starting from a
  new scheduler, after any run of fewer than \<open>2^64 - 1\<close> operations (submissions, picks,
  requeues, changes of policy and of the MLFQ parameters) the tasks stand in strictly
  increasing sequence order, no null task is queued, and the MLFQ parameters are normalised,
  so the division by \<^verbatim>\<open>aging_sequence_gap\<close> and the subtraction \<^verbatim>\<open>levels - 1\<close> are safe.
\<close>

theorem queue_invariant:
  assumes "length ops < 2 ^ 64 - 1"
  shows "queue_ok (fst (queue_run init_Scheduler ops))"
proof -
  have "queue_ok (fst (queue_run s ops))"
    if "queue_ok s" "unat (m_taskSequence s) + length ops < 2 ^ 64 - 1" for s
    using that
  proof (induction ops arbitrary: s)
    case (Cons x xs)
    have nw: "m_taskSequence s \<noteq> - 1"
      using Cons.prems(2) by (auto simp: unsigned_minus_1_eq_mask mask_eq_exp_minus_1)
    from queue_ok_step [OF Cons.prems(1) nw] step_sequence [OF nw, of x] Cons.prems(2)
    have "queue_ok (fst (queue_run (fst (queue_step s x)) xs))" by (intro Cons.IH) simp_all
    then show ?case by (auto split: prod.split)
  qed simp
  from this [OF queue_ok_init] assms show ?thesis by (simp add: init_Scheduler_def)
qed

theorem queue_invariant_witness:
  "queue_ok (fst (queue_run init_Scheduler
     [OpSetMLFQConfig \<lparr>levels = 0, demote_on_yield = True, enable_aging = True,
        aging_sequence_gap = 0\<rparr>,
      OpSchedule (FiberPtr (Some 4)) default_options, OpPick 1]))"
  by (rule queue_invariant) simp

text \<open>
  Property C5. Aging prevents starvation: under MLFQ with aging, once a queued task has waited
  for as many sequence numbers as its level times \<^verbatim>\<open>aging_sequence_gap\<close>, it is handed out after
  at most as many picks by threads allowed to run it as there are older tasks in the queue,
  plus one, whatever tasks are submitted or requeued meanwhile.
\<close>

theorem mlfq_no_starvation:
  assumes "queue_ok s" and "m_policy s = MLFQ" and "t \<in> set (m_tasks s)"
    and "enable_aging (m_mlfqConfig s)"
    and "base_mlfq_level s t * unat (aging_sequence_gap (m_mlfqConfig s))
      \<le> unat (m_taskSequence s) - unat (sequence t)"
    and "length (older s t) < matching_picks t ops"
    and "\<forall>x \<in> set ops. \<not> reconfigures x"
    and "unat (m_taskSequence s) + length ops < 2 ^ 64 - 1"
  shows "t \<in> set (snd (queue_run s ops))"
proof (rule starve_run)
  have "sequence t < m_taskSequence s" "config_ok (m_mlfqConfig s)"
    using assms(1,3) by (auto simp: queue_ok_def)
  with assms show "starve_inv s t"
    by (auto simp: starve_inv_def intro!: aged_effective_zero)
qed (use assms in simp_all)

theorem mlfq_no_starvation_witness:
  "mk_task 7 0 2 0 0 \<in> set (snd (queue_run
      (init_Scheduler\<lparr>m_policy := MLFQ, m_taskSequence := 200,
        m_tasks := [mk_task 7 0 2 0 0, mk_task 8 0 0 0 150]\<rparr>)
      [OpSchedule (FiberPtr (Some 4)) default_options, OpPick 1]))"
  by (rule mlfq_no_starvation)
    (simp_all add: queue_ok_def init_Scheduler_def config_ok_def default_MLFQConfig_def
      has_work_def base_mlfq_level_def older_def match_thread_def)

end
