(* ===== verification/Sync_Wait.thy ===== *)
theory Sync_Wait
  imports Sched_Policy
begin

text \<open>
  The waiting protocol under the synchronisation primitives of include/mycoroutine/sync.h:
  \<^verbatim>\<open>FiberWaiter\<close>, \<^verbatim>\<open>MakeCurrentWaiter\<close>, \<^verbatim>\<open>NotifyWaiter\<close>, \<^verbatim>\<open>SuspendCurrentUntilNotified\<close> and
  \<^verbatim>\<open>PopWaiterFront\<close>. A primitive is a set of critical sections under its own \<^verbatim>\<open>std::mutex\<close>;
  around them every method notifies the waiters it popped and then returns, suspends, or takes
  the lock again. Fibers interleave between these atomic pieces in any way; the queue their
  wake-ups go through is the scheduler of \<open>Sched_Policy\<close>.
\<close>

section \<open>Waiters and verdicts\<close>

record waiter =
  w_fiber :: fid
  w_thread :: int

definition MakeCurrentWaiter :: "fid \<Rightarrow> int \<Rightarrow> waiter" where
  "MakeCurrentWaiter current thread_id = \<lparr>w_fiber = current, w_thread = thread_id\<rparr>"

fun PopWaiterFront :: "'w list \<Rightarrow> 'w option \<times> 'w list" where
  "PopWaiterFront [] = (None, [])"
| "PopWaiterFront (w # queue) = (Some w, queue)"

text \<open>The waiters a method notifies when it popped at most one.\<close>

fun to_wake :: "'w option \<Rightarrow> 'w list" where
  "to_wake None = []"
| "to_wake (Some w) = [w]"

text \<open>
  What a critical section decides: the method returns, the fiber suspends until notified and
  then continues with another section, it goes on with another section at once, or an assertion
  failed.
\<close>

datatype ('c, 'r) verdict = Return 'r | Wait 'c | Again 'c | Abort fault

type_synonym ('m, 'c, 'r) sections =
  "'c \<Rightarrow> waiter \<Rightarrow> 'm \<Rightarrow> 'm \<times> waiter list \<times> ('c, 'r) verdict"

text \<open>
  Where a fiber is: outside the primitive; about to lock the mutex for a section; after a
  section with waiters still to notify; inside \<^verbatim>\<open>NotifyWaiter\<close> between the store to the flag
  and the call of \<^verbatim>\<open>schedule\<close>; at the loop test of \<^verbatim>\<open>SuspendCurrentUntilNotified\<close>; or switched
  out by \<^verbatim>\<open>yield()\<close>.
\<close>

datatype ('c, 'r) pc =
    Idle
  | Ready 'c
  | Notifying "waiter list" "('c, 'r) verdict"
  | Waking waiter "waiter list" "('c, 'r) verdict"
  | Checking 'c
  | Parked 'c

text \<open>Ghost history: invocations, critical sections in their order, returns.\<close>

datatype ('c, 'r) event =
    Inv fid 'c
  | Exec fid 'c "waiter list" "('c, 'r) verdict"
  | Res fid 'r

record ('m, 'c, 'r) sys =
  prim :: 'm
  pcs :: "fid \<Rightarrow> ('c, 'r) pc"
  notified :: "fid \<Rightarrow> bool"
  sref :: "Scheduler option"
  inflight :: "fid list"
  hist :: "('c, 'r) event list"

definition init_sys :: "'m \<Rightarrow> Scheduler option \<Rightarrow> ('m, 'c, 'r) sys" where
  "init_sys m r = \<lparr>prim = m, pcs = (\<lambda>_. Idle), notified = (\<lambda>_. False), sref = r,
     inflight = [], hist = []\<rparr>"

text \<open>
  \<^verbatim>\<open>NotifyWaiter\<close> in its two halves: store to the flag, then schedule the fiber on its thread
  if the scheduler behind the weak reference is still there.
\<close>

definition notify_store :: "waiter \<Rightarrow> ('m, 'c, 'r) sys \<Rightarrow> ('m, 'c, 'r) sys" where
  "notify_store w s = s\<lparr>notified := (notified s)(w_fiber w := True)\<rparr>"

definition notify_schedule :: "waiter \<Rightarrow> ('m, 'c, 'r) sys \<Rightarrow> ('m, 'c, 'r) sys" where
  "notify_schedule w s =
     s\<lparr>sref := fst (SchedulerRef_schedule (sref s) (Some (w_fiber w)) (w_thread w))\<rparr>"

definition NotifyWaiter :: "waiter option \<Rightarrow> ('m, 'c, 'r) sys \<Rightarrow> ('m, 'c, 'r) sys" where
  "NotifyWaiter waiter s =
     (case waiter of None \<Rightarrow> s | Some w \<Rightarrow> notify_schedule w (notify_store w s))"

text \<open>The 64-bit id of a fiber; \<open>2^64 - 1\<close> is \<^verbatim>\<open>kNoOwner\<close> and never an id.\<close>

definition fiber_id :: "fid \<Rightarrow> u64" where
  "fiber_id f = word_of_nat f"

definition valid_fid :: "fid \<Rightarrow> bool" where
  "valid_fid f \<longleftrightarrow> f < 2 ^ 64 - 1"

section \<open>The steps\<close>

text \<open>
  \<open>entry\<close> says which sections a method starts with, \<open>sec\<close> are the sections of the primitive,
  \<open>thr\<close> the thread each fiber runs on. \<open>exec\<close> is
  one critical section; a fiber that must wait clears its flag inside it. \<open>store\<close> and
  \<open>schedule\<close> are the halves of \<^verbatim>\<open>NotifyWaiter\<close>: any other fiber may run between them. \<open>pick\<close> is a worker
  taking a task from the scheduler; a task for a fiber that is still running stays in flight
  until the fiber's \<^verbatim>\<open>m_mutex\<close> is free, that is until it has yielded (\<open>resume\<close>) or left
  (\<open>discard\<close>). \<open>env\<close> is any other use of the scheduler, wake-ups of parked fibers from
  elsewhere and MLFQ requeues included; \<open>shutdown\<close> is \<^verbatim>\<open>SchedulerRef::invalidate\<close>.
\<close>

inductive mon_step ::
    "('c \<Rightarrow> bool) \<Rightarrow> ('m, 'c, 'r) sections \<Rightarrow> (fid \<Rightarrow> int) \<Rightarrow> ('m, 'c, 'r) sys \<Rightarrow> ('m, 'c, 'r) sys \<Rightarrow> bool"
  for entry :: "'c \<Rightarrow> bool" and sec :: "('m, 'c, 'r) sections" and thr :: "fid \<Rightarrow> int"
where
  invoke: "pcs s f = Idle \<Longrightarrow> valid_fid f \<Longrightarrow> entry c \<Longrightarrow>
     mon_step entry sec thr s (s\<lparr>pcs := (pcs s)(f := Ready c), hist := hist s @ [Inv f c]\<rparr>)"
| exec: "pcs s f = Ready c \<Longrightarrow>
     sec c (MakeCurrentWaiter f (thr f)) (prim s) = (m, ws, v) \<Longrightarrow>
     mon_step entry sec thr s
       (s\<lparr>prim := m, pcs := (pcs s)(f := Notifying ws v),
          notified := (case v of Wait _ \<Rightarrow> (notified s)(f := False) | _ \<Rightarrow> notified s),
          hist := hist s @ [Exec f c ws v]\<rparr>)"
| store: "pcs s f = Notifying (w # ws) v \<Longrightarrow>
     mon_step entry sec thr s ((notify_store w s)\<lparr>pcs := (pcs s)(f := Waking w ws v)\<rparr>)"
| schedule: "pcs s f = Waking w ws v \<Longrightarrow>
     mon_step entry sec thr s ((notify_schedule w s)\<lparr>pcs := (pcs s)(f := Notifying ws v)\<rparr>)"
| return: "pcs s f = Notifying [] (Return r) \<Longrightarrow>
     mon_step entry sec thr s (s\<lparr>pcs := (pcs s)(f := Idle), hist := hist s @ [Res f r]\<rparr>)"
| again: "pcs s f = Notifying [] (Again c) \<Longrightarrow>
     mon_step entry sec thr s (s\<lparr>pcs := (pcs s)(f := Ready c)\<rparr>)"
| suspend: "pcs s f = Notifying [] (Wait c) \<Longrightarrow>
     mon_step entry sec thr s (s\<lparr>pcs := (pcs s)(f := Checking c)\<rparr>)"
| wake: "pcs s f = Checking c \<Longrightarrow> notified s f \<Longrightarrow>
     mon_step entry sec thr s (s\<lparr>pcs := (pcs s)(f := Ready c)\<rparr>)"
| park: "pcs s f = Checking c \<Longrightarrow> \<not> notified s f \<Longrightarrow>
     mon_step entry sec thr s (s\<lparr>pcs := (pcs s)(f := Parked c)\<rparr>)"
| pick: "sref s = Some q \<Longrightarrow> pickNextTaskLocked q tid = (q', Some t, tk) \<Longrightarrow>
     mon_step entry sec thr s
       (s\<lparr>sref := Some q', inflight := to_wake (task_fiber t) @ inflight s\<rparr>)"
| resume: "inflight s = xs @ f # ys \<Longrightarrow> pcs s f = Parked c \<Longrightarrow>
     mon_step entry sec thr s (s\<lparr>pcs := (pcs s)(f := Checking c), inflight := xs @ ys\<rparr>)"
| discard: "inflight s = xs @ f # ys \<Longrightarrow> pcs s f = Idle \<Longrightarrow>
     mon_step entry sec thr s (s\<lparr>inflight := xs @ ys\<rparr>)"
| env: "sref s = Some q \<Longrightarrow> (\<forall>tid. x \<noteq> OpPick tid) \<Longrightarrow>
     mon_step entry sec thr s (s\<lparr>sref := Some (fst (queue_step q x))\<rparr>)"
| shutdown: "mon_step entry sec thr s (s\<lparr>sref := SchedulerRef_invalidate (sref s)\<rparr>)"

inductive mon_reach ::
    "('c \<Rightarrow> bool) \<Rightarrow> ('m, 'c, 'r) sections \<Rightarrow> (fid \<Rightarrow> int) \<Rightarrow> 'm \<Rightarrow> ('m, 'c, 'r) sys \<Rightarrow> bool"
  for entry :: "'c \<Rightarrow> bool" and sec :: "('m, 'c, 'r) sections" and thr :: "fid \<Rightarrow> int" and m0 :: 'm
where
  start: "mon_reach entry sec thr m0 (init_sys m0 r)"
| step: "mon_reach entry sec thr m0 s \<Longrightarrow> mon_step entry sec thr s s' \<Longrightarrow> mon_reach entry sec thr m0 s'"

section \<open>Scripted runs\<close>

text \<open>
  A scheduler of the fibers given as a script: a call, or the next step of a fiber's own. Every
  script that runs through gives a reachable state.
\<close>

datatype 'c cmd = Call fid 'c | Run fid

fun do_cmd :: "('c \<Rightarrow> bool) \<Rightarrow> ('m, 'c, 'r) sections \<Rightarrow> (fid \<Rightarrow> int) \<Rightarrow> 'c cmd \<Rightarrow>
    ('m, 'c, 'r) sys \<Rightarrow> ('m, 'c, 'r) sys option" where
  "do_cmd entry sec thr (Call f c) s =
     (case pcs s f of
        Idle \<Rightarrow> if valid_fid f \<and> entry c
                then Some (s\<lparr>pcs := (pcs s)(f := Ready c), hist := hist s @ [Inv f c]\<rparr>) else None
      | _ \<Rightarrow> None)"
| "do_cmd entry sec thr (Run f) s =
     (case pcs s f of
        Ready c \<Rightarrow>
          (case sec c (MakeCurrentWaiter f (thr f)) (prim s) of
             (m, ws, v) \<Rightarrow>
               Some (s\<lparr>prim := m, pcs := (pcs s)(f := Notifying ws v),
                 notified := (case v of Wait _ \<Rightarrow> (notified s)(f := False) | _ \<Rightarrow> notified s),
                 hist := hist s @ [Exec f c ws v]\<rparr>))
      | Notifying (w # ws) v \<Rightarrow> Some ((notify_store w s)\<lparr>pcs := (pcs s)(f := Waking w ws v)\<rparr>)
      | Waking w ws v \<Rightarrow> Some ((notify_schedule w s)\<lparr>pcs := (pcs s)(f := Notifying ws v)\<rparr>)
      | Notifying [] (Return r) \<Rightarrow>
          Some (s\<lparr>pcs := (pcs s)(f := Idle), hist := hist s @ [Res f r]\<rparr>)
      | Notifying [] (Again c) \<Rightarrow> Some (s\<lparr>pcs := (pcs s)(f := Ready c)\<rparr>)
      | Notifying [] (Wait c) \<Rightarrow> Some (s\<lparr>pcs := (pcs s)(f := Checking c)\<rparr>)
      | Checking c \<Rightarrow>
          Some (s\<lparr>pcs := (pcs s)(f := if notified s f then Ready c else Parked c)\<rparr>)
      | _ \<Rightarrow> None)"

fun run_cmds :: "('c \<Rightarrow> bool) \<Rightarrow> ('m, 'c, 'r) sections \<Rightarrow> (fid \<Rightarrow> int) \<Rightarrow> 'c cmd list \<Rightarrow>
    ('m, 'c, 'r) sys \<Rightarrow> ('m, 'c, 'r) sys option" where
  "run_cmds entry sec thr [] s = Some s"
| "run_cmds entry sec thr (x # xs) s =
     (case do_cmd entry sec thr x s of None \<Rightarrow> None | Some s' \<Rightarrow> run_cmds entry sec thr xs s')"

lemma do_cmd_step: "do_cmd entry sec thr x s = Some s' \<Longrightarrow> mon_step entry sec thr s s'"
proof (cases x)
  case (Call f c)
  assume "do_cmd entry sec thr x s = Some s'"
  with Call show ?thesis by (auto split: pc.splits if_splits intro: mon_step.invoke)
next
  case (Run f)
  assume do: "do_cmd entry sec thr x s = Some s'"
  show ?thesis
  proof (cases "\<exists>c. pcs s f = Ready c")
    case True
    then obtain c where c: "pcs s f = Ready c" by blast
    obtain m ws v where x: "sec c (MakeCurrentWaiter f (thr f)) (prim s) = (m, ws, v)"
      by (rule prod_cases3)
    from mon_step.exec [of s f c sec thr m ws v entry] do Run c x show ?thesis by simp
  next
    case False
    with do Run show ?thesis
      by (auto split: pc.splits list.splits verdict.splits if_splits intro: mon_step.intros(3-9))
  qed
qed

lemma run_cmds_reach:
  "run_cmds entry sec thr xs s = Some s' \<Longrightarrow> mon_reach entry sec thr m0 s \<Longrightarrow>
    mon_reach entry sec thr m0 s'"
  by (induction xs arbitrary: s) (auto split: option.splits dest: do_cmd_step intro: mon_reach.step)

section \<open>Auxiliary notions\<close>

fun waits :: "('c, 'r) pc \<Rightarrow> bool" where
  "waits (Notifying ws (Wait c)) \<longleftrightarrow> True"
| "waits (Waking w ws (Wait c)) \<longleftrightarrow> True"
| "waits (Checking c) \<longleftrightarrow> True"
| "waits (Parked c) \<longleftrightarrow> True"
| "waits _ \<longleftrightarrow> False"

fun to_notify :: "('c, 'r) pc \<Rightarrow> waiter list" where
  "to_notify (Notifying ws v) = ws"
| "to_notify (Waking w ws v) = ws"
| "to_notify _ = []"

text \<open>The section a waiting fiber continues with.\<close>

fun awaited :: "('c, 'r) pc \<Rightarrow> 'c option" where
  "awaited (Notifying ws (Wait c)) = Some c"
| "awaited (Waking w ws (Wait c)) = Some c"
| "awaited (Checking c) = Some c"
| "awaited (Parked c) = Some c"
| "awaited _ = None"

lemma awaited_verdict:
  "awaited (Notifying ws v) = (case v of Wait c \<Rightarrow> Some c | _ \<Rightarrow> None)"
  "awaited (Waking w ws v) = (case v of Wait c \<Rightarrow> Some c | _ \<Rightarrow> None)"
  by (cases v; simp)+

lemma awaited_waits: "waits p \<longleftrightarrow> awaited p \<noteq> None"
  by (cases p rule: waits.cases) simp_all

text \<open>A task that will bring \<open>f\<close> back is queued or in flight.\<close>

definition wakeup_pending :: "('m, 'c, 'r) sys \<Rightarrow> fid \<Rightarrow> bool" where
  "wakeup_pending s f \<longleftrightarrow> f \<in> set (inflight s) \<or>
     (\<exists>q t. sref s = Some q \<and> t \<in> set (m_tasks q) \<and> task_fiber t = Some f)"

text \<open>Some fiber stands between the store to the flag of \<open>f\<close> and scheduling it.\<close>

definition being_woken :: "('m, 'c, 'r) sys \<Rightarrow> fid \<Rightarrow> bool" where
  "being_woken s f \<longleftrightarrow> (\<exists>g w ws v. pcs s g = Waking w ws v \<and> w_fiber w = f)"

definition enlists :: "('c, 'r) verdict \<Rightarrow> 'w \<Rightarrow> 'w list" where
  "enlists v w = (case v of Wait _ \<Rightarrow> [w] | _ \<Rightarrow> [])"

lemma enlists_simps [simp]:
  "enlists (Wait c) w = [w]" "enlists (Return r) w = []" "enlists (Again c) w = []"
  "enlists (Abort e) w = []"
  by (simp_all add: enlists_def)

lemma MakeCurrentWaiter_fiber [simp]: "w_fiber (MakeCurrentWaiter f t) = f"
  by (simp add: MakeCurrentWaiter_def)

lemma fiber_id_inj: "valid_fid f \<Longrightarrow> valid_fid g \<Longrightarrow> fiber_id f = fiber_id g \<longleftrightarrow> f = g"
  by (auto simp: fiber_id_def valid_fid_def word_of_nat_eq_iff take_bit_nat_eq_self)

lemma fiber_id_owner: "valid_fid f \<Longrightarrow> fiber_id f \<noteq> - 1"
proof
  assume v: "valid_fid f" and "fiber_id f = - 1"
  then have "unat (fiber_id f) = 2 ^ 64 - 1"
    by (simp add: unsigned_minus_1_eq_mask mask_eq_exp_minus_1)
  with v show False
    by (simp add: fiber_id_def valid_fid_def unsigned_of_nat take_bit_nat_eq_self)
qed

section \<open>What a step may change\<close>

text \<open>
  \<open>moves s p q\<close>: the control steps of one fiber that touch nothing but its own program
  counter, with the flag \<open>nt\<close> they read.
\<close>

inductive moves :: "bool \<Rightarrow> ('c, 'r) pc \<Rightarrow> ('c, 'r) pc \<Rightarrow> bool" where
  "moves nt (Waking w ws v) (Notifying ws v)"
| "moves nt (Notifying [] (Again c)) (Ready c)"
| "moves nt (Notifying [] (Wait c)) (Checking c)"
| "moves True (Checking c) (Ready c)"
| "moves False (Checking c) (Parked c)"
| "moves nt (Parked c) (Checking c)"

inductive_cases movesE: "moves nt p q"

lemma mon_step_view [consumes 1, case_names stutter invoke exec store return move]:
  assumes "mon_step entry sec thr s s'"
  obtains "prim s' = prim s" "pcs s' = pcs s" "notified s' = notified s" "hist s' = hist s"
  | f c where "pcs s f = Idle" "valid_fid f" "entry c" "prim s' = prim s" "pcs s' = (pcs s)(f := Ready c)"
      "notified s' = notified s" "hist s' = hist s @ [Inv f c]"
  | f c m ws v where "pcs s f = Ready c"
      "sec c (MakeCurrentWaiter f (thr f)) (prim s) = (m, ws, v)" "prim s' = m"
      "pcs s' = (pcs s)(f := Notifying ws v)"
      "notified s' = (case v of Wait _ \<Rightarrow> (notified s)(f := False) | _ \<Rightarrow> notified s)"
      "hist s' = hist s @ [Exec f c ws v]"
  | f w ws v where "pcs s f = Notifying (w # ws) v" "prim s' = prim s"
      "pcs s' = (pcs s)(f := Waking w ws v)" "notified s' = (notified s)(w_fiber w := True)"
      "hist s' = hist s"
  | f r where "pcs s f = Notifying [] (Return r)" "prim s' = prim s"
      "pcs s' = (pcs s)(f := Idle)" "notified s' = notified s" "hist s' = hist s @ [Res f r]"
  | f p where "moves (notified s f) (pcs s f) p" "prim s' = prim s" "pcs s' = (pcs s)(f := p)"
      "notified s' = notified s" "hist s' = hist s"
  using assms
proof cases
  case (schedule f w ws v)
  then show ?thesis by (intro that(6) [of f]) (auto simp: notify_schedule_def intro: moves.intros)
next
  case (again f c)
  then show ?thesis by (intro that(6) [of f]) (auto intro: moves.intros)
next
  case (suspend f c)
  then show ?thesis by (intro that(6) [of f]) (auto intro: moves.intros)
next
  case (wake f c)
  then show ?thesis by (intro that(6) [of f]) (auto intro: moves.intros)
next
  case (park f c)
  then show ?thesis by (intro that(6) [of f]) (auto intro: moves.intros)
next
  case (resume xs f ys c)
  then show ?thesis by (intro that(6) [of f]) (auto intro: moves.intros)
qed (auto simp: notify_store_def intro: that)

section \<open>Histories\<close>

text \<open>
  The critical sections of a history, run one after the other from \<open>m\<close>: \<open>Some\<close> the final state
  when every recorded outcome is the one the section produces. The sections are atomic, so
  this sequential run explains the interleaved one.
\<close>

fun replay :: "('m, 'c, 'r) sections \<Rightarrow> (fid \<Rightarrow> int) \<Rightarrow> 'm \<Rightarrow> ('c, 'r) event list \<Rightarrow> 'm option" where
  "replay sec thr m [] = Some m"
| "replay sec thr m (Exec f c ws v # h) =
     (case sec c (MakeCurrentWaiter f (thr f)) m of
        (m', ws', v') \<Rightarrow> if ws' = ws \<and> v' = v then replay sec thr m' h else None)"
| "replay sec thr m (Inv f c # h) = replay sec thr m h"
| "replay sec thr m (Res f r # h) = replay sec thr m h"

lemma replay_append:
  "replay sec thr m (h @ k) = Option.bind (replay sec thr m h) (\<lambda>m'. replay sec thr m' k)"
  by (induction sec thr m h rule: replay.induct) (auto split: prod.splits)

lemma replay_snoc_Exec:
  "replay sec thr m (h @ [Exec f c ws v]) = Some m' \<longleftrightarrow>
   (\<exists>m1. replay sec thr m h = Some m1 \<and> sec c (MakeCurrentWaiter f (thr f)) m1 = (m', ws, v))"
proof (cases "replay sec thr m h")
  case (Some m1)
  obtain a b d where "sec c (MakeCurrentWaiter f (thr f)) m1 = (a, b, d)" by (rule prod_cases3)
  with Some show ?thesis by (auto simp: replay_append)
qed (simp add: replay_append)

lemma replay_snoc_other [simp]:
  "replay sec thr m (h @ [Inv f c]) = replay sec thr m h"
  "replay sec thr m (h @ [Res f r]) = replay sec thr m h"
  by (cases "replay sec thr m h"; simp add: replay_append)+

lemma reach_replay: "mon_reach entry sec thr m0 s \<Longrightarrow> replay sec thr m0 (hist s) = Some (prim s)"
proof (induction rule: mon_reach.induct)
  case (start r)
  show ?case by (simp add: init_sys_def)
next
  case (step s s')
  from step.hyps(2) show ?case
  proof (cases rule: mon_step_view)
    case (exec f c m ws v)
    with step.IH show ?thesis by (simp add: replay_snoc_Exec)
  qed (use step.IH in simp_all)
qed

text \<open>Every recorded section ran from the state its predecessors led to.\<close>

lemma reach_exec:
  assumes "mon_reach entry sec thr m0 s" and "hist s = h @ Exec f c ws v # k"
  shows "\<exists>m m'. replay sec thr m0 h = Some m \<and> sec c (MakeCurrentWaiter f (thr f)) m = (m', ws, v)"
proof -
  have "replay sec thr m0 ((h @ [Exec f c ws v]) @ k) = Some (prim s)"
    using reach_replay [OF assms(1)] by (simp add: assms(2))
  then obtain m' where "replay sec thr m0 (h @ [Exec f c ws v]) = Some m'"
    by (auto simp only: replay_append [of _ _ _ "h @ _"] Option.bind_eq_Some_conv)
  then show ?thesis by (auto simp: replay_snoc_Exec)
qed

text \<open>A property of histories and states that every section extends holds of reachable states.\<close>

lemma replay_induct [consumes 1, case_names init exec inv res]:
  assumes "replay sec thr m0 h = Some m"
    and "P [] m0"
    and "\<And>h m f c ws v m'. replay sec thr m0 h = Some m \<Longrightarrow> P h m \<Longrightarrow>
      sec c (MakeCurrentWaiter f (thr f)) m = (m', ws, v) \<Longrightarrow> P (h @ [Exec f c ws v]) m'"
    and "\<And>h m f c. P h m \<Longrightarrow> P (h @ [Inv f c]) m"
    and "\<And>h m f r. P h m \<Longrightarrow> P (h @ [Res f r]) m"
  shows "P h m"
  using assms(1)
proof (induction h arbitrary: m rule: rev_induct)
  case Nil
  then show ?case using assms(2) by simp
next
  case (snoc e h)
  show ?case
  proof (cases e)
    case (Inv f c)
    then show ?thesis using snoc assms(4) by simp
  next
    case (Exec f c ws v)
    with snoc.prems obtain m1 where "replay sec thr m0 h = Some m1"
      "sec c (MakeCurrentWaiter f (thr f)) m1 = (m, ws, v)" by (auto simp: replay_snoc_Exec)
    with Exec snoc.IH assms(3) show ?thesis by simp
  next
    case (Res f r)
    then show ?thesis using snoc assms(5) by simp
  qed
qed

section \<open>Calls and their returns\<close>

fun ev_fiber :: "('c, 'r) event \<Rightarrow> fid" where
  "ev_fiber (Inv f c) = f"
| "ev_fiber (Exec f c ws v) = f"
| "ev_fiber (Res f r) = f"

text \<open>The verdict a fiber is carrying out.\<close>

fun verdict_of :: "('c, 'r) pc \<Rightarrow> ('c, 'r) verdict option" where
  "verdict_of (Notifying ws v) = Some v"
| "verdict_of (Waking w ws v) = Some v"
| "verdict_of _ = None"

definition decided :: "('c, 'r) event list \<Rightarrow> fid \<Rightarrow> ('c, 'r) verdict \<Rightarrow> bool" where
  "decided h f v \<longleftrightarrow> (\<exists>xs c ws ys. h = xs @ Exec f c ws v # ys \<and> f \<notin> ev_fiber ` set ys)"

lemma decided_snoc: "decided h f v \<Longrightarrow> ev_fiber e \<noteq> f \<Longrightarrow> decided (h @ [e]) f v"
  unfolding decided_def
proof (elim exE conjE)
  fix xs c ws ys assume "ev_fiber e \<noteq> f" "h = xs @ Exec f c ws v # ys" "f \<notin> ev_fiber ` set ys"
  then show "\<exists>xs c ws ys. h @ [e] = xs @ Exec f c ws v # ys \<and> f \<notin> ev_fiber ` set ys"
    by (intro exI [of _ xs] exI [of _ c] exI [of _ ws] exI [of _ "ys @ [e]"]) auto
qed

lemma reach_decided:
  assumes "mon_reach entry sec thr m0 s" and "verdict_of (pcs s f) = Some v"
  shows "decided (hist s) f v"
  using assms
proof (induction arbitrary: f v rule: mon_reach.induct)
  case (start r)
  then show ?case by (simp add: init_sys_def)
next
  case (step s s')
  from step.hyps(2) show ?case
  proof (cases rule: mon_step_view)
    case stutter
    with step show ?thesis by simp
  next
    case (invoke g c)
    with step.prems have "f \<noteq> g" "verdict_of (pcs s f) = Some v" by (auto split: if_splits)
    with step.IH invoke show ?thesis by (simp add: decided_snoc)
  next
    case (exec g c m ws u)
    show ?thesis
    proof (cases "f = g")
      case True
      with exec step.prems have "hist s' = hist s @ Exec f c ws v # []" by simp
      then show ?thesis unfolding decided_def by (metis empty_iff image_empty list.set(1))
    next
      case False
      with exec step show ?thesis by (simp add: decided_snoc)
    qed
  next
    case (store g w ws u)
    with step show ?thesis by (auto split: if_splits)
  next
    case (return g r)
    with step.prems have "f \<noteq> g" "verdict_of (pcs s f) = Some v" by (auto split: if_splits)
    with step.IH return show ?thesis by (simp add: decided_snoc)
  next
    case (move g p)
    with step.prems have "verdict_of (pcs s f) = Some v"
      by (auto split: if_splits elim!: movesE)
    with step.IH move show ?thesis by simp
  qed
qed

text \<open>
  A call returns what the last section its fiber ran before decided.
\<close>

lemma reach_return:
  assumes "mon_reach entry sec thr m0 s" and "hist s = h @ Res f r # k"
  shows "decided h f (Return r)"
  using assms
proof (induction arbitrary: k rule: mon_reach.induct)
  case (start q)
  then show ?case by (simp add: init_sys_def)
next
  case (step s s')
  have same: "hist s' = hist s \<Longrightarrow> ?case" using step.IH step.prems by metis
  have other: "?case" if e: "hist s' = hist s @ [e]" "e \<noteq> Res f r" for e
  proof -
    from step.prems e obtain k' where "k = k' @ [e]"
      by (cases k rule: rev_cases) auto
    with step.prems e step.IH show ?thesis by simp
  qed
  have ret: "?case" if e: "hist s' = hist s @ [Res f r]" "pcs s f = Notifying [] (Return r)"
  proof (cases k rule: rev_cases)
    case Nil
    with step.prems e have "h = hist s" by simp
    with reach_decided [OF step.hyps(1), of f "Return r"] e show ?thesis by simp
  next
    case (snoc k' e')
    with step.prems e step.IH show ?thesis by simp
  qed
  from step.hyps(2) show ?case
  proof (cases rule: mon_step_view)
    case (return g r')
    then show ?thesis using other [of "Res g r'"] ret by (cases "g = f \<and> r' = r") auto
  qed (use same other in blast)+
qed

section \<open>No wake-up is lost\<close>

text \<open>
  A fiber that has switched out although its flag is set is about to be scheduled, queued, or
  held by a worker, unless the scheduler is gone.
\<close>

definition wake_inv :: "('m, 'c, 'r) sys \<Rightarrow> bool" where
  "wake_inv s \<longleftrightarrow> (\<forall>f c. pcs s f = Parked c \<longrightarrow> notified s f \<longrightarrow> sref s \<noteq> None \<longrightarrow>
     wakeup_pending s f \<or> being_woken s f)"

lemma wake_invD:
  "wake_inv s \<Longrightarrow> pcs s f = Parked c \<Longrightarrow> notified s f \<Longrightarrow> sref s \<noteq> None \<Longrightarrow>
    wakeup_pending s f \<or> being_woken s f"
  by (auto simp: wake_inv_def)

lemma being_woken_upd:
  "pcs s' = (pcs s)(g := p) \<Longrightarrow> (\<And>w ws v. pcs s g \<noteq> Waking w ws v) \<Longrightarrow>
    being_woken s f \<Longrightarrow> being_woken s' f"
  unfolding being_woken_def by (metis fun_upd_other)

lemma SchedulerRef_schedule_tasks:
  "SchedulerRef_schedule (Some q) (Some f) t = (r, tk) \<Longrightarrow>
    \<exists>q' u. r = Some q' \<and> m_tasks q' = m_tasks q @ [u] \<and> task_fiber u = Some f"
  by (auto simp: SchedulerRef_schedule_def scheduleLock_def scheduleEx_def Let_def)

lemma queue_step_keeps_tasks:
  "\<forall>tid. x \<noteq> OpPick tid \<Longrightarrow> set (m_tasks q) \<subseteq> set (m_tasks (fst (queue_step q x)))"
proof (cases x)
  case (OpSchedule fc opts)
  then show ?thesis using scheduleEx_shape [of q fc opts] by auto
next
  case (OpRequeue t ready)
  then show ?thesis using requeue_shape [of q t ready] by auto
qed (auto simp: setPolicy_def setMLFQConfig_def)

lemma wake_inv_frame:
  assumes inv: "wake_inv s" and p: "pcs s' = (pcs s)(g := p)" "\<And>w ws v. pcs s g \<noteq> Waking w ws v"
    and nt: "\<And>c. p = Parked c \<Longrightarrow> \<not> notified s g" "\<And>f. f \<noteq> g \<Longrightarrow> notified s' f = notified s f"
      "\<not> notified s g \<Longrightarrow> \<not> notified s' g"
    and rest: "sref s' = sref s" "inflight s' = inflight s"
  shows "wake_inv s'"
  unfolding wake_inv_def
proof (intro allI impI)
  fix f c assume f: "pcs s' f = Parked c" "notified s' f" "sref s' \<noteq> None"
  then have "f \<noteq> g" using p(1) nt(1,3) by auto
  with f p nt rest have "wakeup_pending s f \<or> being_woken s f"
    by (intro wake_invD [OF inv, of f c]) auto
  then show "wakeup_pending s' f \<or> being_woken s' f"
    using being_woken_upd [OF p] rest by (auto simp: wakeup_pending_def)
qed

lemma wake_inv_step:
  assumes "mon_step entry sec thr s s'" and inv: "wake_inv s"
  shows "wake_inv s'"
proof -
  have "wakeup_pending s' f \<or> being_woken s' f"
    if "pcs s' f = Parked c" "notified s' f" "sref s' \<noteq> None" for f c
    using assms(1)
  proof cases
    case (store g w ws v)
    show ?thesis
    proof (cases "f = w_fiber w")
      case True
      then show ?thesis using store by (auto simp: being_woken_def intro!: exI [of _ g])
    next
      case False
      with store that have "wakeup_pending s f \<or> being_woken s f"
        by (intro wake_invD [OF inv, of f c]) (auto simp: notify_store_def split: if_splits)
      moreover have "being_woken s f \<Longrightarrow> being_woken s' f"
        using store by (intro being_woken_upd [of s' s g "Waking w ws v"])
          (simp_all add: notify_store_def)
      ultimately show ?thesis using store by (auto simp: wakeup_pending_def notify_store_def)
    qed
  next
    case (schedule g w ws v)
    show ?thesis
    proof (cases "sref s")
      case None
      with schedule that show ?thesis by (simp add: notify_schedule_def SchedulerRef_schedule_def)
    next
      case (Some q)
      obtain r tk where r: "SchedulerRef_schedule (Some q) (Some (w_fiber w)) (w_thread w) = (r, tk)"
        by fastforce
      from SchedulerRef_schedule_tasks [OF this] obtain q' u where q':
        "r = Some q'" "m_tasks q' = m_tasks q @ [u]" "task_fiber u = Some (w_fiber w)" by blast
      have sr: "sref s' = Some q'" "inflight s' = inflight s" "notified s' = notified s"
        using schedule Some r q'(1) by (simp_all add: notify_schedule_def)
      show ?thesis
      proof (cases "f = w_fiber w")
        case True
        with q' sr show ?thesis by (auto simp: wakeup_pending_def)
      next
        case False
        from schedule that(1) have "pcs s f = Parked c" by (auto split: if_splits)
        with that(2) sr Some have "wakeup_pending s f \<or> being_woken s f"
          by (intro wake_invD [OF inv, of f c]) simp_all
        then show ?thesis
        proof
          assume "wakeup_pending s f"
          with q' sr Some show ?thesis by (auto simp: wakeup_pending_def)
        next
          assume "being_woken s f"
          then obtain h w' ws' v' where h: "pcs s h = Waking w' ws' v'" "w_fiber w' = f"
            by (auto simp: being_woken_def)
          with False schedule have "pcs s' h = Waking w' ws' v'" by auto
          with h show ?thesis by (auto simp: being_woken_def)
        qed
      qed
    qed
  next
    case (pick q tid q' t tk)
    with that have "wakeup_pending s f \<or> being_woken s f"
      by (intro wake_invD [OF inv, of f c]) simp_all
    with pick pick_keeps_or_takes [OF pick(3)] show ?thesis
      by (fastforce simp: wakeup_pending_def being_woken_def)
  next
    case (resume xs g ys c')
    with that have "wakeup_pending s f \<or> being_woken s f"
      by (intro wake_invD [OF inv, of f c]) (auto split: if_splits)
    moreover have "being_woken s f \<Longrightarrow> being_woken s' f"
      using resume by (intro being_woken_upd [of s' s g "Checking c'"]) simp_all
    ultimately show ?thesis using resume that(1)
      by (auto simp: wakeup_pending_def split: if_splits)
  next
    case (discard xs g ys)
    with that have "wakeup_pending s f \<or> being_woken s f"
      by (intro wake_invD [OF inv, of f c]) simp_all
    with discard that(1) show ?thesis by (auto simp: wakeup_pending_def being_woken_def)
  next
    case (env q x)
    with that have "wakeup_pending s f \<or> being_woken s f"
      by (intro wake_invD [OF inv, of f c]) simp_all
    with env queue_step_keeps_tasks [of x q] show ?thesis
      by (auto simp: wakeup_pending_def being_woken_def)
  next
    case shutdown
    with that show ?thesis by (simp add: SchedulerRef_invalidate_def)
  next
    case (park g c')
    then show ?thesis using that
      by (intro wake_invD [OF wake_inv_frame [OF inv, of s' g "Parked c'"]]) (auto split: verdict.splits)
  next
    case (exec g c' m ws v)
    then show ?thesis using that
      by (intro wake_invD [OF wake_inv_frame [OF inv, of s' g "Notifying ws v"]]) (auto split: verdict.splits)
  next
    case (invoke g c')
    then show ?thesis using that
      by (intro wake_invD [OF wake_inv_frame [OF inv, of s' g "Ready c'"]]) (auto split: verdict.splits)
  next
    case (return g r)
    then show ?thesis using that
      by (intro wake_invD [OF wake_inv_frame [OF inv, of s' g "Idle"]]) (auto split: verdict.splits)
  next
    case (again g c')
    then show ?thesis using that
      by (intro wake_invD [OF wake_inv_frame [OF inv, of s' g "Ready c'"]]) (auto split: verdict.splits)
  next
    case (suspend g c')
    then show ?thesis using that
      by (intro wake_invD [OF wake_inv_frame [OF inv, of s' g "Checking c'"]]) (auto split: verdict.splits)
  next
    case (wake g c')
    then show ?thesis using that
      by (intro wake_invD [OF wake_inv_frame [OF inv, of s' g "Ready c'"]]) (auto split: verdict.splits)
  qed
  then show ?thesis by (auto simp: wake_inv_def)
qed

section \<open>The interface of a primitive\<close>

text \<open>
  Where a waiter record can be: in the primitive's queue (\<open>None\<close>), or popped and still to be
  notified by a fiber (\<open>Some g\<close>).
\<close>

definition held_at :: "('m \<Rightarrow> waiter list) \<Rightarrow> ('m, 'c, 'r) sys \<Rightarrow> fid option \<Rightarrow> waiter list" where
  "held_at waiters s p = (case p of None \<Rightarrow> waiters (prim s) | Some g \<Rightarrow> to_notify (pcs s g))"

definition fibers_at :: "('m \<Rightarrow> waiter list) \<Rightarrow> ('m, 'c, 'r) sys \<Rightarrow> fid option \<Rightarrow> fid list" where
  "fibers_at waiters s p = map w_fiber (held_at waiters s p)"

text \<open>
  The invariant of the waiting protocol. A waiter record is in one place only; its fiber is
  waiting with the flag clear; and a fiber that waits with the flag clear has its record
  somewhere.
\<close>

definition wait_inv ::
    "('m \<Rightarrow> waiter list) \<Rightarrow> (fid \<Rightarrow> int) \<Rightarrow> ('m, 'c, 'r) sys \<Rightarrow> bool" where
  "wait_inv waiters thr s \<longleftrightarrow>
     (\<forall>p. distinct (fibers_at waiters s p)) \<and>
     (\<forall>p q f. f \<in> set (fibers_at waiters s p) \<longrightarrow> f \<in> set (fibers_at waiters s q) \<longrightarrow> p = q) \<and>
     (\<forall>p. \<forall>w \<in> set (held_at waiters s p). w = MakeCurrentWaiter (w_fiber w) (thr (w_fiber w))) \<and>
     (\<forall>p. \<forall>f \<in> set (fibers_at waiters s p). waits (pcs s f) \<and> \<not> notified s f) \<and>
     (\<forall>f. waits (pcs s f) \<longrightarrow> \<not> notified s f \<longrightarrow> (\<exists>p. f \<in> set (fibers_at waiters s p))) \<and>
     (\<forall>f. pcs s f \<noteq> Idle \<longrightarrow> valid_fid f)"

lemma waits_not [simp]: "\<not> waits Idle" "\<not> waits (Ready c)"
  "\<not> waits (Notifying ws (Return r))" "\<not> waits (Notifying ws (Again c))"
  "\<not> waits (Notifying ws (Abort e))"
  by simp_all

lemma waits_Notifying: "waits (Notifying ws v) \<longleftrightarrow> (\<exists>c. v = Wait c)"
  by (cases v) auto

lemma waits_Waking: "waits (Waking w ws v) \<longleftrightarrow> (\<exists>c. v = Wait c)"
  by (cases v) auto

lemma wait_invD:
  assumes "wait_inv waiters thr s"
  shows "distinct (fibers_at waiters s p)"
    and "f \<in> set (fibers_at waiters s p) \<Longrightarrow> f \<in> set (fibers_at waiters s q) \<Longrightarrow> p = q"
    and "w \<in> set (held_at waiters s p) \<Longrightarrow> w = MakeCurrentWaiter (w_fiber w) (thr (w_fiber w))"
    and "f \<in> set (fibers_at waiters s p) \<Longrightarrow> waits (pcs s f)"
    and "f \<in> set (fibers_at waiters s p) \<Longrightarrow> \<not> notified s f"
    and "waits (pcs s f) \<Longrightarrow> \<not> notified s f \<Longrightarrow> \<exists>p. f \<in> set (fibers_at waiters s p)"
    and "pcs s f \<noteq> Idle \<Longrightarrow> valid_fid f"
  using assms unfolding wait_inv_def by blast+

lemma held_at_simps [simp]:
  "held_at waiters s None = waiters (prim s)"
  "held_at waiters s (Some g) = to_notify (pcs s g)"
  by (simp_all add: held_at_def)

lemma wait_inv_frame:
  assumes inv: "wait_inv waiters thr s"
    and s': "prim s' = prim s" "pcs s' = (pcs s)(f := p)" "notified s' = notified s"
    and p: "to_notify p = to_notify (pcs s f)" "waits p \<Longrightarrow> waits (pcs s f)"
      "waits (pcs s f) \<Longrightarrow> \<not> notified s f \<Longrightarrow> waits p" "valid_fid f"
  shows "wait_inv waiters thr s'"
proof -
  have h: "held_at waiters s' = held_at waiters s"
    using s' p(1) by (auto simp: fun_eq_iff held_at_def split: option.split)
  then have fa: "fibers_at waiters s' = fibers_at waiters s" by (simp add: fun_eq_iff fibers_at_def)
  have w: "waits (pcs s' g) \<longleftrightarrow> waits (pcs s g)" if "\<not> notified s g" for g
    using that p(2,3) by (auto simp: s')
  from inv p(4) show ?thesis unfolding wait_inv_def h fa
    by (simp add: s'(3)) (metis w fun_upd_apply s'(2))
qed

lemma wait_inv_store:
  assumes inv: "wait_inv waiters thr s" and g: "pcs s g = Notifying (w # ws) v"
    and s': "prim s' = prim s" "pcs s' = (pcs s)(g := Waking w ws v)"
      "notified s' = (notified s)(w_fiber w := True)"
  shows "wait_inv waiters thr s'"
proof -
  have held: "held_at waiters s' p = (if p = Some g then ws else held_at waiters s p)" for p
    by (cases p) (auto simp: s')
  then have fib: "fibers_at waiters s' p =
      (if p = Some g then map w_fiber ws else fibers_at waiters s p)" for p
    by (simp add: fibers_at_def)
  have at_g: "fibers_at waiters s (Some g) = w_fiber w # map w_fiber ws"
    by (simp add: fibers_at_def g)
  have sub: "f \<in> set (fibers_at waiters s' p) \<Longrightarrow>
      f \<in> set (fibers_at waiters s p) \<and> f \<noteq> w_fiber w" for f p
    using wait_invD(2) [OF inv, of f "Some g" p] wait_invD(1) [OF inv, of "Some g"]
    by (cases "p = Some g") (auto simp: fib at_g simp del: set_map list.set_map)
  have sup: "f \<in> set (fibers_at waiters s p) \<Longrightarrow> f \<noteq> w_fiber w \<Longrightarrow>
      f \<in> set (fibers_at waiters s' p)" for f p
    by (auto simp: fib at_g)
  have wts: "waits (pcs s' f) \<longleftrightarrow> waits (pcs s f)" for f
    by (simp add: s' g waits_Notifying waits_Waking)
  have "distinct (fibers_at waiters s' p)" for p
    using wait_invD(1) [OF inv, of p] wait_invD(1) [OF inv, of "Some g"] by (auto simp: fib at_g)
  moreover have "p = q" if "f \<in> set (fibers_at waiters s' p)" "f \<in> set (fibers_at waiters s' q)"
    for f p q
    using that sub wait_invD(2) [OF inv] by blast
  moreover have "u = MakeCurrentWaiter (w_fiber u) (thr (w_fiber u))"
    if "u \<in> set (held_at waiters s' p)" for u p
    using that wait_invD(3) [OF inv, of u p] by (auto simp: held g split: if_splits)
  moreover have "waits (pcs s' f) \<and> \<not> notified s' f" if "f \<in> set (fibers_at waiters s' p)" for f p
    using sub [OF that] wait_invD(4,5) [OF inv, of f p] by (simp only: wts s'(3)) simp
  moreover have "\<exists>p. f \<in> set (fibers_at waiters s' p)" if "waits (pcs s' f)" "\<not> notified s' f" for f
    using that wait_invD(6) [OF inv, of f] sup [of f] by (auto simp: wts s'(3) split: if_splits)
  moreover have "valid_fid f" if "pcs s' f \<noteq> Idle" for f
    using that wait_invD(7) [OF inv, of f] g by (auto simp: s' split: if_splits)
  ultimately show ?thesis unfolding wait_inv_def by blast
qed

text \<open>
  A primitive promises that a section neither invents nor loses a waiter: what it hands out
  for notification and what it keeps is what it had, and the running fiber if it decides to
  wait.
\<close>

locale monitor =
  fixes sec :: "('m, 'c, 'r) sections" and waiters :: "'m \<Rightarrow> waiter list"
  assumes conserve: "sec c w m = (m', ws, v) \<Longrightarrow>
    mset ws + mset (waiters m') = mset (waiters m) + mset (enlists v w)"
begin

lemma exec_places:
  assumes inv: "wait_inv waiters thr s" and f: "pcs s f = Ready c"
    and x: "sec c (MakeCurrentWaiter f (thr f)) (prim s) = (m, ws, v)"
    and s': "prim s' = m" "pcs s' = (pcs s)(f := Notifying ws v)"
  shows "distinct (map w_fiber ws @ map w_fiber (waiters m))"
    and "set ws \<union> set (waiters m) =
      set (waiters (prim s)) \<union> set (enlists v (MakeCurrentWaiter f (thr f)))"
    and "p \<noteq> None \<Longrightarrow> p \<noteq> Some f \<Longrightarrow> held_at waiters s' p = held_at waiters s p"
    and "\<And>p. f \<notin> set (fibers_at waiters s p)"
proof -
  let ?w = "MakeCurrentWaiter f (thr f)"
  show nf: "\<And>p. f \<notin> set (fibers_at waiters s p)"
    using wait_invD(4) [OF inv, of f] f by fastforce
  have c: "mset (ws @ waiters m) = mset (waiters (prim s) @ enlists v ?w)"
    using conserve [OF x] by (simp only: mset_append)
  from mset_eq_setD [OF c] show "set ws \<union> set (waiters m) =
      set (waiters (prim s)) \<union> set (enlists v ?w)" by simp
  have "distinct (map w_fiber (waiters (prim s)) @ map w_fiber (enlists v ?w))"
    using wait_invD(1) [OF inv, of None] nf [of None] by (cases v) (auto simp: fibers_at_def)
  moreover have "mset (map w_fiber (ws @ waiters m))
      = mset (map w_fiber (waiters (prim s) @ enlists v ?w))"
    using c by (simp only: mset_map)
  ultimately show "distinct (map w_fiber ws @ map w_fiber (waiters m))"
    using mset_eq_imp_distinct_iff by fastforce
  show "p \<noteq> None \<Longrightarrow> p \<noteq> Some f \<Longrightarrow> held_at waiters s' p = held_at waiters s p"
    by (cases p) (auto simp: s')
qed

lemma wait_inv_exec:
  assumes inv: "wait_inv waiters thr s" and f: "pcs s f = Ready c"
    and x: "sec c (MakeCurrentWaiter f (thr f)) (prim s) = (m, ws, v)"
    and s': "prim s' = m" "pcs s' = (pcs s)(f := Notifying ws v)"
      "notified s' = (case v of Wait _ \<Rightarrow> (notified s)(f := False) | _ \<Rightarrow> notified s)"
  shows "wait_inv waiters thr s'"
proof -
  note P = exec_places [OF inv f x s'(1,2)]
  let ?w = "MakeCurrentWaiter f (thr f)" and ?new = "\<lambda>p. p = None \<or> p = Some f"
  have new: "g \<in> set (fibers_at waiters s None) \<or> (g = f \<and> (\<exists>c. v = Wait c))"
    if "?new p" "g \<in> set (fibers_at waiters s' p)" for g p
  proof -
    from that s' have "g \<in> w_fiber ` (set ws \<union> set (waiters m))" by (auto simp: fibers_at_def)
    then show ?thesis unfolding P(2) by (cases v) (auto simp: fibers_at_def)
  qed
  have old: "fibers_at waiters s' p = fibers_at waiters s p" if "\<not> ?new p" for p
    using P(3) [of p] that by (simp add: fibers_at_def)
  have gone: "fibers_at waiters s (Some f) = []" by (simp add: fibers_at_def f)
  have nt: "g \<noteq> f \<Longrightarrow> notified s' g = notified s g" for g
    by (cases v) (simp_all add: s')
  have "distinct (fibers_at waiters s' p)" for p
    using P(1) old [of p] wait_invD(1) [OF inv, of p] by (cases "?new p") (auto simp: fibers_at_def s')
  moreover have "p = q" if "g \<in> set (fibers_at waiters s' p)" "g \<in> set (fibers_at waiters s' q)" for g p q
  proof (cases "?new p \<longleftrightarrow> ?new q")
    case True
    show ?thesis
    proof (cases "?new p")
      case t: True
      have dj: "w_fiber x \<noteq> w_fiber y" if "x \<in> set ws" "y \<in> set (waiters m)" for x y
      proof -
        have "w_fiber ` set ws \<inter> w_fiber ` set (waiters m) = {}" using P(1) by simp
        with that show ?thesis by (metis disjoint_iff imageI)
      qed
      with t True that show ?thesis by (auto simp: fibers_at_def s' dj dj [symmetric])
    next
      case False
      with True that wait_invD(2) [OF inv] show ?thesis by (simp add: old)
    qed
  next
    case False
    then show ?thesis using that new [of p g] new [of q g] old [of p] old [of q] P(4)
        wait_invD(2) [OF inv, of g None q] wait_invD(2) [OF inv, of g None p] by metis
  qed
  moreover have "w = MakeCurrentWaiter (w_fiber w) (thr (w_fiber w))"
    if "w \<in> set (held_at waiters s' p)" for w p
  proof (cases "?new p")
    case True
    with that s' have "w \<in> set ws \<union> set (waiters m)" by auto
    then show ?thesis unfolding P(2) using wait_invD(3) [OF inv, of w None]
      by (cases v) auto
  next
    case False
    with that wait_invD(3) [OF inv, of w p] P(3) [of p] show ?thesis by auto
  qed
  moreover have "waits (pcs s' g) \<and> \<not> notified s' g" if "g \<in> set (fibers_at waiters s' p)" for g p
  proof (cases "g = f")
    case True
    with that new [of p f] old [of p] P(4) have "\<exists>c. v = Wait c" by metis
    then show ?thesis using True s' by auto
  next
    case False
    with that new [of p g] old [of p] have "\<exists>p. g \<in> set (fibers_at waiters s p)" by metis
    then show ?thesis using wait_invD(4,5) [OF inv, of g] False nt [of g] by (auto simp: s')
  qed
  moreover have "\<exists>p. g \<in> set (fibers_at waiters s' p)"
    if w: "waits (pcs s' g)" "\<not> notified s' g" for g
  proof -
    have keep: "\<exists>p. g \<in> set (fibers_at waiters s' p)"
      if "g \<in> w_fiber ` (set (waiters (prim s)) \<union> set (enlists v ?w))"
    proof -
      from that have "g \<in> w_fiber ` (set ws \<union> set (waiters m))" by (simp only: P(2))
      then have "g \<in> set (fibers_at waiters s' None) \<or> g \<in> set (fibers_at waiters s' (Some f))"
        by (auto simp: fibers_at_def s')
      then show ?thesis by blast
    qed
    show ?thesis
    proof (cases "g = f")
      case True
      with w obtain c where "v = Wait c" by (auto simp: s' waits_Notifying)
      then show ?thesis using keep True by simp
    next
      case False
      with w nt obtain p where p: "g \<in> set (fibers_at waiters s p)"
        using wait_invD(6) [OF inv, of g] by (auto simp: s')
      show ?thesis
      proof (cases p)
        case None
        with p keep show ?thesis by (auto simp: fibers_at_def)
      next
        case (Some h)
        with p gone have "h \<noteq> f" by auto
        with p Some old [of p] have "g \<in> set (fibers_at waiters s' (Some h))" by simp
        then show ?thesis by blast
      qed
    qed
  qed
  moreover have "valid_fid g" if "pcs s' g \<noteq> Idle" for g
    using wait_invD(7) [OF inv, of g] that f by (cases "g = f") (auto simp: s')
  ultimately show ?thesis unfolding wait_inv_def by blast
qed

lemma wait_inv_step:
  assumes "mon_step entry sec thr s s'" and inv: "wait_inv waiters thr s"
  shows "wait_inv waiters thr s'"
  using assms(1)
proof (cases rule: mon_step_view)
  case stutter
  then show ?thesis
    using inv by (simp add: wait_inv_def fibers_at_def held_at_def cong: option.case_cong)
next
  case (invoke f c)
  then show ?thesis by (intro wait_inv_frame [OF inv, of s' f "Ready c"]) simp_all
next
  case (exec f c m ws v)
  then show ?thesis by (intro wait_inv_exec [OF inv]) simp_all
next
  case (store f w ws v)
  then show ?thesis by (intro wait_inv_store [OF inv]) simp_all
next
  case (return f r)
  then show ?thesis using wait_invD(7) [OF inv, of f]
    by (intro wait_inv_frame [OF inv, of s' f Idle]) simp_all
next
  case (move f p)
  show ?thesis
  proof (rule wait_inv_frame [OF inv move(2-4)])
    show "valid_fid f" using move(1) wait_invD(7) [OF inv, of f] by (auto elim: movesE)
  qed (use move in \<open>auto elim!: movesE simp: waits_Notifying waits_Waking\<close>)
qed

lemma wait_inv_reach:
  assumes "mon_reach entry sec thr m0 s" and "waiters m0 = []"
  shows "wait_inv waiters thr s"
  using assms(1)
proof induction
  case (start r)
  let ?s = "init_sys m0 r :: ('m, 'c, 'r) sys"
  have h: "held_at waiters ?s p = []" for p
    using assms(2) by (cases p) (simp_all add: init_sys_def)
  have "pcs ?s f = Idle" for f by (simp add: init_sys_def)
  with h show ?case by (simp add: wait_inv_def fibers_at_def)
next
  case (step s s')
  then show ?case by (rule_tac wait_inv_step)
qed

end

text \<open>
  Nothing is running, queued or in flight: every fiber is outside the primitive or switched
  out inside it.
\<close>

definition quiet :: "('m, 'c, 'r) sys \<Rightarrow> bool" where
  "quiet s \<longleftrightarrow> (\<forall>f. pcs s f = Idle \<or> (\<exists>c. pcs s f = Parked c)) \<and> inflight s = [] \<and>
     (\<exists>q. sref s = Some q \<and> m_tasks q = [])"

lemma wake_inv_reach: "mon_reach entry sec thr m0 s \<Longrightarrow> wake_inv s"
proof (induction rule: mon_reach.induct)
  case (start r)
  show ?case by (simp add: wake_inv_def init_sys_def)
qed (rule wake_inv_step)

lemma quiet_not_notified:
  assumes "mon_reach entry sec thr m0 s" and "quiet s" and "pcs s f = Parked c"
  shows "\<not> notified s f"
proof
  assume "notified s f"
  with assms wake_invD [OF wake_inv_reach [OF assms(1)], of f c]
  have "wakeup_pending s f \<or> being_woken s f" by (auto simp: quiet_def)
  moreover have "\<not> wakeup_pending s f" using assms(2) by (auto simp: wakeup_pending_def quiet_def)
  moreover have "\<not> being_woken s f" unfolding being_woken_def
  proof (intro notI, elim exE conjE)
    fix g w ws v assume "pcs s g = Waking w ws v"
    moreover have "pcs s g = Idle \<or> (\<exists>c. pcs s g = Parked c)" using assms(2) by (simp add: quiet_def)
    ultimately show False by auto
  qed
  ultimately show False by blast
qed

context monitor
begin

text \<open>
  The contract's consequence for the clients: in a quiet state whoever is switched out inside
  the primitive stands in its queue.
\<close>

lemma quiet_queued:
  assumes r: "mon_reach entry sec thr m0 s" "waiters m0 = []" and q: "quiet s" "pcs s f = Parked c"
  shows "f \<in> w_fiber ` set (waiters (prim s))"
proof -
  have "waits (pcs s f)" using q by simp
  then obtain p where p: "f \<in> set (fibers_at waiters s p)"
    using wait_invD(6) [OF wait_inv_reach [OF r]] quiet_not_notified [OF r(1) q] by blast
  have "to_notify (pcs s g) = []" for g using q(1) unfolding quiet_def by (metis to_notify.simps)
  with p show ?thesis by (cases p) (auto simp: fibers_at_def)
qed

end

section \<open>Active fibers\<close>

text \<open>
  A fiber is active for a kind \<open>P\<close> of sections when it is about to run one: it stands before
  it, or it waits for one and is no longer in the queue, so somebody has popped it.
\<close>

definition active ::
    "('m \<Rightarrow> waiter list) \<Rightarrow> ('c \<Rightarrow> bool) \<Rightarrow> ('m, 'c, 'r) sys \<Rightarrow> fid set" where
  "active waiters P s = {f. \<exists>c. P c \<and> (pcs s f = Ready c \<or>
     awaited (pcs s f) = Some c \<and> f \<notin> w_fiber ` set (waiters (prim s)))}"

lemma finite_busy: "mon_reach entry sec thr m0 s \<Longrightarrow> finite {f. pcs s f \<noteq> Idle}"
proof (induction rule: mon_reach.induct)
  case (start r)
  show ?case by (simp add: init_sys_def)
next
  case (step s s')
  from step.hyps(2) show ?case
  proof (cases rule: mon_step_view)
    case stutter
    with step.IH show ?thesis by simp
  qed (rule finite_subset [OF _ finite.insertI [OF step.IH]], auto)+
qed

lemma finite_active:
  assumes "mon_reach entry sec thr m0 s"
  shows "finite (active waiters P s)"
  by (rule finite_subset [OF _ finite_busy [OF assms]]) (auto simp: active_def)

lemma active_quiet:
  assumes "quiet s" and "\<And>f c. pcs s f = Parked c \<Longrightarrow> f \<in> w_fiber ` set (waiters (prim s))"
  shows "active waiters P s = {}"
proof -
  have "f \<notin> active waiters P s" for f
  proof -
    have "pcs s f = Idle \<or> (\<exists>c. pcs s f = Parked c)" using assms(1) by (simp add: quiet_def)
    then show ?thesis using assms(2) [of f] by (auto simp: active_def)
  qed
  then show ?thesis by blast
qed

context monitor
begin

text \<open>
  The effect of a section on the active fibers: the runner leaves, the fibers it popped join.
\<close>

lemma active_exec:
  assumes inv: "wait_inv waiters thr s" and g: "pcs s g = Ready c"
    and x: "sec c (MakeCurrentWaiter g (thr g)) (prim s) = (m, ws, v)"
    and s': "prim s' = m" "pcs s' = (pcs s)(g := Notifying ws v)"
    and v: "\<forall>w \<in> set (enlists v (MakeCurrentWaiter g (thr g))). w \<in> set (waiters m)"
  shows "active waiters P s' =
    (active waiters P s - {g}) \<union>
    {f \<in> w_fiber ` set ws. \<exists>c. P c \<and> awaited (pcs s f) = Some c}"
proof -
  note E = exec_places [OF inv g x s'(1,2)]
  have ng: "g \<notin> w_fiber ` set (waiters (prim s))"
    using E(4) [of None] by (simp add: fibers_at_def)
  have split: "f \<in> w_fiber ` set (waiters (prim s)) \<longleftrightarrow>
      f \<in> w_fiber ` set (waiters m) \<or> f \<in> w_fiber ` set ws" if "f \<noteq> g" for f
  proof -
    have "f \<in> w_fiber ` (set ws \<union> set (waiters m)) \<longleftrightarrow>
        f \<in> w_fiber ` (set (waiters (prim s)) \<union> set (enlists v (MakeCurrentWaiter g (thr g))))"
      by (simp only: E(2))
    with that show ?thesis by (cases v) (auto simp: image_Un)
  qed
  have dj: "f \<in> w_fiber ` set ws \<Longrightarrow> f \<notin> w_fiber ` set (waiters m)" for f
    using E(1) by (simp add: disjoint_iff)
  have gws: "g \<notin> w_fiber ` set ws"
  proof
    assume a: "g \<in> w_fiber ` set ws"
    then have "g \<in> w_fiber ` (set ws \<union> set (waiters m))" by blast
    with E(2) ng have "g \<in> w_fiber ` set (enlists v (MakeCurrentWaiter g (thr g)))"
      by (simp add: image_Un)
    with v have "g \<in> w_fiber ` set (waiters m)" by blast
    with dj [OF a] show False by simp
  qed
  have gv: "awaited (Notifying ws v) = Some c' \<Longrightarrow> g \<in> w_fiber ` set (waiters m)" for c'
    using v by (cases v) (auto intro!: image_eqI [of g w_fiber "MakeCurrentWaiter g (thr g)"])
  show ?thesis
  proof (intro set_eqI)
    fix f
    show "f \<in> active waiters P s' \<longleftrightarrow> f \<in> (active waiters P s - {g}) \<union>
        {f \<in> w_fiber ` set ws. \<exists>c. P c \<and> awaited (pcs s f) = Some c}"
    proof (cases "f = g")
      case True
      with gv gws show ?thesis by (auto simp: active_def s')
    next
      case False
      with split [OF False] dj [of f] show ?thesis by (auto simp: active_def s')
    qed
  qed
qed

text \<open>
  Every other step leaves the primitive alone, keeps the active fibers active and keeps what
  the queued fibers wait for.
\<close>

lemma step_exec_or_other [consumes 2, case_names exec other]:
  assumes "mon_step entry sec thr s s'" and inv: "wait_inv waiters thr s"
  obtains f c m ws v where "pcs s f = Ready c"
      "sec c (MakeCurrentWaiter f (thr f)) (prim s) = (m, ws, v)" "prim s' = m"
      "pcs s' = (pcs s)(f := Notifying ws v)"
      "notified s' = (case v of Wait _ \<Rightarrow> (notified s)(f := False) | _ \<Rightarrow> notified s)"
      "hist s' = hist s @ [Exec f c ws v]"
  | "prim s' = prim s" "\<And>P. active waiters P s \<subseteq> active waiters P s'"
      "\<And>f c. f \<in> w_fiber ` set (waiters (prim s)) \<Longrightarrow> awaited (pcs s f) = Some c \<Longrightarrow>
        awaited (pcs s' f) = Some c"
  using assms(1)
proof (cases rule: mon_step_view)
  case stutter
  then show ?thesis by (intro that(2)) (simp_all add: active_def)
next
  case (invoke f c)
  then show ?thesis by (intro that(2)) (auto simp: active_def)
next
  case (exec f c m ws v)
  then show ?thesis by (intro that(1)) simp_all
next
  case (store g w ws v)
  have "awaited (pcs s' f) = awaited (pcs s f)" "pcs s' f = Ready c \<longleftrightarrow> pcs s f = Ready c" for f c
    using store by (simp_all add: awaited_verdict)
  with store(2) show ?thesis by (intro that(2)) (simp_all add: active_def)
next
  case (return g r)
  then show ?thesis by (intro that(2)) (auto simp: active_def)
next
  case (move g p)
  show ?thesis
  proof (rule that(2) [OF move(2)])
    fix P
    have "pcs s g \<noteq> Ready c" for c using move(1) by (auto elim!: movesE)
    moreover have "p = Ready c \<or> awaited p = Some c" if "awaited (pcs s g) = Some c" for c
      using move(1) that by (auto elim!: movesE simp: awaited_verdict)
    ultimately show "active waiters P s \<subseteq> active waiters P s'"
      unfolding active_def move(2,3) by fastforce
  next
    fix f c assume f: "f \<in> w_fiber ` set (waiters (prim s))" "awaited (pcs s f) = Some c"
    then have "\<not> notified s f" using wait_invD(5) [OF inv, of f None] by (auto simp: fibers_at_def)
    with move(1) f(2) show "awaited (pcs s' f) = Some c"
      by (auto simp: move(3) awaited_verdict elim!: movesE)
  qed
qed

end

section \<open>First in, first out\<close>

text \<open>The waiters that entered the queue and the waiters that were popped, in their order.\<close>

fun queued_by :: "(fid \<Rightarrow> int) \<Rightarrow> ('c, 'r) event list \<Rightarrow> waiter list" where
  "queued_by thr [] = []"
| "queued_by thr (Exec f c ws v # h) = enlists v (MakeCurrentWaiter f (thr f)) @ queued_by thr h"
| "queued_by thr (Inv f c # h) = queued_by thr h"
| "queued_by thr (Res f r # h) = queued_by thr h"

fun popped_by :: "('c, 'r) event list \<Rightarrow> waiter list" where
  "popped_by [] = []"
| "popped_by (Exec f c ws v # h) = ws @ popped_by h"
| "popped_by (Inv f c # h) = popped_by h"
| "popped_by (Res f r # h) = popped_by h"

lemma queued_by_append [simp]: "queued_by thr (h @ k) = queued_by thr h @ queued_by thr k"
  by (induction thr h rule: queued_by.induct) simp_all

lemma popped_by_append [simp]: "popped_by (h @ k) = popped_by h @ popped_by k"
  by (induction h rule: popped_by.induct) simp_all

text \<open>A primitive with one queue, popped at the front and pushed at the back.\<close>

locale fifo_monitor =
  fixes sec :: "('m, 'c, 'r) sections" and waiters :: "'m \<Rightarrow> waiter list"
  assumes fifo: "sec c w m = (m', ws, v) \<Longrightarrow> waiters m @ enlists v w = ws @ waiters m'"
begin

lemma replay_fifo:
  assumes "replay sec thr m0 h = Some m" and "waiters m0 = []"
  shows "queued_by thr h = popped_by h @ waiters m"
  using assms(1)
proof (induction rule: replay_induct)
  case (exec h m f c ws v m')
  from fifo [OF exec.hyps(2)] exec.IH show ?case by simp
qed (simp_all add: assms(2))

end

sublocale fifo_monitor \<subseteq> monitor
proof
  fix c w m m' ws v assume "sec c w m = (m', ws, v)"
  from arg_cong [OF fifo [OF this], of mset]
  show "mset ws + mset (waiters m') = mset (waiters m) + mset (enlists v w)" by simp
qed

end
