(* ===== verification/Co_Mutex.thy ===== *)
theory Co_Mutex
  imports Sync_Wait
begin

text \<open>
  \<^verbatim>\<open>CoMutex\<close> (include/mycoroutine/sync.h): its fields, the critical sections of \<^verbatim>\<open>lock\<close>,
  \<^verbatim>\<open>tryLock\<close> and \<^verbatim>\<open>unlock\<close>, and what they give over every interleaving of fibers on the
  waiting protocol of \<open>Sync_Wait\<close>: mutual exclusion, direct hand-off in first-come order, and
  no fiber left waiting for a free mutex.
\<close>

section \<open>State and sections\<close>

record CoMutex =
  m_locked :: bool
  m_ownerFiberId :: u64
  m_waiters :: "waiter list"

definition kNoOwner :: u64 where
  "kNoOwner = - 1"

definition init_CoMutex :: CoMutex where
  "init_CoMutex = \<lparr>m_locked = False, m_ownerFiberId = kNoOwner, m_waiters = []\<rparr>"

text \<open>
  The loop body of \<^verbatim>\<open>lock\<close> has two critical sections: \<open>Lock\<close> before the suspension and
  \<open>LockRecheck\<close> after it.
\<close>

datatype mutex_call = Lock | LockRecheck | TryLock | Unlock

datatype mutex_ret = Locked | Tried bool | Unlocked

fun mutex_entry :: "mutex_call \<Rightarrow> bool" where
  "mutex_entry LockRecheck = False"
| "mutex_entry _ = True"

fun mutex_sec :: "(CoMutex, mutex_call, mutex_ret) sections" where
  "mutex_sec Lock w m =
     (if \<not> m_locked m
      then (m\<lparr>m_locked := True, m_ownerFiberId := fiber_id (w_fiber w)\<rparr>, [], Return Locked)
      else (m\<lparr>m_waiters := m_waiters m @ [w]\<rparr>, [], Wait LockRecheck))"
| "mutex_sec LockRecheck w m =
     (if m_ownerFiberId m = fiber_id (w_fiber w) then (m, [], Return Locked)
      else (m, [], Again Lock))"
| "mutex_sec TryLock w m =
     (if m_locked m then (m, [], Return (Tried False))
      else (m\<lparr>m_locked := True, m_ownerFiberId := fiber_id (w_fiber w)\<rparr>, [],
            Return (Tried True)))"
| "mutex_sec Unlock w m =
     (if \<not> m_locked m then (m, [], Abort Assertion_Failed)
      else if m_ownerFiberId m \<noteq> fiber_id (w_fiber w) then (m, [], Abort Assertion_Failed)
      else case PopWaiterFront (m_waiters m) of
             (None, queue) \<Rightarrow>
               (m\<lparr>m_waiters := queue, m_locked := False, m_ownerFiberId := kNoOwner\<rparr>, [],
                Return Unlocked)
           | (Some next_waiter, queue) \<Rightarrow>
               (m\<lparr>m_waiters := queue, m_ownerFiberId := fiber_id (w_fiber next_waiter)\<rparr>,
                [next_waiter], Return Unlocked))"

interpretation comutex: fifo_monitor mutex_sec m_waiters
proof
  fix c w m m' ws v
  assume "mutex_sec c w m = (m', ws, v)"
  then show "m_waiters m @ enlists v w = ws @ m_waiters m'"
    by (cases c; cases "m_waiters m") (auto split: if_splits)
qed

abbreviation mutex_reach :: "(fid \<Rightarrow> int) \<Rightarrow> (CoMutex, mutex_call, mutex_ret) sys \<Rightarrow> bool" where
  "mutex_reach thr \<equiv> mon_reach mutex_entry mutex_sec thr init_CoMutex"

section \<open>Who holds the mutex\<close>

text \<open>
  Read from the history, as the callers see it: from the return of a successful \<^verbatim>\<open>lock\<close> or
  \<^verbatim>\<open>tryLock\<close> to the call of \<^verbatim>\<open>unlock\<close>.
\<close>

fun hold_step :: "fid set \<Rightarrow> (mutex_call, mutex_ret) event \<Rightarrow> fid set" where
  "hold_step S (Res f Locked) = insert f S"
| "hold_step S (Res f (Tried True)) = insert f S"
| "hold_step S (Inv f Unlock) = S - {f}"
| "hold_step S _ = S"

definition holders :: "(mutex_call, mutex_ret) event list \<Rightarrow> fid set" where
  "holders h = foldl hold_step {} h"

lemma holders_snoc [simp]: "holders (h @ [e]) = hold_step (holders h) e"
  by (simp add: holders_def)

lemma holders_Nil [simp]: "holders [] = {}"
  by (simp add: holders_def)

text \<open>Every way in which a fiber holds the mutex or is already its next owner.\<close>

definition claims :: "(CoMutex, mutex_call, mutex_ret) sys \<Rightarrow> fid \<Rightarrow> bool" where
  "claims s f \<longleftrightarrow> f \<in> holders (hist s) \<or> verdict_of (pcs s f) = Some (Return Locked) \<or>
     verdict_of (pcs s f) = Some (Return (Tried True)) \<or>
     (\<exists>g. f \<in> w_fiber ` set (to_notify (pcs s g))) \<or>
     waits (pcs s f) \<and> notified s f \<or> pcs s f = Ready LockRecheck"

definition mutex_inv :: "(CoMutex, mutex_call, mutex_ret) sys \<Rightarrow> bool" where
  "mutex_inv s \<longleftrightarrow>
     (\<forall>f. claims s f \<longrightarrow> m_locked (prim s) \<and> m_ownerFiberId (prim s) = fiber_id f \<and> valid_fid f) \<and>
     (\<not> m_locked (prim s) \<longrightarrow> m_waiters (prim s) = []) \<and>
     (m_locked (prim s) \<longrightarrow> (\<exists>f. valid_fid f \<and> m_ownerFiberId (prim s) = fiber_id f \<and>
        (claims s f \<or> pcs s f = Ready Unlock))) \<and>
     (\<forall>f c. awaited (pcs s f) = Some c \<longrightarrow> c = LockRecheck) \<and>
     (\<forall>f c. verdict_of (pcs s f) \<noteq> Some (Again c)) \<and>
     (\<forall>f. pcs s f = Ready Unlock \<longrightarrow> f \<notin> holders (hist s))"

lemma mutex_invD:
  assumes "mutex_inv s"
  shows "claims s f \<Longrightarrow> m_locked (prim s)"
    and "claims s f \<Longrightarrow> m_ownerFiberId (prim s) = fiber_id f"
    and "claims s f \<Longrightarrow> valid_fid f"
    and "\<not> m_locked (prim s) \<Longrightarrow> m_waiters (prim s) = []"
    and "m_locked (prim s) \<Longrightarrow> \<exists>f. valid_fid f \<and> m_ownerFiberId (prim s) = fiber_id f \<and>
      (claims s f \<or> pcs s f = Ready Unlock)"
    and "awaited (pcs s f) = Some c \<Longrightarrow> c = LockRecheck"
    and "verdict_of (pcs s f) \<noteq> Some (Again c)"
    and "pcs s f = Ready Unlock \<Longrightarrow> f \<notin> holders (hist s)"
  using assms unfolding mutex_inv_def by blast+

text \<open>A step that changes neither the mutex nor who claims it.\<close>

lemma mutex_inv_frame:
  assumes inv: "mutex_inv s" and p: "prim s' = prim s" "pcs s' = (pcs s)(g := p)"
    and cl: "\<And>f. claims s' f = claims s f"
    and q: "pcs s g \<noteq> Ready Unlock" "p \<noteq> Ready Unlock"
      "\<And>c. awaited p = Some c \<Longrightarrow> awaited (pcs s g) = Some c"
      "\<And>v. verdict_of p = Some v \<Longrightarrow> verdict_of (pcs s g) = Some v"
    and h: "\<And>f. f \<noteq> g \<Longrightarrow> f \<in> holders (hist s') \<longleftrightarrow> f \<in> holders (hist s)"
  shows "mutex_inv s'"
proof -
  have "claims s' f \<Longrightarrow> m_locked (prim s') \<and> m_ownerFiberId (prim s') = fiber_id f \<and> valid_fid f" for f
    using mutex_invD(1-3) [OF inv, of f] by (simp add: cl p)
  moreover have "\<not> m_locked (prim s') \<Longrightarrow> m_waiters (prim s') = []"
    using mutex_invD(4) [OF inv] by (simp add: p)
  moreover have "\<exists>f. valid_fid f \<and> m_ownerFiberId (prim s') = fiber_id f \<and>
      (claims s' f \<or> pcs s' f = Ready Unlock)" if "m_locked (prim s')"
    using mutex_invD(5) [OF inv] that q(1) by (auto simp: cl p)
  moreover have "c = LockRecheck" if "awaited (pcs s' f) = Some c" for f c
    using that mutex_invD(6) [OF inv, of f c] mutex_invD(6) [OF inv, of g c] q(3) [of c]
    by (auto simp: p split: if_splits)
  moreover have "verdict_of (pcs s' f) \<noteq> Some (Again c)" for f c
    using mutex_invD(7) [OF inv, of f c] q(4) [of "Again c"] by (auto simp: p)
  moreover have "f \<notin> holders (hist s')" if "pcs s' f = Ready Unlock" for f
    using that mutex_invD(8) [OF inv, of f] q(2) h [of f] by (auto simp: p split: if_splits)
  ultimately show ?thesis unfolding mutex_inv_def by blast
qed

lemma claims_exec:
  assumes "wait_inv m_waiters thr s" and g: "pcs s g = Ready c"
    and s': "pcs s' = (pcs s)(g := Notifying ws v)"
      "notified s' = (case v of Wait _ \<Rightarrow> (notified s)(g := False) | _ \<Rightarrow> notified s)"
      "hist s' = hist s @ [Exec g c ws v]"
  shows "claims s' f \<Longrightarrow> f \<noteq> g \<Longrightarrow> claims s f \<or> f \<in> w_fiber ` set ws"
    and "claims s f \<Longrightarrow> f \<noteq> g \<Longrightarrow> claims s' f"
    and "claims s' g \<longleftrightarrow> g \<in> holders (hist s) \<or> v = Return Locked \<or> v = Return (Tried True) \<or>
      g \<in> w_fiber ` set ws"
    and "f \<in> w_fiber ` set ws \<Longrightarrow> claims s' f"
proof -
  have ng: "g \<notin> w_fiber ` set (to_notify (pcs s h))" for h
    using wait_invD(4) [OF assms(1), of g "Some h"] g by (auto simp: fibers_at_def)
  have tn: "to_notify (pcs s' h) = (if h = g then ws else to_notify (pcs s h))" for h
    by (simp add: s')
  have nt: "h \<noteq> g \<Longrightarrow> notified s' h = notified s h" for h
    by (cases v) (simp_all add: s')
  have hs: "holders (hist s') = holders (hist s)" by (simp add: s')
  have pc: "h \<noteq> g \<Longrightarrow> pcs s' h = pcs s h" for h by (simp add: s')
  show "claims s' f \<Longrightarrow> f \<noteq> g \<Longrightarrow> claims s f \<or> f \<in> w_fiber ` set ws"
    unfolding claims_def by (auto simp: tn nt hs pc split: if_splits)
  show "claims s f \<Longrightarrow> f \<noteq> g \<Longrightarrow> claims s' f"
    unfolding claims_def tn hs using g by (auto simp: nt pc) (metis image_eqI empty_iff list.set(1) to_notify.simps(4))+
  show "f \<in> w_fiber ` set ws \<Longrightarrow> claims s' f"
    unfolding claims_def tn by auto
  show "claims s' g \<longleftrightarrow> g \<in> holders (hist s) \<or> v = Return Locked \<or> v = Return (Tried True) \<or>
      g \<in> w_fiber ` set ws"
    unfolding claims_def tn hs using ng
    by (cases v) (auto simp: s' split: if_splits)
qed

lemma mutex_inv_exec:
  assumes W: "wait_inv m_waiters thr s" and inv: "mutex_inv s" and g: "pcs s g = Ready c"
    and x: "mutex_sec c (MakeCurrentWaiter g (thr g)) (prim s) = (m, ws, v)"
    and s': "prim s' = m" "pcs s' = (pcs s)(g := Notifying ws v)"
      "notified s' = (case v of Wait _ \<Rightarrow> (notified s)(g := False) | _ \<Rightarrow> notified s)"
      "hist s' = hist s @ [Exec g c ws v]"
  shows "mutex_inv s'"
proof -
  note C = claims_exec [OF W g s'(2-4)]
  have hs: "holders (hist s') = holders (hist s)" by (simp add: s')
  have vg: "valid_fid g" using wait_invD(7) [OF W, of g] g by simp
  have "g \<notin> w_fiber ` set (to_notify (pcs s h))" for h
    using wait_invD(4) [OF W, of g "Some h"] g by (auto simp: fibers_at_def)
  then have cg: "claims s g \<longleftrightarrow> g \<in> holders (hist s) \<or> c = LockRecheck"
    unfolding claims_def using g by simp
  have own: "claims s f \<Longrightarrow> m_ownerFiberId (prim s) = fiber_id g \<Longrightarrow> f = g" for f
    using mutex_invD(2,3) [OF inv, of f] vg by (simp add: fiber_id_inj)
  have aw: "awaited (Notifying ws v) = Some a \<Longrightarrow> a = LockRecheck" for a
    using x by (cases c) (auto split: if_splits option.splits prod.splits)
  have rest1: "awaited (pcs s' f) = Some a \<Longrightarrow> a = LockRecheck" for f a
    using aw mutex_invD(6) [OF inv, of f a] by (auto simp: s' split: if_splits)
  have ru: "pcs s' f = Ready Unlock \<Longrightarrow> f \<notin> holders (hist s')" for f
    using mutex_invD(8) [OF inv, of f] by (auto simp: s' split: if_splits)
  have rest2: "verdict_of (pcs s' f) \<noteq> Some (Again a)" if "v \<noteq> Again a" for f a
    using that mutex_invD(7) [OF inv, of f a] by (auto simp: s')
  have goal: "mutex_inv s'"
    if A: "\<And>f. claims s' f \<Longrightarrow> m_locked m \<and> m_ownerFiberId m = fiber_id f \<and> valid_fid f"
      and B: "\<not> m_locked m \<Longrightarrow> m_waiters m = []"
      and D: "m_locked m \<Longrightarrow> \<exists>f. valid_fid f \<and> m_ownerFiberId m = fiber_id f \<and>
        (claims s' f \<or> pcs s' f = Ready Unlock)"
      and V: "\<And>a. v \<noteq> Again a"
    unfolding mutex_inv_def s'(1) using A B D rest1 ru rest2 [OF V] by blast
  have keep_owner: "\<exists>f. valid_fid f \<and> m_ownerFiberId (prim s) = fiber_id f \<and>
      (claims s' f \<or> pcs s' f = Ready Unlock)"
    if "m_locked (prim s)" "c \<noteq> Unlock" "claims s g \<longrightarrow> claims s' g"
  proof -
    from mutex_invD(5) [OF inv that(1)] obtain f where f: "valid_fid f"
      "m_ownerFiberId (prim s) = fiber_id f" "claims s f \<or> pcs s f = Ready Unlock" by blast
    have "claims s' f \<or> pcs s' f = Ready Unlock"
      using f(3) that(2,3) g C(2) [of f] by (cases "f = g") (auto simp: s')
    with f show ?thesis by blast
  qed
  have keep: "mutex_inv s'" if "m_locked m \<and> m_ownerFiberId m = m_ownerFiberId (prim s)"
    "m_locked (prim s)" "c \<noteq> Unlock" "ws = []"
    "claims s' g \<longleftrightarrow> claims s g" "\<And>a. v \<noteq> Again a"
  proof (rule goal)
    fix f assume "claims s' f"
    then have "claims s f" using C(1) [of f] that(4,5) by (cases "f = g") auto
    then show "m_locked m \<and> m_ownerFiberId m = fiber_id f \<and> valid_fid f"
      using mutex_invD(1-3) [OF inv, of f] that(1) by simp
  next
    assume "\<not> m_locked m"
    then show "m_waiters m = []" using that(1) by simp
  next
    show "\<exists>f. valid_fid f \<and> m_ownerFiberId m = fiber_id f \<and>
        (claims s' f \<or> pcs s' f = Ready Unlock)"
      unfolding conjunct2 [OF that(1)]
      by (rule keep_owner [OF that(2,3)]) (simp only: that(5) simp_thms)
  qed (rule that(6))
  show ?thesis
  proof (cases c)
    case Lock
    show ?thesis
    proof (cases "m_locked (prim s)")
      case True
      with x Lock have r: "m = (prim s)\<lparr>m_waiters := m_waiters (prim s) @ [MakeCurrentWaiter g (thr g)]\<rparr>"
        "ws = []" "v = Wait LockRecheck" by auto
      have "claims s' g \<longleftrightarrow> claims s g"
        using C(3) cg r Lock by simp
      with True r Lock show ?thesis by (intro keep) simp_all
    next
      case False
      with x Lock have r: "m = (prim s)\<lparr>m_locked := True, m_ownerFiberId := fiber_id g\<rparr>"
        "ws = []" "v = Return Locked" by auto
      have "claims s' f \<longleftrightarrow> f = g" for f
        using C(1) [of f] C(3) r mutex_invD(1) [OF inv, of f] False by (cases "f = g") auto
      with r vg show ?thesis by (intro goal) auto
    qed
  next
    case LockRecheck
    have cl: "claims s g" using LockRecheck by (simp add: cg)
    with mutex_invD(1,2) [OF inv this] x LockRecheck have r: "m = prim s" "ws = []"
      "v = Return Locked" by auto
    then show ?thesis using cl mutex_invD(1) [OF inv cl] C(3) LockRecheck by (intro keep) simp_all
  next
    case TryLock
    show ?thesis
    proof (cases "m_locked (prim s)")
      case True
      with x TryLock have r: "m = prim s" "ws = []" "v = Return (Tried False)" by auto
      have "claims s' g \<longleftrightarrow> claims s g"
        using C(3) cg r TryLock by simp
      with True r TryLock show ?thesis by (intro keep) simp_all
    next
      case False
      with x TryLock have r: "m = (prim s)\<lparr>m_locked := True, m_ownerFiberId := fiber_id g\<rparr>"
        "ws = []" "v = Return (Tried True)" by auto
      have "claims s' f \<longleftrightarrow> f = g" for f
        using C(1) [of f] C(3) r mutex_invD(1) [OF inv, of f] False by (cases "f = g") auto
      with r vg show ?thesis by (intro goal) auto
    qed
  next
    case Unlock
    have no: "g \<notin> holders (hist s)" using mutex_invD(8) [OF inv] g Unlock by simp
    have cs: "claims s' f \<Longrightarrow> f \<in> w_fiber ` set ws"
      if "m_ownerFiberId (prim s) = fiber_id g" "v = Return Unlocked" for f
      using C(1) [of f] C(3) own [of f] that no by (cases "f = g") auto
    show ?thesis
    proof (cases "\<not> m_locked (prim s) \<or> m_ownerFiberId (prim s) \<noteq> fiber_id g")
      case True
      with x Unlock have r: "m = prim s" "ws = []" "v = Abort Assertion_Failed"
        by (auto split: if_splits)
      have "claims s' f \<Longrightarrow> claims s f" for f
        using C(1) [of f] C(3) no r by (cases "f = g") auto
      moreover have "\<exists>f. valid_fid f \<and> m_ownerFiberId m = fiber_id f \<and>
          (claims s' f \<or> pcs s' f = Ready Unlock)" if "m_locked m"
      proof -
        from mutex_invD(5) [OF inv] that r obtain f where f: "valid_fid f"
          "m_ownerFiberId (prim s) = fiber_id f" "claims s f \<or> pcs s f = Ready Unlock" by blast
        with True that r have "f \<noteq> g" by auto
        with f C(2) [of f] r show ?thesis by (auto simp: s')
      qed
      ultimately show ?thesis using r mutex_invD(1-4) [OF inv] by (intro goal) auto
    next
      case False
      show ?thesis
      proof (cases "m_waiters (prim s)")
        case Nil
        with False x Unlock have "m = (prim s)\<lparr>m_waiters := [], m_locked := False,
          m_ownerFiberId := kNoOwner\<rparr>" "ws = []" "v = Return Unlocked" by auto
        with cs False show ?thesis by (intro goal) auto
      next
        case (Cons w queue)
        with False x Unlock have r: "m = (prim s)\<lparr>m_waiters := queue,
          m_ownerFiberId := fiber_id (w_fiber w)\<rparr>" "ws = [w]" "v = Return Unlocked" by auto
        have "valid_fid (w_fiber w)"
          using wait_invD(4) [OF W, of "w_fiber w" None] wait_invD(7) [OF W, of "w_fiber w"] Cons
          by (cases "pcs s (w_fiber w) = Idle") (auto simp: fibers_at_def)
        moreover have "claims s' f \<longleftrightarrow> f = w_fiber w" for f
          using cs [of f] C(4) [of f] r False by auto
        ultimately show ?thesis using r False by (intro goal) (simp_all, blast)
      qed
    qed
  qed
qed

lemma mutex_inv_unlock_call:
  assumes inv: "mutex_inv s" and g: "pcs s g = Idle" "valid_fid g"
    and s': "prim s' = prim s" "pcs s' = (pcs s)(g := Ready Unlock)" "notified s' = notified s"
      "hist s' = hist s @ [Inv g Unlock]"
  shows "mutex_inv s'"
proof -
  have tn: "to_notify (pcs s' h) = to_notify (pcs s h)" for h by (simp add: s' g)
  have cl: "claims s' f \<Longrightarrow> claims s f" for f
    unfolding claims_def tn by (auto simp: s' split: if_splits)
  have ex: "claims s f \<Longrightarrow> claims s' f \<or> pcs s' f = Ready Unlock" for f
    unfolding claims_def tn by (auto simp: s' g)
  have "\<exists>f. valid_fid f \<and> m_ownerFiberId (prim s') = fiber_id f \<and>
      (claims s' f \<or> pcs s' f = Ready Unlock)" if "m_locked (prim s')"
  proof -
    from mutex_invD(5) [OF inv] that obtain f where f: "valid_fid f"
      "m_ownerFiberId (prim s) = fiber_id f" "claims s f \<or> pcs s f = Ready Unlock"
      by (auto simp: s')
    with ex [of f] have "claims s' f \<or> pcs s' f = Ready Unlock" by (auto simp: s')
    with f show ?thesis by (auto simp: s'(1))
  qed
  moreover have "claims s' f \<Longrightarrow> m_locked (prim s') \<and> m_ownerFiberId (prim s') = fiber_id f \<and>
      valid_fid f" for f
    using cl mutex_invD(1-3) [OF inv, of f] by (simp add: s'(1))
  moreover have "\<not> m_locked (prim s') \<Longrightarrow> m_waiters (prim s') = []"
    using mutex_invD(4) [OF inv] by (simp add: s'(1))
  moreover have "c = LockRecheck" if "awaited (pcs s' f) = Some c" for f c
    using that mutex_invD(6) [OF inv, of f c] by (auto simp: s' split: if_splits)
  moreover have "verdict_of (pcs s' f) \<noteq> Some (Again c)" for f c
    using mutex_invD(7) [OF inv, of f c] by (auto simp: s')
  moreover have "f \<notin> holders (hist s')" if "pcs s' f = Ready Unlock" for f
    using that mutex_invD(8) [OF inv, of f] by (auto simp: s' split: if_splits)
  ultimately show ?thesis unfolding mutex_inv_def by blast
qed

lemma mutex_inv_step:
  assumes "mon_step mutex_entry mutex_sec thr s s'"
    and W: "wait_inv m_waiters thr s" and inv: "mutex_inv s"
  shows "mutex_inv s'"
  using assms(1)
proof (cases rule: mon_step_view)
  case stutter
  then show ?thesis using inv by (simp add: mutex_inv_def claims_def)
next
  case (invoke g c)
  show ?thesis
  proof (cases "c = Unlock")
    case True
    with invoke show ?thesis by (intro mutex_inv_unlock_call [OF inv]) simp_all
  next
    case False
    have tn: "to_notify (pcs s' h) = to_notify (pcs s h)" for h by (simp add: invoke)
    have hs: "holders (hist s') = holders (hist s)" using False by (cases c) (simp_all add: invoke)
    have "claims s' f = claims s f" for f
      unfolding claims_def tn hs using invoke(1,3) by (auto simp: invoke(5,6))
    with invoke False hs show ?thesis by (intro mutex_inv_frame [OF inv, of s' g "Ready c"]) simp_all
  qed
next
  case (exec g c m ws v)
  then show ?thesis by (intro mutex_inv_exec [OF W inv]) simp_all
next
  case (store g w ws v)
  have w: "waits (pcs s (w_fiber w))"
    using wait_invD(4) [OF W, of "w_fiber w" "Some g"] store(1) by (simp add: fibers_at_def)
  have wt: "waits (pcs s' f) = waits (pcs s f)" for f
    by (simp add: store waits_Notifying waits_Waking)
  have vd: "verdict_of (pcs s' f) = verdict_of (pcs s f)" for f by (simp add: store)
  have rd: "pcs s' f = Ready c \<longleftrightarrow> pcs s f = Ready c" for f c by (simp add: store)
  have tn: "f \<in> w_fiber ` set (to_notify (pcs s h)) \<longleftrightarrow>
      f \<in> w_fiber ` set (to_notify (pcs s' h)) \<or> f = w_fiber w \<and> h = g" for f h
    using store(1) by (auto simp: store(3))
  have "claims s' f = claims s f" for f
    unfolding claims_def wt vd rd tn using w by (auto simp: store(4,5))
  moreover have "awaited (Waking w ws v) = Some c \<Longrightarrow> awaited (Notifying (w # ws) v) = Some c" for c
    by (cases v) simp_all
  ultimately show ?thesis using store
    by (intro mutex_inv_frame [OF inv, of s' g "Waking w ws v"]) simp_all
next
  case (return g r)
  have tn: "to_notify (pcs s' h) = to_notify (pcs s h)" for h by (simp add: return)
  have cl: "claims s' f = claims s f" for f
  proof (cases r)
    case (Tried b)
    then show ?thesis unfolding claims_def tn using return(1) by (cases b) (auto simp: return(3-5))
  next
    case Locked
    then show ?thesis unfolding claims_def tn using return(1) by (auto simp: return(3-5))
  next
    case Unlocked
    then show ?thesis unfolding claims_def tn using return(1) by (auto simp: return(3-5))
  qed
  have "f \<in> holders (hist s') \<longleftrightarrow> f \<in> holders (hist s)" if "f \<noteq> g" for f
  proof (cases r)
    case (Tried b)
    with that show ?thesis by (cases b) (simp_all add: return(5))
  qed (use that in \<open>simp_all add: return(5)\<close>)
  with cl show ?thesis
    using return by (intro mutex_inv_frame [OF inv, of s' g Idle]) simp_all
next
  case (move g p)
  have tn: "to_notify (pcs s' h) = to_notify (pcs s h)" for h
    using move by (auto elim: movesE)
  have aw: "awaited p = Some c \<Longrightarrow> awaited (pcs s g) = Some c" for c
    using move(1) by (auto elim!: movesE elim: awaited.elims)
  have vd: "verdict_of p = Some v \<Longrightarrow> verdict_of (pcs s g) = Some v" for v
    using move(1) by (auto elim!: movesE)
  have na: "pcs s g \<noteq> Notifying [] (Again c)" for c
    using mutex_invD(7) [OF inv, of g c] by auto
  have "waits p \<and> notified s g \<or> p = Ready LockRecheck \<longleftrightarrow>
      waits (pcs s g) \<and> notified s g \<or> pcs s g = Ready LockRecheck"
    and rd: "pcs s g \<noteq> Ready Unlock" "p \<noteq> Ready Unlock"
    using move(1) na mutex_invD(6) [OF inv, of g]
    by (auto elim!: movesE simp: waits_Notifying waits_Waking)
  moreover have "verdict_of p = Some (Return r) \<longleftrightarrow> verdict_of (pcs s g) = Some (Return r)" for r
    using move(1) by (auto elim!: movesE)
  ultimately have "claims s' f = claims s f" for f
    unfolding claims_def unfolding tn unfolding move(3-5) by (cases "f = g") simp_all
  then show ?thesis using move rd aw vd by (intro mutex_inv_frame [OF inv, of s' g p]) simp_all
qed

lemma mutex_inv_reach: "mutex_reach thr s \<Longrightarrow> mutex_inv s"
proof (induction rule: mon_reach.induct)
  case (start r)
  have "\<not> claims (init_sys init_CoMutex r) f" for f
    by (auto simp: claims_def init_sys_def)
  then show ?case by (simp add: mutex_inv_def) (simp add: init_sys_def init_CoMutex_def)
next
  case (step s s')
  have "wait_inv m_waiters thr s"
    using comutex.wait_inv_reach [OF step.hyps(1)] by (simp add: init_CoMutex_def)
  from mutex_inv_step [OF step.hyps(2) this step.IH] show ?case .
qed

section \<open>A concrete run\<close>

text \<open>Fiber 1 takes the mutex; fiber 2 asks for it and is switched out.\<close>

definition demo_cmds :: "mutex_call cmd list" where
  "demo_cmds = [Call 1 Lock, Run 1, Run 1, Call 2 Lock, Run 2, Run 2, Run 2]"

definition demo_run :: "(CoMutex, mutex_call, mutex_ret) sys" where
  "demo_run = the (run_cmds mutex_entry mutex_sec (\<lambda>_. 7) demo_cmds
     (init_sys init_CoMutex (Some init_Scheduler)))"

lemma demo_run_Some:
  "run_cmds mutex_entry mutex_sec (\<lambda>_. 7) demo_cmds (init_sys init_CoMutex (Some init_Scheduler))
    = Some demo_run"
  by (simp add: demo_run_def demo_cmds_def init_sys_def init_CoMutex_def valid_fid_def)

lemma demo_run_eq:
  "hist demo_run = [Inv 1 Lock, Exec 1 Lock [] (Return Locked), Res 1 Locked, Inv 2 Lock,
     Exec 2 Lock [] (Wait LockRecheck)]"
  "pcs demo_run = (\<lambda>_. Idle)(2 := Parked LockRecheck)" "inflight demo_run = []"
  "sref demo_run = Some init_Scheduler"
  by (simp_all add: demo_run_def demo_cmds_def init_sys_def init_CoMutex_def valid_fid_def fun_eq_iff)

lemma demo_run_reach: "mutex_reach (\<lambda>_. 7) demo_run"
  by (rule run_cmds_reach [OF demo_run_Some mon_reach.start])

section \<open>What the mutex guarantees\<close>

text \<open>
  Property C17. Mutual exclusion: in every interleaving of any number of fibers calling
  \<^verbatim>\<open>lock\<close>, \<^verbatim>\<open>tryLock\<close> and \<^verbatim>\<open>unlock\<close> in any order, at most one fiber is between the
  return of a successful lock and its call of \<^verbatim>\<open>unlock\<close>, and it is the recorded owner.
\<close>

theorem comutex_mutual_exclusion:
  assumes "mutex_reach thr s" and "f \<in> holders (hist s)" and "g \<in> holders (hist s)"
  shows "f = g \<and> m_locked (prim s) \<and> m_ownerFiberId (prim s) = fiber_id f"
proof -
  note inv = mutex_inv_reach [OF assms(1)]
  have "claims s f" "claims s g" using assms(2,3) by (simp_all add: claims_def)
  with mutex_invD(1-3) [OF inv, of f] mutex_invD(1-3) [OF inv, of g] show ?thesis
    by (simp add: fiber_id_inj)
qed

theorem comutex_mutual_exclusion_witness:
  "1 \<in> holders (hist demo_run) \<and> m_locked (prim demo_run) \<and>
    m_ownerFiberId (prim demo_run) = fiber_id 1"
proof -
  have "1 \<in> holders (hist demo_run)" by (simp add: demo_run_eq holders_def)
  with comutex_mutual_exclusion [OF demo_run_reach this this] show ?thesis by simp
qed

text \<open>
  Ownership is handed over directly and in first-come order: the waiters leave
  the queue in the order they entered it, and a woken fiber that looks again always finds
  itself the owner, so the retry branch of \<^verbatim>\<open>lock\<close> is never taken.
\<close>

theorem comutex_fifo_handoff:
  assumes "mutex_reach thr s"
  shows "queued_by thr (hist s) = popped_by (hist s) @ m_waiters (prim s) \<and>
    (\<forall>f. pcs s f = Ready LockRecheck \<longrightarrow>
       mutex_sec LockRecheck (MakeCurrentWaiter f (thr f)) (prim s) = (prim s, [], Return Locked))"
proof (intro conjI allI impI)
  show "queued_by thr (hist s) = popped_by (hist s) @ m_waiters (prim s)"
    using comutex.replay_fifo [OF reach_replay [OF assms]] by (simp add: init_CoMutex_def)
next
  fix f assume "pcs s f = Ready LockRecheck"
  then have "claims s f" by (simp add: claims_def)
  from mutex_invD(2) [OF mutex_inv_reach [OF assms] this]
  show "mutex_sec LockRecheck (MakeCurrentWaiter f (thr f)) (prim s) = (prim s, [], Return Locked)"
    by simp
qed

theorem comutex_fifo_handoff_witness:
  "queued_by (\<lambda>_. 7) (hist demo_run) = popped_by (hist demo_run) @ m_waiters (prim demo_run)"
  using comutex_fifo_handoff [OF demo_run_reach] by blast

text \<open>
  Property C18. No fiber waits for a free mutex: whenever nothing is running or queued and a
  fiber is switched out inside \<^verbatim>\<open>lock\<close>, some fiber has returned from its lock and has not
  called \<^verbatim>\<open>unlock\<close>. A wake-up is never lost, even when it is sent before the waiter yields.
\<close>

theorem comutex_no_lost_wakeup:
  assumes "mutex_reach thr s" and "quiet s" and "pcs s f = Parked c"
  shows "\<exists>g. g \<in> holders (hist s) \<and> m_ownerFiberId (prim s) = fiber_id g"
proof -
  note inv = mutex_inv_reach [OF assms(1)]
  have "f \<in> w_fiber ` set (m_waiters (prim s))"
    by (rule comutex.quiet_queued [OF assms(1) _ assms(2,3)]) (simp add: init_CoMutex_def)
  then have "m_locked (prim s)" using mutex_invD(4) [OF inv] by (cases "m_locked (prim s)") auto
  then obtain g where g: "m_ownerFiberId (prim s) = fiber_id g" "claims s g \<or> pcs s g = Ready Unlock"
    using mutex_invD(5) [OF inv] by blast
  have q: "pcs s h = Idle \<or> (\<exists>c. pcs s h = Parked c)" for h using assms(2) by (simp add: quiet_def)
  have "to_notify (pcs s h) = []" "verdict_of (pcs s h) = None" "pcs s h \<noteq> Ready c"
    "waits (pcs s h) \<Longrightarrow> \<not> notified s h" for h c
    using q [of h] quiet_not_notified [OF assms(1,2), of h] by auto
  with g have "g \<in> holders (hist s)" unfolding claims_def by fastforce
  with g show ?thesis by blast
qed

theorem comutex_no_lost_wakeup_witness:
  "\<exists>g. g \<in> holders (hist demo_run) \<and> m_ownerFiberId (prim demo_run) = fiber_id g"
proof (rule comutex_no_lost_wakeup [OF demo_run_reach])
  show "quiet demo_run" by (simp add: quiet_def demo_run_eq init_Scheduler_def)
  show "pcs demo_run 2 = Parked LockRecheck" by (simp add: demo_run_eq)
qed

end
