(* ===== verification/Wait_Group.thy ===== *)
theory Wait_Group
  imports Sync_Wait
begin

text \<open>
  \<^verbatim>\<open>WaitGroup\<close> (include/mycoroutine/sync.h): the counter, the sections of \<^verbatim>\<open>add\<close>, \<^verbatim>\<open>done\<close>
  and \<^verbatim>\<open>wait\<close>, and what they give over every interleaving: the counter is the sum of the
  deltas, \<^verbatim>\<open>wait\<close> returns only from a state with counter zero, and no waiter stays behind once
  the counter has reached zero.
\<close>

section \<open>State and sections\<close>

text \<open>
  \<^verbatim>\<open>m_count\<close> is a 64-bit signed integer that changes by 32-bit deltas: it is an integer here
  (to leave its range takes \<open>2^32\<close> calls of the largest delta).
\<close>

record WaitGroup =
  m_count :: int
  wg_waiters :: "waiter list"

definition init_WaitGroup :: WaitGroup where
  "init_WaitGroup = \<lparr>m_count = 0, wg_waiters = []\<rparr>"

datatype wg_call = Add int | WaitCall

datatype wg_ret = Added | Waited

text \<open>\<^verbatim>\<open>done()\<close>.\<close>

definition Done :: wg_call where
  "Done = Add (-1)"

text \<open>\<^verbatim>\<open>while (!m_waiters.empty()) to_wake.emplace_back(PopWaiterFront(m_waiters))\<close>\<close>

fun pop_all :: "'w list \<Rightarrow> 'w list" where
  "pop_all [] = []"
| "pop_all (w # queue) =
     (case PopWaiterFront (w # queue) of (x, _) \<Rightarrow> to_wake x @ pop_all queue)"

lemma pop_all_id [simp]: "pop_all q = q"
  by (induction q) simp_all

fun wg_sec :: "(WaitGroup, wg_call, wg_ret) sections" where
  "wg_sec (Add delta) w m =
     (let next = m_count m + delta
      in if \<not> next \<ge> 0 then (m, [], Abort Assertion_Failed)
         else let m1 = m\<lparr>m_count := next\<rparr>
              in if m_count m1 = 0
                 then (m1\<lparr>wg_waiters := []\<rparr>, pop_all (wg_waiters m1), Return Added)
                 else (m1, [], Return Added))"
| "wg_sec WaitCall w m =
     (if m_count m = 0 then (m, [], Return Waited)
      else (m\<lparr>wg_waiters := wg_waiters m @ [w]\<rparr>, [], Wait WaitCall))"

interpretation wg: fifo_monitor wg_sec wg_waiters
proof
  fix c w m m' ws v
  assume "wg_sec c w m = (m', ws, v)"
  then show "wg_waiters m @ enlists v w = ws @ wg_waiters m'"
    by (cases c) (auto simp: Let_def split: if_splits)
qed

abbreviation wg_reach :: "(fid \<Rightarrow> int) \<Rightarrow> (WaitGroup, wg_call, wg_ret) sys \<Rightarrow> bool" where
  "wg_reach thr \<equiv> mon_reach (\<lambda>_. True) wg_sec thr init_WaitGroup"

section \<open>The sum of the deltas\<close>

fun wg_sum :: "(wg_call, wg_ret) event list \<Rightarrow> int" where
  "wg_sum [] = 0"
| "wg_sum (Exec f (Add delta) ws (Return r) # h) = delta + wg_sum h"
| "wg_sum (_ # h) = wg_sum h"

lemma wg_sum_append [simp]: "wg_sum (h @ k) = wg_sum h + wg_sum k"
  by (induction h rule: wg_sum.induct) simp_all

lemma wg_replay:
  assumes "replay wg_sec thr init_WaitGroup h = Some m"
  shows "m_count m = wg_sum h \<and> 0 \<le> wg_sum h \<and> (wg_sum h = 0 \<longrightarrow> wg_waiters m = [])"
  using assms
proof (induction rule: replay_induct)
  case init
  show ?case by (simp add: init_WaitGroup_def)
next
  case (exec h m f c ws v m')
  then show ?case by (cases c) (auto simp: Let_def split: if_splits)
qed simp_all

section \<open>What the wait group guarantees\<close>

text \<open>
  Property C19. In every interleaving, the counter is the sum of the deltas of the \<^verbatim>\<open>add\<close> and
  \<^verbatim>\<open>done\<close> calls that took effect and never negative; the waiters are released in the order
  they came, and none is in the queue while the counter is zero.
\<close>

theorem waitgroup_counts:
  assumes "wg_reach thr s"
  shows "m_count (prim s) = wg_sum (hist s) \<and> 0 \<le> wg_sum (hist s) \<and>
    (wg_sum (hist s) = 0 \<longrightarrow> wg_waiters (prim s) = []) \<and>
    queued_by thr (hist s) = popped_by (hist s) @ wg_waiters (prim s)"
  using wg_replay [OF reach_replay [OF assms]] wg.replay_fifo [OF reach_replay [OF assms]]
  by (simp add: init_WaitGroup_def)

text \<open>
  \<^verbatim>\<open>wait\<close> returns only if the counter was zero while it ran: in the history of any
  run, the last critical section of the call saw counter zero, that is, the deltas before it
  add up to zero.
\<close>

theorem waitgroup_wait_sound:
  assumes "wg_reach thr s" and "hist s = h @ Res f Waited # k"
  shows "\<exists>xs ys. h = xs @ Exec f WaitCall [] (Return Waited) # ys \<and> f \<notin> ev_fiber ` set ys \<and>
    wg_sum xs = 0"
proof -
  from reach_return [OF assms] obtain xs c ws ys where h: "h = xs @ Exec f c ws (Return Waited) # ys"
    "f \<notin> ev_fiber ` set ys" by (auto simp: decided_def)
  with assms(2) have "hist s = xs @ Exec f c ws (Return Waited) # (ys @ Res f Waited # k)" by simp
  from reach_exec [OF assms(1) this] obtain m m' where
    m: "replay wg_sec thr init_WaitGroup xs = Some m"
    "wg_sec c (MakeCurrentWaiter f (thr f)) m = (m', ws, Return Waited)" by blast
  from m(2) have "c = WaitCall" "ws = []" "m_count m = 0"
    by (cases c; auto simp: Let_def split: if_splits)+
  with h wg_replay [OF m(1)] show ?thesis by auto
qed

text \<open>
  Property C20. No wake-up is lost: when nothing is running or queued and a fiber is switched
  out inside \<^verbatim>\<open>wait\<close>, the counter is positive, so an \<^verbatim>\<open>add\<close> or \<^verbatim>\<open>done\<close> is still missing.
\<close>

theorem waitgroup_no_lost_wakeup:
  assumes "wg_reach thr s" and "quiet s" and "pcs s f = Parked c"
  shows "0 < wg_sum (hist s) \<and> f \<in> w_fiber ` set (wg_waiters (prim s))"
proof -
  have q: "f \<in> w_fiber ` set (wg_waiters (prim s))"
    by (rule wg.quiet_queued [OF assms(1) _ assms(2,3)]) (simp add: init_WaitGroup_def)
  with wg_replay [OF reach_replay [OF assms(1)]] have "wg_sum (hist s) \<noteq> 0" by auto
  with q wg_replay [OF reach_replay [OF assms(1)]] show ?thesis by auto
qed

section \<open>Concrete runs\<close>

text \<open>Fiber 1 adds two; fiber 2 waits; fiber 1 calls \<^verbatim>\<open>done\<close> twice; fiber 2 goes on.\<close>

definition wg_run :: "wg_call cmd list \<Rightarrow> (WaitGroup, wg_call, wg_ret) sys option" where
  "wg_run xs = run_cmds (\<lambda>_. True) wg_sec (\<lambda>_. 7) xs (init_sys init_WaitGroup (Some init_Scheduler))"

definition wg_waiting :: "wg_call cmd list" where
  "wg_waiting = [Call 1 (Add 2), Run 1, Run 1, Call 2 WaitCall, Run 2, Run 2, Run 2]"

definition wg_finished :: "wg_call cmd list" where
  "wg_finished = [Call 1 (Add 2), Run 1, Run 1, Call 2 WaitCall, Run 2, Run 2,
     Call 1 Done, Run 1, Run 1, Call 1 Done, Run 1, Run 1, Run 2, Run 2, Run 2]"

lemma wg_run_reach: "wg_run xs = Some s \<Longrightarrow> wg_reach (\<lambda>_. 7) s"
  unfolding wg_run_def by (rule run_cmds_reach [OF _ mon_reach.start])

lemmas wg_run_simps = wg_run_def wg_waiting_def wg_finished_def init_sys_def init_WaitGroup_def
  valid_fid_def Done_def notify_store_def MakeCurrentWaiter_def

theorem waitgroup_counts_witness:
  "\<exists>s. wg_run wg_waiting = Some s \<and> wg_sum (hist s) = 2 \<and> m_count (prim s) = wg_sum (hist s)"
proof -
  obtain s where s: "wg_run wg_waiting = Some s" "wg_sum (hist s) = 2" by (simp add: wg_run_simps)
  with waitgroup_counts [OF wg_run_reach [OF s(1)]] show ?thesis by blast
qed

theorem waitgroup_wait_sound_witness:
  "\<exists>s h k xs ys. wg_run wg_finished = Some s \<and> hist s = h @ Res 2 Waited # k \<and>
    h = xs @ Exec 2 WaitCall [] (Return Waited) # ys \<and> wg_sum xs = 0"
proof -
  obtain s where s: "wg_run wg_finished = Some s" "last (hist s) = Res 2 Waited" "hist s \<noteq> []"
    by (simp add: wg_run_simps)
  then have "hist s = butlast (hist s) @ Res 2 Waited # []"
    by (metis append_butlast_last_id)
  from waitgroup_wait_sound [OF wg_run_reach [OF s(1)] this] s(1) this show ?thesis by blast
qed

theorem waitgroup_no_lost_wakeup_witness:
  "\<exists>s. wg_run wg_waiting = Some s \<and> 0 < wg_sum (hist s) \<and> 2 \<in> w_fiber ` set (wg_waiters (prim s))"
proof -
  obtain s where s: "wg_run wg_waiting = Some s" "quiet s" "pcs s 2 = Parked WaitCall"
    by (simp add: wg_run_simps quiet_def init_Scheduler_def)
  from waitgroup_no_lost_wakeup [OF wg_run_reach [OF s(1)] s(2,3)] s(1) show ?thesis by blast
qed

end
