(* ===== verification/Co_Channel.thy ===== *)
theory Co_Channel
  imports Wait_Group
begin

text \<open>
  \<^verbatim>\<open>Channel<T>\<close> (include/mycoroutine/sync.h): the bounded buffer, the two queues of waiters,
  the sections of \<^verbatim>\<open>send\<close>, \<^verbatim>\<open>recv\<close>, \<^verbatim>\<open>close\<close>, \<^verbatim>\<open>isClosed\<close> and \<^verbatim>\<open>size\<close>, and what they
  give over every interleaving: values come out in the order they went in, none lost and none
  twice, within the capacity; a closed channel drains; no wake-up is lost.
\<close>

section \<open>State and sections\<close>

record 'a Channel =
  m_capacity :: nat
  m_closed :: bool
  m_buffer :: "'a list"
  m_senderWaiters :: "waiter list"
  m_receiverWaiters :: "waiter list"

definition init_Channel :: "nat \<Rightarrow> 'a Channel" where
  "init_Channel capacity = \<lparr>m_capacity = capacity, m_closed = False, m_buffer = [],
     m_senderWaiters = [], m_receiverWaiters = []\<rparr>"

datatype 'a ch_call = Send 'a | Recv | Close | IsClosed | Size

text \<open>\<open>Received None\<close> is \<^verbatim>\<open>recv\<close> returning false.\<close>

datatype 'a ch_ret = Sent bool | Received "'a option" | Closed | Flag bool | Len nat

definition can_send :: "'a Channel \<Rightarrow> bool" where
  "can_send m =
     (if m_capacity m = 0 then m_receiverWaiters m \<noteq> [] \<and> m_buffer m = []
      else length (m_buffer m) < m_capacity m)"

fun ch_sec :: "('a Channel, 'a ch_call, 'a ch_ret) sections" where
  "ch_sec (Send value) w m =
     (if m_closed m then (m, [], Return (Sent False))
      else if can_send m
      then (case PopWaiterFront (m_receiverWaiters m) of
              (receiver_to_wake, queue) \<Rightarrow>
                (m\<lparr>m_buffer := m_buffer m @ [value], m_receiverWaiters := queue\<rparr>,
                 to_wake receiver_to_wake, Return (Sent True)))
      else (m\<lparr>m_senderWaiters := m_senderWaiters m @ [w]\<rparr>, [], Wait (Send value)))"
| "ch_sec Recv w m =
     (case m_buffer m of
        out # rest \<Rightarrow>
          (case PopWaiterFront (m_senderWaiters m) of
             (sender_to_wake, queue) \<Rightarrow>
               (m\<lparr>m_buffer := rest, m_senderWaiters := queue\<rparr>, to_wake sender_to_wake,
                Return (Received (Some out))))
      | [] \<Rightarrow>
          if m_closed m then (m, [], Return (Received None))
          else (case PopWaiterFront (m_senderWaiters m) of
                  (sender_to_wake, queue) \<Rightarrow>
                    (m\<lparr>m_senderWaiters := queue,
                       m_receiverWaiters := m_receiverWaiters m @ [w]\<rparr>,
                     to_wake sender_to_wake, Wait Recv)))"
| "ch_sec Close w m =
     (if m_closed m then (m, [], Return Closed)
      else (m\<lparr>m_closed := True, m_senderWaiters := [], m_receiverWaiters := []\<rparr>,
            pop_all (m_senderWaiters m) @ pop_all (m_receiverWaiters m), Return Closed))"
| "ch_sec IsClosed w m = (m, [], Return (Flag (m_closed m)))"
| "ch_sec Size w m = (m, [], Return (Len (length (m_buffer m))))"

definition ch_waiters :: "'a Channel \<Rightarrow> waiter list" where
  "ch_waiters m = m_senderWaiters m @ m_receiverWaiters m"

lemma pop_mset: "PopWaiterFront q = (x, q') \<Longrightarrow> mset (to_wake x) + mset q' = mset q"
  by (cases q) auto

lemma pop_split: "PopWaiterFront q = (x, q') \<Longrightarrow> q = to_wake x @ q'"
  by (cases q) auto

lemma ch_conserve:
  assumes "ch_sec c w m = (m', ws, v)"
  shows "mset ws + mset (ch_waiters m') = mset (ch_waiters m) + mset (enlists v w)"
  using assms
  by (cases c) (auto simp: ch_waiters_def split: if_splits prod.splits list.splits dest: pop_split)

interpretation ch: monitor ch_sec ch_waiters
  by standard (rule ch_conserve)

abbreviation ch_reach ::
    "nat \<Rightarrow> (fid \<Rightarrow> int) \<Rightarrow> ('a Channel, 'a ch_call, 'a ch_ret) sys \<Rightarrow> bool" where
  "ch_reach capacity thr \<equiv> mon_reach (\<lambda>_. True) ch_sec thr (init_Channel capacity)"

section \<open>Values sent and received\<close>

fun sent :: "('a ch_call, 'a ch_ret) event list \<Rightarrow> 'a list" where
  "sent [] = []"
| "sent (Exec f (Send x) ws (Return (Sent True)) # h) = x # sent h"
| "sent (_ # h) = sent h"

fun received :: "('a ch_call, 'a ch_ret) event list \<Rightarrow> 'a list" where
  "received [] = []"
| "received (Exec f Recv ws (Return (Received (Some x))) # h) = x # received h"
| "received (_ # h) = received h"

fun is_closed :: "('a ch_call, 'a ch_ret) event list \<Rightarrow> bool" where
  "is_closed [] = False"
| "is_closed (Exec f Close ws v # h) = True"
| "is_closed (_ # h) = is_closed h"

lemma sent_append [simp]: "sent (h @ k) = sent h @ sent k"
  by (induction h rule: sent.induct) simp_all

lemma received_append [simp]: "received (h @ k) = received h @ received k"
  by (induction h rule: received.induct) simp_all

lemma is_closed_append [simp]: "is_closed (h @ k) \<longleftrightarrow> is_closed h \<or> is_closed k"
  by (induction h rule: is_closed.induct) simp_all

lemma ch_replay:
  assumes "replay ch_sec thr (init_Channel capacity) h = Some m"
  shows "sent h = received h @ m_buffer m \<and> m_capacity m = capacity \<and>
    length (m_buffer m) \<le> max 1 capacity \<and> (m_closed m \<longleftrightarrow> is_closed h) \<and>
    (m_closed m \<longrightarrow> ch_waiters m = [])"
  using assms
proof (induction rule: replay_induct)
  case init
  show ?case by (simp add: init_Channel_def)
next
  case (exec h m f c ws v m')
  show ?case
  proof (cases c)
    case (Send x)
    with exec show ?thesis
      by (auto simp: can_send_def ch_waiters_def split: if_splits prod.splits)
  next
    case Recv
    with exec show ?thesis
      by (auto simp: ch_waiters_def split: if_splits prod.splits list.splits)
  qed (use exec in \<open>auto simp: ch_waiters_def split: if_splits\<close>)
qed simp_all

section \<open>Wake-ups\<close>

fun is_Send :: "'a ch_call \<Rightarrow> bool" where
  "is_Send (Send x) = True"
| "is_Send _ = False"

fun is_Recv :: "'a ch_call \<Rightarrow> bool" where
  "is_Recv Recv = True"
| "is_Recv _ = False"

text \<open>
  Why no wake-up is lost. While a receiver is queued there are at least as many receivers on
  their way as there are values in the buffer; while a sender is queued there are at least as
  many senders on their way as there are free places; and a rendezvous channel with both
  queues occupied and an empty buffer has a sender on its way.
\<close>

definition ch_inv :: "('a Channel, 'a ch_call, 'a ch_ret) sys \<Rightarrow> bool" where
  "ch_inv s \<longleftrightarrow>
     (\<forall>f \<in> w_fiber ` set (m_receiverWaiters (prim s)). awaited (pcs s f) = Some Recv) \<and>
     (\<forall>f \<in> w_fiber ` set (m_senderWaiters (prim s)). \<exists>x. awaited (pcs s f) = Some (Send x)) \<and>
     (m_receiverWaiters (prim s) \<noteq> [] \<longrightarrow>
        length (m_buffer (prim s)) \<le> card (active ch_waiters is_Recv s)) \<and>
     (m_senderWaiters (prim s) \<noteq> [] \<longrightarrow> 0 < m_capacity (prim s) \<longrightarrow>
        m_capacity (prim s) \<le> length (m_buffer (prim s)) + card (active ch_waiters is_Send s)) \<and>
     (m_senderWaiters (prim s) \<noteq> [] \<longrightarrow> m_receiverWaiters (prim s) \<noteq> [] \<longrightarrow>
        m_capacity (prim s) = 0 \<longrightarrow> m_buffer (prim s) = [] \<longrightarrow> active ch_waiters is_Send s \<noteq> {})"

lemma ch_invD:
  assumes "ch_inv s"
  shows "f \<in> w_fiber ` set (m_receiverWaiters (prim s)) \<Longrightarrow> awaited (pcs s f) = Some Recv"
    and "f \<in> w_fiber ` set (m_senderWaiters (prim s)) \<Longrightarrow> \<exists>x. awaited (pcs s f) = Some (Send x)"
    and "m_receiverWaiters (prim s) \<noteq> [] \<Longrightarrow>
      length (m_buffer (prim s)) \<le> card (active ch_waiters is_Recv s)"
    and "m_senderWaiters (prim s) \<noteq> [] \<Longrightarrow> 0 < m_capacity (prim s) \<Longrightarrow>
      m_capacity (prim s) \<le> length (m_buffer (prim s)) + card (active ch_waiters is_Send s)"
    and "m_senderWaiters (prim s) \<noteq> [] \<Longrightarrow> m_receiverWaiters (prim s) \<noteq> [] \<Longrightarrow>
      m_capacity (prim s) = 0 \<Longrightarrow> m_buffer (prim s) = [] \<Longrightarrow> active ch_waiters is_Send s \<noteq> {}"
  using assms unfolding ch_inv_def by blast+

lemma ch_inv_drained:
  "m_receiverWaiters (prim s) = [] \<Longrightarrow> m_senderWaiters (prim s) = [] \<Longrightarrow> ch_inv s"
  by (simp add: ch_inv_def)

lemma ch_inv_exec:
  fixes s s' :: "('a Channel, 'a ch_call, 'a ch_ret) sys"
  assumes W: "wait_inv ch_waiters thr s" and inv: "ch_inv s"
    and fin: "\<And>P. finite (active ch_waiters P s)"
    and cl: "m_closed (prim s) \<Longrightarrow> ch_waiters (prim s) = []"
    and g: "pcs s g = Ready c"
    and x: "ch_sec c (MakeCurrentWaiter g (thr g)) (prim s) = (m, ws, v)"
    and s': "prim s' = m" "pcs s' = (pcs s)(g := Notifying ws v)"
  shows "ch_inv s'"
proof -
  let ?w = "MakeCurrentWaiter g (thr g)" and ?m = "prim s"
  have "\<forall>w \<in> set (enlists v ?w). w \<in> set (ch_waiters m)"
    using x by (cases c) (auto simp: ch_waiters_def split: if_splits prod.splits list.splits)
  note A = ch.active_exec [OF W g x s' this]
  have in_act: "g \<in> active ch_waiters P s \<longleftrightarrow> P c" for P
    using g by (auto simp: active_def)
  have not_act: "f \<notin> active ch_waiters P s" if "f \<in> w_fiber ` set (ch_waiters ?m)" for f P
    using that wait_invD(4) [OF W, of f None] by (auto simp: active_def fibers_at_def)
  have R_aw: "awaited (pcs s (w_fiber w)) = Some Recv" if "w \<in> set (m_receiverWaiters ?m)" for w
    using ch_invD(1) [OF inv] that by blast
  have S_aw: "\<exists>x. awaited (pcs s (w_fiber w)) = Some (Send x)" if "w \<in> set (m_senderWaiters ?m)" for w
    using ch_invD(2) [OF inv] that by blast
  have R_ng: "w_fiber w \<noteq> g" if "w \<in> set (m_receiverWaiters ?m)" for w
    using R_aw [OF that] g by auto
  have S_ng: "w_fiber w \<noteq> g" if "w \<in> set (m_senderWaiters ?m)" for w
    using S_aw [OF that] g by auto
  have AR: "active ch_waiters is_Recv s' = active ch_waiters is_Recv s - {g} \<union>
      {f \<in> w_fiber ` set ws. awaited (pcs s f) = Some Recv}"
    unfolding A by (auto elim: is_Recv.elims)
  have AS: "active ch_waiters is_Send s' = active ch_waiters is_Send s - {g} \<union>
      {f \<in> w_fiber ` set ws. \<exists>x. awaited (pcs s f) = Some (Send x)}"
    unfolding A by (auto elim: is_Send.elims)
  have pop0: "active ch_waiters is_Recv s' = active ch_waiters is_Recv s - {g}"
    "active ch_waiters is_Send s' = active ch_waiters is_Send s - {g}" if "ws = []"
    using that by (simp_all add: AR AS)
  have popR: "card (active ch_waiters is_Recv s') = Suc (card (active ch_waiters is_Recv s - {g}))"
    "active ch_waiters is_Send s' = active ch_waiters is_Send s - {g}"
    if "ws = [r]" "r \<in> set (m_receiverWaiters ?m)" for r
  proof -
    have "active ch_waiters is_Recv s' = insert (w_fiber r) (active ch_waiters is_Recv s - {g})"
      using that R_aw [OF that(2)] by (auto simp: AR)
    moreover have "w_fiber r \<notin> active ch_waiters is_Recv s"
      using that(2) by (intro not_act) (auto simp: ch_waiters_def)
    ultimately show "card (active ch_waiters is_Recv s') = Suc (card (active ch_waiters is_Recv s - {g}))"
      using fin [of is_Recv] by simp
    show "active ch_waiters is_Send s' = active ch_waiters is_Send s - {g}"
      using that R_aw [OF that(2)] by (auto simp: AS)
  qed
  have popS: "card (active ch_waiters is_Send s') = Suc (card (active ch_waiters is_Send s - {g}))"
    "active ch_waiters is_Recv s' = active ch_waiters is_Recv s - {g}"
    "active ch_waiters is_Send s' \<noteq> {}"
    if "ws = [r]" "r \<in> set (m_senderWaiters ?m)" for r
  proof -
    have e: "active ch_waiters is_Send s' = insert (w_fiber r) (active ch_waiters is_Send s - {g})"
      using that S_aw [OF that(2)] by (auto simp: AS)
    moreover have "w_fiber r \<notin> active ch_waiters is_Send s"
      using that(2) by (intro not_act) (auto simp: ch_waiters_def)
    ultimately show "card (active ch_waiters is_Send s') = Suc (card (active ch_waiters is_Send s - {g}))"
      using fin [of is_Send] by simp
    show "active ch_waiters is_Recv s' = active ch_waiters is_Recv s - {g}"
      using that S_aw [OF that(2)] by (auto simp: AR)
    from e show "active ch_waiters is_Send s' \<noteq> {}" by simp
  qed
  have same: "\<not> P c \<Longrightarrow> active ch_waiters P s - {g} = active ch_waiters P s"
    and less: "P c \<Longrightarrow> card (active ch_waiters P s) = Suc (card (active ch_waiters P s - {g}))" for P
    using in_act [of P] fin [of P] card.remove [of "active ch_waiters P s" g] by auto
  have new: "set (m_receiverWaiters m) \<subseteq> set (m_receiverWaiters ?m) \<union> (if v = Wait Recv then {?w} else {})"
    "set (m_senderWaiters m) \<subseteq> set (m_senderWaiters ?m) \<union>
      (if \<exists>y. v = Wait (Send y) then {?w} else {})"
    using x by (cases c; auto split: if_splits prod.splits list.splits dest: pop_split)+
  have Q1: "\<forall>f \<in> w_fiber ` set (m_receiverWaiters m). awaited (pcs s' f) = Some Recv"
    using new(1) R_aw R_ng by (force simp: s' split: if_splits)
  have Q2: "\<forall>f \<in> w_fiber ` set (m_senderWaiters m). \<exists>y. awaited (pcs s' f) = Some (Send y)"
    using new(2) S_aw S_ng by (force simp: s' split: if_splits)
  note I = ch_invD(3-5) [OF inv]
  show ?thesis
  proof (cases c)
    case (Send y)
    note k = same [of is_Recv] less [of is_Send]
    show ?thesis
    proof (cases "m_closed ?m")
      case True
      with x cl Send show ?thesis by (intro ch_inv_drained) (auto simp: s' ch_waiters_def)
    next
      case op: False
      show ?thesis
      proof (cases "can_send ?m")
        case True
        show ?thesis
        proof (cases "m_receiverWaiters ?m")
          case Nil
          with x Send op True have "m = ?m\<lparr>m_buffer := m_buffer ?m @ [y]\<rparr>" "ws = []" by auto
          with Nil I(2) pop0 k Q2 Send show ?thesis by (simp add: ch_inv_def s'(1))
        next
          case (Cons r q)
          with x Send op True have r: "ws = [r]"
            "m = ?m\<lparr>m_buffer := m_buffer ?m @ [y], m_receiverWaiters := q\<rparr>" by auto
          with Cons popR [OF r(1)] k Send I Q1 Q2 show ?thesis by (simp add: ch_inv_def s'(1))
        qed
      next
        case False
        with x Send op have r: "m = ?m\<lparr>m_senderWaiters := m_senderWaiters ?m @ [?w]\<rparr>" "ws = []"
          by auto
        with False pop0 [OF r(2)] k Send I(1) Q1 Q2 show ?thesis
          by (auto simp: ch_inv_def s'(1) can_send_def split: if_splits)
      qed
    qed
  next
    case Recv
    note k = same [of is_Send] less [of is_Recv]
    show ?thesis
    proof (cases "m_buffer ?m")
      case (Cons out rest)
      show ?thesis
      proof (cases "m_senderWaiters ?m")
        case Nil
        with x Recv Cons have r: "m = ?m\<lparr>m_buffer := rest\<rparr>" "ws = []" by auto
        with Nil Cons pop0 [OF r(2)] k Recv I Q1 Q2 show ?thesis by (simp add: ch_inv_def s'(1))
      next
        case (Cons w q)
        with x Recv \<open>m_buffer ?m = out # rest\<close>
        have r: "m = ?m\<lparr>m_buffer := rest, m_senderWaiters := q\<rparr>" "ws = [w]" by auto
        with Cons \<open>m_buffer ?m = out # rest\<close> popS [OF r(2)] k Recv I Q1 Q2 show ?thesis
          by (simp add: ch_inv_def s'(1))
      qed
    next
      case Nil
      show ?thesis
      proof (cases "m_closed ?m")
        case True
        with x cl Recv Nil show ?thesis by (intro ch_inv_drained) (auto simp: s' ch_waiters_def)
      next
        case op: False
        show ?thesis
        proof (cases "m_senderWaiters ?m")
          case (Cons w q)
          with x Recv Nil op have r: "ws = [w]"
            "m = ?m\<lparr>m_senderWaiters := q, m_receiverWaiters := m_receiverWaiters ?m @ [?w]\<rparr>" by auto
          with Cons Nil popS [OF r(1)] k Recv I Q1 Q2 show ?thesis
            by (simp add: ch_inv_def s'(1) le_SucI)
        qed (use x Recv Nil op Q1 Q2 in \<open>simp add: ch_inv_def s'(1), auto\<close>)
      qed
    qed
  next
    case Close
    with x cl show ?thesis
      by (intro ch_inv_drained) (auto simp: s' ch_waiters_def split: if_splits)
  qed (use x pop0 same [of is_Recv] same [of is_Send] I Q1 Q2 in \<open>simp_all add: ch_inv_def s'(1)\<close>)
qed

lemma ch_inv_reach:
  assumes "ch_reach capacity thr s"
  shows "ch_inv s"
  using assms
proof (induction rule: mon_reach.induct)
  case (start r)
  show ?case by (rule ch_inv_drained) (simp_all add: init_sys_def init_Channel_def)
next
  case (step s s')
  have W: "wait_inv ch_waiters thr s"
    by (rule ch.wait_inv_reach [OF step.hyps(1)]) (simp add: init_Channel_def ch_waiters_def)
  have fin': "finite (active ch_waiters P s')" for P
    by (rule finite_active [OF mon_reach.step [OF step.hyps]])
  from step.hyps(2) W show ?case
  proof (cases rule: ch.step_exec_or_other)
    case (exec f c m ws v)
    have "m_closed (prim s) \<Longrightarrow> ch_waiters (prim s) = []"
      using ch_replay [OF reach_replay [OF step.hyps(1)]] by blast
    with exec show ?thesis
      by (intro ch_inv_exec [OF W step.IH finite_active [OF step.hyps(1)]]) simp_all
  next
    case other
    have card: "card (active ch_waiters P s) \<le> card (active ch_waiters P s')" for P
      by (rule card_mono [OF fin' other(2)])
    have "awaited (pcs s' f) = Some Recv" if "f \<in> w_fiber ` set (m_receiverWaiters (prim s))" for f
      using that by (intro other(3) ch_invD(1) [OF step.IH]) (auto simp: ch_waiters_def)
    moreover have "\<exists>x. awaited (pcs s' f) = Some (Send x)"
      if f: "f \<in> w_fiber ` set (m_senderWaiters (prim s))" for f
    proof -
      obtain x where "awaited (pcs s f) = Some (Send x)" using ch_invD(2) [OF step.IH f] by blast
      with f have "awaited (pcs s' f) = Some (Send x)"
        by (intro other(3)) (auto simp: ch_waiters_def)
      then show ?thesis by blast
    qed
    moreover note le_trans [OF ch_invD(3) [OF step.IH] card]
    moreover have "m_senderWaiters (prim s) \<noteq> [] \<Longrightarrow> 0 < m_capacity (prim s) \<Longrightarrow>
        m_capacity (prim s) \<le> length (m_buffer (prim s)) + card (active ch_waiters is_Send s')"
      using ch_invD(4) [OF step.IH] card [of is_Send] by linarith
    moreover note ch_invD(5) [OF step.IH] other(2) [of is_Send]
    ultimately show ?thesis unfolding ch_inv_def other(1) by blast
  qed
qed

section \<open>What the channel guarantees\<close>

text \<open>
  Property C21. In every interleaving of senders, receivers and \<^verbatim>\<open>close\<close>, the values received
  so far followed by the buffer are the values sent so far, in the same order: nothing is lost,
  duplicated or reordered. The buffer holds at most \<^verbatim>\<open>capacity\<close> values, one for a rendezvous
  channel.
\<close>

theorem channel_fifo:
  assumes "ch_reach capacity thr s"
  shows "sent (hist s) = received (hist s) @ m_buffer (prim s) \<and>
    length (m_buffer (prim s)) \<le> max 1 capacity"
  using ch_replay [OF reach_replay [OF assms]] by blast

text \<open>
  Property C22. Closing: a \<^verbatim>\<open>send\<close> reports success exactly when its value entered the buffer
  before the channel was closed, and \<^verbatim>\<open>recv\<close> reports failure only after the close, when every
  value that was ever sent has been received.
\<close>

theorem channel_close:
  assumes "ch_reach capacity thr s" and "hist s = h @ Exec f c ws v # k"
  shows "(\<forall>x b. c = Send x \<longrightarrow> v = Return (Sent b) \<longrightarrow> (b \<longleftrightarrow> \<not> is_closed h)) \<and>
    (v = Return (Received None) \<longrightarrow> is_closed h \<and> received h = sent h)"
proof -
  from reach_exec [OF assms] obtain m m' where m: "replay ch_sec thr (init_Channel capacity) h = Some m"
    "ch_sec c (MakeCurrentWaiter f (thr f)) m = (m', ws, v)" by blast
  with ch_replay [OF m(1)] show ?thesis
    by (cases c) (auto split: if_splits prod.splits list.splits)
qed

text \<open>
  Property C23. No wake-up is lost: when nothing is running or queued, a fiber still switched
  out inside \<^verbatim>\<open>recv\<close> means an open, empty channel with no blocked sender, and one inside
  \<^verbatim>\<open>send\<close> means an open channel that cannot take a value.
\<close>

theorem channel_no_lost_wakeup:
  assumes "ch_reach capacity thr s" and "quiet s" and "pcs s f = Parked c"
  shows "\<not> m_closed (prim s) \<and>
    (c = Recv \<and> m_buffer (prim s) = [] \<and> m_senderWaiters (prim s) = [] \<or>
     (\<exists>x. c = Send x) \<and> \<not> can_send (prim s))"
proof -
  note I = ch_inv_reach [OF assms(1)] and R = ch_replay [OF reach_replay [OF assms(1)]]
  have q: "h \<in> w_fiber ` set (ch_waiters (prim s))" if "pcs s h = Parked d" for h d
    by (rule ch.quiet_queued [OF assms(1) _ assms(2) that])
      (simp add: init_Channel_def ch_waiters_def)
  have none: "active ch_waiters P s = {}" for P
    by (rule active_quiet [OF assms(2)]) (rule q)
  have op: "\<not> m_closed (prim s)" using R q [OF assms(3)] by auto
  from q [OF assms(3)] consider
    (r) "f \<in> w_fiber ` set (m_receiverWaiters (prim s))" | (s) "f \<in> w_fiber ` set (m_senderWaiters (prim s))"
    by (auto simp: ch_waiters_def)
  then show ?thesis
  proof cases
    case r
    then have "c = Recv" "m_receiverWaiters (prim s) \<noteq> []"
      using ch_invD(1) [OF I r] assms(3) by auto
    with ch_invD(3-5) [OF I] none op show ?thesis by fastforce
  next
    case s
    then have "\<exists>x. c = Send x" "m_senderWaiters (prim s) \<noteq> []"
      using ch_invD(2) [OF I s] assms(3) by auto
    with ch_invD(4,5) [OF I] none op show ?thesis by (auto simp: can_send_def)
  qed
qed

section \<open>Concrete runs\<close>

definition ch_run :: "nat \<Rightarrow> 'a ch_call cmd list \<Rightarrow> ('a Channel, 'a ch_call, 'a ch_ret) sys option" where
  "ch_run capacity xs =
     run_cmds (\<lambda>_. True) ch_sec (\<lambda>_. 7) xs (init_sys (init_Channel capacity) (Some init_Scheduler))"

lemma ch_run_reach: "ch_run capacity xs = Some s \<Longrightarrow> ch_reach capacity (\<lambda>_. 7) s"
  unfolding ch_run_def by (rule run_cmds_reach [OF _ mon_reach.start])

text \<open>Fiber 1 sends two values, the second blocks; fiber 2 closes; fiber 3 receives twice.\<close>

definition ch_blocked :: "nat ch_call cmd list" where
  "ch_blocked = [Call 1 (Send 10), Run 1, Run 1, Call 1 (Send 11), Run 1, Run 1, Run 1]"

definition ch_drained :: "nat ch_call cmd list" where
  "ch_drained = [Call 1 (Send 10), Run 1, Run 1, Call 2 Close, Run 2, Run 2,
     Call 3 Recv, Run 3, Run 3, Call 3 Recv, Run 3]"

lemmas ch_run_simps = ch_run_def ch_blocked_def ch_drained_def init_sys_def init_Channel_def
  valid_fid_def can_send_def MakeCurrentWaiter_def

theorem channel_fifo_witness:
  "\<exists>s. ch_run 1 ch_blocked = Some s \<and> sent (hist s) = [10] \<and>
    sent (hist s) = received (hist s) @ m_buffer (prim s)"
proof -
  obtain s where s: "ch_run 1 ch_blocked = Some s" "sent (hist s) = [10]" by (simp add: ch_run_simps)
  with channel_fifo [OF ch_run_reach [OF s(1)]] show ?thesis by blast
qed

theorem channel_close_witness:
  "\<exists>s h f ws. ch_run 1 ch_drained = Some s \<and>
    hist s = h @ Exec f Recv ws (Return (Received None)) # [] \<and> received h = sent h \<and> sent h = [10]"
proof -
  obtain s where s: "ch_run 1 ch_drained = Some s" "hist s \<noteq> []"
    "last (hist s) = Exec 3 Recv [] (Return (Received None))" "sent (butlast (hist s)) = [10]"
    by (simp add: ch_run_simps)
  then have e: "hist s = butlast (hist s) @ Exec 3 Recv [] (Return (Received None)) # []"
    by (metis append_butlast_last_id)
  from channel_close [OF ch_run_reach [OF s(1)] e] s(1,4) e show ?thesis by metis
qed

theorem channel_no_lost_wakeup_witness:
  "\<exists>s. ch_run 1 ch_blocked = Some s \<and> \<not> m_closed (prim s) \<and> \<not> can_send (prim s)"
proof -
  obtain s where s: "ch_run 1 ch_blocked = Some s" "quiet s" "pcs s 1 = Parked (Send 11)"
    by (simp add: ch_run_simps quiet_def init_Scheduler_def)
  from channel_no_lost_wakeup [OF ch_run_reach [OF s(1)] s(2,3)] s(1) show ?thesis by blast
qed

end
