(* ===== verification/Co_Timer.thy ===== *)
theory Co_Timer
  imports Co_Prelude
begin

text \<open>
  \<^verbatim>\<open>Timer\<close> and \<^verbatim>\<open>TimerManager\<close> (include/mycoroutine/timer.h, src/timer.cpp): timer objects,
  the ordered set of pending timers, \<^verbatim>\<open>addTimer\<close>, \<^verbatim>\<open>cancel\<close>, \<^verbatim>\<open>refresh\<close>, \<^verbatim>\<open>reset\<close>,
  \<^verbatim>\<open>getNextTimer\<close>, \<^verbatim>\<open>listExpiredCb\<close> and the clock-rollover test. The clock readings of an
  operation are arguments of its definition. The set is a \<^verbatim>\<open>std::set\<close> of pointers whose order
  depends on fields of the pointed-to objects; the locale \<open>std_set\<close> states what the manager
  needs of it.
\<close>

unbundle bit_operations_syntax

section \<open>Data\<close>

text \<open>
  Time points and durations are integers in nanoseconds, the period of \<^verbatim>\<open>system_clock\<close>. A
  \<^verbatim>\<open>uint64_t\<close> count of milliseconds becomes the signed 64-bit representation of
  \<^verbatim>\<open>std::chrono::milliseconds\<close> first.
\<close>

definition milliseconds :: "u64 \<Rightarrow> int" where
  "milliseconds ms = sint ms * 1000000"

text \<open>
  The integers are unbounded where the source has signed 64-bit ones, whose overflow is
  undefined: the definitions speak for it as long as \<open>deadline_ok\<close> holds of the durations given.
\<close>

definition in_clock_range :: "int \<Rightarrow> bool" where
  "in_clock_range t \<longleftrightarrow> - (2 ^ 63) \<le> t \<and> t < 2 ^ 63"

definition deadline_ok :: "int \<Rightarrow> u64 \<Rightarrow> bool" where
  "deadline_ok now ms \<longleftrightarrow> in_clock_range (milliseconds ms) \<and> in_clock_range (now + milliseconds ms)"

record Timer =
  m_recurring :: bool
  m_ms :: u64
  m_next :: int
  m_cb :: "callback option"

type_synonym addr = nat

record TimerManager =
  t_heap :: "addr \<Rightarrow> Timer option"
  m_timers :: "addr list"
  m_tickled :: bool
  m_previouseTime :: int

definition TimerManager_ctor :: "int \<Rightarrow> TimerManager" where
  "TimerManager_ctor now =
     \<lparr>t_heap = (\<lambda>_. None), m_timers = [], m_tickled = False, m_previouseTime = now\<rparr>"

definition Timer_ctor :: "u64 \<Rightarrow> callback option \<Rightarrow> bool \<Rightarrow> int \<Rightarrow> Timer" where
  "Timer_ctor ms cb recurring now =
     \<lparr>m_recurring = recurring, m_ms = ms, m_next = now + milliseconds ms, m_cb = cb\<rparr>"

text \<open>The object behind a pointer, and an update of it.\<close>

definition timer_at :: "TimerManager \<Rightarrow> addr \<Rightarrow> Timer" where
  "timer_at s a = the (t_heap s a)"

definition set_timer :: "addr \<Rightarrow> Timer \<Rightarrow> TimerManager \<Rightarrow> TimerManager" where
  "set_timer a t s = s\<lparr>t_heap := (t_heap s)(a \<mapsto> t)\<rparr>"

definition Comparator :: "(addr \<Rightarrow> Timer option) \<Rightarrow> addr \<Rightarrow> addr \<Rightarrow> bool" where
  "Comparator h lhs rhs =
     (if m_next (the (h lhs)) < m_next (the (h rhs)) then True
      else if m_next (the (h rhs)) < m_next (the (h lhs)) then False
      else lhs < rhs)"

section \<open>The ordered set\<close>

text \<open>
  \<^verbatim>\<open>std::set\<close> as the list of its elements in iteration order: \<^verbatim>\<open>insert\<close> puts an element before
  the first greater one unless an equivalent one is there, \<^verbatim>\<open>find\<close> looks for an equivalent
  element, \<^verbatim>\<open>erase\<close> takes an iterator.
\<close>

fun set_insert :: "('a \<Rightarrow> 'a \<Rightarrow> bool) \<Rightarrow> 'a \<Rightarrow> 'a list \<Rightarrow> 'a list" where
  "set_insert lt x [] = [x]"
| "set_insert lt x (y # ys) =
     (if lt x y then x # y # ys
      else if lt y x then y # set_insert lt x ys
      else y # ys)"

fun set_find :: "('a \<Rightarrow> 'a \<Rightarrow> bool) \<Rightarrow> 'a \<Rightarrow> 'a list \<Rightarrow> nat option" where
  "set_find lt x [] = None"
| "set_find lt x (y # ys) =
     (if \<not> lt x y \<and> \<not> lt y x then Some 0 else map_option Suc (set_find lt x ys))"

locale std_set =
  fixes lt :: "'a \<Rightarrow> 'a \<Rightarrow> bool"
  assumes irrefl: "\<not> lt a a"
    and trans: "lt a b \<Longrightarrow> lt b c \<Longrightarrow> lt a c"
    and total: "a \<noteq> b \<Longrightarrow> lt a b \<or> lt b a"
begin

lemma insert_set: "set (set_insert lt x ys) = insert x (set ys)"
  by (induction ys) (use total in auto)

lemma insert_sorted: "sorted_wrt lt ys \<Longrightarrow> sorted_wrt lt (set_insert lt x ys)"
  by (induction ys) (auto simp: insert_set intro: trans)

lemma sorted_distinct: "sorted_wrt lt ys \<Longrightarrow> distinct ys"
  by (induction ys) (auto simp: irrefl)

lemma find_Some:
  "set_find lt x ys = Some i \<Longrightarrow> i < length ys \<and> ys ! i = x"
  using total by (induction ys arbitrary: i) (auto split: if_splits)

lemma find_None: "set_find lt x ys = None \<longleftrightarrow> x \<notin> set ys"
  using total irrefl by (induction ys) (auto split: if_splits)

lemma find_erase:
  assumes "sorted_wrt lt ys" and "set_find lt x ys = Some i"
  shows "sorted_wrt lt (erase_at i ys)" and "set (erase_at i ys) = set ys - {x}"
    and "x \<in> set ys"
proof -
  have i: "i < length ys" "ys ! i = x" using find_Some [OF assms(2)] by auto
  show "sorted_wrt lt (erase_at i ys)" by (rule sorted_wrt_erase_at [OF assms(1)])
  show "x \<in> set ys" using i nth_mem by blast
  from distinct_erase_at [OF sorted_distinct [OF assms(1)] i(1)] set_erase_at [OF i(1)] i(2)
  show "set (erase_at i ys) = set ys - {x}" by auto
qed

lemma first_least: "sorted_wrt lt (y # ys) \<Longrightarrow> z \<in> set (y # ys) \<Longrightarrow> z = y \<or> lt y z"
  by auto

lemma insert_first:
  "set_insert lt x ys = z # zs \<Longrightarrow> z = x \<or> (\<exists>us. ys = z # us)"
  by (cases ys) (auto split: if_splits)

end

lemma Comparator_key:
  "Comparator h a b \<longleftrightarrow> (m_next (the (h a)), a) < (m_next (the (h b)), b)"
  by (auto simp: Comparator_def)

interpretation timer_set: std_set "Comparator h" for h
  by standard (auto simp: Comparator_key)

lemma sorted_heap_upd:
  "a \<notin> set xs \<Longrightarrow> sorted_wrt (Comparator (h(a \<mapsto> t))) xs = sorted_wrt (Comparator h) xs"
  by (induction xs) (auto simp: Comparator_def)

section \<open>Operations of the manager\<close>

text \<open>
  \<^verbatim>\<open>addTimer(shared_ptr)\<close>: the second component says whether \<^verbatim>\<open>onTimerInsertedAtFront()\<close> is
  called after the lock is released.
\<close>

definition addTimer_ptr :: "TimerManager \<Rightarrow> addr \<Rightarrow> TimerManager \<times> bool" where
  "addTimer_ptr s timer =
     (let ts = set_insert (Comparator (t_heap s)) timer (m_timers s);
          at_front = (ts \<noteq> [] \<and> hd ts = timer \<and> \<not> m_tickled s)
      in (s\<lparr>m_timers := ts, m_tickled := (if at_front then True else m_tickled s)\<rparr>, at_front))"

definition addTimer ::
    "TimerManager \<Rightarrow> addr \<Rightarrow> u64 \<Rightarrow> callback option \<Rightarrow> bool \<Rightarrow> int \<Rightarrow> TimerManager \<times> bool" where
  "addTimer s a ms cb recurring now =
     addTimer_ptr (set_timer a (Timer_ctor ms cb recurring now) s) a"

text \<open>\<^verbatim>\<open>OnTimer\<close>: \<open>alive\<close> says which weak references still lock; the callbacks it calls.\<close>

definition OnTimer :: "(nat \<Rightarrow> bool) \<Rightarrow> nat \<Rightarrow> callback \<Rightarrow> callback list" where
  "OnTimer alive weak_cond cb = (if alive weak_cond then [cb] else [])"

definition addConditionTimer ::
    "TimerManager \<Rightarrow> addr \<Rightarrow> u64 \<Rightarrow> callback \<Rightarrow> nat \<Rightarrow> bool \<Rightarrow> int \<Rightarrow> TimerManager \<times> bool" where
  "addConditionTimer s a ms cb weak_cond recurring now =
     addTimer s a ms (Some (OnTimerCb weak_cond cb)) recurring now"

definition hasTimer :: "TimerManager \<Rightarrow> bool" where
  "hasTimer s \<longleftrightarrow> m_timers s \<noteq> []"

text \<open>\<^verbatim>\<open>now < m_previouseTime - 1h\<close>; the time is remembered in any case.\<close>

definition detectClockRollover :: "TimerManager \<Rightarrow> int \<Rightarrow> TimerManager \<times> bool" where
  "detectClockRollover s now =
     (s\<lparr>m_previouseTime := now\<rparr>, now < m_previouseTime s - milliseconds (60 * 60 * 1000))"

text \<open>\<^verbatim>\<open>~0ull\<close> when there is no timer; \<^verbatim>\<open>duration_cast\<close> drops the fraction of a millisecond.\<close>

definition getNextTimer :: "TimerManager \<Rightarrow> int \<Rightarrow> TimerManager \<times> u64" where
  "getNextTimer s now =
     (let s1 = s\<lparr>m_tickled := False\<rparr>
      in if m_timers s1 = [] then (s1, NOT 0)
         else let time = m_next (timer_at s1 (hd (m_timers s1)))
              in if now \<ge> time then (s1, 0)
                 else (s1, word_of_int ((time - now) div 1000000)))"

text \<open>The loop of \<^verbatim>\<open>listExpiredCb\<close>. Not returning is the value \<open>None\<close>.\<close>

definition expire_one :: "int \<Rightarrow> TimerManager \<Rightarrow> TimerManager" where
  "expire_one now s =
     (let temp = hd (m_timers s); t = timer_at s temp; s1 = s\<lparr>m_timers := tl (m_timers s)\<rparr>
      in if m_recurring t
         then let s2 = set_timer temp (t\<lparr>m_next := now + milliseconds (m_ms t)\<rparr>) s1
              in s2\<lparr>m_timers := set_insert (Comparator (t_heap s2)) temp (m_timers s2)\<rparr>
         else set_timer temp (t\<lparr>m_cb := None\<rparr>) s1)"

partial_function (option) expire_loop ::
    "bool \<Rightarrow> int \<Rightarrow> TimerManager \<Rightarrow> callback option list \<Rightarrow>
     (TimerManager \<times> callback option list) option" where
  "expire_loop rollover now s cbs =
     (if m_timers s \<noteq> [] \<and> (rollover \<or> m_next (timer_at s (hd (m_timers s))) \<le> now)
      then expire_loop rollover now (expire_one now s)
             (cbs @ [m_cb (timer_at s (hd (m_timers s)))])
      else Some (s, cbs))"

text \<open>\<open>now\<close> is the reading of \<^verbatim>\<open>listExpiredCb\<close>, \<open>now'\<close> the one of \<^verbatim>\<open>detectClockRollover\<close>.\<close>

definition listExpiredCb ::
    "TimerManager \<Rightarrow> int \<Rightarrow> int \<Rightarrow> (TimerManager \<times> callback option list) option" where
  "listExpiredCb s now now' =
     (case detectClockRollover s now' of
        (s1, rollover) \<Rightarrow> expire_loop rollover now s1 [])"

section \<open>Operations of a timer\<close>

definition cancel :: "TimerManager \<Rightarrow> addr \<Rightarrow> TimerManager \<times> bool" where
  "cancel s this =
     (let t = timer_at s this
      in if m_cb t = None then (s, False)
         else let s1 = set_timer this (t\<lparr>m_cb := None\<rparr>) s
              in case set_find (Comparator (t_heap s1)) this (m_timers s1) of
                   Some it \<Rightarrow> (s1\<lparr>m_timers := erase_at it (m_timers s1)\<rparr>, True)
                 | None \<Rightarrow> (s1, True))"

definition refresh :: "TimerManager \<Rightarrow> addr \<Rightarrow> int \<Rightarrow> TimerManager \<times> bool" where
  "refresh s this now =
     (let t = timer_at s this
      in if m_cb t = None then (s, False)
         else case set_find (Comparator (t_heap s)) this (m_timers s) of
                None \<Rightarrow> (s, False)
              | Some it \<Rightarrow>
                  let s1 = s\<lparr>m_timers := erase_at it (m_timers s)\<rparr>;
                      s2 = set_timer this (t\<lparr>m_next := now + milliseconds (m_ms t)\<rparr>) s1
                  in (s2\<lparr>m_timers := set_insert (Comparator (t_heap s2)) this (m_timers s2)\<rparr>, True))"

text \<open>
  \<^verbatim>\<open>reset\<close> in the pieces other threads can see: the early return and the critical section that
  takes the timer out (\<open>Inl\<close> the value returned at once, \<open>Inr\<close> the state to go on with), then
  the update and the insertion. The lock is free between them.
\<close>

definition reset_detach :: "TimerManager \<Rightarrow> addr \<Rightarrow> u64 \<Rightarrow> bool \<Rightarrow> bool + TimerManager" where
  "reset_detach s this ms from_now =
     (let t = timer_at s this
      in if ms = m_ms t \<and> \<not> from_now then Inl True
         else if m_cb t = None then Inl False
         else case set_find (Comparator (t_heap s)) this (m_timers s) of
                None \<Rightarrow> Inl False
              | Some it \<Rightarrow> Inr (s\<lparr>m_timers := erase_at it (m_timers s)\<rparr>))"

definition reset_attach ::
    "TimerManager \<Rightarrow> addr \<Rightarrow> u64 \<Rightarrow> bool \<Rightarrow> int \<Rightarrow> TimerManager \<times> bool" where
  "reset_attach s this ms from_now now =
     (let t = timer_at s this;
          start = (if from_now then now else m_next t - milliseconds (m_ms t));
          t1 = t\<lparr>m_ms := ms, m_next := start + milliseconds ms\<rparr>
      in addTimer_ptr (set_timer this t1 s) this)"

text \<open>\<^verbatim>\<open>reset\<close> run without interruption: state, hook call, returned value.\<close>

definition reset ::
    "TimerManager \<Rightarrow> addr \<Rightarrow> u64 \<Rightarrow> bool \<Rightarrow> int \<Rightarrow> TimerManager \<times> bool \<times> bool" where
  "reset s this ms from_now now =
     (case reset_detach s this ms from_now of
        Inl r \<Rightarrow> (s, False, r)
      | Inr s1 \<Rightarrow> (case reset_attach s1 this ms from_now now of (s2, hook) \<Rightarrow> (s2, hook, True)))"

section \<open>The invariant\<close>

text \<open>The set is in order, and every pending timer is an object that has its callback.\<close>

definition pending_ok :: "(addr \<Rightarrow> Timer option) \<Rightarrow> addr list \<Rightarrow> bool" where
  "pending_ok h ts \<longleftrightarrow> sorted_wrt (Comparator h) ts \<and>
     (\<forall>a \<in> set ts. \<exists>t. h a = Some t \<and> m_cb t \<noteq> None)"

definition timer_inv :: "TimerManager \<Rightarrow> bool" where
  "timer_inv s \<longleftrightarrow> pending_ok (t_heap s) (m_timers s)"

lemma set_timer_simps [simp]:
  "t_heap (set_timer a t s) = (t_heap s)(a \<mapsto> t)" "m_timers (set_timer a t s) = m_timers s"
  "m_tickled (set_timer a t s) = m_tickled s" "m_previouseTime (set_timer a t s) = m_previouseTime s"
  by (simp_all add: set_timer_def)

lemma timer_at_set [simp]:
  "timer_at (set_timer a t s) b = (if b = a then t else timer_at s b)"
  "timer_at (s\<lparr>m_timers := ts\<rparr>) b = timer_at s b"
  "timer_at (s\<lparr>m_tickled := tk\<rparr>) b = timer_at s b"
  "timer_at (s\<lparr>m_previouseTime := n\<rparr>) b = timer_at s b"
  by (simp_all add: timer_at_def)

lemma timer_inv_ctor: "timer_inv (TimerManager_ctor now)"
  by (simp add: timer_inv_def pending_ok_def TimerManager_ctor_def)

lemma timer_invD:
  assumes "timer_inv s"
  shows "sorted_wrt (Comparator (t_heap s)) (m_timers s)" and "distinct (m_timers s)"
    and "a \<in> set (m_timers s) \<Longrightarrow> t_heap s a = Some (timer_at s a)"
    and "a \<in> set (m_timers s) \<Longrightarrow> m_cb (timer_at s a) \<noteq> None"
proof -
  show s: "sorted_wrt (Comparator (t_heap s)) (m_timers s)"
    using assms by (simp add: timer_inv_def pending_ok_def)
  show "distinct (m_timers s)" by (rule timer_set.sorted_distinct [OF s])
  assume "a \<in> set (m_timers s)"
  then have "\<exists>t. t_heap s a = Some t \<and> m_cb t \<noteq> None"
    using assms unfolding timer_inv_def pending_ok_def by blast
  then show "t_heap s a = Some (timer_at s a)" "m_cb (timer_at s a) \<noteq> None"
    by (auto simp: timer_at_def)
qed

text \<open>Taking a timer out, changing it, and putting it in.\<close>

lemma pending_erase:
  "pending_ok h ts \<Longrightarrow> pending_ok h (erase_at i ts)"
  using set_erase_at_subset [of i ts] unfolding pending_ok_def
  by (blast intro: sorted_wrt_erase_at)

lemma erased_notin:
  assumes "pending_ok h ts" and "set_find (Comparator h') a ts = Some i"
  shows "a \<notin> set (erase_at i ts)"
proof -
  have "sorted_wrt (Comparator h) ts" using assms(1) by (simp add: pending_ok_def)
  then have "distinct ts" by (rule timer_set.sorted_distinct)
  with distinct_erase_at [of ts i] timer_set.find_Some [OF assms(2)] show ?thesis by simp
qed

lemma pending_upd: "pending_ok h ts \<Longrightarrow> a \<notin> set ts \<Longrightarrow> pending_ok (h(a \<mapsto> t)) ts"
  by (auto simp: pending_ok_def sorted_heap_upd)

lemma pending_insert:
  assumes "pending_ok h ts" and "h a = Some t" and "m_cb t \<noteq> None"
  shows "pending_ok h (set_insert (Comparator h) a ts)"
  using assms by (auto simp: pending_ok_def timer_set.insert_set timer_set.insert_sorted)

lemma pending_upd_insert:
  assumes "pending_ok h ts" and "a \<notin> set ts" and "m_cb t \<noteq> None"
  shows "pending_ok (h(a \<mapsto> t)) (set_insert (Comparator (h(a \<mapsto> t))) a ts)"
  by (rule pending_insert [OF pending_upd [OF assms(1,2)] _ assms(3)]) simp

lemma addTimer_ptr_fields [simp]:
  "t_heap (fst (addTimer_ptr s a)) = t_heap s"
  "m_timers (fst (addTimer_ptr s a)) = set_insert (Comparator (t_heap s)) a (m_timers s)"
  by (simp_all add: addTimer_ptr_def Let_def)

lemma timer_inv_addTimer [inv_intros]:
  "timer_inv s \<Longrightarrow> a \<notin> set (m_timers s) \<Longrightarrow> cb \<noteq> None \<Longrightarrow>
    timer_inv (fst (addTimer s a ms cb recurring now))"
  unfolding timer_inv_def addTimer_def
  by (simp add: pending_upd_insert Timer_ctor_def)

lemma timer_inv_cancel [inv_intros]: "timer_inv s \<Longrightarrow> timer_inv (fst (cancel s a))"
  unfolding timer_inv_def cancel_def Let_def
  by (auto split: option.split simp: timer_set.find_None dest: erased_notin
      intro!: pending_upd pending_upd [OF pending_erase])

lemma timer_inv_refresh [inv_intros]: "timer_inv s \<Longrightarrow> timer_inv (fst (refresh s a now))"
  unfolding timer_inv_def refresh_def Let_def
  by (auto split: option.split intro!: pending_upd_insert pending_erase dest: erased_notin)

lemma timer_inv_reset [inv_intros]:
  "timer_inv s \<Longrightarrow> timer_inv (fst (reset s a ms from_now now))"
  unfolding timer_inv_def reset_def reset_detach_def reset_attach_def Let_def
  by (auto split: option.split prod.split if_splits
      intro!: pending_upd_insert pending_erase dest: erased_notin
      simp: addTimer_ptr_def Let_def)

lemma timer_inv_getNextTimer [inv_intros]: "timer_inv s \<Longrightarrow> timer_inv (fst (getNextTimer s now))"
  by (auto simp: getNextTimer_def Let_def timer_inv_def)

lemma cancel_timers:
  assumes "timer_inv s"
  shows "set (m_timers (fst (cancel s a))) = set (m_timers s) - {a}"
proof (cases "m_cb (timer_at s a) = None")
  case True
  with timer_invD(4) [OF assms, of a] show ?thesis by (auto simp: cancel_def)
next
  case False
  let ?s1 = "set_timer a ((timer_at s a)\<lparr>m_cb := None\<rparr>) s"
  show ?thesis
  proof (cases "set_find (Comparator (t_heap ?s1)) a (m_timers s)")
    case None
    then have "a \<notin> set (m_timers s)" by (simp add: timer_set.find_None)
    with False None show ?thesis by (simp add: cancel_def Let_def)
  next
    case (Some i)
    have "i < length (m_timers s)" "m_timers s ! i = a" using timer_set.find_Some [OF Some] by auto
    moreover from this have "set (m_timers s) = insert a (set (erase_at i (m_timers s)))"
      using set_erase_at by metis
    moreover have "a \<notin> set (erase_at i (m_timers s))"
      using erased_notin [OF _ Some] assms by (simp add: timer_inv_def)
    ultimately show ?thesis using False Some by (auto simp: cancel_def Let_def)
  qed
qed

section \<open>Expiry\<close>

text \<open>The timers the loop takes, in order, and what becomes of one.\<close>

definition due :: "bool \<Rightarrow> int \<Rightarrow> TimerManager \<Rightarrow> addr \<Rightarrow> bool" where
  "due rollover now s a \<longleftrightarrow> rollover \<or> m_next (timer_at s a) \<le> now"

definition due_timers :: "bool \<Rightarrow> int \<Rightarrow> TimerManager \<Rightarrow> addr list" where
  "due_timers rollover now s = takeWhile (due rollover now s) (m_timers s)"

definition fired :: "int \<Rightarrow> Timer \<Rightarrow> Timer" where
  "fired now t = (if m_recurring t then t\<lparr>m_next := now + milliseconds (m_ms t)\<rparr>
                  else t\<lparr>m_cb := None\<rparr>)"

lemma takeWhile_insert_late:
  "(\<And>y. y \<in> set ys \<Longrightarrow> P y \<Longrightarrow> lt y x \<and> \<not> lt x y) \<Longrightarrow> \<not> P x \<Longrightarrow>
    takeWhile P (set_insert lt x ys) = takeWhile P ys"
  by (induction ys) auto

lemma takeWhile_cong_set:
  "(\<And>y. y \<in> set ys \<Longrightarrow> P y = Q y) \<Longrightarrow> takeWhile P ys = takeWhile Q ys"
  by (induction ys) auto

lemma expire_one_spec:
  assumes inv: "timer_inv s" and ts: "m_timers s = a # as"
    and due: "due r now s a" and rec: "m_recurring (timer_at s a) \<longrightarrow> \<not> r \<and> 0 < milliseconds (m_ms (timer_at s a))"
  shows "timer_inv (expire_one now s)"
    and "t_heap (expire_one now s) = (t_heap s)(a \<mapsto> fired now (timer_at s a))"
    and "set (m_timers (expire_one now s)) =
      set as \<union> (if m_recurring (timer_at s a) then {a} else {})"
    and "due_timers r now s = a # due_timers r now (expire_one now s)"
    and "m_tickled (expire_one now s) = m_tickled s"
proof -
  let ?s = "expire_one now s" and ?t = "timer_at s a"
  have a: "a \<notin> set as" using timer_invD(2) [OF inv] ts by simp
  have as: "pending_ok (t_heap s) as"
    using inv ts by (simp add: timer_inv_def pending_ok_def)
  have cb: "m_cb ?t \<noteq> None" using timer_invD(4) [OF inv] ts by simp
  have h: "t_heap ?s = (t_heap s)(a \<mapsto> fired now ?t)"
    using ts by (simp add: expire_one_def Let_def fired_def)
  then show "t_heap ?s = (t_heap s)(a \<mapsto> fired now ?t)" .
  have tm: "m_timers ?s = (if m_recurring ?t then set_insert (Comparator (t_heap ?s)) a as else as)"
    using ts by (simp add: expire_one_def Let_def)
  show "set (m_timers ?s) = set as \<union> (if m_recurring ?t then {a} else {})"
    by (simp add: tm timer_set.insert_set)
  show "timer_inv ?s"
    unfolding timer_inv_def tm h
    using pending_upd_insert [OF as a, of "fired now ?t"] pending_upd [OF as a] cb
    by (cases "m_recurring ?t") (simp_all add: fired_def)
  show "m_tickled ?s = m_tickled s" by (simp add: expire_one_def Let_def)
  have ta: "timer_at ?s b = (if b = a then fired now ?t else timer_at s b)" for b
    by (simp add: timer_at_def h)
  have "takeWhile (due r now ?s) (m_timers ?s) = takeWhile (due r now ?s) as"
  proof (cases "m_recurring ?t")
    case True
    with rec have late: "\<not> r" "now < m_next (timer_at ?s a)" by (simp_all add: ta fired_def)
    show ?thesis unfolding tm if_P [OF True]
    proof (rule takeWhile_insert_late)
      fix y assume "y \<in> set as" "due r now ?s y"
      with late show "Comparator (t_heap ?s) y a \<and> \<not> Comparator (t_heap ?s) a y"
        by (auto simp: due_def Comparator_def timer_at_def)
    qed (use late in \<open>simp add: due_def\<close>)
  qed (simp add: tm)
  also have "\<dots> = takeWhile (due r now s) as"
    using a by (intro takeWhile_cong_set) (auto simp: due_def ta)
  finally show "due_timers r now s = a # due_timers r now ?s"
    using due ts by (simp add: due_timers_def)
qed

lemma expire_loop_spec:
  assumes "timer_inv s"
    and "\<forall>a \<in> set (due_timers r now s). m_recurring (timer_at s a) \<longrightarrow>
      \<not> r \<and> 0 < milliseconds (m_ms (timer_at s a))"
  shows "\<exists>s'. expire_loop r now s cbs =
      Some (s', cbs @ map (\<lambda>a. m_cb (timer_at s a)) (due_timers r now s)) \<and>
    timer_inv s' \<and> due_timers r now s' = [] \<and> m_tickled s' = m_tickled s \<and>
    set (m_timers s') = {a \<in> set (m_timers s). a \<in> set (due_timers r now s) \<longrightarrow>
      m_recurring (timer_at s a)} \<and>
    (\<forall>a. t_heap s' a = (if a \<in> set (due_timers r now s) then Some (fired now (timer_at s a))
      else t_heap s a))"
  using assms
proof (induction "due_timers r now s" arbitrary: s cbs)
  case Nil
  then have "m_timers s = [] \<or> \<not> due r now s (hd (m_timers s))"
    by (cases "m_timers s") (auto simp: due_timers_def split: if_splits)
  then have "expire_loop r now s cbs = Some (s, cbs)"
    by (subst expire_loop.simps) (auto simp: due_def)
  with Nil show ?case by (intro exI [of _ s]) (simp flip: Nil(1))
next
  case (Cons a ds)
  then obtain as where ts: "m_timers s = a # as" and d: "due r now s a"
    by (cases "m_timers s") (auto simp: due_timers_def split: if_splits)
  let ?s = "expire_one now s"
  have mem: "a \<in> set (due_timers r now s)" by (simp flip: Cons(2))
  have rec: "m_recurring (timer_at s a) \<longrightarrow> \<not> r \<and> 0 < milliseconds (m_ms (timer_at s a))"
    using Cons.prems(2) mem by blast
  note E = expire_one_spec [OF Cons.prems(1) ts d rec]
  have ds: "due_timers r now s = a # ds" using Cons(2) by simp
  with E(4) have ds': "ds = due_timers r now ?s" by simp
  have dist: "distinct (a # ds)"
    using timer_invD(2) [OF Cons.prems(1)] ds unfolding due_timers_def
    by (metis distinct_takeWhile)
  have ta: "timer_at ?s b = timer_at s b" if "b \<in> set ds" for b
    using that dist by (auto simp: timer_at_def E(2))
  have "\<exists>s'. expire_loop r now ?s (cbs @ [m_cb (timer_at s a)]) =
      Some (s', (cbs @ [m_cb (timer_at s a)]) @ map (\<lambda>b. m_cb (timer_at ?s b)) (due_timers r now ?s)) \<and>
    timer_inv s' \<and> due_timers r now s' = [] \<and> m_tickled s' = m_tickled ?s \<and>
    set (m_timers s') = {b \<in> set (m_timers ?s). b \<in> set (due_timers r now ?s) \<longrightarrow>
      m_recurring (timer_at ?s b)} \<and>
    (\<forall>b. t_heap s' b = (if b \<in> set (due_timers r now ?s) then Some (fired now (timer_at ?s b))
      else t_heap ?s b))"
  proof (rule Cons.hyps(1) [OF ds' E(1)], intro ballI impI)
    fix b assume b: "b \<in> set (due_timers r now ?s)" "m_recurring (timer_at ?s b)"
    then have bd: "b \<in> set ds" by (simp only: ds')
    with b ds have "b \<in> set (due_timers r now s)" "m_recurring (timer_at s b)"
      by (simp_all add: ta)
    with Cons.prems(2) show "\<not> r \<and> 0 < milliseconds (m_ms (timer_at ?s b))"
      unfolding ta [OF bd] by blast
  qed
  then obtain s' where s': "expire_loop r now ?s (cbs @ [m_cb (timer_at s a)]) =
      Some (s', (cbs @ [m_cb (timer_at s a)]) @ map (\<lambda>b. m_cb (timer_at ?s b)) ds)"
    "timer_inv s'" "due_timers r now s' = []" "m_tickled s' = m_tickled ?s"
    "set (m_timers s') = {b \<in> set (m_timers ?s). b \<in> set ds \<longrightarrow> m_recurring (timer_at ?s b)}"
    "\<forall>b. t_heap s' b = (if b \<in> set ds then Some (fired now (timer_at ?s b)) else t_heap ?s b)"
    unfolding ds' [symmetric] by blast
  have "expire_loop r now s cbs = expire_loop r now ?s (cbs @ [m_cb (timer_at s a)])"
    using ts d by (subst expire_loop.simps) (simp add: due_def)
  also have "\<dots> = Some (s', cbs @ map (\<lambda>b. m_cb (timer_at s b)) (a # ds))"
    using s'(1) ta by simp
  finally have 1: "expire_loop r now s cbs = \<dots>" .
  have 2: "set (m_timers s') = {b \<in> set (m_timers s). b \<in> set (a # ds) \<longrightarrow> m_recurring (timer_at s b)}"
    using s'(5) E(3) ta dist ts timer_invD(2) [OF Cons.prems(1)] by auto
  have 3: "\<forall>b. t_heap s' b = (if b \<in> set (a # ds) then Some (fired now (timer_at s b)) else t_heap s b)"
    using s'(6) dist ta by (auto simp: E(2))
  show ?case unfolding ds using 1 2 3 s'(2-4) E(5) by (intro exI [of _ s']) simp
qed

text \<open>After the loop nothing is due: in an ordered set the first timer decides.\<close>

lemma nothing_due:
  assumes "timer_inv s" and "due_timers False now s = []" and "a \<in> set (m_timers s)"
  shows "now < m_next (timer_at s a)"
proof (cases "m_timers s")
  case (Cons b bs)
  with assms(2) have b: "now < m_next (timer_at s b)" by (simp add: due_timers_def due_def split: if_splits)
  have "a = b \<or> Comparator (t_heap s) b a"
    using timer_invD(1) [OF assms(1)] assms(3) Cons by auto
  with b show ?thesis by (auto simp: Comparator_def timer_at_def split: if_splits)
qed (use assms in simp)

lemma takeWhile_sorted:
  "sorted_wrt (\<lambda>a b. f a \<le> f b) xs \<Longrightarrow>
    set (takeWhile (\<lambda>a. f a \<le> (n :: int)) xs) = {a \<in> set xs. f a \<le> n}"
  by (induction xs) auto

lemma due_in_order:
  assumes "timer_inv s"
  shows "set (due_timers False now s) = {a \<in> set (m_timers s). m_next (timer_at s a) \<le> now}"
proof -
  have "sorted_wrt (\<lambda>a b. m_next (timer_at s a) \<le> m_next (timer_at s b)) (m_timers s)"
    by (rule sorted_wrt_mono_rel [OF _ timer_invD(1) [OF assms]])
      (auto simp: Comparator_def timer_at_def split: if_splits)
  then have "set (takeWhile (\<lambda>a. m_next (timer_at s a) \<le> now) (m_timers s)) =
      {a \<in> set (m_timers s). m_next (timer_at s a) \<le> now}"
    by (rule takeWhile_sorted)
  then show ?thesis by (simp add: due_timers_def due_def [abs_def])
qed

text \<open>
  The loop does not return when it takes a timer it will put back in front of its own test:
  after a rollover that is any recurring timer, without one a recurring timer of zero length.
\<close>

definition rearmed :: "bool \<Rightarrow> int \<Rightarrow> TimerManager \<Rightarrow> addr \<Rightarrow> bool" where
  "rearmed rollover now s a \<longleftrightarrow> a \<in> set (m_timers s) \<and> m_recurring (timer_at s a) \<and>
     (rollover \<or> m_next (timer_at s a) \<le> now \<and> milliseconds (m_ms (timer_at s a)) \<le> 0)"

lemma rearmed_due:
  assumes "timer_inv s" and "rearmed r now s a"
  shows "m_timers s \<noteq> [] \<and> (r \<or> m_next (timer_at s (hd (m_timers s))) \<le> now)"
proof (cases "m_timers s")
  case (Cons b bs)
  with assms(2) timer_invD(1) [OF assms(1)] have "a = b \<or> Comparator (t_heap s) b a"
    by (auto simp: rearmed_def)
  with assms(2) Cons show ?thesis
    by (auto simp: rearmed_def Comparator_def timer_at_def split: if_splits)
qed (use assms in \<open>simp add: rearmed_def\<close>)

lemma expire_one_rearmed:
  assumes inv: "timer_inv s" and a: "rearmed r now s a"
  shows "rearmed r now (expire_one now s) a" and "timer_inv (expire_one now s)"
proof -
  obtain b bs where ts: "m_timers s = b # bs"
    using rearmed_due [OF assms] by (cases "m_timers s") auto
  let ?t = "timer_at s b" and ?s = "expire_one now s"
  have h: "t_heap ?s = (t_heap s)(b \<mapsto> fired now ?t)"
    and tm: "m_timers ?s = (if m_recurring ?t then set_insert (Comparator (t_heap ?s)) b bs else bs)"
    using ts by (simp_all add: expire_one_def Let_def fired_def)
  have ta: "timer_at ?s c = (if c = b then fired now ?t else timer_at s c)" for c
    by (simp add: timer_at_def h)
  show "rearmed r now ?s a"
    using a ts by (auto simp: rearmed_def ta tm timer_set.insert_set fired_def)
  have "pending_ok (t_heap s) bs" "b \<notin> set bs" "m_cb ?t \<noteq> None"
    using inv ts timer_invD(2,4) [OF inv] by (simp_all add: timer_inv_def pending_ok_def)
  with pending_upd_insert [of "t_heap s" bs b "fired now ?t"] pending_upd [of "t_heap s" bs b "fired now ?t"]
  show "timer_inv ?s" unfolding timer_inv_def tm h
    by (cases "m_recurring ?t") (simp_all add: fired_def)
qed

lemma expire_loop_returns:
  assumes "expire_loop r now s cbs = Some y"
  shows "timer_inv s \<longrightarrow> \<not> rearmed r now s a"
proof (rule expire_loop.raw_induct [OF _ assms])
  fix loop :: "bool \<Rightarrow> int \<Rightarrow> TimerManager \<Rightarrow> callback option list \<Rightarrow>
      (TimerManager \<times> callback option list) option"
    and r now s cbs y
  assume IH: "\<And>r now s cbs y. loop r now s cbs = Some y \<Longrightarrow> timer_inv s \<longrightarrow> \<not> rearmed r now s a"
    and body: "(if m_timers s \<noteq> [] \<and> (r \<or> m_next (timer_at s (hd (m_timers s))) \<le> now)
      then loop r now (expire_one now s) (cbs @ [m_cb (timer_at s (hd (m_timers s)))])
      else Some (s, cbs)) = Some y"
  show "timer_inv s \<longrightarrow> \<not> rearmed r now s a"
  proof (intro impI notI)
    assume *: "timer_inv s" "rearmed r now s a"
    with body rearmed_due [OF *] have
      "loop r now (expire_one now s) (cbs @ [m_cb (timer_at s (hd (m_timers s)))]) = Some y" by simp
    from IH [OF this] expire_one_rearmed [OF *] show False by blast
  qed
qed

section \<open>Runs\<close>

text \<open>
  The operations as the threads of the program issue them, each one critical section (\<^verbatim>\<open>reset\<close>
  run without interruption). \<open>clk\<close> is the clock when the section runs; the reading that
  \<^verbatim>\<open>addTimer\<close> and \<^verbatim>\<open>listExpiredCb\<close> take before they lock may be older. The result is the new
  state and whether \<^verbatim>\<open>onTimerInsertedAtFront\<close> was called; \<open>None\<close> is not returning.
\<close>

datatype timer_op =
    AddOp addr u64 callback bool int
  | CancelOp addr
  | RefreshOp addr
  | ResetOp addr u64 bool
  | ExpireOp int

fun timer_step :: "TimerManager \<Rightarrow> int \<Rightarrow> timer_op \<Rightarrow> (TimerManager \<times> bool) option" where
  "timer_step s clk (AddOp a ms cb recurring now) = Some (addTimer s a ms (Some cb) recurring now)"
| "timer_step s clk (CancelOp a) = Some (fst (cancel s a), False)"
| "timer_step s clk (RefreshOp a) = Some (fst (refresh s a clk), False)"
| "timer_step s clk (ResetOp a ms from_now) =
     (case reset s a ms from_now clk of (s', hook, _) \<Rightarrow> Some (s', hook))"
| "timer_step s clk (ExpireOp now) =
     (case listExpiredCb s now clk of None \<Rightarrow> None | Some (s', _) \<Rightarrow> Some (s', False))"

text \<open>
  What the callers must respect: a new timer has a new address, a pointer used exists, clock
  readings are not from the future, and a recurring timer has a positive length.
\<close>

fun op_ok :: "TimerManager \<Rightarrow> int \<Rightarrow> timer_op \<Rightarrow> bool" where
  "op_ok s clk (AddOp a ms cb recurring now) \<longleftrightarrow>
     t_heap s a = None \<and> now \<le> clk \<and> (recurring \<longrightarrow> 0 < milliseconds ms)"
| "op_ok s clk (CancelOp a) \<longleftrightarrow> t_heap s a \<noteq> None"
| "op_ok s clk (RefreshOp a) \<longleftrightarrow> t_heap s a \<noteq> None"
| "op_ok s clk (ResetOp a ms from_now) \<longleftrightarrow>
     t_heap s a \<noteq> None \<and> (m_recurring (timer_at s a) \<longrightarrow> 0 < milliseconds ms)"
| "op_ok s clk (ExpireOp now) \<longleftrightarrow> now \<le> clk"

definition timer_sane :: "int \<Rightarrow> TimerManager \<Rightarrow> bool" where
  "timer_sane clk s \<longleftrightarrow> timer_inv s \<and> m_previouseTime s \<le> clk \<and>
     (\<forall>a \<in> set (m_timers s). m_next (timer_at s a) - milliseconds (m_ms (timer_at s a)) \<le> clk \<and>
        (m_recurring (timer_at s a) \<longrightarrow> 0 < milliseconds (m_ms (timer_at s a))))"

text \<open>\<open>bound\<close>: a point in time no pending timer is due before; \<open>None\<close> is infinity.\<close>

fun not_before :: "int option \<Rightarrow> int \<Rightarrow> bool" where
  "not_before None x = False"
| "not_before (Some p) x \<longleftrightarrow> p \<le> x"

definition covered :: "int option \<Rightarrow> TimerManager \<Rightarrow> bool" where
  "covered bound s \<longleftrightarrow> m_tickled s \<or> (\<forall>a \<in> set (m_timers s). not_before bound (m_next (timer_at s a)))"

lemma not_before_mono: "not_before b x \<Longrightarrow> x \<le> y \<Longrightarrow> not_before b y"
  by (cases b) auto

lemma covered_addTimer_ptr:
  assumes "covered b s" and "addTimer_ptr s a = (s', hook)"
    and sorted: "sorted_wrt (Comparator (t_heap s)) (m_timers s)"
  shows "covered b s'" and "m_tickled s' = (m_tickled s \<or> hook)"
proof -
  let ?ts = "set_insert (Comparator (t_heap s)) a (m_timers s)"
  have e: "m_timers s' = ?ts" "t_heap s' = t_heap s" "m_tickled s' = (m_tickled s \<or> hook)"
    "hook = (hd ?ts = a \<and> ?ts \<noteq> [] \<and> \<not> m_tickled s)"
    using assms(2) by (auto simp: addTimer_ptr_def Let_def)
  then show "m_tickled s' = (m_tickled s \<or> hook)" by simp
  show "covered b s'"
  proof (cases "m_tickled s \<or> hook")
    case False
    have "?ts \<noteq> []" using timer_set.insert_set [of "t_heap s" a "m_timers s"] by auto
    with False e(4) have hd: "hd ?ts \<noteq> a" by blast
    obtain c cs where c: "m_timers s = c # cs" "\<not> Comparator (t_heap s) a c"
    proof (cases "m_timers s")
      case Nil
      with hd show thesis by simp
    next
      case (Cons c cs)
      with hd that show thesis by (cases "Comparator (t_heap s) a c") simp_all
    qed
    with assms(1) False have "\<forall>d \<in> set (m_timers s). not_before b (m_next (timer_at s d))"
      by (simp add: covered_def)
    moreover have "m_next (timer_at s c) \<le> m_next (timer_at s a)"
      using c(2) by (auto simp: Comparator_def timer_at_def split: if_splits)
    ultimately show ?thesis
      using c(1) not_before_mono [of b "m_next (timer_at s c)" "m_next (timer_at s a)"]
      by (auto simp: covered_def e timer_set.insert_set timer_at_def)
  qed (simp add: covered_def e)
qed

lemma timer_saneD:
  assumes "timer_sane clk s"
  shows "timer_inv s" and "m_previouseTime s \<le> clk"
    and "a \<in> set (m_timers s) \<Longrightarrow> m_next (timer_at s a) - milliseconds (m_ms (timer_at s a)) \<le> clk"
    and "a \<in> set (m_timers s) \<Longrightarrow> m_recurring (timer_at s a) \<Longrightarrow>
      0 < milliseconds (m_ms (timer_at s a))"
  using assms by (auto simp: timer_sane_def)

text \<open>What a step guarantees, for an arbitrary bound.\<close>

definition step_good :: "int \<Rightarrow> TimerManager \<Rightarrow> TimerManager \<Rightarrow> bool \<Rightarrow> bool" where
  "step_good clk s s' hook \<longleftrightarrow> timer_sane clk s' \<and> m_tickled s' = (m_tickled s \<or> hook) \<and>
     (\<forall>b. covered b s \<longrightarrow> covered b s')"

lemma sane_add:
  assumes s: "timer_sane clk0 s" "clk0 \<le> clk" and a: "a \<notin> set (m_timers s)"
    and t: "m_cb t \<noteq> None" "m_next t - milliseconds (m_ms t) \<le> clk"
      "m_recurring t \<longrightarrow> 0 < milliseconds (m_ms t)"
    and s': "addTimer_ptr (set_timer a t s) a = (s', hook)"
  shows "step_good clk s s' hook"
proof -
  note inv = timer_saneD(1) [OF s(1)]
  have f: "t_heap s' = (t_heap s)(a \<mapsto> t)" "m_previouseTime s' = m_previouseTime s"
    "m_timers s' = set_insert (Comparator ((t_heap s)(a \<mapsto> t))) a (m_timers s)"
    using s' by (auto simp: addTimer_ptr_def Let_def)
  have ta: "timer_at s' b = (if b = a then t else timer_at s b)" for b
    by (simp add: timer_at_def f)
  have "timer_inv s'" unfolding timer_inv_def f
    using inv a t(1) by (intro pending_upd_insert) (simp_all add: timer_inv_def)
  moreover have "b \<in> set (m_timers s) \<Longrightarrow>
      m_next (timer_at s b) - milliseconds (m_ms (timer_at s b)) \<le> clk" for b
    using timer_saneD(3) [OF s(1), of b] s(2) by simp
  ultimately have sane: "timer_sane clk s'"
    using t timer_saneD(2) [OF s(1)] timer_saneD(4) [OF s(1)] s(2)
    by (auto simp: timer_sane_def ta f timer_set.insert_set)
  have sorted: "sorted_wrt (Comparator (t_heap (set_timer a t s))) (m_timers (set_timer a t s))"
    using timer_invD(1) [OF inv] a by (simp add: sorted_heap_upd)
  have "covered b (set_timer a t s)" if "covered b s" for b
    using that a by (auto simp: covered_def)
  moreover have "m_tickled s' = (m_tickled s \<or> hook)"
    using s' by (auto simp: addTimer_ptr_def Let_def)
  ultimately show ?thesis
    using covered_addTimer_ptr(1) [OF _ s' sorted] sane by (simp add: step_good_def)
qed

text \<open>A step that only takes timers out, changing those it takes.\<close>

lemma sane_shrink:
  assumes s: "timer_sane clk0 s" "clk0 \<le> clk" and inv: "timer_inv s'"
    and sub: "set (m_timers s') \<subseteq> set (m_timers s)"
    and same: "\<And>a. a \<in> set (m_timers s') \<Longrightarrow> timer_at s' a = timer_at s a"
    and f: "m_tickled s' = m_tickled s" "m_previouseTime s' = m_previouseTime s"
  shows "step_good clk s s' False"
proof -
  have "timer_sane clk s'"
    using timer_saneD(2-4) [OF s(1)] s(2) inv sub same f(2) by (fastforce simp: timer_sane_def)
  moreover have "covered b s'" if "covered b s" for b
    using that sub same f(1) by (auto simp: covered_def)
  ultimately show ?thesis by (simp add: step_good_def f)
qed

lemma step_good_cancel:
  assumes s: "timer_sane clk0 s" "clk0 \<le> clk"
  shows "step_good clk s (fst (cancel s a)) False"
proof (rule sane_shrink [OF s timer_inv_cancel [OF timer_saneD(1) [OF s(1)]]])
  let ?s = "fst (cancel s a)"
  have e: "?s = s \<or> (a \<notin> set (m_timers ?s) \<and> t_heap ?s = (t_heap s)(a \<mapsto> timer_at s a\<lparr>m_cb := None\<rparr>) \<and>
      set (m_timers ?s) \<subseteq> set (m_timers s))"
    using timer_saneD(1) [OF s(1)] set_erase_at_subset [of _ "m_timers s"]
    unfolding cancel_def Let_def timer_inv_def
    by (auto split: option.split simp: timer_set.find_None dest: erased_notin)
  then show "set (m_timers ?s) \<subseteq> set (m_timers s)" by auto
  show "m_tickled ?s = m_tickled s" "m_previouseTime ?s = m_previouseTime s"
    by (simp_all add: cancel_def Let_def split: option.split)
  show "timer_at ?s b = timer_at s b" if "b \<in> set (m_timers ?s)" for b
    using e that by (auto simp: timer_at_def)
qed

lemma step_good_same: "timer_sane clk0 s \<Longrightarrow> clk0 \<le> clk \<Longrightarrow> step_good clk s s False"
  by (rule sane_shrink) (auto dest: timer_saneD)

lemma step_good_refresh:
  assumes s: "timer_sane clk0 s" "clk0 \<le> clk"
  shows "step_good clk s (fst (refresh s a clk)) False"
proof (cases "m_cb (timer_at s a) = None \<or> set_find (Comparator (t_heap s)) a (m_timers s) = None")
  case True
  then have "fst (refresh s a clk) = s" by (auto simp: refresh_def Let_def)
  with step_good_same [OF s] show ?thesis by simp
next
  case False
  then obtain i where i: "m_cb (timer_at s a) \<noteq> None"
    "set_find (Comparator (t_heap s)) a (m_timers s) = Some i" by auto
  let ?s = "fst (refresh s a clk)" and ?t = "timer_at s a\<lparr>m_next := clk + milliseconds (m_ms (timer_at s a))\<rparr>"
  note inv = timer_saneD(1) [OF s(1)]
  have f: "t_heap ?s = (t_heap s)(a \<mapsto> ?t)" "m_tickled ?s = m_tickled s"
    "m_previouseTime ?s = m_previouseTime s"
    "m_timers ?s = set_insert (Comparator ((t_heap s)(a \<mapsto> ?t))) a (erase_at i (m_timers s))"
    using i by (auto simp: refresh_def Let_def)
  have ta: "timer_at ?s b = (if b = a then ?t else timer_at s b)" for b
    by (simp add: timer_at_def f)
  have set: "set (m_timers ?s) = set (m_timers s)" and a: "a \<in> set (m_timers s)"
    using timer_set.find_erase [OF timer_invD(1) [OF inv] i(2)]
    by (auto simp: f timer_set.insert_set)
  have later: "m_next (timer_at s b) \<le> m_next (timer_at ?s b)" if "b \<in> set (m_timers s)" for b
    using timer_saneD(3) [OF s(1) that] s(2) by (cases "b = a") (simp_all add: ta)
  have "m_next (timer_at ?s b) - milliseconds (m_ms (timer_at ?s b)) \<le> clk"
    "m_recurring (timer_at ?s b) \<longrightarrow> 0 < milliseconds (m_ms (timer_at ?s b))"
    if "b \<in> set (m_timers s)" for b
    using timer_saneD(3,4) [OF s(1) that] s(2) by (cases "b = a"; simp add: ta)+
  then have "timer_sane clk ?s"
    using timer_inv_refresh [OF inv] timer_saneD(2) [OF s(1)] s(2)
    by (simp add: timer_sane_def f(3) set)
  moreover have "covered b ?s" if "covered b s" for b
    using that later not_before_mono unfolding covered_def set f(2) by blast
  ultimately show ?thesis by (simp add: step_good_def f)
qed

lemma reset_detach_Inr:
  assumes "reset_detach s a ms from_now = Inr s1"
  obtains i where "m_cb (timer_at s a) \<noteq> None"
    "set_find (Comparator (t_heap s)) a (m_timers s) = Some i"
    "s1 = s\<lparr>m_timers := erase_at i (m_timers s)\<rparr>"
  using assms by (auto simp: reset_detach_def Let_def split: if_splits option.splits)

lemma step_good_reset:
  assumes s: "timer_sane clk0 s" "clk0 \<le> clk"
    and ms: "m_recurring (timer_at s a) \<longrightarrow> 0 < milliseconds ms"
    and r: "reset s a ms from_now clk = (s', hook, res)"
  shows "step_good clk s s' hook"
proof (cases "reset_detach s a ms from_now")
  case (Inl b)
  with r step_good_same [OF s] show ?thesis by (simp add: reset_def)
next
  case (Inr s1)
  then obtain i where i: "m_cb (timer_at s a) \<noteq> None"
    "set_find (Comparator (t_heap s)) a (m_timers s) = Some i"
    "s1 = s\<lparr>m_timers := erase_at i (m_timers s)\<rparr>" by (rule reset_detach_Inr)
  note inv = timer_saneD(1) [OF s(1)]
  have fe: "set (erase_at i (m_timers s)) = set (m_timers s) - {a}" "a \<in> set (m_timers s)"
    using timer_set.find_erase [OF timer_invD(1) [OF inv] i(2)] by auto
  have "timer_inv s1"
    using inv by (simp add: i(3) timer_inv_def pending_erase)
  then have g1: "step_good clk s s1 False"
    by (rule sane_shrink [OF s]) (auto simp: i(3) fe)
  let ?start = "if from_now then clk else m_next (timer_at s a) - milliseconds (m_ms (timer_at s a))"
  let ?t = "timer_at s a\<lparr>m_ms := ms, m_next := ?start + milliseconds ms\<rparr>"
  have st: "?start \<le> clk" using timer_saneD(3) [OF s(1) fe(2)] s(2) by simp
  have "addTimer_ptr (set_timer a ?t s1) a = (s', hook)"
    using r Inr by (simp add: reset_def reset_attach_def Let_def i(3) split: prod.splits if_splits)
  then have "step_good clk s1 s' hook"
  proof (rule sane_add [rotated -1])
    show "timer_sane clk s1" using g1 by (simp add: step_good_def)
    show "a \<notin> set (m_timers s1)" using fe by (simp add: i(3))
  qed (use i(1) st ms in simp_all)
  with g1 show ?thesis by (auto simp: step_good_def)
qed

lemma milliseconds_hour: "milliseconds 3600000 = 3600000000000"
  by (simp add: milliseconds_def)

text \<open>\<^verbatim>\<open>listExpiredCb\<close> without a rollover: it returns, and what it does.\<close>

lemma listExpired_spec:
  assumes s: "timer_sane clk0 s" "clk0 \<le> clk"
  shows "\<exists>s'. listExpiredCb s now clk =
      Some (s', map (\<lambda>a. m_cb (timer_at s a)) (due_timers False now s)) \<and>
    timer_inv s' \<and> m_tickled s' = m_tickled s \<and>
    set (m_timers s') = {a \<in> set (m_timers s). now < m_next (timer_at s a) \<or> m_recurring (timer_at s a)} \<and>
    (\<forall>a \<in> set (m_timers s'). now < m_next (timer_at s' a)) \<and>
    (\<forall>a. t_heap s' a = (if a \<in> set (m_timers s) \<and> m_next (timer_at s a) \<le> now
      then Some (fired now (timer_at s a)) else t_heap s a))"
proof -
  let ?s = "s\<lparr>m_previouseTime := clk\<rparr>"
  note inv = timer_saneD(1) [OF s(1)]
  have inv': "timer_inv ?s" using inv by (simp add: timer_inv_def)
  have l: "listExpiredCb s now clk = expire_loop False now ?s []"
    using timer_saneD(2) [OF s(1)] s(2)
    by (simp add: listExpiredCb_def detectClockRollover_def milliseconds_hour)
  have d: "due_timers False now ?s = due_timers False now s"
    by (simp add: due_timers_def due_def [abs_def])
  have mem: "a \<in> set (due_timers False now s) \<longleftrightarrow> a \<in> set (m_timers s) \<and> m_next (timer_at s a) \<le> now" for a
    by (simp add: due_in_order [OF inv])
  have "\<forall>a \<in> set (due_timers False now ?s). m_recurring (timer_at ?s a) \<longrightarrow>
      \<not> False \<and> 0 < milliseconds (m_ms (timer_at ?s a))"
    using timer_saneD(4) [OF s(1)] unfolding d by (simp add: mem)
  from expire_loop_spec [where cbs = "[]", OF inv' this, unfolded d] obtain s' where s':
    "expire_loop False now ?s [] = Some (s', map (\<lambda>a. m_cb (timer_at s a)) (due_timers False now s))"
    "timer_inv s'" "due_timers False now s' = []" "m_tickled s' = m_tickled s"
    "set (m_timers s') = {a \<in> set (m_timers s). a \<in> set (due_timers False now s) \<longrightarrow> m_recurring (timer_at s a)}"
    "\<forall>a. t_heap s' a = (if a \<in> set (due_timers False now s) then Some (fired now (timer_at s a)) else t_heap s a)"
    by auto
  show ?thesis
  proof (intro exI [of _ s'] conjI)
    show "\<forall>a \<in> set (m_timers s'). now < m_next (timer_at s' a)"
      using nothing_due [OF s'(2,3)] by blast
    show "set (m_timers s') = {a \<in> set (m_timers s). now < m_next (timer_at s a) \<or> m_recurring (timer_at s a)}"
      unfolding s'(5) mem by auto
  qed (use s' in \<open>simp_all add: l mem\<close>)
qed

lemma expire_loop_previouse:
  assumes "expire_loop r now s cbs = Some y"
  shows "m_previouseTime (fst y) = m_previouseTime s"
proof (rule expire_loop.raw_induct [where P = "\<lambda>r now s cbs y. m_previouseTime (fst y) = m_previouseTime s",
      OF _ assms])
  fix loop :: "bool \<Rightarrow> int \<Rightarrow> TimerManager \<Rightarrow> callback option list \<Rightarrow>
      (TimerManager \<times> callback option list) option"
    and r now s cbs y
  assume IH: "\<And>r now s cbs y. loop r now s cbs = Some y \<Longrightarrow> m_previouseTime (fst y) = m_previouseTime s"
    and body: "(if m_timers s \<noteq> [] \<and> (r \<or> m_next (timer_at s (hd (m_timers s))) \<le> now)
      then loop r now (expire_one now s) (cbs @ [m_cb (timer_at s (hd (m_timers s)))])
      else Some (s, cbs)) = Some y"
  have "m_previouseTime (expire_one now s) = m_previouseTime s" by (simp add: expire_one_def Let_def)
  with IH [of r now "expire_one now s" _ y] body show "m_previouseTime (fst y) = m_previouseTime s"
    by (auto split: if_splits)
qed

lemma expire_previouse:
  "listExpiredCb s now clk = Some (s', cbs) \<Longrightarrow> m_previouseTime s' = clk"
  using expire_loop_previouse [of _ now "s\<lparr>m_previouseTime := clk\<rparr>" "[]" "(s', cbs)"]
  by (simp add: listExpiredCb_def detectClockRollover_def)

lemma step_good_expire:
  assumes s: "timer_sane clk0 s" "clk0 \<le> clk" and n: "now \<le> clk"
    and l: "listExpiredCb s now clk = Some (s', cbs)"
  shows "step_good clk s s' False"
proof -
  from listExpired_spec [OF s, of now] l have e: "timer_inv s'" "m_tickled s' = m_tickled s"
    "set (m_timers s') = {a \<in> set (m_timers s). now < m_next (timer_at s a) \<or> m_recurring (timer_at s a)}"
    "\<forall>a. t_heap s' a = (if a \<in> set (m_timers s) \<and> m_next (timer_at s a) \<le> now
      then Some (fired now (timer_at s a)) else t_heap s a)" by auto
  have ta: "timer_at s' a = (if m_next (timer_at s a) \<le> now
      then timer_at s a\<lparr>m_next := now + milliseconds (m_ms (timer_at s a))\<rparr> else timer_at s a)"
    if "a \<in> set (m_timers s')" for a
    using that e(3,4) by (auto simp: timer_at_def fired_def)
  have pos: "m_next (timer_at s a) \<le> now \<Longrightarrow> 0 < milliseconds (m_ms (timer_at s a))"
    and mem: "a \<in> set (m_timers s)" if "a \<in> set (m_timers s')" for a
    using that e(3) timer_saneD(4) [OF s(1), of a] by auto
  have prev: "m_previouseTime s' \<le> clk"
    using expire_previouse [OF l] by simp
  have "timer_sane clk s'"
    unfolding timer_sane_def
  proof (intro conjI ballI e(1) prev)
    fix a assume a: "a \<in> set (m_timers s')"
    show "m_next (timer_at s' a) - milliseconds (m_ms (timer_at s' a)) \<le> clk"
      using timer_saneD(3) [OF s(1) mem [OF a]] s(2) n by (simp add: ta [OF a])
    show "m_recurring (timer_at s' a) \<longrightarrow> 0 < milliseconds (m_ms (timer_at s' a))"
      using timer_saneD(4) [OF s(1) mem [OF a]] by (simp add: ta [OF a])
  qed
  moreover have "covered b s'" if c: "covered b s" for b
  proof (cases "m_tickled s")
    case False
    have "not_before b (m_next (timer_at s' a))" if "a \<in> set (m_timers s')" for a
    proof (rule not_before_mono)
      show "not_before b (m_next (timer_at s a))" using c False mem [OF that] by (simp add: covered_def)
      show "m_next (timer_at s a) \<le> m_next (timer_at s' a)"
        using pos [OF that] by (cases "m_next (timer_at s a) \<le> now") (simp_all add: ta [OF that])
    qed
    then show ?thesis by (simp add: covered_def)
  qed (simp add: covered_def e(2))
  ultimately show ?thesis by (simp add: step_good_def e(2))
qed

lemma timer_step_good:
  assumes s: "timer_sane clk0 s" "clk0 \<le> clk" and ok: "op_ok s clk x"
  shows "\<exists>s' hook. timer_step s clk x = Some (s', hook) \<and> step_good clk s s' hook"
proof (cases x)
  case (AddOp a ms cb recurring now)
  have "a \<notin> set (m_timers s)"
    using ok AddOp timer_invD(3) [OF timer_saneD(1) [OF s(1)], of a] by auto
  then have "step_good clk s s' hook"
    if "addTimer_ptr (set_timer a (Timer_ctor ms (Some cb) recurring now) s) a = (s', hook)" for s' hook
    using ok AddOp by (intro sane_add [OF s _ _ _ _ that]) (simp_all add: Timer_ctor_def)
  then show ?thesis using AddOp
    by (cases "addTimer_ptr (set_timer a (Timer_ctor ms (Some cb) recurring now) s) a")
      (simp add: addTimer_def)
next
  case (CancelOp a)
  then show ?thesis using step_good_cancel [OF s, of a] by (auto intro: exI [of _ False])
next
  case (RefreshOp a)
  then show ?thesis using step_good_refresh [OF s, of a] by (auto intro: exI [of _ False])
next
  case (ResetOp a ms from_now)
  obtain s' hook res where r: "reset s a ms from_now clk = (s', hook, res)" by (rule prod_cases3)
  with step_good_reset [OF s _ r] ok ResetOp show ?thesis by simp
next
  case (ExpireOp now)
  obtain s' cbs where l: "listExpiredCb s now clk = Some (s', cbs)"
    using listExpired_spec [OF s, of now] by blast
  with step_good_expire [OF s _ l] ok ExpireOp show ?thesis by (auto intro: exI [of _ False])
qed

fun timer_run :: "TimerManager \<Rightarrow> (int \<times> timer_op) list \<Rightarrow> (TimerManager \<times> bool) option" where
  "timer_run s [] = Some (s, False)"
| "timer_run s ((clk, x) # xs) =
     (case timer_step s clk x of
        None \<Rightarrow> None
      | Some (s1, hook1) \<Rightarrow>
          (case timer_run s1 xs of None \<Rightarrow> None | Some (s2, hook2) \<Rightarrow> Some (s2, hook1 \<or> hook2)))"

fun run_ok :: "TimerManager \<Rightarrow> int \<Rightarrow> (int \<times> timer_op) list \<Rightarrow> bool" where
  "run_ok s clk0 [] = True"
| "run_ok s clk0 ((clk, x) # xs) \<longleftrightarrow> clk0 \<le> clk \<and> op_ok s clk x \<and>
     (case timer_step s clk x of None \<Rightarrow> True | Some (s1, _) \<Rightarrow> run_ok s1 clk xs)"

lemma timer_run_good:
  assumes "timer_sane clk0 s" and "run_ok s clk0 xs"
  shows "\<exists>s' hook. timer_run s xs = Some (s', hook) \<and> (\<exists>clk. timer_sane clk s') \<and>
    m_tickled s' = (m_tickled s \<or> hook) \<and> (\<forall>b. covered b s \<longrightarrow> covered b s')"
  using assms
proof (induction xs arbitrary: s clk0)
  case Nil
  then show ?case by auto
next
  case (Cons x xs)
  obtain clk op where x: "x = (clk, op)" by fastforce
  with Cons.prems timer_step_good [of clk0 s clk op] obtain s1 hook1 where 1:
    "timer_step s clk op = Some (s1, hook1)" "step_good clk s s1 hook1" by auto
  with Cons.prems x have "run_ok s1 clk xs" by simp
  with Cons.IH [of clk s1] 1(2) obtain s' hook where
    "timer_run s1 xs = Some (s', hook)" "\<exists>clk. timer_sane clk s'"
    "m_tickled s' = (m_tickled s1 \<or> hook)" "\<forall>b. covered b s1 \<longrightarrow> covered b s'"
    by (auto simp: step_good_def)
  with 1 show ?case
    by (intro exI [of _ s'] exI [of _ "hook1 \<or> hook"]) (simp add: x step_good_def)
qed

lemma sane_ctor: "timer_sane clk (TimerManager_ctor clk)"
  by (simp add: timer_sane_def timer_inv_ctor) (simp add: TimerManager_ctor_def)

section \<open>The next timeout\<close>

lemma uint_of_gap:
  assumes "0 < g" and "g \<le> milliseconds ms"
  shows "uint (word_of_int (g div 1000000) :: u64) = g div 1000000"
    and "(word_of_int (g div 1000000) :: u64) \<noteq> NOT 0"
proof -
  have "sint ms < 2 ^ 63" using sint_lt [of ms] by simp
  moreover have "g div 1000000 \<le> sint ms"
    using zdiv_mono1 [OF assms(2), of 1000000] by (simp add: milliseconds_def)
  moreover have "0 \<le> g div 1000000" using assms(1) by simp
  ultimately have b: "0 \<le> g div 1000000" "g div 1000000 < 2 ^ 63" by auto
  then show u: "uint (word_of_int (g div 1000000) :: u64) = g div 1000000"
    by (simp add: uint_word_of_int)
  show "(word_of_int (g div 1000000) :: u64) \<noteq> NOT 0"
  proof
    assume "(word_of_int (g div 1000000) :: u64) = NOT 0"
    with u b(2) show False by (simp add: unsigned_minus_1_eq_mask mask_eq_exp_minus_1)
  qed
qed

definition wait_bound :: "int \<Rightarrow> u64 \<Rightarrow> int option" where
  "wait_bound now d = (if d = NOT 0 then None else Some (now + uint d * 1000000))"

lemma getNextTimer_covered:
  assumes s: "timer_sane clk0 s" "clk0 \<le> now" and g: "getNextTimer s now = (s1, d)"
  shows "timer_sane now s1" and "d \<noteq> 0 \<Longrightarrow> covered (wait_bound now d) s1" and "\<not> m_tickled s1"
    and "d = NOT 0 \<longleftrightarrow> m_timers s = []"
    and "d = 0 \<Longrightarrow> \<exists>a \<in> set (m_timers s). m_next (timer_at s a) < now + 1000000"
proof -
  have s1: "s1 = s\<lparr>m_tickled := False\<rparr>"
    using g by (auto simp: getNextTimer_def Let_def split: if_splits)
  then show "\<not> m_tickled s1" by simp
  show "timer_sane now s1"
    using timer_saneD(2-4) [OF s(1)] s(2) timer_inv_getNextTimer [OF timer_saneD(1) [OF s(1)], of now] g
    by (fastforce simp: timer_sane_def s1)
  have "(d = NOT 0 \<longleftrightarrow> m_timers s = []) \<and> (d \<noteq> 0 \<longrightarrow> covered (wait_bound now d) s1) \<and>
      (d = 0 \<longrightarrow> (\<exists>a \<in> set (m_timers s). m_next (timer_at s a) < now + 1000000))"
  proof (cases "m_timers s")
    case Nil
    with g have "d = NOT 0" by (simp add: getNextTimer_def Let_def)
    with Nil show ?thesis by (simp add: covered_def s1)
  next
    case (Cons a as)
    let ?t = "m_next (timer_at s a)"
    have first: "?t \<le> m_next (timer_at s b)" if "b \<in> set (m_timers s)" for b
      using timer_invD(1) [OF timer_saneD(1) [OF s(1)]] that Cons
      by (auto simp: Comparator_def timer_at_def split: if_splits)
    show ?thesis
    proof (cases "now \<ge> ?t")
      case True
      with g Cons have d: "d = 0" by (auto simp: getNextTimer_def Let_def)
      have "?t < now + 1000000" using True by simp
      with d Cons show ?thesis by auto
    next
      case False
      have d: "d = word_of_int ((?t - now) div 1000000)"
        using g Cons False by (auto simp: getNextTimer_def Let_def)
      have gap: "0 < ?t - now" "?t - now \<le> milliseconds (m_ms (timer_at s a))"
        using False timer_saneD(3) [OF s(1), of a] s(2) Cons by auto
      note u = uint_of_gap [OF gap, folded d]
      have "uint d * 1000000 \<le> ?t - now" unfolding u(1) using gap(1) by (simp add: minus_mod_eq_div_mult [symmetric])
      then have "now + uint d * 1000000 \<le> m_next (timer_at s b)" if "b \<in> set (m_timers s)" for b
        using first [OF that] by linarith
      then have "covered (wait_bound now d) s1"
        using u(2) by (simp add: covered_def wait_bound_def s1)
      moreover have "?t < now + 1000000" if "d = 0"
      proof -
        from that u(1) have "(?t - now) div 1000000 = 0" by simp
        with gap(1) show ?thesis by (simp add: zdiv_eq_0_iff)
      qed
      ultimately show ?thesis using u(2) Cons by auto
    qed
  qed
  then show "d \<noteq> 0 \<Longrightarrow> covered (wait_bound now d) s1" "d = NOT 0 \<longleftrightarrow> m_timers s = []"
    "d = 0 \<Longrightarrow> \<exists>a \<in> set (m_timers s). m_next (timer_at s a) < now + 1000000" by auto
qed

section \<open>A cancelled timer\<close>

definition dead :: "addr \<Rightarrow> TimerManager \<Rightarrow> bool" where
  "dead a s \<longleftrightarrow> a \<notin> set (m_timers s) \<and> (\<exists>t. t_heap s a = Some t \<and> m_cb t = None)"

lemma cancel_dead:
  assumes "timer_inv s" and "cancel s a = (s', True)"
  shows "dead a s'"
  using assms unfolding cancel_def Let_def timer_inv_def dead_def
  by (auto split: option.splits if_splits simp: timer_set.find_None dest: erased_notin)

lemma dead_step:
  assumes inv: "timer_sane clk0 s" "clk0 \<le> clk" and d: "dead a s" and ok: "op_ok s clk x"
    and st: "timer_step s clk x = Some (s', hook)"
  shows "dead a s'"
proof (cases x)
  case (AddOp b ms cb recurring now)
  with ok d have "b \<noteq> a" by (auto simp: dead_def)
  with AddOp d st show ?thesis
    by (auto simp: dead_def addTimer_def timer_set.insert_set addTimer_ptr_def Let_def)
next
  case (CancelOp b)
  with d st show ?thesis
    by (auto simp: dead_def cancel_def Let_def timer_at_def split: option.splits if_splits
        dest: subsetD [OF set_erase_at_subset])
next
  case (RefreshOp b)
  show ?thesis
  proof (cases "b = a")
    case True
    with d st RefreshOp show ?thesis by (auto simp: dead_def refresh_def Let_def timer_at_def)
  next
    case False
    with d st RefreshOp show ?thesis
      by (auto simp: dead_def refresh_def Let_def timer_set.insert_set split: option.splits if_splits
          dest: subsetD [OF set_erase_at_subset])
  qed
next
  case (ResetOp b ms from_now)
  show ?thesis
  proof (cases "b = a")
    case True
    with d st ResetOp show ?thesis
      by (auto simp: dead_def reset_def reset_detach_def Let_def timer_at_def split: if_splits)
  next
    case False
    with d st ResetOp show ?thesis
      by (auto simp: dead_def reset_def reset_detach_def reset_attach_def addTimer_ptr_def Let_def
          timer_set.insert_set split: option.splits if_splits prod.splits
          dest: subsetD [OF set_erase_at_subset])
  qed
next
  case (ExpireOp now)
  with st listExpired_spec [OF inv, of now] d show ?thesis
    by (auto simp: dead_def split: option.splits)
qed

lemma dead_run:
  assumes "timer_sane clk0 s" and "run_ok s clk0 xs" and "dead a s"
    and "timer_run s xs = Some (s', hook)"
  shows "dead a s'"
  using assms
proof (induction xs arbitrary: s clk0 hook)
  case (Cons x xs)
  obtain clk op where x: "x = (clk, op)" by fastforce
  with Cons.prems timer_step_good [of clk0 s clk op] obtain s1 hook1 where 1:
    "timer_step s clk op = Some (s1, hook1)" "step_good clk s s1 hook1" by auto
  from Cons.prems x 1 have "run_ok s1 clk xs" "\<exists>h. timer_run s1 xs = Some (s', h)"
    by (auto split: option.splits)
  moreover have "dead a s1"
    using Cons.prems x by (intro dead_step [OF _ _ _ _ 1(1)]) auto
  ultimately show ?case using Cons.IH [of clk s1] 1(2) by (auto simp: step_good_def)
qed simp

section \<open>What the timer manager guarantees\<close>

text \<open>
  Whatever operations the threads issue, in any order and with any clock that does
  not run backwards, each returns (in particular the loop of \<^verbatim>\<open>listExpiredCb\<close> ends), the set
  of timers stays in order of expiry, and every pending timer still has its callback.
\<close>

theorem timer_run_invariant:
  assumes "run_ok (TimerManager_ctor clk) clk ops"
  shows "\<exists>s hook. timer_run (TimerManager_ctor clk) ops = Some (s, hook) \<and> timer_inv s \<and>
    (\<forall>a \<in> set (m_timers s). m_cb (timer_at s a) \<noteq> None)"
  using timer_run_good [OF sane_ctor assms] timer_saneD(1) timer_invD(4) by blast

text \<open>
  \<^verbatim>\<open>listExpiredCb\<close> without a clock rollover hands out exactly the callbacks of the
  timers that are due, in order of expiry; afterwards no pending timer is due, the one-shot
  timers it took are gone with their callbacks cleared, the recurring ones are armed again one
  period after \<open>now\<close>, and all other timers are untouched.
\<close>

theorem timer_expiry:
  assumes "timer_sane clk0 s" and "clk0 \<le> clk"
  shows "\<exists>s'. listExpiredCb s now clk =
      Some (s', map (\<lambda>a. m_cb (timer_at s a)) (due_timers False now s)) \<and>
    set (due_timers False now s) = {a \<in> set (m_timers s). m_next (timer_at s a) \<le> now} \<and>
    timer_inv s' \<and>
    set (m_timers s') = {a \<in> set (m_timers s). now < m_next (timer_at s a) \<or> m_recurring (timer_at s a)} \<and>
    (\<forall>a \<in> set (m_timers s'). now < m_next (timer_at s' a)) \<and>
    (\<forall>a. t_heap s' a = (if a \<in> set (m_timers s) \<and> m_next (timer_at s a) \<le> now
      then Some (fired now (timer_at s a)) else t_heap s a))"
  using listExpired_spec [OF assms, of now] due_in_order [OF timer_saneD(1) [OF assms(1)]] by blast

text \<open>
  Property C25. A waiter never oversleeps unnoticed: if \<^verbatim>\<open>getNextTimer\<close> returns \<open>d\<close> at time \<open>n\<close>
  and, before its next call, no operation calls \<^verbatim>\<open>onTimerInsertedAtFront\<close>, then whatever was
  added, cancelled, refreshed, reset or expired meanwhile, no pending timer is due before \<open>n\<close>
  plus \<open>d\<close> milliseconds; and if \<open>d\<close> is \<^verbatim>\<open>~0ull\<close>, there is still no timer at all.
\<close>

theorem timer_no_oversleep:
  assumes "timer_sane clk0 s" and "clk0 \<le> n" and "getNextTimer s n = (s1, d)" and "d \<noteq> 0"
    and "run_ok s1 n ops" and "timer_run s1 ops = Some (s', False)"
  shows "\<forall>a \<in> set (m_timers s'). d \<noteq> NOT 0 \<and> n + uint d * 1000000 \<le> m_next (timer_at s' a)"
proof -
  note G = getNextTimer_covered [OF assms(1-3)]
  from timer_run_good [OF G(1) assms(5)] assms(6) G(3)
  have "\<not> m_tickled s'" "covered (wait_bound n d) s1 \<longrightarrow> covered (wait_bound n d) s'" by auto
  with G(2) [OF assms(4)] have "\<forall>a \<in> set (m_timers s'). not_before (wait_bound n d) (m_next (timer_at s' a))"
    by (simp add: covered_def)
  then show ?thesis by (simp add: wait_bound_def split: if_splits)
qed

text \<open>
  A cancelled timer never fires: after a \<^verbatim>\<open>cancel\<close> that returned true, the timer
  is not pending in any later state, whatever is done, even to the timer itself.
\<close>

theorem timer_cancel_final:
  assumes "timer_sane clk s" and "cancel s a = (s1, True)"
    and "run_ok s1 clk ops" and "timer_run s1 ops = Some (s', hook)"
  shows "a \<notin> set (m_timers s1) \<and> a \<notin> set (m_timers s')"
proof -
  have "timer_sane clk s1"
    using step_good_cancel [OF assms(1) order_refl, of a] assms(2) by (simp add: step_good_def)
  moreover have "dead a s1" by (rule cancel_dead [OF timer_saneD(1) [OF assms(1)] assms(2)])
  ultimately show ?thesis using dead_run [OF _ assms(3) _ assms(4)] by (simp add: dead_def)
qed

text \<open>
  Property C26. The loop of \<^verbatim>\<open>listExpiredCb\<close> does not return after a clock rollover if any
  recurring timer is pending (the flag stays set while the loop puts the timer back), nor,
  without one, if a recurring timer of zero length is due.
\<close>

theorem timer_expiry_diverges:
  assumes "timer_inv s" and "a \<in> set (m_timers s)" and "m_recurring (timer_at s a)"
    and "now' < m_previouseTime s - 3600000000000 \<or>
      m_next (timer_at s a) \<le> now \<and> m_ms (timer_at s a) = 0"
  shows "listExpiredCb s now now' = None"
proof -
  let ?r = "now' < m_previouseTime s - milliseconds 3600000" and ?s = "s\<lparr>m_previouseTime := now'\<rparr>"
  have "timer_inv ?s" "rearmed ?r now ?s a"
    using assms by (auto simp: timer_inv_def rearmed_def milliseconds_hour milliseconds_def)
  with expire_loop_returns [of ?r now ?s "[]"] have "expire_loop ?r now ?s [] = None"
    by (cases "expire_loop ?r now ?s []") auto
  then show ?thesis by (simp add: listExpiredCb_def detectClockRollover_def)
qed

text \<open>
  Property C27. The window inside \<^verbatim>\<open>reset\<close>: if another thread cancels the timer after
  \<^verbatim>\<open>reset\<close> took it out and before \<^verbatim>\<open>reset\<close> puts it back, the cancelled timer is pending
  again, with no callback, and cannot be cancelled any more.
\<close>

theorem timer_reset_race:
  assumes "timer_inv s" and "reset_detach s a ms from_now = Inr s1" and "cancel s1 a = (s2, r)"
    and "reset_attach s2 a ms from_now now = (s3, hook)"
  shows "r \<and> a \<in> set (m_timers s3) \<and> m_cb (timer_at s3 a) = None \<and> snd (cancel s3 a) = False"
proof -
  from reset_detach_Inr [OF assms(2)] obtain i where i: "m_cb (timer_at s a) \<noteq> None"
    "s1 = s\<lparr>m_timers := erase_at i (m_timers s)\<rparr>" .
  with assms(3) have r: "r" "m_cb (timer_at s2 a) = None"
    by (auto simp: cancel_def Let_def split: option.splits)
  let ?t = "timer_at s2 a\<lparr>m_ms := ms, m_next := (if from_now then now
    else m_next (timer_at s2 a) - milliseconds (m_ms (timer_at s2 a))) + milliseconds ms\<rparr>"
  from assms(4) have "s3 = fst (addTimer_ptr (set_timer a ?t s2) a)"
    by (simp add: reset_attach_def Let_def)
  with r have "m_cb (timer_at s3 a) = None" "a \<in> set (m_timers s3)"
    by (simp_all add: timer_at_def timer_set.insert_set)
  with r show ?thesis by (simp add: cancel_def)
qed

section \<open>Concrete states\<close>

text \<open>Timer 5 fires once after 10 ms, timer 3 every 10 ms; both were added at time 0.\<close>

definition demo_ops :: "(int \<times> timer_op) list" where
  "demo_ops = [(0, AddOp 5 10 (UserCb 1) False 0), (0, AddOp 3 10 (UserCb 2) True 0)]"

definition demo_timers :: TimerManager where
  "demo_timers = \<lparr>t_heap = [5 \<mapsto> Timer_ctor 10 (Some (UserCb 1)) False 0,
     3 \<mapsto> Timer_ctor 10 (Some (UserCb 2)) True 0], m_timers = [3, 5], m_tickled = True,
     m_previouseTime = 0\<rparr>"

lemma ms10: "milliseconds 10 = 10000000"
  by (simp add: milliseconds_def)

lemma demo_run: "timer_run (TimerManager_ctor 0) demo_ops = Some (demo_timers, True)"
  "run_ok (TimerManager_ctor 0) 0 demo_ops"
  by (simp_all add: demo_ops_def demo_timers_def TimerManager_ctor_def addTimer_def addTimer_ptr_def
      Let_def Comparator_def Timer_ctor_def set_timer_def ms10 fun_eq_iff)

lemma demo_sane: "timer_sane 0 demo_timers"
  by (simp add: timer_sane_def timer_inv_def pending_ok_def demo_timers_def Comparator_def
      Timer_ctor_def timer_at_def ms10)

theorem timer_run_invariant_witness:
  "\<exists>s hook. timer_run (TimerManager_ctor 0) demo_ops = Some (s, hook) \<and> timer_inv s"
  using timer_run_invariant [OF demo_run(2)] by blast

theorem timer_expiry_witness:
  "\<exists>s'. listExpiredCb demo_timers 10000000 10000000 = Some (s', [Some (UserCb 2), Some (UserCb 1)]) \<and>
    set (m_timers s') = {3}"
proof -
  have "due_timers False 10000000 demo_timers = [3, 5]"
    by (simp add: due_timers_def due_def demo_timers_def timer_at_def Timer_ctor_def ms10)
  with timer_expiry [OF demo_sane, of 10000000 10000000] show ?thesis
    by (auto simp: demo_timers_def timer_at_def Timer_ctor_def ms10)
qed

lemmas demo_simps = demo_timers_def Timer_ctor_def timer_at_def ms10 Let_def Comparator_def set_timer_def

text \<open>At 3.5 ms the next timer is 6 ms away; refreshing timer 5 at 4 ms does not bring it nearer.\<close>

theorem timer_no_oversleep_witness:
  "\<exists>s1 s'. getNextTimer demo_timers 3500000 = (s1, 6) \<and>
    timer_run s1 [(4000000, RefreshOp 5)] = Some (s', False) \<and>
    (\<forall>a \<in> set (m_timers s'). 9500000 \<le> m_next (timer_at s' a))"
proof -
  let ?s1 = "demo_timers\<lparr>m_tickled := False\<rparr>" and ?ops = "[(4000000, RefreshOp 5)]"
  have g: "getNextTimer demo_timers 3500000 = (?s1, 6)"
    by (simp add: getNextTimer_def demo_simps)
  have r: "timer_run ?s1 ?ops = Some (fst (refresh ?s1 5 4000000), False)" by simp
  have ok: "run_ok ?s1 3500000 ?ops" by (simp add: demo_timers_def)
  have "(0 :: int) \<le> 3500000" "(6 :: u64) \<noteq> 0" by simp_all
  from timer_no_oversleep [OF demo_sane this(1) g this(2) ok r] g r show ?thesis by auto
qed

theorem timer_cancel_final_witness:
  "\<exists>s1 s' hook. cancel demo_timers 5 = (s1, True) \<and>
    timer_run s1 [(0, RefreshOp 5), (1, ResetOp 5 20 True)] = Some (s', hook) \<and> 5 \<notin> set (m_timers s')"
proof -
  let ?s1 = "fst (cancel demo_timers 5)" and ?ops = "[(0, RefreshOp 5), (1, ResetOp 5 20 True)]"
  have c: "cancel demo_timers 5 = (?s1, True)"
    by (simp add: cancel_def demo_simps split: option.split)
  have e: "refresh ?s1 5 0 = (?s1, False)" "reset ?s1 5 20 True 1 = (?s1, False, False)"
    by (simp_all add: refresh_def reset_def reset_detach_def cancel_def demo_simps split: option.split)
  have h: "t_heap ?s1 5 \<noteq> None" "\<not> m_recurring (timer_at ?s1 5)"
    by (simp_all add: cancel_def demo_simps split: option.split)
  have ok: "run_ok ?s1 0 ?ops" using e h by simp
  have r: "timer_run ?s1 ?ops = Some (?s1, False)" using e by simp
  from timer_cancel_final [OF demo_sane c ok r] c r show ?thesis by blast
qed

text \<open>The clock is set back two hours while timer 3 is pending.\<close>

theorem timer_expiry_diverges_witness:
  "listExpiredCb demo_timers (-7200000000000) (-7200000000000) = None"
  by (rule timer_expiry_diverges [of _ 3])
    (use demo_sane in \<open>simp_all add: timer_sane_def demo_timers_def timer_at_def Timer_ctor_def\<close>)

theorem timer_reset_race_witness:
  "\<exists>s1 s2 s3 hook. reset_detach demo_timers 3 20 True = Inr s1 \<and> cancel s1 3 = (s2, True) \<and>
    reset_attach s2 3 20 True 0 = (s3, hook) \<and> 3 \<in> set (m_timers s3) \<and>
    m_cb (timer_at s3 3) = None \<and> m_recurring (timer_at s3 3)"
proof -
  obtain s1 where d: "reset_detach demo_timers 3 20 True = Inr s1"
    by (simp add: reset_detach_def demo_simps)
  obtain s2 r where c: "cancel s1 3 = (s2, r)" by fastforce
  obtain s3 hook where a: "reset_attach s2 3 20 True 0 = (s3, hook)" by fastforce
  have rec: "m_recurring (timer_at s3 3)"
    using d c a by (auto simp: reset_detach_def reset_attach_def addTimer_ptr_def cancel_def demo_simps
        split: option.splits)
  have R: "r" "3 \<in> set (m_timers s3)" "m_cb (timer_at s3 3) = None"
    using timer_reset_race [OF timer_saneD(1) [OF demo_sane] d c a] by simp_all
  from c R(1) have "cancel s1 3 = (s2, True)" by simp
  with d a R rec show ?thesis by blast
qed

end
