(* ===== verification/Io_Manager.thy ===== *)
theory Io_Manager
  imports Sched_Policy Co_Timer
begin

text \<open>
  \<^verbatim>\<open>IOManager\<close> (include/mycoroutine/iomanager.h, src/iomanager.cpp): the context of a
  descriptor, registration, deletion, cancellation and triggering of events, the wake-up of idle
  threads, the stop condition and one round of the idle loop. The kernel's \<^verbatim>\<open>epoll_ctl\<close> and
  \<^verbatim>\<open>epoll_wait\<close> are not code of the repository: what they return is an argument, and the
  successful calls are recorded.
\<close>

section \<open>Data\<close>

definition READ :: u32 where "READ = 1"
definition WRITE :: u32 where "WRITE = 4"
definition EPOLLIN :: u32 where "EPOLLIN = 1"
definition EPOLLOUT :: u32 where "EPOLLOUT = 4"
definition EPOLLERR :: u32 where "EPOLLERR = 8"
definition EPOLLHUP :: u32 where "EPOLLHUP = 16"
definition EPOLLET :: u32 where "EPOLLET = 0x80000000"

lemmas event_bits = READ_def WRITE_def EPOLLIN_def EPOLLOUT_def EPOLLERR_def EPOLLHUP_def

text \<open>
  \<^verbatim>\<open>FdContext::EventContext\<close>; its \<^verbatim>\<open>scheduler\<close> is null or this manager.
\<close>

record EventContext =
  ec_scheduler :: bool
  ec_fiber :: "fid option"
  ec_cb :: "callback option"

record FdContext =
  fc_read :: EventContext
  fc_write :: EventContext
  fc_fd :: int
  fc_events :: u32

definition empty_event :: EventContext where
  "empty_event = \<lparr>ec_scheduler = False, ec_fiber = None, ec_cb = None\<rparr>"

definition new_FdContext :: "int \<Rightarrow> FdContext" where
  "new_FdContext i = \<lparr>fc_read = empty_event, fc_write = empty_event, fc_fd = i, fc_events = 0\<rparr>"

datatype epoll_op = CtlAdd | CtlMod | CtlDel

text \<open>\<^verbatim>\<open>epoll_data\<close>: the eventfd is registered by its descriptor, everything else by its context.\<close>

datatype ep_data = DataFd int | DataPtr nat

text \<open>
  \<open>ctx_heap\<close> holds the \<^verbatim>\<open>FdContext\<close> objects by address, \<open>ctx_count\<close> how many there are;
  \<open>m_fdContexts\<close> is the vector of pointers. \<open>ctl_log\<close> records the successful calls of
  \<^verbatim>\<open>epoll_ctl\<close> and \<open>tickle_writes\<close> the writes to the eventfd \<open>m_tickleFds\<close>.

  What \<^verbatim>\<open>epoll_ctl\<close> did is an argument \<open>rt\<close> of every operation that calls it: 0 for success,
  otherwise the \<^verbatim>\<open>errno\<close> with which it failed (it then returns \<open>-1\<close>).
\<close>

record IOManager =
  io_sched :: Scheduler
  io_timers :: TimerManager
  m_pendingEventCount :: u64
  ctx_heap :: "nat \<Rightarrow> FdContext"
  ctx_count :: nat
  m_fdContexts :: "nat list"
  m_tickleFds :: int
  ctl_log :: "(epoll_op \<times> int \<times> u32 \<times> ep_data) list"
  tickle_writes :: nat

section \<open>Event contexts\<close>

text \<open>\<^verbatim>\<open>getEventContext\<close> returns a reference: the slot of the context it denotes.\<close>

datatype slot = ReadSlot | WriteSlot

definition getEventContext :: "u32 \<Rightarrow> slot result" where
  "getEventContext event =
     (if \<not> (event = READ \<or> event = WRITE \<or> event = 0) then Inl Assertion_Failed
      else if event = READ then Inr ReadSlot
      else if event = WRITE then Inr WriteSlot
      else Inl Invalid_Argument)"

fun slot_of :: "FdContext \<Rightarrow> slot \<Rightarrow> EventContext" where
  "slot_of c ReadSlot = fc_read c"
| "slot_of c WriteSlot = fc_write c"

fun set_slot :: "slot \<Rightarrow> EventContext \<Rightarrow> FdContext \<Rightarrow> FdContext" where
  "set_slot ReadSlot e c = c\<lparr>fc_read := e\<rparr>"
| "set_slot WriteSlot e c = c\<lparr>fc_write := e\<rparr>"

definition resetEventContext :: "EventContext \<Rightarrow> EventContext" where
  "resetEventContext ctx = ctx\<lparr>ec_scheduler := False, ec_fiber := None, ec_cb := None\<rparr>"

text \<open>\<^verbatim>\<open>triggerEvent\<close>: the context afterwards and what is handed to \<^verbatim>\<open>scheduleLock\<close>.\<close>

definition triggerEvent :: "FdContext \<Rightarrow> u32 \<Rightarrow> (FdContext \<times> FiberOrCb) result" where
  "triggerEvent c event =
     (if fc_events c AND event = 0 then Inl Assertion_Failed
      else let c1 = c\<lparr>fc_events := fc_events c AND NOT event\<rparr>
           in case getEventContext event of
                Inl e \<Rightarrow> Inl e
              | Inr k \<Rightarrow>
                  let ctx = slot_of c1 k
                  in if \<not> ec_scheduler ctx then Inl Null_Dereference
                     else Inr (set_slot k (resetEventContext ctx) c1,
                               if ec_cb ctx \<noteq> None then Callback (ec_cb ctx)
                               else FiberPtr (ec_fiber ctx)))"

section \<open>Scheduling and wake-ups\<close>

definition tickle :: "IOManager \<Rightarrow> IOManager" where
  "tickle s = (if \<not> hasIdleThreads (io_sched s) then s
               else s\<lparr>tickle_writes := tickle_writes s + 1\<rparr>)"

text \<open>\<^verbatim>\<open>scheduleLock\<close> on the manager: the queue, then the overridden \<^verbatim>\<open>tickle\<close>.\<close>

definition io_schedule :: "IOManager \<Rightarrow> FiberOrCb \<Rightarrow> IOManager" where
  "io_schedule s fc =
     (case scheduleLock (io_sched s) fc (-1) of
        (q, need_tickle) \<Rightarrow>
          let s1 = s\<lparr>io_sched := q\<rparr> in if need_tickle then tickle s1 else s1)"

definition onTimerInsertedAtFront :: "IOManager \<Rightarrow> IOManager" where
  "onTimerInsertedAtFront s = tickle s"

definition put_ctx :: "nat \<Rightarrow> FdContext \<Rightarrow> IOManager \<Rightarrow> IOManager" where
  "put_ctx a c s = s\<lparr>ctx_heap := (ctx_heap s)(a := c)\<rparr>"

definition log_ctl :: "epoll_op \<Rightarrow> int \<Rightarrow> u32 \<Rightarrow> nat \<Rightarrow> IOManager \<Rightarrow> IOManager" where
  "log_ctl op fd events a s = s\<lparr>ctl_log := ctl_log s @ [(op, fd, events, DataPtr a)]\<rparr>"

text \<open>\<^verbatim>\<open>fd_ctx->triggerEvent(event)\<close> for the context at \<open>a\<close>.\<close>

definition trigger_at :: "IOManager \<Rightarrow> nat \<Rightarrow> u32 \<Rightarrow> IOManager result" where
  "trigger_at s a event =
     (case triggerEvent (ctx_heap s a) event of
        Inl e \<Rightarrow> Inl e
      | Inr (c, fc) \<Rightarrow> Inr (io_schedule (put_ctx a c s) fc))"

definition dec_pending :: "IOManager \<Rightarrow> IOManager" where
  "dec_pending s = s\<lparr>m_pendingEventCount := m_pendingEventCount s - 1\<rparr>"

section \<open>The vector of contexts\<close>

text \<open>
  \<^verbatim>\<open>contextResize\<close>: \<^verbatim>\<open>resize\<close> cuts the vector or appends null pointers, and every null
  pointer gets a new object.
\<close>

definition contextResize :: "nat \<Rightarrow> IOManager \<Rightarrow> IOManager" where
  "contextResize sz s =
     (let n = length (m_fdContexts s); k = sz - n; a = ctx_count s
      in s\<lparr>m_fdContexts := take sz (m_fdContexts s) @ [a..<a + k],
           ctx_heap := (\<lambda>x. if a \<le> x \<and> x < a + k then new_FdContext (int (n + (x - a)))
                            else ctx_heap s x),
           ctx_count := a + k\<rparr>)"

text \<open>
  The manager as the constructor leaves it when the eventfd is \<open>efd\<close>, before \<open>start()\<close>, which is
  the scheduler's: the eventfd is registered, and there are 32 contexts.
\<close>

definition init_IOManager :: "int \<Rightarrow> int \<Rightarrow> IOManager" where
  "init_IOManager efd now = contextResize 32
     \<lparr>io_sched = init_Scheduler, io_timers = TimerManager_ctor now, m_pendingEventCount = 0,
      ctx_heap = (\<lambda>_. new_FdContext 0), ctx_count = 0, m_fdContexts = [], m_tickleFds = efd,
      ctl_log = [(CtlAdd, efd, EPOLLIN OR EPOLLET, DataFd efd)], tickle_writes = 0\<rparr>"

text \<open>
  The constructor: \<open>epfd\<close> and \<open>efd\<close> are what \<^verbatim>\<open>epoll_create\<close> and \<^verbatim>\<open>eventfd\<close> return.
\<close>

definition IOManager_ctor :: "int \<Rightarrow> int \<Rightarrow> int \<Rightarrow> int \<Rightarrow> IOManager result" where
  "IOManager_ctor epfd efd rt now =
     (if \<not> epfd > 0 then Inl Assertion_Failed
      else if \<not> efd > 0 then Inl Assertion_Failed
      else if rt \<noteq> 0 then Inl Assertion_Failed
      else Inr (init_IOManager efd now))"

text \<open>
  The lookup at the head of every operation. \<^verbatim>\<open>(int)m_fdContexts.size() > fd\<close> holds for a
  negative descriptor too, which then indexes outside the vector.
\<close>

definition lookup_ctx :: "IOManager \<Rightarrow> int \<Rightarrow> nat option result" where
  "lookup_ctx s fd =
     (if int (length (m_fdContexts s)) > fd
      then if fd < 0 then Inl Out_Of_Bounds else Inr (Some (m_fdContexts s ! nat fd))
      else Inr None)"

section \<open>addEvent\<close>

text \<open>
  \<^verbatim>\<open>addEvent\<close> in its locked pieces: the lookup under the read lock, the resize under the
  write lock, the registration under the context's mutex. \<open>cur\<close> is the running fiber, so the
  assertion that its state is \<^verbatim>\<open>RUNNING\<close> has no branch of its own; \<open>rt\<close> is the result of
  \<^verbatim>\<open>epoll_ctl\<close>.
\<close>

definition addEvent_resize :: "IOManager \<Rightarrow> int \<Rightarrow> (IOManager \<times> nat) result" where
  "addEvent_resize s fd =
     (let s1 = contextResize (nat (fd * 3 div 2)) s
      in if nat fd < length (m_fdContexts s1) then Inr (s1, m_fdContexts s1 ! nat fd)
         else Inl Out_Of_Bounds)"

definition addEvent_register ::
    "IOManager \<Rightarrow> nat \<Rightarrow> int \<Rightarrow> u32 \<Rightarrow> callback option \<Rightarrow> fid \<Rightarrow> int \<Rightarrow> (IOManager \<times> bool) result" where
  "addEvent_register s a fd event cb cur rt =
     (let c = ctx_heap s a
      in if fc_events c AND event \<noteq> 0 then Inr (s, False)
         else let op = (if fc_events c \<noteq> 0 then CtlMod else CtlAdd);
                  epevents = EPOLLET OR fc_events c OR event
              in if rt \<noteq> 0 then Inr (s, False)
                 else let s1 = log_ctl op fd epevents a s;
                          s2 = s1\<lparr>m_pendingEventCount := m_pendingEventCount s1 + 1\<rparr>;
                          c1 = c\<lparr>fc_events := fc_events c OR event\<rparr>
                      in case getEventContext event of
                           Inl e \<Rightarrow> Inl e
                         | Inr k \<Rightarrow>
                             let ctx = slot_of c1 k
                             in if ec_scheduler ctx \<or> ec_fiber ctx \<noteq> None \<or> ec_cb ctx \<noteq> None
                                then Inl Assertion_Failed
                                else let ctx1 = ctx\<lparr>ec_scheduler := True\<rparr>;
                                         ctx2 = (if cb \<noteq> None then ctx1\<lparr>ec_cb := cb\<rparr>
                                                 else ctx1\<lparr>ec_fiber := Some cur\<rparr>)
                                     in Inr (put_ctx a (set_slot k ctx2 c1) s2, True))"

definition addEvent ::
    "IOManager \<Rightarrow> int \<Rightarrow> u32 \<Rightarrow> callback option \<Rightarrow> fid \<Rightarrow> int \<Rightarrow> (IOManager \<times> bool) result" where
  "addEvent s fd event cb cur rt =
     (if fd < 0 then Inr (s, False)
      else case lookup_ctx s fd of
             Inl e \<Rightarrow> Inl e
           | Inr (Some a) \<Rightarrow> addEvent_register s a fd event cb cur rt
           | Inr None \<Rightarrow>
               (case addEvent_resize s fd of
                  Inl e \<Rightarrow> Inl e
                | Inr (s1, a) \<Rightarrow> addEvent_register s1 a fd event cb cur rt))"

section \<open>delEvent, cancelEvent, cancelAll\<close>

text \<open>
  Each looks the context up under the read lock and then works on it under the context's mutex:
  the second section is a function of its own, on the context \<open>a\<close> that the lookup has found.
\<close>

definition delEvent_at :: "IOManager \<Rightarrow> nat \<Rightarrow> int \<Rightarrow> u32 \<Rightarrow> int \<Rightarrow> (IOManager \<times> bool) result" where
  "delEvent_at s a fd event rt =
     (let c = ctx_heap s a
      in if fc_events c AND event = 0 then Inr (s, False)
         else let new_events = fc_events c AND NOT event;
                  op = (if new_events \<noteq> 0 then CtlMod else CtlDel)
              in if rt \<noteq> 0 then Inr (s, False)
                 else let s1 = dec_pending (log_ctl op fd (EPOLLET OR new_events) a s);
                          c1 = c\<lparr>fc_events := new_events\<rparr>
                      in case getEventContext event of
                           Inl e \<Rightarrow> Inl e
                         | Inr k \<Rightarrow>
                             Inr (put_ctx a (set_slot k (resetEventContext (slot_of c1 k)) c1) s1, True))"

definition delEvent :: "IOManager \<Rightarrow> int \<Rightarrow> u32 \<Rightarrow> int \<Rightarrow> (IOManager \<times> bool) result" where
  "delEvent s fd event rt =
     (case lookup_ctx s fd of
        Inl e \<Rightarrow> Inl e
      | Inr None \<Rightarrow> Inr (s, False)
      | Inr (Some a) \<Rightarrow> delEvent_at s a fd event rt)"

definition cancelEvent_at :: "IOManager \<Rightarrow> nat \<Rightarrow> int \<Rightarrow> u32 \<Rightarrow> int \<Rightarrow> (IOManager \<times> bool) result" where
  "cancelEvent_at s a fd event rt =
     (let c = ctx_heap s a
      in if fc_events c AND event = 0 then Inr (s, False)
         else let new_events = fc_events c AND NOT event;
                  op = (if new_events \<noteq> 0 then CtlMod else CtlDel)
              in if rt \<noteq> 0 then Inr (s, False)
                 else (case trigger_at (dec_pending (log_ctl op fd (EPOLLET OR new_events) a s)) a event of
                         Inl e \<Rightarrow> Inl e
                       | Inr s2 \<Rightarrow> Inr (s2, True)))"

definition cancelEvent :: "IOManager \<Rightarrow> int \<Rightarrow> u32 \<Rightarrow> int \<Rightarrow> (IOManager \<times> bool) result" where
  "cancelEvent s fd event rt =
     (case lookup_ctx s fd of
        Inl e \<Rightarrow> Inl e
      | Inr None \<Rightarrow> Inr (s, False)
      | Inr (Some a) \<Rightarrow> cancelEvent_at s a fd event rt)"

text \<open>\<^verbatim>\<open>if (which & event) { fd_ctx->triggerEvent(event); --m_pendingEventCount; }\<close>\<close>

definition trigger_if :: "u32 \<Rightarrow> u32 \<Rightarrow> nat \<Rightarrow> IOManager \<Rightarrow> IOManager result" where
  "trigger_if which event a s =
     (if which AND event \<noteq> 0
      then case trigger_at s a event of Inl e \<Rightarrow> Inl e | Inr s1 \<Rightarrow> Inr (dec_pending s1)
      else Inr s)"

definition cancelAll_at :: "IOManager \<Rightarrow> nat \<Rightarrow> int \<Rightarrow> int \<Rightarrow> (IOManager \<times> bool) result" where
  "cancelAll_at s a fd rt =
     (if fc_events (ctx_heap s a) = 0 then Inr (s, False)
      else if rt \<noteq> 0 then Inr (s, False)
      else let s1 = log_ctl CtlDel fd 0 a s
           in case trigger_if (fc_events (ctx_heap s1 a)) READ a s1 of
                Inl e \<Rightarrow> Inl e
              | Inr s2 \<Rightarrow>
                  (case trigger_if (fc_events (ctx_heap s2 a)) WRITE a s2 of
                     Inl e \<Rightarrow> Inl e
                   | Inr s3 \<Rightarrow>
                       if fc_events (ctx_heap s3 a) = 0 then Inr (s3, True)
                       else Inl Assertion_Failed))"

definition cancelAll :: "IOManager \<Rightarrow> int \<Rightarrow> int \<Rightarrow> (IOManager \<times> bool) result" where
  "cancelAll s fd rt =
     (case lookup_ctx s fd of
        Inl e \<Rightarrow> Inl e
      | Inr None \<Rightarrow> Inr (s, False)
      | Inr (Some a) \<Rightarrow> cancelAll_at s a fd rt)"

section \<open>Stopping and idling\<close>

text \<open>
  \<^verbatim>\<open>stopping()\<close> reads three things one after the other, each on its own: the timer set under
  its lock, the atomic count of pending events, and the scheduler's part under the queue's lock.
\<close>

definition stopping_timers :: "IOManager \<Rightarrow> int \<Rightarrow> IOManager \<times> bool" where
  "stopping_timers s now =
     (case getNextTimer (io_timers s) now of
        (t, timeout) \<Rightarrow> (s\<lparr>io_timers := t\<rparr>, timeout = NOT 0))"

definition stopping_events :: "IOManager \<Rightarrow> bool" where
  "stopping_events s = (m_pendingEventCount s = 0)"

definition io_stopping :: "IOManager \<Rightarrow> int \<Rightarrow> IOManager \<times> bool" where
  "io_stopping s now =
     (case stopping_timers s now of
        (s1, no_timer) \<Rightarrow> (s1, no_timer \<and> stopping_events s1 \<and> stopping (io_sched s1)))"

lemma io_stopping_eq:
  "io_stopping s now =
     (case getNextTimer (io_timers s) now of
        (t, timeout) \<Rightarrow> (s\<lparr>io_timers := t\<rparr>,
          timeout = NOT 0 \<and> m_pendingEventCount s = 0 \<and> stopping (io_sched s)))"
  by (simp add: io_stopping_def stopping_timers_def stopping_events_def case_prod_beta)

text \<open>The timeout of \<^verbatim>\<open>epoll_wait\<close>: the next timer, at most five seconds.\<close>

definition wait_timeout :: "IOManager \<Rightarrow> int \<Rightarrow> IOManager \<times> u64" where
  "wait_timeout s now =
     (case getNextTimer (io_timers s) now of
        (t, next_timeout) \<Rightarrow> (s\<lparr>io_timers := t\<rparr>, min next_timeout 5000))"

text \<open>
  One ready event: \<open>Tickled\<close> is the eventfd, \<open>Ready a events rt\<close> the context \<open>a\<close> with the
  readiness \<^verbatim>\<open>epoll_wait\<close> reported and the result of the \<^verbatim>\<open>epoll_ctl\<close> made for it.
\<close>

datatype ready = Tickled | Ready nat u32 int

text \<open>Errors and hang-ups count as the registered events.\<close>

definition ep_normalise :: "FdContext \<Rightarrow> u32 \<Rightarrow> u32" where
  "ep_normalise c ev =
     (let ev1 = (if ev AND EPOLLERR \<noteq> 0 then ev OR ((EPOLLIN OR EPOLLOUT) AND fc_events c) else ev);
          ev2 = (if ev1 AND EPOLLHUP \<noteq> 0 then ev1 OR ((EPOLLIN OR EPOLLOUT) AND fc_events c) else ev1)
      in ev2)"

definition real_events :: "u32 \<Rightarrow> u32" where
  "real_events ev =
     (let r0 = 0;
          r1 = (if ev AND EPOLLIN \<noteq> 0 then r0 OR READ else r0);
          r2 = (if ev AND EPOLLOUT \<noteq> 0 then r1 OR WRITE else r1)
      in r2)"

definition handle_ready :: "IOManager \<Rightarrow> nat \<Rightarrow> u32 \<Rightarrow> int \<Rightarrow> IOManager result" where
  "handle_ready s a ev rt =
     (let c = ctx_heap s a; real = real_events (ep_normalise c ev)
      in if fc_events c AND real = 0 then Inr s
         else let left_events = fc_events c AND NOT real;
                  op = (if left_events \<noteq> 0 then CtlMod else CtlDel)
              in if rt \<noteq> 0 then Inr s
                 else case trigger_if real READ a (log_ctl op (fc_fd c) (EPOLLET OR left_events) a s) of
                        Inl e \<Rightarrow> Inl e
                      | Inr s1 \<Rightarrow> trigger_if real WRITE a s1)"

fun handle_all :: "IOManager \<Rightarrow> ready list \<Rightarrow> IOManager result" where
  "handle_all s [] = Inr s"
| "handle_all s (Tickled # es) = handle_all s es"
| "handle_all s (Ready a ev rt # es) =
     (case handle_ready s a ev rt of Inl e \<Rightarrow> Inl e | Inr s1 \<Rightarrow> handle_all s1 es)"

fun schedule_cbs :: "IOManager \<Rightarrow> callback option list \<Rightarrow> IOManager" where
  "schedule_cbs s [] = s"
| "schedule_cbs s (cb # cbs) = schedule_cbs (io_schedule s (Callback cb)) cbs"

text \<open>
  One round of the idle loop: leave when the manager can stop (\<open>Inl\<close>), else wait, collect the
  expired timers and schedule their callbacks, handle the ready events, yield. The readings of
  the clock are \<open>n1\<close> to \<open>n4\<close>; \<open>None\<close> is not returning.
\<close>

definition idle_round ::
    "IOManager \<Rightarrow> int \<Rightarrow> int \<Rightarrow> int \<Rightarrow> int \<Rightarrow> ready list \<Rightarrow> (IOManager + IOManager) result option" where
  "idle_round s n1 n2 n3 n4 es =
     (case io_stopping s n1 of
        (s1, True) \<Rightarrow> Some (Inr (Inl s1))
      | (s1, False) \<Rightarrow>
          (case wait_timeout s1 n2 of
             (s2, _) \<Rightarrow>
               (case listExpiredCb (io_timers s2) n3 n4 of
                  None \<Rightarrow> None
                | Some (t, cbs) \<Rightarrow>
                    (case handle_all (schedule_cbs (s2\<lparr>io_timers := t\<rparr>) cbs) es of
                       Inl e \<Rightarrow> Some (Inl e)
                     | Inr s3 \<Rightarrow> Some (Inr (Inr s3))))))"

section \<open>The invariant\<close>

text \<open>
  A slot carries a scheduler and exactly one continuation when its event is registered and is
  empty otherwise; the pending count is the number of registered events over all contexts; the
  vector's entry for a descriptor is a context of that descriptor.
\<close>

definition slot_ok :: "bool \<Rightarrow> EventContext \<Rightarrow> bool" where
  "slot_ok registered e \<longleftrightarrow>
     (if registered then ec_scheduler e \<and> (ec_fiber e = None) \<noteq> (ec_cb e = None)
      else e = empty_event)"

definition ctx_ok :: "FdContext \<Rightarrow> bool" where
  "ctx_ok c \<longleftrightarrow> fc_events c \<in> {0, 1, 4, 5} \<and>
     slot_ok (fc_events c AND READ \<noteq> 0) (fc_read c) \<and>
     slot_ok (fc_events c AND WRITE \<noteq> 0) (fc_write c)"

definition evcount :: "u32 \<Rightarrow> nat" where
  "evcount e = (if e AND READ \<noteq> 0 then 1 else 0) + (if e AND WRITE \<noteq> 0 then 1 else 0)"

definition registered :: "IOManager \<Rightarrow> nat" where
  "registered s = (\<Sum>a<ctx_count s. evcount (fc_events (ctx_heap s a)))"

definition io_inv :: "IOManager \<Rightarrow> bool" where
  "io_inv s \<longleftrightarrow> (\<forall>a < ctx_count s. ctx_ok (ctx_heap s a)) \<and>
     m_pendingEventCount s = of_nat (registered s) \<and>
     (\<forall>i < length (m_fdContexts s). m_fdContexts s ! i < ctx_count s \<and>
        fc_fd (ctx_heap s (m_fdContexts s ! i)) = int i) \<and>
     32 \<le> length (m_fdContexts s)"

lemma ctx_ok_cases:
  assumes "ctx_ok c"
  obtains (none) "fc_events c = 0" "fc_read c = empty_event" "fc_write c = empty_event"
  | (rd) "fc_events c = 1" "slot_ok True (fc_read c)" "fc_write c = empty_event"
  | (wr) "fc_events c = 4" "fc_read c = empty_event" "slot_ok True (fc_write c)"
  | (both) "fc_events c = 5" "slot_ok True (fc_read c)" "slot_ok True (fc_write c)"
  using assms by (auto simp: ctx_ok_def slot_ok_def event_bits)

lemma ctx_ok_new: "ctx_ok (new_FdContext i)"
  by (simp add: ctx_ok_def new_FdContext_def slot_ok_def event_bits)

lemma reset_empty [simp]: "resetEventContext e = empty_event"
  by (simp add: resetEventContext_def empty_event_def)

text \<open>The continuation stored in a slot, as \<^verbatim>\<open>scheduleLock\<close> receives it.\<close>

definition continuation :: "EventContext \<Rightarrow> FiberOrCb" where
  "continuation e = (if ec_cb e \<noteq> None then Callback (ec_cb e) else FiberPtr (ec_fiber e))"

definition slot_for :: "u32 \<Rightarrow> slot" where
  "slot_for event = (if event = READ then ReadSlot else WriteSlot)"

lemma trigger_ok:
  assumes ok: "ctx_ok c" and ev: "event \<in> {READ, WRITE}" and reg: "fc_events c AND event \<noteq> 0"
  shows "\<exists>c'. triggerEvent c event = Inr (c', continuation (slot_of c (slot_for event))) \<and>
    ctx_ok c' \<and> fc_events c' = fc_events c AND NOT event \<and> fc_fd c' = fc_fd c \<and>
    evcount (fc_events c) = Suc (evcount (fc_events c')) \<and>
    slot_of c' (slot_for event) = empty_event"
  using ok
  by (cases rule: ctx_ok_cases)
    (use ev reg in \<open>auto simp: triggerEvent_def getEventContext_def event_bits Let_def ctx_ok_def
      slot_ok_def evcount_def continuation_def slot_for_def empty_event_def\<close>)

lemma io_schedule_frame [simp]:
  "m_pendingEventCount (io_schedule s fc) = m_pendingEventCount s"
  "ctx_heap (io_schedule s fc) = ctx_heap s" "ctx_count (io_schedule s fc) = ctx_count s"
  "m_fdContexts (io_schedule s fc) = m_fdContexts s" "ctl_log (io_schedule s fc) = ctl_log s"
  "io_timers (io_schedule s fc) = io_timers s"
  by (simp_all add: io_schedule_def tickle_def Let_def split: prod.splits)

lemma io_schedule_sched:
  "io_sched (io_schedule s fc) = fst (scheduleLock (io_sched s) fc (-1))"
  by (simp add: io_schedule_def tickle_def Let_def split: prod.splits)

lemma put_ctx_simps [simp]:
  "m_pendingEventCount (put_ctx a c s) = m_pendingEventCount s"
  "ctx_heap (put_ctx a c s) = (ctx_heap s)(a := c)" "ctx_count (put_ctx a c s) = ctx_count s"
  "m_fdContexts (put_ctx a c s) = m_fdContexts s" "ctl_log (put_ctx a c s) = ctl_log s"
  "io_sched (put_ctx a c s) = io_sched s" "io_timers (put_ctx a c s) = io_timers s"
  by (simp_all add: put_ctx_def)

lemma log_ctl_simps [simp]:
  "m_pendingEventCount (log_ctl op fd ev a s) = m_pendingEventCount s"
  "ctx_heap (log_ctl op fd ev a s) = ctx_heap s" "ctx_count (log_ctl op fd ev a s) = ctx_count s"
  "m_fdContexts (log_ctl op fd ev a s) = m_fdContexts s"
  "ctl_log (log_ctl op fd ev a s) = ctl_log s @ [(op, fd, ev, DataPtr a)]"
  "io_sched (log_ctl op fd ev a s) = io_sched s" "io_timers (log_ctl op fd ev a s) = io_timers s"
  by (simp_all add: log_ctl_def)

lemma dec_pending_simps [simp]:
  "m_pendingEventCount (dec_pending s) = m_pendingEventCount s - 1"
  "ctx_heap (dec_pending s) = ctx_heap s" "ctx_count (dec_pending s) = ctx_count s"
  "m_fdContexts (dec_pending s) = m_fdContexts s" "ctl_log (dec_pending s) = ctl_log s"
  "io_sched (dec_pending s) = io_sched s" "io_timers (dec_pending s) = io_timers s"
  by (simp_all add: dec_pending_def)

lemma registered_upd:
  assumes "a < ctx_count s"
  shows "(\<Sum>x<ctx_count s. evcount (fc_events (((ctx_heap s)(a := c)) x))) + evcount (fc_events (ctx_heap s a))
    = registered s + evcount (fc_events c)"
proof -
  have "(\<Sum>x<ctx_count s. evcount (fc_events (((ctx_heap s)(a := c)) x)))
      = evcount (fc_events c) + (\<Sum>x\<in>{..<ctx_count s} - {a}. evcount (fc_events (ctx_heap s x)))"
    using assms by (subst sum.remove [of _ a]) (auto intro!: sum.cong)
  moreover have "registered s = evcount (fc_events (ctx_heap s a)) +
      (\<Sum>x\<in>{..<ctx_count s} - {a}. evcount (fc_events (ctx_heap s x)))"
    unfolding registered_def using assms by (subst sum.remove [of _ a]) auto
  ultimately show ?thesis by simp
qed

text \<open>
  The heart of every operation: the context at \<open>a\<close> is replaced by a good one of the same
  descriptor, and the pending count follows.
\<close>

definition ctx_step :: "IOManager \<Rightarrow> nat \<Rightarrow> IOManager \<Rightarrow> bool" where
  "ctx_step s a s' \<longleftrightarrow> ctx_count s' = ctx_count s \<and> m_fdContexts s' = m_fdContexts s \<and>
     (\<exists>c. ctx_heap s' = (ctx_heap s)(a := c) \<and> ctx_ok c \<and> fc_fd c = fc_fd (ctx_heap s a) \<and>
       m_pendingEventCount s' + of_nat (evcount (fc_events (ctx_heap s a))) =
         m_pendingEventCount s + of_nat (evcount (fc_events c)))"

lemma io_inv_ctx_step:
  assumes inv: "io_inv s" and a: "a < ctx_count s" and st: "ctx_step s a s'"
  shows "io_inv s'"
proof -
  from st obtain c where c: "ctx_count s' = ctx_count s" "m_fdContexts s' = m_fdContexts s"
    "ctx_heap s' = (ctx_heap s)(a := c)" "ctx_ok c" "fc_fd c = fc_fd (ctx_heap s a)"
    "m_pendingEventCount s' + of_nat (evcount (fc_events (ctx_heap s a))) =
      m_pendingEventCount s + of_nat (evcount (fc_events c))"
    by (auto simp: ctx_step_def)
  have "of_nat (registered s') + of_nat (evcount (fc_events (ctx_heap s a))) =
      (of_nat (registered s) + of_nat (evcount (fc_events c)) :: u64)"
    using registered_upd [OF a, of c] unfolding registered_def [of s'] c(1,3)
    by (metis of_nat_add)
  moreover have "m_pendingEventCount s = of_nat (registered s)" using inv by (simp add: io_inv_def)
  ultimately have "m_pendingEventCount s' = of_nat (registered s')"
    using c(6) by (metis add_right_cancel)
  with inv a c show ?thesis by (auto simp: io_inv_def)
qed

lemma lookup_ctxD:
  assumes "io_inv s" and "lookup_ctx s fd = Inr (Some a)"
  shows "a < ctx_count s" and "ctx_ok (ctx_heap s a)" and "fc_fd (ctx_heap s a) = fd"
    and "0 \<le> fd" and "nat fd < length (m_fdContexts s)" and "a = m_fdContexts s ! nat fd"
proof -
  from assms(2) show "0 \<le> fd" "nat fd < length (m_fdContexts s)" "a = m_fdContexts s ! nat fd"
    by (auto simp: lookup_ctx_def split: if_splits)
  with assms(1) show "a < ctx_count s" "ctx_ok (ctx_heap s a)" "fc_fd (ctx_heap s a) = fd"
    by (auto simp: io_inv_def)
qed

lemma trigger_at_ok:
  assumes ok: "ctx_ok (ctx_heap s a)" and ev: "event \<in> {READ, WRITE}"
    and reg: "fc_events (ctx_heap s a) AND event \<noteq> 0"
  shows "\<exists>s' c. trigger_at s a event = Inr s' \<and> ctx_heap s' = (ctx_heap s)(a := c) \<and>
    m_pendingEventCount s' = m_pendingEventCount s \<and> ctx_count s' = ctx_count s \<and>
    m_fdContexts s' = m_fdContexts s \<and> ctl_log s' = ctl_log s \<and> io_timers s' = io_timers s \<and>
    io_sched s' = fst (scheduleLock (io_sched s)
      (continuation (slot_of (ctx_heap s a) (slot_for event))) (-1)) \<and>
    ctx_ok c \<and> fc_events c = fc_events (ctx_heap s a) AND NOT event \<and>
    fc_fd c = fc_fd (ctx_heap s a) \<and> slot_of c (slot_for event) = empty_event \<and>
    evcount (fc_events (ctx_heap s a)) = Suc (evcount (fc_events c))"
proof -
  from trigger_ok [OF assms] obtain c where c:
    "triggerEvent (ctx_heap s a) event = Inr (c, continuation (slot_of (ctx_heap s a) (slot_for event)))"
    "ctx_ok c" "fc_events c = fc_events (ctx_heap s a) AND NOT event"
    "fc_fd c = fc_fd (ctx_heap s a)"
    "evcount (fc_events (ctx_heap s a)) = Suc (evcount (fc_events c))"
    "slot_of c (slot_for event) = empty_event" by blast
  then show ?thesis
    by (intro exI [of _ "io_schedule (put_ctx a c s) (continuation (slot_of (ctx_heap s a) (slot_for event)))"]
        exI [of _ c]) (simp add: trigger_at_def io_schedule_sched)
qed

lemma registered_pos:
  "ctx_ok c \<Longrightarrow> event \<in> {READ, WRITE} \<Longrightarrow> fc_events c AND event \<noteq> 0 \<Longrightarrow>
    evcount (fc_events c) = Suc (evcount (fc_events c AND NOT event))"
  using trigger_ok by metis

section \<open>The operations keep the invariant\<close>

lemma getEventContext_ok: "event \<in> {READ, WRITE} \<Longrightarrow> getEventContext event = Inr (slot_for event)"
  by (auto simp: getEventContext_def slot_for_def event_bits)

lemma ctx_ok_cleared:
  assumes "ctx_ok c" and "event \<in> {READ, WRITE}"
  shows "ctx_ok (set_slot (slot_for event) empty_event (c\<lparr>fc_events := fc_events c AND NOT event\<rparr>))"
  using assms(1)
  by (cases rule: ctx_ok_cases)
    (use assms(2) in \<open>auto simp: ctx_ok_def slot_ok_def slot_for_def event_bits empty_event_def\<close>)

lemma ctx_ok_added:
  assumes "ctx_ok c" and "event \<in> {READ, WRITE}" and "fc_events c AND event = 0"
    and "slot_ok True e"
  shows "ctx_ok (set_slot (slot_for event) e (c\<lparr>fc_events := fc_events c OR event\<rparr>))"
    and "evcount (fc_events c OR event) = Suc (evcount (fc_events c))"
    and "slot_of c (slot_for event) = empty_event"
  using assms(1)
  by (cases rule: ctx_ok_cases;
      use assms(2-) in \<open>auto simp: ctx_ok_def slot_ok_def slot_for_def event_bits empty_event_def evcount_def\<close>)+

lemma set_slot_simps [simp]:
  "fc_events (set_slot k e c) = fc_events c" "fc_fd (set_slot k e c) = fc_fd c"
  "slot_of (set_slot k e c) k = e" "slot_of (c\<lparr>fc_events := v\<rparr>) k = slot_of c k"
  by (cases k; simp)+

lemma addEvent_register_ok:
  assumes inv: "io_inv s" and a: "a < ctx_count s" and ev: "event \<in> {READ, WRITE}"
  shows "\<exists>s' b. addEvent_register s a fd event cb cur rt = Inr (s', b) \<and> io_inv s' \<and>
    (b \<longleftrightarrow> fc_events (ctx_heap s a) AND event = 0 \<and> rt = 0) \<and> (\<not> b \<longrightarrow> s' = s) \<and>
    io_sched s' = io_sched s \<and> m_fdContexts s' = m_fdContexts s \<and> io_timers s' = io_timers s \<and>
    (b \<longrightarrow> fc_events (ctx_heap s' a) = fc_events (ctx_heap s a) OR event \<and>
      continuation (slot_of (ctx_heap s' a) (slot_for event)) =
        (if cb \<noteq> None then Callback cb else FiberPtr (Some cur)) \<and>
      m_pendingEventCount s' = m_pendingEventCount s + 1)"
proof (cases "fc_events (ctx_heap s a) AND event = 0 \<and> rt = 0")
  case True
  let ?c = "ctx_heap s a"
  let ?e = "if cb \<noteq> None then \<lparr>ec_scheduler = True, ec_fiber = None, ec_cb = cb\<rparr>
    else \<lparr>ec_scheduler = True, ec_fiber = Some cur, ec_cb = None\<rparr>"
  have ok: "ctx_ok ?c" using inv a by (simp add: io_inv_def)
  have e: "slot_ok True ?e" by (simp add: slot_ok_def)
  note A = ctx_ok_added [OF ok ev conjunct1 [OF True] e]
  let ?c' = "set_slot (slot_for event) ?e (?c\<lparr>fc_events := fc_events ?c OR event\<rparr>)"
  let ?op = "if fc_events ?c \<noteq> 0 then CtlMod else CtlAdd"
  let ?s1 = "log_ctl ?op fd (EPOLLET OR fc_events ?c OR event) a s"
  let ?s' = "put_ctx a ?c' (?s1\<lparr>m_pendingEventCount := m_pendingEventCount ?s1 + 1\<rparr>)"
  have r: "addEvent_register s a fd event cb cur rt = Inr (?s', True)"
    using True A(3) by (simp add: addEvent_register_def Let_def getEventContext_ok [OF ev] empty_event_def)
  have "ctx_step s a ?s'" unfolding ctx_step_def
    using A(1,2) by (intro conjI exI [of _ ?c']) simp_all
  from io_inv_ctx_step [OF inv a this] r True show ?thesis
    by (intro exI [of _ ?s'] exI [of _ True]) (simp add: continuation_def)
next
  case False
  then have "addEvent_register s a fd event cb cur rt = Inr (s, False)"
    by (auto simp: addEvent_register_def Let_def)
  with False inv show ?thesis by (intro exI [of _ s] exI [of _ False]) auto
qed

lemma io_inv_grow:
  assumes inv: "io_inv s" and sz: "length (m_fdContexts s) \<le> sz"
  shows "io_inv (contextResize sz s)"
    and "take (length (m_fdContexts s)) (m_fdContexts (contextResize sz s)) = m_fdContexts s"
    and "length (m_fdContexts (contextResize sz s)) = sz"
    and "a < ctx_count s \<Longrightarrow> ctx_heap (contextResize sz s) a = ctx_heap s a"
    and "length (m_fdContexts s) \<le> i \<Longrightarrow> i < sz \<Longrightarrow>
      fc_events (ctx_heap (contextResize sz s) (m_fdContexts (contextResize sz s) ! i)) = 0"
proof -
  let ?s = "contextResize sz s" and ?n = "length (m_fdContexts s)" and ?a = "ctx_count s"
  have v: "m_fdContexts ?s = m_fdContexts s @ [?a..<?a + (sz - ?n)]"
    using sz by (simp add: contextResize_def Let_def)
  then show "take ?n (m_fdContexts ?s) = m_fdContexts s" "length (m_fdContexts ?s) = sz"
    using sz by simp_all
  have n: "ctx_count ?s = ?a + (sz - ?n)" "m_pendingEventCount ?s = m_pendingEventCount s"
    by (simp_all add: contextResize_def Let_def)
  have h: "ctx_heap ?s x = (if ?a \<le> x \<and> x < ?a + (sz - ?n) then new_FdContext (int (?n + (x - ?a)))
      else ctx_heap s x)" for x
    by (simp add: contextResize_def Let_def)
  then show "a < ?a \<Longrightarrow> ctx_heap ?s a = ctx_heap s a" for a by simp
  have at: "\<exists>j. m_fdContexts ?s ! i = ?a + j \<and> j < sz - ?n \<and> i = ?n + j" if "?n \<le> i" "i < sz" for i
    using that by (intro exI [of _ "i - ?n"]) (simp add: v nth_append)
  show "fc_events (ctx_heap ?s (m_fdContexts ?s ! i)) = 0" if i: "?n \<le> i" "i < sz" for i
    using at [OF i] by (auto simp: h new_FdContext_def)
  have "registered ?s = registered s"
  proof -
    have "registered ?s = (\<Sum>x<?a. evcount (fc_events (ctx_heap ?s x))) +
        (\<Sum>x\<in>{?a..<?a + (sz - ?n)}. evcount (fc_events (ctx_heap ?s x)))"
      unfolding registered_def n(1)
      by (subst sum.union_disjoint [symmetric]) (auto intro!: sum.cong)
    moreover have "(\<Sum>x\<in>{?a..<?a + (sz - ?n)}. evcount (fc_events (ctx_heap ?s x))) = 0"
      by (simp add: h new_FdContext_def evcount_def)
    ultimately show ?thesis by (simp add: registered_def h)
  qed
  moreover have "m_fdContexts ?s ! i < ctx_count ?s \<and> fc_fd (ctx_heap ?s (m_fdContexts ?s ! i)) = int i"
    if "i < length (m_fdContexts ?s)" for i
  proof (cases "i < ?n")
    case True
    then have "m_fdContexts s ! i < ?a" "fc_fd (ctx_heap s (m_fdContexts s ! i)) = int i"
      using inv by (auto simp: io_inv_def)
    with True show ?thesis by (simp add: v nth_append h n)
  next
    case False
    with that have "i < sz" using sz by (simp add: v)
    with at [of i] False show ?thesis by (auto simp: h n new_FdContext_def)
  qed
  moreover have "\<forall>a < ctx_count ?s. ctx_ok (ctx_heap ?s a)"
    using inv ctx_ok_new by (auto simp: io_inv_def h n)
  moreover have "m_pendingEventCount ?s = of_nat (registered s)" "32 \<le> length (m_fdContexts ?s)"
    using inv sz by (simp_all add: io_inv_def n v)
  ultimately show "io_inv ?s" unfolding io_inv_def by simp
qed

lemma or_and_absorb: "((x :: u32) OR y) AND y = y"
  by (rule bit_word_eqI) (auto simp: bit_simps)

lemma addEvent_ok:
  assumes inv: "io_inv s" and ev: "event \<in> {READ, WRITE}" and fd: "0 \<le> fd"
  shows "\<exists>s' b a. addEvent s fd event cb cur rt = Inr (s', b) \<and> io_inv s' \<and>
    nat fd < length (m_fdContexts s') \<and> a = m_fdContexts s' ! nat fd \<and>
    io_sched s' = io_sched s \<and> io_timers s' = io_timers s \<and>
    (b \<longrightarrow> fc_events (ctx_heap s' a) AND event \<noteq> 0 \<and>
      continuation (slot_of (ctx_heap s' a) (slot_for event)) =
        (if cb \<noteq> None then Callback cb else FiberPtr (Some cur)) \<and>
      m_pendingEventCount s' = m_pendingEventCount s + 1)"
proof (cases "nat fd < length (m_fdContexts s)")
  case True
  let ?a = "m_fdContexts s ! nat fd"
  have l: "lookup_ctx s fd = Inr (Some ?a)" using True fd by (auto simp: lookup_ctx_def)
  have a: "?a < ctx_count s" using inv True by (simp add: io_inv_def)
  have bit: "(x OR event) AND event \<noteq> 0" for x
    using ev by (auto simp: or_and_absorb event_bits)
  from addEvent_register_ok [OF inv a ev, of fd cb cur rt] l fd True bit show ?thesis
    by (fastforce simp: addEvent_def)
next
  case False
  let ?sz = "nat (fd * 3 div 2)" and ?s = "contextResize (nat (fd * 3 div 2)) s"
  have len: "32 \<le> length (m_fdContexts s)" using inv by (simp add: io_inv_def)
  with False fd have sz: "length (m_fdContexts s) \<le> ?sz" "nat fd < ?sz" by linarith+
  note G = io_inv_grow [OF inv sz(1)]
  let ?a = "m_fdContexts ?s ! nat fd"
  have l: "lookup_ctx s fd = Inr None" using False fd by (auto simp: lookup_ctx_def)
  have r: "addEvent_resize s fd = Inr (?s, ?a)" using sz(2) G(3) by (simp add: addEvent_resize_def Let_def)
  have a: "?a < ctx_count ?s" using G(1) G(3) sz(2) by (simp add: io_inv_def)
  have fr: "io_sched ?s = io_sched s" "io_timers ?s = io_timers s"
    "m_pendingEventCount ?s = m_pendingEventCount s"
    by (simp_all add: contextResize_def Let_def)
  have bit: "(x OR event) AND event \<noteq> 0" for x
    using ev by (auto simp: or_and_absorb event_bits)
  from addEvent_register_ok [OF G(1) a ev, of fd cb cur rt] l r fd sz G(3) bit fr show ?thesis
    by (fastforce simp: addEvent_def)
qed

lemma lookup_total: "0 \<le> fd \<Longrightarrow> \<exists>r. lookup_ctx s fd = Inr r"
  by (simp add: lookup_ctx_def)

lemma delEvent_at_ok:
  assumes inv: "io_inv s" and a: "a < ctx_count s" and ev: "event \<in> {READ, WRITE}"
  shows "\<exists>s' b. delEvent_at s a fd event rt = Inr (s', b) \<and> io_inv s' \<and> io_sched s' = io_sched s \<and>
    (\<not> b \<longrightarrow> s' = s) \<and> (b \<longrightarrow> m_fdContexts s' = m_fdContexts s \<and>
      m_pendingEventCount s' = m_pendingEventCount s - 1 \<and>
      fc_events (ctx_heap s' a) = fc_events (ctx_heap s a) AND NOT event)"
proof (cases "fc_events (ctx_heap s a) AND event \<noteq> 0 \<and> rt = 0")
  case True
  let ?c = "ctx_heap s a"
  let ?n = "fc_events ?c AND NOT event"
  let ?c' = "set_slot (slot_for event) empty_event (?c\<lparr>fc_events := ?n\<rparr>)"
  let ?s1 = "dec_pending (log_ctl (if ?n \<noteq> 0 then CtlMod else CtlDel) fd (EPOLLET OR ?n) a s)"
  have ok: "ctx_ok ?c" using inv a by (simp add: io_inv_def)
  have r: "delEvent_at s a fd event rt = Inr (put_ctx a ?c' ?s1, True)"
    using True by (simp add: delEvent_at_def Let_def getEventContext_ok [OF ev])
  have "ctx_step s a (put_ctx a ?c' ?s1)" unfolding ctx_step_def
    using ctx_ok_cleared [OF ok ev] registered_pos [OF ok ev conjunct1 [OF True]]
    by (intro conjI exI [of _ ?c']) simp_all
  from io_inv_ctx_step [OF inv a this] r show ?thesis
    by (intro exI [of _ "put_ctx a ?c' ?s1"] exI [of _ True]) simp
next
  case False
  then have "delEvent_at s a fd event rt = Inr (s, False)" by (auto simp: delEvent_at_def Let_def)
  with inv show ?thesis by (intro exI [of _ s] exI [of _ False]) simp
qed

lemma delEvent_ok:
  assumes inv: "io_inv s" and ev: "event \<in> {READ, WRITE}" and fd: "0 \<le> fd"
  shows "\<exists>s' b. delEvent s fd event rt = Inr (s', b) \<and> io_inv s' \<and> io_sched s' = io_sched s \<and>
    (\<not> b \<longrightarrow> s' = s) \<and> (b \<longrightarrow> nat fd < length (m_fdContexts s) \<and> m_fdContexts s' = m_fdContexts s \<and>
      m_pendingEventCount s' = m_pendingEventCount s - 1 \<and>
      fc_events (ctx_heap s' (m_fdContexts s ! nat fd)) =
        fc_events (ctx_heap s (m_fdContexts s ! nat fd)) AND NOT event)"
proof -
  obtain r where r: "lookup_ctx s fd = Inr r" using lookup_total [OF fd] by blast
  show ?thesis
  proof (cases r)
    case None
    with r inv show ?thesis by (intro exI [of _ s] exI [of _ False]) (simp add: delEvent_def)
  next
    case (Some a)
    with r have l: "lookup_ctx s fd = Inr (Some a)" by simp
    note L = lookup_ctxD [OF inv l]
    from delEvent_at_ok [OF inv L(1) ev, of fd rt] L(5) l show ?thesis
      unfolding L(6) [symmetric] by (simp add: delEvent_def)
  qed
qed

text \<open>Triggering at a context and counting it, seen from the manager.\<close>

lemma slot_frame:
  "k \<noteq> slot_for event \<Longrightarrow> triggerEvent c event = Inr (c', fc) \<Longrightarrow> event \<in> {READ, WRITE} \<Longrightarrow>
    slot_of c' k = slot_of c k"
  by (cases k) (auto simp: triggerEvent_def Let_def getEventContext_ok slot_for_def split: if_splits)

lemma trigger_step:
  assumes inv: "io_inv s" and a: "a < ctx_count s" and ev: "event \<in> {READ, WRITE}"
    and reg: "fc_events (ctx_heap s a) AND event \<noteq> 0"
  shows "\<exists>s'. trigger_at s a event = Inr s' \<and> io_inv (dec_pending s') \<and>
    io_sched s' = fst (scheduleLock (io_sched s)
      (continuation (slot_of (ctx_heap s a) (slot_for event))) (-1)) \<and>
    m_fdContexts s' = m_fdContexts s \<and> ctx_count s' = ctx_count s \<and>
    m_pendingEventCount s' = m_pendingEventCount s \<and> ctl_log s' = ctl_log s \<and>
    fc_events (ctx_heap s' a) = fc_events (ctx_heap s a) AND NOT event \<and>
    fc_fd (ctx_heap s' a) = fc_fd (ctx_heap s a) \<and>
    (\<forall>k. k \<noteq> slot_for event \<longrightarrow> slot_of (ctx_heap s' a) k = slot_of (ctx_heap s a) k)"
proof -
  have ok: "ctx_ok (ctx_heap s a)" using inv a by (simp add: io_inv_def)
  from trigger_at_ok [OF ok ev reg] obtain s' c where t: "trigger_at s a event = Inr s'"
    "ctx_heap s' = (ctx_heap s)(a := c)" "m_pendingEventCount s' = m_pendingEventCount s"
    "ctx_count s' = ctx_count s" "m_fdContexts s' = m_fdContexts s" "ctl_log s' = ctl_log s"
    "io_sched s' = fst (scheduleLock (io_sched s)
      (continuation (slot_of (ctx_heap s a) (slot_for event))) (-1))"
    "ctx_ok c" "fc_events c = fc_events (ctx_heap s a) AND NOT event"
    "fc_fd c = fc_fd (ctx_heap s a)"
    "evcount (fc_events (ctx_heap s a)) = Suc (evcount (fc_events c))" by blast
  have "ctx_step s a (dec_pending s')"
    unfolding ctx_step_def using t(2-5,8,10,11) by (intro conjI exI [of _ c]) simp_all
  note I = io_inv_ctx_step [OF inv a this]
  have "slot_of c k = slot_of (ctx_heap s a) k" if "k \<noteq> slot_for event" for k
  proof -
    from t(1) obtain c2 fc where c2: "triggerEvent (ctx_heap s a) event = Inr (c2, fc)"
      "s' = io_schedule (put_ctx a c2 s) fc"
      by (auto simp: trigger_at_def split: sum.splits)
    then have "c2 = c" using fun_cong [OF t(2), of a] by simp
    with slot_frame [OF that c2(1) ev] show ?thesis by simp
  qed
  with t I show ?thesis by (intro exI [of _ s']) simp
qed

lemma io_inv_log [simp]: "io_inv (log_ctl op fd ev a s) = io_inv s"
  by (simp add: io_inv_def registered_def)

lemma cancelEvent_at_ok:
  assumes inv: "io_inv s" and a: "a < ctx_count s" and ev: "event \<in> {READ, WRITE}"
  shows "\<exists>s' b. cancelEvent_at s a fd event rt = Inr (s', b) \<and> io_inv s' \<and> (\<not> b \<longrightarrow> s' = s) \<and>
    (b \<longrightarrow> m_fdContexts s' = m_fdContexts s \<and> m_pendingEventCount s' = m_pendingEventCount s - 1 \<and>
      fc_events (ctx_heap s' a) = fc_events (ctx_heap s a) AND NOT event \<and>
      io_sched s' = fst (scheduleLock (io_sched s)
        (continuation (slot_of (ctx_heap s a) (slot_for event))) (-1)))"
proof (cases "fc_events (ctx_heap s a) AND event \<noteq> 0 \<and> rt = 0")
  case True
  let ?n = "fc_events (ctx_heap s a) AND NOT event"
  let ?s1 = "log_ctl (if ?n \<noteq> 0 then CtlMod else CtlDel) fd (EPOLLET OR ?n) a s"
  have ok: "ctx_ok (ctx_heap (dec_pending ?s1) a)" and
    reg: "fc_events (ctx_heap (dec_pending ?s1) a) AND event \<noteq> 0"
    using inv a True by (simp_all add: io_inv_def)
  from trigger_at_ok [OF ok ev reg] obtain s' c where t: "trigger_at (dec_pending ?s1) a event = Inr s'"
    "ctx_heap s' = (ctx_heap s)(a := c)" "m_pendingEventCount s' = m_pendingEventCount s - 1"
    "ctx_count s' = ctx_count s" "m_fdContexts s' = m_fdContexts s"
    "io_sched s' = fst (scheduleLock (io_sched s)
      (continuation (slot_of (ctx_heap s a) (slot_for event))) (-1))"
    "ctx_ok c" "fc_events c = ?n" "fc_fd c = fc_fd (ctx_heap s a)"
    "evcount (fc_events (ctx_heap s a)) = Suc (evcount (fc_events c))" by auto
  have r: "cancelEvent_at s a fd event rt = Inr (s', True)"
    using True t(1) by (simp add: cancelEvent_at_def Let_def)
  have "ctx_step s a s'"
    unfolding ctx_step_def using t(2-5,7,9,10) by (intro conjI exI [of _ c]) simp_all
  from io_inv_ctx_step [OF inv a this] r t(2-6,8) show ?thesis
    by (intro exI [of _ s'] exI [of _ True]) simp
next
  case False
  then have "cancelEvent_at s a fd event rt = Inr (s, False)" by (auto simp: cancelEvent_at_def Let_def)
  with inv show ?thesis by (intro exI [of _ s] exI [of _ False]) simp
qed

lemma cancelEvent_ok:
  assumes inv: "io_inv s" and ev: "event \<in> {READ, WRITE}" and fd: "0 \<le> fd"
  shows "\<exists>s' b. cancelEvent s fd event rt = Inr (s', b) \<and> io_inv s' \<and> (\<not> b \<longrightarrow> s' = s) \<and>
    (b \<longrightarrow> nat fd < length (m_fdContexts s) \<and> m_fdContexts s' = m_fdContexts s \<and>
      m_pendingEventCount s' = m_pendingEventCount s - 1 \<and>
      fc_events (ctx_heap s' (m_fdContexts s ! nat fd)) =
        fc_events (ctx_heap s (m_fdContexts s ! nat fd)) AND NOT event \<and>
      io_sched s' = fst (scheduleLock (io_sched s)
        (continuation (slot_of (ctx_heap s (m_fdContexts s ! nat fd)) (slot_for event))) (-1)))"
proof -
  obtain r where r: "lookup_ctx s fd = Inr r" using lookup_total [OF fd] by blast
  show ?thesis
  proof (cases r)
    case None
    with r inv show ?thesis by (intro exI [of _ s] exI [of _ False]) (simp add: cancelEvent_def)
  next
    case (Some a)
    with r have l: "lookup_ctx s fd = Inr (Some a)" by simp
    note L = lookup_ctxD [OF inv l]
    from cancelEvent_at_ok [OF inv L(1) ev, of fd rt] L(5) l show ?thesis
      unfolding L(6) [symmetric] by (simp add: cancelEvent_def)
  qed
qed

lemma trigger_if_ok:
  assumes inv: "io_inv s" and a: "a < ctx_count s" and ev: "event \<in> {READ, WRITE}"
    and reg: "which AND event \<noteq> 0 \<longrightarrow> fc_events (ctx_heap s a) AND event \<noteq> 0"
  shows "\<exists>s'. trigger_if which event a s = Inr s' \<and> io_inv s' \<and> ctx_count s' = ctx_count s \<and>
    m_fdContexts s' = m_fdContexts s \<and> ctl_log s' = ctl_log s \<and>
    fc_events (ctx_heap s' a) = (if which AND event \<noteq> 0 then fc_events (ctx_heap s a) AND NOT event
      else fc_events (ctx_heap s a)) \<and>
    io_sched s' = (if which AND event \<noteq> 0
      then fst (scheduleLock (io_sched s) (continuation (slot_of (ctx_heap s a) (slot_for event))) (-1))
      else io_sched s) \<and>
    (\<forall>k. k \<noteq> slot_for event \<longrightarrow> slot_of (ctx_heap s' a) k = slot_of (ctx_heap s a) k)"
proof (cases "which AND event = 0")
  case False
  from trigger_step [OF inv a ev] reg False obtain s1 where t:
    "trigger_at s a event = Inr s1" "io_inv (dec_pending s1)" "m_fdContexts s1 = m_fdContexts s"
    "ctx_count s1 = ctx_count s" "ctl_log s1 = ctl_log s"
    "fc_events (ctx_heap s1 a) = fc_events (ctx_heap s a) AND NOT event"
    "io_sched s1 = fst (scheduleLock (io_sched s)
      (continuation (slot_of (ctx_heap s a) (slot_for event))) (-1))"
    "\<forall>k. k \<noteq> slot_for event \<longrightarrow> slot_of (ctx_heap s1 a) k = slot_of (ctx_heap s a) k" by blast
  then show ?thesis using False
    by (intro exI [of _ "dec_pending s1"]) (simp add: trigger_if_def)
qed (use inv in \<open>simp add: trigger_if_def\<close>)

text \<open>Scheduling the continuations of the registered events of a mask, \<^verbatim>\<open>READ\<close> first.\<close>

definition schedule_slots :: "u32 \<Rightarrow> FdContext \<Rightarrow> Scheduler \<Rightarrow> Scheduler" where
  "schedule_slots which c q =
     (let q1 = (if which AND READ \<noteq> 0
                then fst (scheduleLock q (continuation (fc_read c)) (-1)) else q)
      in if which AND WRITE \<noteq> 0
         then fst (scheduleLock q1 (continuation (fc_write c)) (-1)) else q1)"

lemma all_slots: "(\<forall>k. P k) \<longleftrightarrow> P ReadSlot \<and> P WriteSlot"
  by (metis slot.exhaust)

lemma trigger_both:
  assumes inv: "io_inv s" and a: "a < ctx_count s"
    and sub: "\<forall>event \<in> {READ, WRITE}. which AND event \<noteq> 0 \<longrightarrow> fc_events (ctx_heap s a) AND event \<noteq> 0"
  obtains s1 s2 where "trigger_if which READ a s = Inr s1" "trigger_if which WRITE a s1 = Inr s2"
    "io_inv s2" "ctx_count s2 = ctx_count s" "m_fdContexts s2 = m_fdContexts s" "ctl_log s2 = ctl_log s"
    "fc_events (ctx_heap s1 a) AND WRITE = fc_events (ctx_heap s a) AND WRITE"
    "which AND 5 = fc_events (ctx_heap s a) \<longrightarrow> fc_events (ctx_heap s2 a) = 0"
    "io_sched s2 = schedule_slots which (ctx_heap s a) (io_sched s)"
proof -
  have r: "READ \<in> {READ, WRITE}" "WRITE \<in> {READ, WRITE}" by simp_all
  have sl: "slot_for READ = ReadSlot" "slot_for WRITE = WriteSlot"
    by (simp_all add: slot_for_def event_bits)
  from trigger_if_ok [OF inv a r(1), of which] sub obtain s1 where 1:
    "trigger_if which READ a s = Inr s1" "io_inv s1" "ctx_count s1 = ctx_count s"
    "m_fdContexts s1 = m_fdContexts s" "ctl_log s1 = ctl_log s"
    "fc_events (ctx_heap s1 a) = (if which AND READ \<noteq> 0 then fc_events (ctx_heap s a) AND NOT READ
      else fc_events (ctx_heap s a))"
    "io_sched s1 = (if which AND READ \<noteq> 0
      then fst (scheduleLock (io_sched s) (continuation (fc_read (ctx_heap s a))) (-1)) else io_sched s)"
    "fc_write (ctx_heap s1 a) = fc_write (ctx_heap s a)"
    unfolding sl by (auto simp: all_slots)
  have w: "fc_events (ctx_heap s1 a) AND WRITE = fc_events (ctx_heap s a) AND WRITE"
    unfolding 1(6) by (simp add: and.assoc event_bits)
  from trigger_if_ok [OF 1(2) _ r(2), of a which] a sub 1(3) w obtain s2 where 2:
    "trigger_if which WRITE a s1 = Inr s2" "io_inv s2" "ctx_count s2 = ctx_count s1"
    "m_fdContexts s2 = m_fdContexts s1" "ctl_log s2 = ctl_log s1"
    "fc_events (ctx_heap s2 a) = (if which AND WRITE \<noteq> 0 then fc_events (ctx_heap s1 a) AND NOT WRITE
      else fc_events (ctx_heap s1 a))"
    "io_sched s2 = (if which AND WRITE \<noteq> 0
      then fst (scheduleLock (io_sched s1) (continuation (fc_write (ctx_heap s1 a))) (-1)) else io_sched s1)"
    unfolding sl by auto
  show ?thesis
  proof (rule that [OF 1(1) 2(1,2)])
    show "io_sched s2 = schedule_slots which (ctx_heap s a) (io_sched s)"
      by (simp add: schedule_slots_def Let_def 1(7,8) 2(7))
    have "fc_events (ctx_heap s2 a) = 0" if m: "which AND 5 = fc_events (ctx_heap s a)"
    proof -
      have "ctx_ok (ctx_heap s a)" using inv a by (simp add: io_inv_def)
      then have e: "fc_events (ctx_heap s a) \<in> {0, 1, 4, 5}" by (simp add: ctx_ok_def)
      have "which AND READ = (which AND 5) AND READ" "which AND WRITE = (which AND 5) AND WRITE"
        by (simp_all add: event_bits and.assoc)
      with e show ?thesis unfolding 2(6) 1(6) m by (auto simp: event_bits)
    qed
    then show "which AND 5 = fc_events (ctx_heap s a) \<longrightarrow> fc_events (ctx_heap s2 a) = 0" by blast
  qed (use 1 2 w in simp_all)
qed

lemma cancelAll_at_ok:
  assumes inv: "io_inv s" and a: "a < ctx_count s"
  shows "\<exists>s' b. cancelAll_at s a fd rt = Inr (s', b) \<and> io_inv s' \<and> (\<not> b \<longrightarrow> s' = s) \<and>
    (b \<longrightarrow> m_fdContexts s' = m_fdContexts s \<and> fc_events (ctx_heap s' a) = 0 \<and>
      io_sched s' = schedule_slots (fc_events (ctx_heap s a)) (ctx_heap s a) (io_sched s))"
proof (cases "fc_events (ctx_heap s a) \<noteq> 0 \<and> rt = 0")
  case True
  let ?s1 = "log_ctl CtlDel fd 0 a s" and ?ev = "fc_events (ctx_heap s a)"
  have sub: "\<forall>event \<in> {READ, WRITE}. ?ev AND event \<noteq> 0 \<longrightarrow> fc_events (ctx_heap ?s1 a) AND event \<noteq> 0"
    by simp
  have i: "io_inv ?s1" and c: "a < ctx_count ?s1" using inv a by simp_all
  obtain s1 s2 where t:
    "trigger_if ?ev READ a ?s1 = Inr s1" "trigger_if ?ev WRITE a s1 = Inr s2" "io_inv s2"
    "m_fdContexts s2 = m_fdContexts s"
    "fc_events (ctx_heap s1 a) AND WRITE = ?ev AND WRITE"
    "?ev AND 5 = ?ev \<longrightarrow> fc_events (ctx_heap s2 a) = 0"
    "io_sched s2 = schedule_slots ?ev (ctx_heap s a) (io_sched s)"
    by (rule trigger_both [OF i c sub]) (rule that, assumption+, simp_all)
  have "ctx_ok (ctx_heap s a)" using inv a by (simp add: io_inv_def)
  then have "?ev \<in> {0, 1, 4, 5}" by (simp add: ctx_ok_def)
  then have "?ev AND 5 = ?ev" by auto
  note z = mp [OF t(6) this]
  have same: "trigger_if (fc_events (ctx_heap s1 a)) WRITE a s1 = trigger_if ?ev WRITE a s1"
    by (simp add: trigger_if_def t(5))
  have "cancelAll_at s a fd rt = Inr (s2, True)"
    using True t(1,2) z by (simp add: cancelAll_at_def Let_def same)
  with t(3,4,7) z show ?thesis
    by (intro exI [of _ s2] exI [of _ True]) simp
next
  case False
  then have "cancelAll_at s a fd rt = Inr (s, False)" by (auto simp: cancelAll_at_def Let_def)
  with inv show ?thesis by (intro exI [of _ s] exI [of _ False]) simp
qed

lemma cancelAll_ok:
  assumes inv: "io_inv s" and fd: "0 \<le> fd"
  shows "\<exists>s' b. cancelAll s fd rt = Inr (s', b) \<and> io_inv s' \<and> (\<not> b \<longrightarrow> s' = s) \<and>
    (b \<longrightarrow> nat fd < length (m_fdContexts s) \<and> m_fdContexts s' = m_fdContexts s \<and>
      fc_events (ctx_heap s' (m_fdContexts s ! nat fd)) = 0 \<and>
      io_sched s' = schedule_slots (fc_events (ctx_heap s (m_fdContexts s ! nat fd)))
        (ctx_heap s (m_fdContexts s ! nat fd)) (io_sched s))"
proof -
  obtain r where r: "lookup_ctx s fd = Inr r" using lookup_total [OF fd] by blast
  show ?thesis
  proof (cases r)
    case None
    with r inv show ?thesis by (intro exI [of _ s] exI [of _ False]) (simp add: cancelAll_def)
  next
    case (Some a)
    with r have l: "lookup_ctx s fd = Inr (Some a)" by simp
    note L = lookup_ctxD [OF inv l]
    from cancelAll_at_ok [OF inv L(1), of fd rt] L(5) l show ?thesis
      unfolding L(6) [symmetric] by (simp add: cancelAll_def)
  qed
qed

section \<open>Ready events\<close>

text \<open>What the idle loop takes a reported readiness to be, given the context at that moment.\<close>

definition reported :: "FdContext \<Rightarrow> u32 \<Rightarrow> u32" where
  "reported c ev = real_events (ep_normalise c ev)"

lemma reported_cases: "reported c ev \<in> {0, 1, 4, 5}"
  by (simp add: reported_def real_events_def Let_def event_bits)

text \<open>
  The readiness is stale when it names an event that is not registered any more beside one
  that is.
\<close>

definition stale :: "FdContext \<Rightarrow> u32 \<Rightarrow> bool" where
  "stale c ev \<longleftrightarrow> fc_events c AND reported c ev \<noteq> 0 \<and> reported c ev AND NOT (fc_events c) \<noteq> 0"

lemma bit_tests:
  "(x :: u32) AND 1 = 0 \<longleftrightarrow> \<not> bit x 0" "x AND 4 = 0 \<longleftrightarrow> \<not> bit x 2"
  "x AND 8 = 0 \<longleftrightarrow> \<not> bit x 3" "x AND 16 = 0 \<longleftrightarrow> \<not> bit x 4"
  using and_exp_eq_0_iff_not_bit [of x 0] and_exp_eq_0_iff_not_bit [of x 2]
    and_exp_eq_0_iff_not_bit [of x 3] and_exp_eq_0_iff_not_bit [of x 4] by simp_all

lemma reported_bits:
  "reported c ev AND READ \<noteq> 0 \<longleftrightarrow> ev AND EPOLLIN \<noteq> 0 \<or>
    (ev AND EPOLLERR \<noteq> 0 \<or> ev AND EPOLLHUP \<noteq> 0) \<and> fc_events c AND READ \<noteq> 0"
  "reported c ev AND WRITE \<noteq> 0 \<longleftrightarrow> ev AND EPOLLOUT \<noteq> 0 \<or>
    (ev AND EPOLLERR \<noteq> 0 \<or> ev AND EPOLLHUP \<noteq> 0) \<and> fc_events c AND WRITE \<noteq> 0"
proof -
  have n: "bit (ep_normalise c ev) k \<longleftrightarrow> bit ev k \<or>
      (bit ev 3 \<or> bit ev 4) \<and> bit (5 :: u32) k \<and> bit (fc_events c) k" for k
    by (auto simp: ep_normalise_def Let_def event_bits bit_tests bit_or_iff bit_and_iff)
  show "reported c ev AND READ \<noteq> 0 \<longleftrightarrow> ev AND EPOLLIN \<noteq> 0 \<or>
      (ev AND EPOLLERR \<noteq> 0 \<or> ev AND EPOLLHUP \<noteq> 0) \<and> fc_events c AND READ \<noteq> 0"
    "reported c ev AND WRITE \<noteq> 0 \<longleftrightarrow> ev AND EPOLLOUT \<noteq> 0 \<or>
      (ev AND EPOLLERR \<noteq> 0 \<or> ev AND EPOLLHUP \<noteq> 0) \<and> fc_events c AND WRITE \<noteq> 0"
    using n [of 0] n [of 2]
    by (simp_all add: reported_def real_events_def Let_def event_bits bit_tests)
qed

text \<open>
  What \<^verbatim>\<open>epoll\<close> documents of a report: of readable and writable it says only what was asked
  for; errors and hang-ups it may always add. Such a report is not stale as long as nobody has
  changed the registrations since it was made.
\<close>

definition kernel_report :: "FdContext \<Rightarrow> u32 \<Rightarrow> bool" where
  "kernel_report c ev \<longleftrightarrow> ev AND (EPOLLIN OR EPOLLOUT) AND NOT (fc_events c) = 0"

lemma bit_5: "bit (5 :: u32) n \<longleftrightarrow> n = 0 \<or> n = 2"
proof -
  have "(5 :: u32) = 2 ^ 0 OR 2 ^ 2" by simp
  then show ?thesis by (simp only: bit_or_iff bit_exp_iff) auto
qed

lemma kernel_report_fresh:
  assumes "kernel_report c ev"
  shows "\<not> stale c ev"
proof -
  let ?r = "reported c ev"
  have r: "bit ?r 0 \<longrightarrow> bit ev 0 \<or> bit (fc_events c) 0" "bit ?r 2 \<longrightarrow> bit ev 2 \<or> bit (fc_events c) 2"
    using reported_bits [of c ev] by (auto simp: event_bits bit_tests)
  have e: "bit (ev AND 5 AND NOT (fc_events c)) m = bit (0 :: u32) m" for m
    using assms by (simp add: kernel_report_def event_bits)
  have f: "m = 0 \<or> m = 2 \<Longrightarrow> bit ev m \<Longrightarrow> bit (fc_events c) m" for m
    using e [of m] by (auto simp: bit_and_iff bit_not_iff bit_5)
  have "?r AND 5 = ?r" using reported_cases [of c ev] by auto
  then have b: "bit ?r n \<Longrightarrow> n = 0 \<or> n = 2" for n by (metis bit_and_iff bit_5)
  have "?r AND NOT (fc_events c) = 0"
    by (rule bit_word_eqI) (use f r b in \<open>auto simp: bit_and_iff bit_not_iff\<close>)
  then show ?thesis by (simp add: stale_def)
qed

lemma sub_of_not_stale:
  assumes "e \<in> {0, 1, 4, 5}" and "r \<in> {0, 1, 4, 5}" and "r AND NOT e = (0 :: u32)"
  shows "\<forall>event \<in> {READ, WRITE}. r AND event \<noteq> 0 \<longrightarrow> e AND event \<noteq> 0"
  using assms by (auto simp: event_bits)

lemma handle_ready_ok:
  assumes inv: "io_inv s" and a: "a < ctx_count s" and ns: "\<not> stale (ctx_heap s a) ev"
  shows "\<exists>s'. handle_ready s a ev rt = Inr s' \<and> io_inv s' \<and> m_fdContexts s' = m_fdContexts s \<and>
    ctx_count s' = ctx_count s \<and>
    io_sched s' = (if fc_events (ctx_heap s a) AND reported (ctx_heap s a) ev \<noteq> 0 \<and> rt = 0
      then schedule_slots (reported (ctx_heap s a) ev) (ctx_heap s a) (io_sched s) else io_sched s)"
proof (cases "fc_events (ctx_heap s a) AND reported (ctx_heap s a) ev \<noteq> 0 \<and> rt = 0")
  case True
  let ?c = "ctx_heap s a"
  let ?r = "reported ?c ev"
  let ?l = "fc_events ?c AND NOT ?r"
  let ?s1 = "log_ctl (if ?l \<noteq> 0 then CtlMod else CtlDel) (fc_fd ?c) (EPOLLET OR ?l) a s"
  have "ctx_ok ?c" using inv a by (simp add: io_inv_def)
  then have "fc_events ?c \<in> {0, 1, 4, 5}" by (simp add: ctx_ok_def)
  moreover have "?r AND NOT (fc_events ?c) = 0" using True ns by (simp add: stale_def)
  ultimately have sub: "\<forall>event \<in> {READ, WRITE}. ?r AND event \<noteq> 0 \<longrightarrow> fc_events (ctx_heap ?s1 a) AND event \<noteq> 0"
    unfolding log_ctl_simps by (rule sub_of_not_stale [OF _ reported_cases])
  have i: "io_inv ?s1" and ct: "a < ctx_count ?s1" using inv a by simp_all
  obtain s1 s2 where t: "trigger_if ?r READ a ?s1 = Inr s1"
    "trigger_if ?r WRITE a s1 = Inr s2" "io_inv s2" "m_fdContexts s2 = m_fdContexts s"
    "ctx_count s2 = ctx_count s" "io_sched s2 = schedule_slots ?r ?c (io_sched s)"
    by (rule trigger_both [OF i ct sub]) (rule that, assumption+, simp_all)
  have "handle_ready s a ev rt = Inr s2"
    using True t(1,2) by (simp add: handle_ready_def Let_def flip: reported_def)
  with t True show ?thesis by auto
next
  case False
  then have "handle_ready s a ev rt = Inr s"
    by (auto simp: handle_ready_def Let_def simp flip: reported_def)
  with inv False show ?thesis by auto
qed

lemma trigger_if_unregistered:
  "which AND event \<noteq> 0 \<Longrightarrow> fc_events (ctx_heap s a) AND event = 0 \<Longrightarrow>
    trigger_if which event a s = Inl Assertion_Failed"
  by (simp add: trigger_if_def trigger_at_def triggerEvent_def)

lemma handle_ready_stale:
  assumes inv: "io_inv s" and a: "a < ctx_count s" and st: "stale (ctx_heap s a) ev"
  shows "handle_ready s a ev 0 = Inl Assertion_Failed"
proof -
  let ?c = "ctx_heap s a"
  let ?r = "reported ?c ev"
  let ?l = "fc_events ?c AND NOT ?r"
  let ?s1 = "log_ctl (if ?l \<noteq> 0 then CtlMod else CtlDel) (fc_fd ?c) (EPOLLET OR ?l) a s"
  have "ctx_ok ?c" using inv a by (simp add: io_inv_def)
  then have e: "fc_events ?c \<in> {0, 1, 4, 5}" by (simp add: ctx_ok_def)
  have h: "handle_ready s a ev 0 = (case trigger_if ?r READ a ?s1 of
      Inl e \<Rightarrow> Inl e | Inr s1 \<Rightarrow> trigger_if ?r WRITE a s1)"
    using st by (simp add: handle_ready_def stale_def Let_def flip: reported_def)
  from st e reported_cases [of ?c ev] consider
      (w) "fc_events ?c = 4" "?r = 5" | (r) "fc_events ?c = 1" "?r = 5"
    by (auto simp: stale_def)
  then show ?thesis
  proof cases
    case w
    have "trigger_if ?r READ a ?s1 = Inl Assertion_Failed"
      by (rule trigger_if_unregistered) (simp_all add: w event_bits)
    then show ?thesis by (simp add: h)
  next
    case r
    have i: "io_inv ?s1" and ct: "a < ctx_count ?s1" using inv a by simp_all
    have "?r AND READ \<noteq> 0 \<longrightarrow> fc_events (ctx_heap ?s1 a) AND READ \<noteq> 0"
      by (simp add: r event_bits)
    from trigger_if_ok [OF i ct _ this] obtain s1 where s1: "trigger_if ?r READ a ?s1 = Inr s1"
      "fc_events (ctx_heap s1 a) = fc_events ?c AND NOT READ" by (auto simp: r event_bits)
    have "trigger_if ?r WRITE a s1 = Inl Assertion_Failed"
      by (rule trigger_if_unregistered) (simp_all add: s1(2) r event_bits)
    then show ?thesis by (simp add: h s1(1))
  qed
qed

section \<open>Runs of operations\<close>

datatype io_op =
    AddEvent int u32 "callback option" fid int
  | DelEvent int u32 int
  | CancelEvent int u32 int
  | CancelAll int int
  | HandleReady nat u32 int

fun io_step :: "IOManager \<Rightarrow> io_op \<Rightarrow> IOManager result" where
  "io_step s (AddEvent fd ev cb cur rt) = map_sum id fst (addEvent s fd ev cb cur rt)"
| "io_step s (DelEvent fd ev rt) = map_sum id fst (delEvent s fd ev rt)"
| "io_step s (CancelEvent fd ev rt) = map_sum id fst (cancelEvent s fd ev rt)"
| "io_step s (CancelAll fd rt) = map_sum id fst (cancelAll s fd rt)"
| "io_step s (HandleReady a ev rt) = handle_ready s a ev rt"

fun io_run :: "IOManager \<Rightarrow> io_op list \<Rightarrow> IOManager result" where
  "io_run s [] = Inr s"
| "io_run s (opn # ops) = (case io_step s opn of Inl e \<Rightarrow> Inl e | Inr s1 \<Rightarrow> io_run s1 ops)"

text \<open>
  What a caller owes: a descriptor that is not negative, one of the two events, and no registration
  for the manager's own eventfd \<open>efd\<close>. A ready event belongs to a context. The kernel does not
  promise that a report is not stale when it is handled, since the event can be deleted between
  \<^verbatim>\<open>epoll_wait\<close> and the handling; \<open>io_op_ok\<close> leaves that case out.
\<close>

fun io_args_ok :: "int \<Rightarrow> IOManager \<Rightarrow> io_op \<Rightarrow> bool" where
  "io_args_ok efd s (AddEvent fd ev cb cur rt) = (0 \<le> fd \<and> fd \<noteq> efd \<and> ev \<in> {READ, WRITE})"
| "io_args_ok efd s (DelEvent fd ev rt) = (0 \<le> fd \<and> ev \<in> {READ, WRITE})"
| "io_args_ok efd s (CancelEvent fd ev rt) = (0 \<le> fd \<and> ev \<in> {READ, WRITE})"
| "io_args_ok efd s (CancelAll fd rt) = (0 \<le> fd)"
| "io_args_ok efd s (HandleReady a ev rt) = (a < ctx_count s)"

fun stale_op :: "IOManager \<Rightarrow> io_op \<Rightarrow> bool" where
  "stale_op s (HandleReady a ev rt) = (stale (ctx_heap s a) ev \<and> rt = 0)"
| "stale_op s _ = False"

definition io_op_ok :: "int \<Rightarrow> IOManager \<Rightarrow> io_op \<Rightarrow> bool" where
  "io_op_ok efd s opn \<longleftrightarrow> io_args_ok efd s opn \<and> \<not> stale_op s opn"

abbreviation io_runs_ok :: "int \<Rightarrow> IOManager \<Rightarrow> io_op list \<Rightarrow> bool" where
  "io_runs_ok efd \<equiv> ops_ok (io_op_ok efd) io_step"

lemma handle_ready_not_stale:
  assumes "io_inv s" and "a < ctx_count s" and "\<not> (stale (ctx_heap s a) ev \<and> rt = 0)"
  shows "\<exists>s'. handle_ready s a ev rt = Inr s' \<and> io_inv s'"
proof (cases "rt = 0")
  case True
  with assms handle_ready_ok [OF assms(1,2), of ev rt] show ?thesis by auto
next
  case False
  with assms(1) show ?thesis by (simp add: handle_ready_def Let_def)
qed

lemma io_step_ok:
  assumes inv: "io_inv s" and ok: "io_op_ok efd s opn"
  shows "\<exists>s'. io_step s opn = Inr s' \<and> io_inv s'"
proof (cases opn)
  case (AddEvent fd ev cb cur rt)
  with addEvent_ok [OF inv, of ev fd cb cur rt] ok show ?thesis by (auto simp: io_op_ok_def)
next
  case (DelEvent fd ev rt)
  with delEvent_ok [OF inv, of ev fd rt] ok show ?thesis by (auto simp: io_op_ok_def)
next
  case (CancelEvent fd ev rt)
  with cancelEvent_ok [OF inv, of ev fd rt] ok show ?thesis by (auto simp: io_op_ok_def)
next
  case (CancelAll fd rt)
  with cancelAll_ok [OF inv, of fd rt] ok show ?thesis by (auto simp: io_op_ok_def)
next
  case (HandleReady a ev rt)
  with handle_ready_not_stale [OF inv] ok show ?thesis by (simp add: io_op_ok_def)
qed

lemma io_step_stale: "io_inv s \<Longrightarrow> io_args_ok efd s x \<Longrightarrow> stale_op s x \<Longrightarrow> io_step s x = Inl Assertion_Failed"
  by (cases x) (auto intro: handle_ready_stale)

lemma io_run_ok:
  "io_inv s \<Longrightarrow> io_runs_ok efd s ops \<Longrightarrow> \<exists>s'. io_run s ops = Inr s' \<and> io_inv s'"
proof (induction ops arbitrary: s)
  case (Cons opn ops)
  from io_step_ok [OF Cons.prems(1)] Cons.prems(2)
  obtain s1 where "io_step s opn = Inr s1" "io_inv s1" by auto
  with Cons.IH [of s1] Cons.prems(2) show ?case by simp
qed simp

text \<open>A run returns, or it stops at the first stale report.\<close>

lemma io_run_cases:
  assumes "io_inv s" and "ops_ok (io_args_ok efd) io_step s ops"
  obtains (runs) "io_runs_ok efd s ops"
  | (stale) xs x ys s1 where "ops = xs @ x # ys" "io_runs_ok efd s xs" "io_run s xs = Inr s1" "stale_op s1 x"
      "io_run s ops = Inl Assertion_Failed"
  using assms
proof (induction ops arbitrary: s thesis)
  case (Cons x ops)
  have a: "io_args_ok efd s x" using Cons.prems(4) by simp
  show ?case
  proof (cases "stale_op s x")
    case True
    with io_step_stale [OF Cons.prems(3) a] show ?thesis
      by (intro Cons.prems(2) [of "[]" x ops s]) simp_all
  next
    case False
    with a have ok: "io_op_ok efd s x" by (simp add: io_op_ok_def)
    from io_step_ok [OF Cons.prems(3) ok] obtain s1 where s1: "io_step s x = Inr s1" "io_inv s1" by blast
    have "ops_ok (io_args_ok efd) io_step s1 ops" using Cons.prems(4) s1(1) by simp
    from Cons.IH [OF _ _ s1(2) this] consider (runs) "io_runs_ok efd s1 ops"
      | (stale) xs y ys s2 where "ops = xs @ y # ys" "io_runs_ok efd s1 xs" "io_run s1 xs = Inr s2" "stale_op s2 y"
        "io_run s1 ops = Inl Assertion_Failed" by metis
    then show ?thesis
    proof cases
      case runs
      with ok s1(1) show ?thesis by (intro Cons.prems(1)) simp
    next
      case stale
      with ok s1(1) show ?thesis by (intro Cons.prems(2) [of "x # xs" y ys s2]) simp_all
    qed
  qed
qed simp

lemma init_io_inv: "io_inv (init_IOManager efd now)"
  using ctx_ok_new
  by (auto simp: init_IOManager_def contextResize_def io_inv_def registered_def
      new_FdContext_def evcount_def Let_def)

section \<open>Interleavings\<close>

text \<open>
  The locked sections of the operations, which is what threads interleave: the resize of
  \<^verbatim>\<open>addEvent\<close> under the write lock; registration, deletion and cancellation on a context
  under its mutex; the handling of a ready event under the mutex of its context. The lookups that
  come before them change nothing.
\<close>

datatype io_sec =
    ResizeSec int
  | RegisterSec nat int u32 "callback option" fid int
  | DelSec nat int u32 int
  | CancelSec nat int u32 int
  | CancelAllSec nat int int
  | ReadySec nat u32 int

fun sec_step :: "IOManager \<Rightarrow> io_sec \<Rightarrow> IOManager result" where
  "sec_step s (ResizeSec fd) = map_sum id fst (addEvent_resize s fd)"
| "sec_step s (RegisterSec a fd ev cb cur rt) = map_sum id fst (addEvent_register s a fd ev cb cur rt)"
| "sec_step s (DelSec a fd ev rt) = map_sum id fst (delEvent_at s a fd ev rt)"
| "sec_step s (CancelSec a fd ev rt) = map_sum id fst (cancelEvent_at s a fd ev rt)"
| "sec_step s (CancelAllSec a fd rt) = map_sum id fst (cancelAll_at s a fd rt)"
| "sec_step s (ReadySec a ev rt) = handle_ready s a ev rt"

text \<open>
  When a thread can be at a section. It resizes for a descriptor that some earlier vector was too
  short for, and no vector is shorter than 32; the context it works on is one that it has found
  under its descriptor, then or any time before.
\<close>

definition found_ctx :: "IOManager \<Rightarrow> nat \<Rightarrow> int \<Rightarrow> bool" where
  "found_ctx s a fd \<longleftrightarrow> a < ctx_count s \<and> fc_fd (ctx_heap s a) = fd"

fun sec_ok :: "IOManager \<Rightarrow> io_sec \<Rightarrow> bool" where
  "sec_ok s (ResizeSec fd) = (32 \<le> fd)"
| "sec_ok s (RegisterSec a fd ev cb cur rt) = (found_ctx s a fd \<and> ev \<in> {READ, WRITE})"
| "sec_ok s (DelSec a fd ev rt) = (found_ctx s a fd \<and> ev \<in> {READ, WRITE})"
| "sec_ok s (CancelSec a fd ev rt) = (found_ctx s a fd \<and> ev \<in> {READ, WRITE})"
| "sec_ok s (CancelAllSec a fd rt) = found_ctx s a fd"
| "sec_ok s (ReadySec a ev rt) = (a < ctx_count s)"

text \<open>A section that fails the assertion: a ready event whose report is stale by now.\<close>

fun stale_sec :: "IOManager \<Rightarrow> io_sec \<Rightarrow> bool" where
  "stale_sec s (ReadySec a ev rt) = (stale (ctx_heap s a) ev \<and> rt = 0)"
| "stale_sec s _ = False"

text \<open>What a thread has found stays found: contexts are neither freed nor renamed.\<close>

lemma lookup_found: "io_inv s \<Longrightarrow> lookup_ctx s fd = Inr (Some a) \<Longrightarrow> found_ctx s a fd"
  using lookup_ctxD by (simp add: found_ctx_def)

lemma io_inv_resize:
  assumes inv: "io_inv s" and sz: "32 \<le> sz"
  shows "io_inv (contextResize sz s)"
proof (cases "length (m_fdContexts s) \<le> sz")
  case True
  with io_inv_grow(1) [OF inv] show ?thesis .
next
  case False
  then have v: "m_fdContexts (contextResize sz s) = take sz (m_fdContexts s)"
    and f: "ctx_count (contextResize sz s) = ctx_count s" "ctx_heap (contextResize sz s) = ctx_heap s"
    "m_pendingEventCount (contextResize sz s) = m_pendingEventCount s"
    by (auto simp: contextResize_def Let_def intro!: ext)
  with False inv sz show ?thesis by (auto simp: io_inv_def registered_def)
qed

lemma sec_step_ok:
  assumes inv: "io_inv s" and ok: "sec_ok s x" and ns: "\<not> stale_sec s x"
  shows "\<exists>s'. sec_step s x = Inr s' \<and> io_inv s'"
proof (cases x)
  case (ResizeSec fd)
  let ?s = "contextResize (nat (fd * 3 div 2)) s"
  have "32 \<le> fd" using ok ResizeSec by simp
  then have sz: "32 \<le> nat (fd * 3 div 2)" "nat fd < nat (fd * 3 div 2)" by linarith+
  have i: "io_inv ?s" by (rule io_inv_resize [OF inv sz(1)])
  have "length (m_fdContexts ?s) = nat (fd * 3 div 2)" by (simp add: contextResize_def Let_def)
  with sz(2) i ResizeSec show ?thesis by (simp add: addEvent_resize_def Let_def)
next
  case (RegisterSec a fd ev cb cur rt)
  with addEvent_register_ok [OF inv, of a ev fd cb cur rt] ok show ?thesis by (auto simp: found_ctx_def)
next
  case (DelSec a fd ev rt)
  with delEvent_at_ok [OF inv, of a ev fd rt] ok show ?thesis by (auto simp: found_ctx_def)
next
  case (CancelSec a fd ev rt)
  with cancelEvent_at_ok [OF inv, of a ev fd rt] ok show ?thesis by (auto simp: found_ctx_def)
next
  case (CancelAllSec a fd rt)
  with cancelAll_at_ok [OF inv, of a fd rt] ok show ?thesis by (auto simp: found_ctx_def)
next
  case (ReadySec a ev rt)
  with handle_ready_not_stale [OF inv] ok ns show ?thesis by simp
qed

lemma sec_step_stale: "io_inv s \<Longrightarrow> sec_ok s x \<Longrightarrow> stale_sec s x \<Longrightarrow> sec_step s x = Inl Assertion_Failed"
  by (cases x) (auto intro: handle_ready_stale)

text \<open>Every interleaving, up to now.\<close>

inductive sec_reach :: "IOManager \<Rightarrow> bool" where
  sec_start: "sec_reach (init_IOManager efd now)"
| sec_next: "sec_reach s \<Longrightarrow> sec_ok s x \<Longrightarrow> sec_step s x = Inr s1 \<Longrightarrow> sec_reach s1"

lemma sec_reach_inv: "sec_reach s \<Longrightarrow> io_inv s"
proof (induction rule: sec_reach.induct)
  case (sec_next s x s1)
  then have "\<not> stale_sec s x" using sec_step_stale by fastforce
  from sec_step_ok [OF sec_next.IH sec_next.hyps(2) this] sec_next.hyps(3) show ?case by auto
qed (rule init_io_inv)



section \<open>Delivery\<close>

text \<open>What an operation has to find to deliver: the event registered, with this continuation.\<close>

lemma addEvent_added:
  assumes inv: "io_inv s" and ev: "event \<in> {READ, WRITE}" and fd: "0 \<le> fd"
    and add: "addEvent s fd event cb cur rt = Inr (s1, True)"
  obtains a where "lookup_ctx s1 fd = Inr (Some a)" "io_inv s1" "a = m_fdContexts s1 ! nat fd"
    "fc_events (ctx_heap s1 a) AND event \<noteq> 0" "io_sched s1 = io_sched s"
    "continuation (slot_of (ctx_heap s1 a) (slot_for event)) =
      (if cb \<noteq> None then Callback cb else FiberPtr (Some cur))"
    "m_pendingEventCount s1 = m_pendingEventCount s + 1"
proof (rule that [OF _ _ refl])
  from addEvent_ok [OF inv ev fd, of cb cur rt] add
  show "lookup_ctx s1 fd = Inr (Some (m_fdContexts s1 ! nat fd))" using fd
    by (auto simp: lookup_ctx_def)
qed (use addEvent_ok [OF inv ev fd, of cb cur rt] add in auto)

lemma lookup_ctx_vec: "m_fdContexts s' = m_fdContexts s \<Longrightarrow> lookup_ctx s' fd = lookup_ctx s fd"
  by (simp add: lookup_ctx_def)

lemma and_not_self: "((x :: u32) AND NOT y) AND y = 0"
  by (rule bit_word_eqI) (auto simp: bit_simps)

text \<open>Whether an event of a descriptor is registered, and when \<^verbatim>\<open>addEvent\<close> succeeds.\<close>

definition is_registered :: "IOManager \<Rightarrow> int \<Rightarrow> u32 \<Rightarrow> bool" where
  "is_registered s fd event \<longleftrightarrow>
     (\<exists>a. lookup_ctx s fd = Inr (Some a) \<and> fc_events (ctx_heap s a) AND event \<noteq> 0)"

lemma addEvent_result:
  assumes inv: "io_inv s" and ev: "event \<in> {READ, WRITE}" and fd: "0 \<le> fd"
  shows "\<exists>s'. addEvent s fd event cb cur rt = Inr (s', \<not> is_registered s fd event \<and> rt = 0)"
proof (cases "nat fd < length (m_fdContexts s)")
  case True
  then have l: "lookup_ctx s fd = Inr (Some (m_fdContexts s ! nat fd))"
    using fd by (auto simp: lookup_ctx_def)
  have "m_fdContexts s ! nat fd < ctx_count s" using inv True by (simp add: io_inv_def)
  from addEvent_register_ok [OF inv this ev, of fd cb cur rt] l fd show ?thesis
    by (auto simp: addEvent_def is_registered_def)
next
  case False
  let ?sz = "nat (fd * 3 div 2)" and ?s = "contextResize (nat (fd * 3 div 2)) s"
  have "32 \<le> length (m_fdContexts s)" using inv by (simp add: io_inv_def)
  with False fd have sz: "length (m_fdContexts s) \<le> ?sz" "nat fd < ?sz" by linarith+
  note G = io_inv_grow [OF inv sz(1)]
  let ?a = "m_fdContexts ?s ! nat fd"
  have l: "lookup_ctx s fd = Inr None" using False fd by (auto simp: lookup_ctx_def)
  have r: "addEvent_resize s fd = Inr (?s, ?a)" using sz(2) G(3) by (simp add: addEvent_resize_def Let_def)
  have a: "?a < ctx_count ?s" using G(1) G(3) sz(2) by (simp add: io_inv_def)
  have "fc_events (ctx_heap ?s ?a) = 0" using G(5) [of "nat fd"] False sz(2) by simp
  with addEvent_register_ok [OF G(1) a ev, of fd cb cur rt] l r fd show ?thesis
    by (auto simp: addEvent_def is_registered_def)
qed

text \<open>
  A registered event is delivered exactly once: after a successful
  \<^verbatim>\<open>addEvent\<close>, a successful \<^verbatim>\<open>cancelEvent\<close> hands the scheduler exactly the registered
  continuation, the callback or else the running fiber, and undoes the count; from then on
  cancelling or deleting the event again changes nothing.
\<close>

theorem io_cancel_delivers_once:
  assumes "io_inv s" and "event \<in> {READ, WRITE}" and "0 \<le> fd"
    and "addEvent s fd event cb cur rt = Inr (s1, True)"
  shows "\<exists>s2. cancelEvent s1 fd event 0 = Inr (s2, True) \<and>
    io_sched s2 = fst (scheduleLock (io_sched s)
      (if cb \<noteq> None then Callback cb else FiberPtr (Some cur)) (-1)) \<and>
    m_pendingEventCount s2 = m_pendingEventCount s \<and>
    (\<forall>rt2. cancelEvent s2 fd event rt2 = Inr (s2, False) \<and> delEvent s2 fd event rt2 = Inr (s2, False))"
proof -
  obtain a where a: "lookup_ctx s1 fd = Inr (Some a)" "io_inv s1" "a = m_fdContexts s1 ! nat fd"
    "fc_events (ctx_heap s1 a) AND event \<noteq> 0" "io_sched s1 = io_sched s"
    "continuation (slot_of (ctx_heap s1 a) (slot_for event)) =
      (if cb \<noteq> None then Callback cb else FiberPtr (Some cur))"
    "m_pendingEventCount s1 = m_pendingEventCount s + 1"
    by (rule addEvent_added [OF assms])
  obtain s2 b where s2: "cancelEvent s1 fd event 0 = Inr (s2, b)"
    and b: "b \<longrightarrow> m_fdContexts s2 = m_fdContexts s1 \<and>
      m_pendingEventCount s2 = m_pendingEventCount s1 - 1 \<and>
      fc_events (ctx_heap s2 a) = fc_events (ctx_heap s1 a) AND NOT event \<and>
      io_sched s2 = fst (scheduleLock (io_sched s1)
        (continuation (slot_of (ctx_heap s1 a) (slot_for event))) (-1))"
    using cancelEvent_ok [OF a(2) assms(2,3), of 0] unfolding a(3) by auto
  have "b" using s2 a(1,4) by (auto simp: cancelEvent_def cancelEvent_at_def Let_def split: sum.splits)
  note b = mp [OF b this] and s2 = s2 [unfolded eqTrueI [OF this]]
  have l: "lookup_ctx s2 fd = Inr (Some a)" using a(1) lookup_ctx_vec [OF conjunct1 [OF b]] by simp
  have "fc_events (ctx_heap s2 a) AND event = 0" using b by (simp add: and_not_self)
  with s2 b a l show ?thesis
    by (intro exI [of _ s2]) (simp add: cancelEvent_def cancelEvent_at_def delEvent_def delEvent_at_def)
qed

text \<open>Concrete runs from the new manager, for the instances below.\<close>

lemmas io_eval = init_IOManager_def contextResize_def addEvent_def addEvent_register_def
  lookup_ctx_def event_bits getEventContext_def new_FdContext_def empty_event_def
  put_ctx_def log_ctl_def EPOLLET_def

lemma add_demo:
  "\<exists>s1. addEvent (init_IOManager 4 0) 5 READ None 7 0 = Inr (s1, True) \<and>
     fc_events (ctx_heap s1 5) = 1 \<and> ctx_count s1 = 32"
  by (simp add: io_eval Let_def)

lemma io_cancel_delivers_once_witness:
  "\<exists>s1 s2. addEvent (init_IOManager 4 0) 5 READ None 7 0 = Inr (s1, True) \<and>
     cancelEvent s1 5 READ 0 = Inr (s2, True) \<and>
     io_sched s2 = fst (scheduleLock (io_sched (init_IOManager 4 0)) (FiberPtr (Some 7)) (-1))"
  using add_demo io_cancel_delivers_once [OF init_io_inv, of READ 5 4 0 None 7 0] by fastforce

text \<open>
  Deleting undoes adding: \<^verbatim>\<open>delEvent\<close> after a successful \<^verbatim>\<open>addEvent\<close> returns
  true, schedules nothing and restores the pending count and the descriptor's event mask.
\<close>

lemma io_del_undoes_add:
  assumes "io_inv s" and "event \<in> {READ, WRITE}" and "0 \<le> fd" and "nat fd < length (m_fdContexts s)"
    and "addEvent s fd event cb cur rt = Inr (s1, True)"
  shows "\<exists>s2. delEvent s1 fd event 0 = Inr (s2, True) \<and> io_sched s2 = io_sched s \<and>
    m_pendingEventCount s2 = m_pendingEventCount s \<and> m_fdContexts s2 = m_fdContexts s \<and>
    ctx_heap s2 (m_fdContexts s ! nat fd) = ctx_heap s (m_fdContexts s ! nat fd)"
proof -
  let ?a = "m_fdContexts s ! nat fd"
  let ?c = "ctx_heap s ?a"
  have l: "lookup_ctx s fd = Inr (Some ?a)" using assms(3,4) by (auto simp: lookup_ctx_def)
  have r: "addEvent_register s ?a fd event cb cur rt = Inr (s1, True)"
    using assms(3,5) l by (simp add: addEvent_def)
  have un: "fc_events ?c AND event = 0" "rt = 0"
    using r by (auto simp: addEvent_register_def Let_def split: if_splits)
  have ok: "ctx_ok ?c" using lookup_ctxD(2) [OF assms(1) l] .
  have e: "slot_of ?c (slot_for event) = empty_event"
    using ctx_ok_added(3) [OF ok assms(2) un(1), of "\<lparr>ec_scheduler = True, ec_fiber = Some 0, ec_cb = None\<rparr>"]
    by (simp add: slot_ok_def)
  define x where "x = (if cb \<noteq> None then \<lparr>ec_scheduler = True, ec_fiber = None, ec_cb = cb\<rparr>
    else \<lparr>ec_scheduler = True, ec_fiber = Some cur, ec_cb = None\<rparr>)"
  let ?c1 = "set_slot (slot_for event) x (?c\<lparr>fc_events := fc_events ?c OR event\<rparr>)"
  have s1: "ctx_heap s1 ?a = ?c1" "m_fdContexts s1 = m_fdContexts s" "io_sched s1 = io_sched s"
    "m_pendingEventCount s1 = m_pendingEventCount s + 1"
    using r e un by (auto simp: addEvent_register_def Let_def getEventContext_ok [OF assms(2)]
        empty_event_def x_def split: if_splits)
  have l1: "lookup_ctx s1 fd = Inr (Some ?a)" using l lookup_ctx_vec [OF s1(2)] by simp
  have m: "(fc_events ?c OR event) AND NOT event = fc_events ?c" "(fc_events ?c OR event) AND event \<noteq> 0"
    using ok un(1) assms(2) by (auto simp: ctx_ok_def event_bits)
  have "set_slot (slot_for event) empty_event (?c1\<lparr>fc_events := fc_events ?c\<rparr>) = ?c"
    using e by (cases "slot_for event") simp_all
  then show ?thesis
    using l1 s1 m by (simp add: delEvent_def delEvent_at_def Let_def getEventContext_ok [OF assms(2)] put_ctx_def
        dec_pending_def log_ctl_def)
qed



section \<open>Where the operations fault\<close>

text \<open>
  Property C28. Handling one ready event faults exactly on stale readiness: an event the kernel
  reported that another thread has deleted or cancelled since, while the other event of the
  descriptor is still registered and also reported, fails the assertion of
  \<^verbatim>\<open>triggerEvent\<close>. In every other case the reported continuations are scheduled, reading
  first, and the consistency of the contexts is kept.
\<close>

theorem io_ready_faults_iff_stale:
  assumes "io_inv s" and "a < ctx_count s"
  shows "(stale (ctx_heap s a) ev \<and> rt = 0 \<longrightarrow> handle_ready s a ev rt = Inl Assertion_Failed) \<and>
    (\<not> (stale (ctx_heap s a) ev \<and> rt = 0) \<longrightarrow>
      (\<exists>s'. handle_ready s a ev rt = Inr s' \<and> io_inv s' \<and>
        io_sched s' = (if fc_events (ctx_heap s a) AND reported (ctx_heap s a) ev \<noteq> 0 \<and> rt = 0
          then schedule_slots (reported (ctx_heap s a) ev) (ctx_heap s a) (io_sched s)
          else io_sched s)))"
proof (cases "stale (ctx_heap s a) ev \<and> rt = 0")
  case True
  with handle_ready_stale [OF assms] show ?thesis by auto
next
  case False
  show ?thesis
  proof (cases "rt = 0")
    case True
    with False handle_ready_ok [OF assms, of ev rt] show ?thesis by auto
  next
    case rt: False
    then have "handle_ready s a ev rt = Inr s" by (simp add: handle_ready_def Let_def)
    with rt assms show ?thesis by auto
  qed
qed

text \<open>The race: both events registered and ready, one cancelled before the idle loop gets there.\<close>

lemma io_ready_faults_iff_stale_witness:
  "\<exists>s. io_run (init_IOManager 4 0) [AddEvent 5 1 None 7 0, AddEvent 5 4 None 8 0, CancelEvent 5 4 0] = Inr s \<and>
    handle_ready s 5 5 0 = Inl Assertion_Failed"
proof -
  have ok: "io_runs_ok 4 (init_IOManager 4 0) [AddEvent 5 1 None 7 0, AddEvent 5 4 None 8 0, CancelEvent 5 4 0]"
    by (simp add: io_eval io_op_ok_def Let_def split: sum.split)
  from io_run_ok [OF init_io_inv ok] obtain s where s:
    "io_run (init_IOManager 4 0) [AddEvent 5 1 None 7 0, AddEvent 5 4 None 8 0, CancelEvent 5 4 0] = Inr s"
    "io_inv s" by blast
  then have "ctx_count s = 32" "fc_events (ctx_heap s 5) = 1"
    by (auto simp: io_eval Let_def cancelEvent_def cancelEvent_at_def trigger_at_def triggerEvent_def dec_pending_def
        resetEventContext_def)
  moreover from this have "stale (ctx_heap s 5) 5"
    by (simp add: stale_def reported_def real_events_def ep_normalise_def event_bits)
  ultimately show ?thesis
    using s io_ready_faults_iff_stale [OF s(2), of 5 5 0] by auto
qed

text \<open>
  Called with one of the two events, \<^verbatim>\<open>addEvent\<close> never faults, and
  \<^verbatim>\<open>delEvent\<close>, \<^verbatim>\<open>cancelEvent\<close> and \<^verbatim>\<open>cancelAll\<close> fault exactly on a negative descriptor,
  which passes their bound check and is read outside the vector.
\<close>

lemma io_negative_fd:
  assumes "io_inv s" and "event \<in> {READ, WRITE}"
  shows "((\<exists>e. addEvent s fd event cb cur rt = Inl e) \<longleftrightarrow> False) \<and>
    (delEvent s fd event rt = Inl Out_Of_Bounds \<longleftrightarrow> fd < 0) \<and>
    (cancelEvent s fd event rt = Inl Out_Of_Bounds \<longleftrightarrow> fd < 0) \<and>
    (cancelAll s fd rt = Inl Out_Of_Bounds \<longleftrightarrow> fd < 0)"
proof (cases "fd < 0")
  case True
  then show ?thesis
    by (simp add: addEvent_def delEvent_def delEvent_at_def cancelEvent_def cancelEvent_at_def cancelAll_def cancelAll_at_def lookup_ctx_def)
next
  case False
  then have fd: "0 \<le> fd" by simp
  from addEvent_ok [OF assms fd, of cb cur rt] delEvent_ok [OF assms fd, of rt]
    cancelEvent_ok [OF assms fd, of rt] cancelAll_ok [OF assms(1) fd, of rt] False
  show ?thesis by auto
qed



section \<open>The unchecked resize\<close>

text \<open>
  Property C29. \<^verbatim>\<open>addEvent\<close> does not look at the vector again after it has traded the read lock
  for the write lock. When two threads have both found the vector too short, and the one with
  the smaller descriptor resizes last, the vector shrinks: the event the other thread registered
  is still counted as pending, but its context has left the vector, so that deleting or
  cancelling the event finds nothing and reports failure.
\<close>

theorem io_resize_race_loses_context:
  assumes "io_inv s" and "event \<in> {READ, WRITE}"
    and "int (length (m_fdContexts s)) \<le> fd2" and "fd2 * 3 div 2 \<le> fd1"
    and "addEvent s fd1 event cb cur 0 = Inr (s1, True)"
    and "addEvent_resize s1 fd2 = Inr (s2, b)"
  shows "fc_events (ctx_heap s1 (m_fdContexts s1 ! nat fd1)) AND event \<noteq> 0 \<and>
    m_pendingEventCount s2 = m_pendingEventCount s + 1 \<and>
    delEvent s2 fd1 event rt = Inr (s2, False) \<and> cancelEvent s2 fd1 event rt = Inr (s2, False) \<and>
    cancelAll s2 fd1 rt = Inr (s2, False)"
proof -
  have len: "32 \<le> length (m_fdContexts s)" using assms(1) by (simp add: io_inv_def)
  with assms(3,4) have fd: "0 \<le> fd1" "0 \<le> fd2" by linarith+
  obtain a where a: "a = m_fdContexts s1 ! nat fd1" "fc_events (ctx_heap s1 a) AND event \<noteq> 0"
    "m_pendingEventCount s1 = m_pendingEventCount s + 1"
    by (rule addEvent_added [OF assms(1,2) fd(1) assms(5)])
  have s2: "s2 = contextResize (nat (fd2 * 3 div 2)) s1"
    using assms(6) by (auto simp: addEvent_resize_def Let_def split: if_splits)
  have n: "m_pendingEventCount s2 = m_pendingEventCount s1" by (simp add: s2 contextResize_def Let_def)
  have "fd1 < int (length (m_fdContexts s1))"
    using addEvent_ok [OF assms(1,2) fd(1), of cb cur 0] assms(5) fd(1) by auto
  then have "int (length (m_fdContexts s2)) \<le> fd1"
    using assms(4) fd by (simp add: s2 contextResize_def Let_def)
  then have "lookup_ctx s2 fd1 = Inr None" by (simp add: lookup_ctx_def)
  with a n show ?thesis by (simp add: delEvent_def delEvent_at_def cancelEvent_def cancelEvent_at_def cancelAll_def cancelAll_at_def)
qed

lemma io_resize_race_loses_context_witness:
  "\<exists>s1 s2. addEvent (init_IOManager 4 0) 100 READ None 7 0 = Inr (s1, True) \<and>
    m_pendingEventCount s2 = 1 \<and> length (m_fdContexts s2) = 60 \<and> cancelEvent s2 100 READ 0 = Inr (s2, False)"
proof -
  have len: "length (m_fdContexts (init_IOManager 4 0)) = 32" "m_pendingEventCount (init_IOManager 4 0) = 0"
    by (simp_all add: init_IOManager_def contextResize_def)
  obtain s1 where s1: "addEvent (init_IOManager 4 0) 100 READ None 7 0 = Inr (s1, True)"
    by (simp add: addEvent_def lookup_ctx_def len addEvent_resize_def)
      (simp add: io_eval Let_def nth_append)
  have "length (m_fdContexts s1) > 100"
    using addEvent_ok [OF init_io_inv, of READ 100 4 0 None 7 0] s1 by auto
  then obtain b where s2: "addEvent_resize s1 40 = Inr (contextResize 60 s1, b)"
    "length (m_fdContexts (contextResize 60 s1)) = 60"
    by (simp add: addEvent_resize_def contextResize_def Let_def)
  from io_resize_race_loses_context [OF init_io_inv _ _ _ s1 s2(1)] len s1 s2(2)
  show ?thesis by (intro exI [of _ s1] exI [of _ "contextResize 60 s1"]) simp
qed

section \<open>Stopping\<close>

lemma of_nat_eq_0_iff_dvd64: "n < 2 ^ 64 \<Longrightarrow> (of_nat n = (0 :: u64)) \<longleftrightarrow> n = 0"
proof -
  assume n: "n < 2 ^ 64"
  have "unat (of_nat n :: u64) = n" using n by (simp add: unat_of_nat)
  moreover have "(of_nat n = (0 :: u64)) \<longleftrightarrow> unat (of_nat n :: u64) = 0"
    by (rule unsigned_eq_0_iff [symmetric])
  ultimately show ?thesis by simp
qed

lemma no_next_timer:
  assumes "\<forall>a \<in> set (m_timers t). m_next (timer_at t a) - now < 2 ^ 63"
  shows "snd (getNextTimer t now) = NOT 0 \<longleftrightarrow> m_timers t = []"
proof (cases "m_timers t")
  case (Cons x xs)
  let ?d = "(m_next (timer_at t x) - now) div 1000000"
  have "(word_of_int ?d :: u64) \<noteq> NOT 0" if "now < m_next (timer_at t x)"
  proof
    assume "(word_of_int ?d :: u64) = NOT 0"
    then have "uint (word_of_int ?d :: u64) = uint (NOT 0 :: u64)" by simp
    then have "?d mod 2 ^ 64 = 2 ^ 64 - 1"
      by (simp add: uint_word_of_int unsigned_minus_1_eq_mask mask_eq_exp_minus_1)
    moreover have "0 \<le> ?d" "?d < 2 ^ 63" using that assms Cons by auto
    ultimately show False by simp
  qed
  then show ?thesis using Cons by (simp add: getNextTimer_def Let_def timer_at_def)
qed (simp add: getNextTimer_def)

text \<open>
  The idle loop leaves only when nothing is left to do: \<^verbatim>\<open>stopping()\<close> holds
  exactly when the timer set is empty, no event is registered (fewer than \<open>2 ^ 64\<close> being
  possible), the task queue is empty, no thread is running a task and \<^verbatim>\<open>stop()\<close> was called.
  Asking does not change anything but the timer manager's tickled flag.
\<close>

theorem io_stopping_iff_quiescent:
  assumes "io_inv s" and "registered s < 2 ^ 64"
    and "\<forall>a \<in> set (m_timers (io_timers s)). m_next (timer_at (io_timers s) a) - now < 2 ^ 63"
  shows "(snd (io_stopping s now) \<longleftrightarrow> m_timers (io_timers s) = [] \<and> registered s = 0 \<and>
      m_stopping (io_sched s) \<and> m_tasks (io_sched s) = [] \<and> m_activeThreadCount (io_sched s) = 0) \<and>
    fst (io_stopping s now) = s\<lparr>io_timers := (io_timers s)\<lparr>m_tickled := False\<rparr>\<rparr>"
proof (rule conjI)
  have z: "(of_nat (registered s) = (0 :: u64)) \<longleftrightarrow> registered s = 0"
    using assms(2) by (simp add: of_nat_eq_0_iff_dvd64)
  note no_next_timer [OF assms(3)]
  with z assms(1) show "snd (io_stopping s now) \<longleftrightarrow> m_timers (io_timers s) = [] \<and> registered s = 0 \<and>
      m_stopping (io_sched s) \<and> m_tasks (io_sched s) = [] \<and> m_activeThreadCount (io_sched s) = 0"
    by (auto simp: io_stopping_eq stopping_def io_inv_def split: prod.splits)
  show "fst (io_stopping s now) = s\<lparr>io_timers := (io_timers s)\<lparr>m_tickled := False\<rparr>\<rparr>"
    by (simp add: io_stopping_eq getNextTimer_def Let_def)
qed

lemma io_stopping_iff_quiescent_witness:
  "snd (io_stopping ((init_IOManager 4 0)\<lparr>io_sched := init_Scheduler\<lparr>m_stopping := True\<rparr>\<rparr>) 0)"
proof -
  let ?s = "(init_IOManager 4 0)\<lparr>io_sched := init_Scheduler\<lparr>m_stopping := True\<rparr>\<rparr>"
  have 1: "io_inv ?s" using init_io_inv [of 4 0] by (simp add: io_inv_def registered_def)
  have 2: "registered ?s = 0" "m_timers (io_timers ?s) = []"
    by (simp_all add: registered_def init_IOManager_def contextResize_def new_FdContext_def evcount_def
        TimerManager_ctor_def)
  have 3: "m_tasks init_Scheduler = []" "m_activeThreadCount init_Scheduler = 0"
    by (simp_all add: init_Scheduler_def)
  from io_stopping_iff_quiescent [OF 1, of 0] 2 3 show ?thesis by simp
qed

end
