(* ===== verification/Fd_Manager.thy ===== *)
theory Fd_Manager
  imports Co_Prelude
begin

text \<open>
  \<^verbatim>\<open>FdCtx\<close> and \<^verbatim>\<open>FdManager\<close> (include/mycoroutine/fd_manager.h, src/fd_manager.cpp): the
  library's record of a descriptor and the table of these records. The system calls \<^verbatim>\<open>fstat\<close>
  and \<^verbatim>\<open>fcntl_f\<close> are not code of the repository: their results are arguments, and the
  \<^verbatim>\<open>F_SETFL\<close> calls made are recorded.
\<close>

unbundle bit_operations_syntax

section \<open>FdCtx\<close>

record FdCtx =
  m_isInit :: bool
  m_isSocket :: bool
  m_sysNonblock :: bool
  m_userNonblock :: bool
  m_isClosed :: bool
  m_fd :: int
  m_recvTimeout :: u64
  m_sendTimeout :: u64

definition O_NONBLOCK :: u32 where "O_NONBLOCK = 0x800"
definition SO_RCVTIMEO :: int where "SO_RCVTIMEO = 20"
definition SO_SNDTIMEO :: int where "SO_SNDTIMEO = 21"

text \<open>
  \<^verbatim>\<open>FdCtx::init\<close>. \<open>st\<close> is what \<^verbatim>\<open>fstat\<close> said: \<open>None\<close> for failure, else whether the
  descriptor is a socket; \<open>flags\<close> is the result of \<^verbatim>\<open>F_GETFL\<close>. Returned: the context, the
  argument of the \<^verbatim>\<open>F_SETFL\<close> call if one is made, and the result.
\<close>

definition FdCtx_init :: "bool option \<Rightarrow> u32 \<Rightarrow> FdCtx \<Rightarrow> FdCtx \<times> u32 option \<times> bool" where
  "FdCtx_init st flags c =
     (if m_isInit c then (c, None, True)
      else let c1 = (case st of
                       None \<Rightarrow> c\<lparr>m_isInit := False, m_isSocket := False\<rparr>
                     | Some sock \<Rightarrow> c\<lparr>m_isInit := True, m_isSocket := sock\<rparr>);
               call = (if m_isSocket c1 \<and> flags AND O_NONBLOCK = 0
                       then Some (flags OR O_NONBLOCK) else None);
               c2 = (if m_isSocket c1 then c1\<lparr>m_sysNonblock := True\<rparr>
                     else c1\<lparr>m_sysNonblock := False\<rparr>)
           in (c2, call, m_isInit c2))"

definition FdCtx_ctor :: "bool option \<Rightarrow> u32 \<Rightarrow> int \<Rightarrow> FdCtx \<times> u32 option" where
  "FdCtx_ctor st flags fd =
     (case FdCtx_init st flags
        \<lparr>m_isInit = False, m_isSocket = False, m_sysNonblock = False, m_userNonblock = False,
         m_isClosed = False, m_fd = fd, m_recvTimeout = - 1, m_sendTimeout = - 1\<rparr> of
        (c, call, _) \<Rightarrow> (c, call))"

definition setTimeout :: "int \<Rightarrow> u64 \<Rightarrow> FdCtx \<Rightarrow> FdCtx" where
  "setTimeout type v c =
     (if type = SO_RCVTIMEO then c\<lparr>m_recvTimeout := v\<rparr> else c\<lparr>m_sendTimeout := v\<rparr>)"

definition getTimeout :: "int \<Rightarrow> FdCtx \<Rightarrow> u64" where
  "getTimeout type c = (if type = SO_RCVTIMEO then m_recvTimeout c else m_sendTimeout c)"

section \<open>FdManager\<close>

text \<open>
  The contexts are shared objects, by address in \<open>fd_ctxs\<close>; \<open>m_datas\<close> is the vector of
  shared pointers.
\<close>

record FdManager =
  fd_ctxs :: "nat \<Rightarrow> FdCtx"
  fd_count :: nat
  m_datas :: "nat option list"
  setfl_calls :: "(int \<times> u32) list"

definition FdManager_ctor :: FdManager where
  "FdManager_ctor = \<lparr>fd_ctxs = (\<lambda>_. fst (FdCtx_ctor None 0 0)), fd_count = 0,
     m_datas = replicate 64 None, setfl_calls = []\<rparr>"

text \<open>\<^verbatim>\<open>m_datas.size() <= (size_t)fd\<close>: a negative descriptor becomes a huge index.\<close>

definition too_short :: "FdManager \<Rightarrow> int \<Rightarrow> bool" where
  "too_short s fd \<longleftrightarrow> fd < 0 \<or> length (m_datas s) \<le> nat fd"

text \<open>
  \<^verbatim>\<open>get\<close> in its two locked pieces. Under the read lock it returns (\<open>Some\<close>) or goes on to
  create (\<open>None\<close>).
\<close>

definition get_lookup :: "FdManager \<Rightarrow> int \<Rightarrow> bool \<Rightarrow> nat option option" where
  "get_lookup s fd auto_create =
     (if fd = -1 then Some None
      else if too_short s fd then (if \<not> auto_create then Some None else None)
      else if m_datas s ! nat fd \<noteq> None \<or> \<not> auto_create then Some (m_datas s ! nat fd)
      else None)"

text \<open>\<^verbatim>\<open>resize\<close> on the vector: cut, or append null pointers.\<close>

definition resize :: "nat \<Rightarrow> 'a option list \<Rightarrow> 'a option list" where
  "resize n xs = take n xs @ replicate (n - length xs) None"

text \<open>
  Under the write lock. \<^verbatim>\<open>resize(fd * 1.5)\<close> of a negative descriptor, an undefined conversion,
  is a fault.
\<close>

definition get_create :: "bool option \<Rightarrow> u32 \<Rightarrow> FdManager \<Rightarrow> int \<Rightarrow> (FdManager \<times> nat) result" where
  "get_create st flags s fd =
     (if fd < 0 then Inl Out_Of_Bounds
      else let s1 = (if too_short s fd then s\<lparr>m_datas := resize (nat (fd * 3 div 2)) (m_datas s)\<rparr> else s)
           in if length (m_datas s1) \<le> nat fd then Inl Out_Of_Bounds
              else case FdCtx_ctor st flags fd of
                     (c, call) \<Rightarrow>
                       let a = fd_count s1
                       in Inr (s1\<lparr>fd_ctxs := (fd_ctxs s1)(a := c), fd_count := Suc a,
                                  m_datas := (m_datas s1)[nat fd := Some a],
                                  setfl_calls := setfl_calls s1 @
                                    (case call of None \<Rightarrow> [] | Some f \<Rightarrow> [(fd, f)])\<rparr>, a))"

definition FdManager_get ::
    "bool option \<Rightarrow> u32 \<Rightarrow> FdManager \<Rightarrow> int \<Rightarrow> bool \<Rightarrow> (FdManager \<times> nat option) result" where
  "FdManager_get st flags s fd auto_create =
     (case get_lookup s fd auto_create of
        Some r \<Rightarrow> Inr (s, r)
      | None \<Rightarrow> map_sum id (map_prod id Some) (get_create st flags s fd))"

definition put_fdctx :: "nat \<Rightarrow> FdCtx \<Rightarrow> FdManager \<Rightarrow> FdManager" where
  "put_fdctx a c s = s\<lparr>fd_ctxs := (fd_ctxs s)(a := c)\<rparr>"

definition FdManager_del :: "FdManager \<Rightarrow> int \<Rightarrow> FdManager" where
  "FdManager_del s fd =
     (if too_short s fd then s
      else let s1 = (case m_datas s ! nat fd of
                       None \<Rightarrow> s
                     | Some a \<Rightarrow> put_fdctx a (fd_ctxs s a\<lparr>m_isClosed := True\<rparr>) s)
           in s1\<lparr>m_datas := (m_datas s1)[nat fd := None]\<rparr>)"

section \<open>The invariant\<close>

text \<open>
  The vector never shrinks below its first size, an entry is the context of its descriptor, no
  two entries share a context, and the library's own non-blocking mark is set exactly for
  sockets.
\<close>

definition fd_inv :: "FdManager \<Rightarrow> bool" where
  "fd_inv s \<longleftrightarrow> 64 \<le> length (m_datas s) \<and>
     (\<forall>i < length (m_datas s). \<forall>a. m_datas s ! i = Some a \<longrightarrow>
        a < fd_count s \<and> m_fd (fd_ctxs s a) = int i \<and> m_sysNonblock (fd_ctxs s a) = m_isSocket (fd_ctxs s a))"

lemma ctor_simps [simp]:
  "m_fd (fst (FdCtx_ctor st flags fd)) = fd"
  "m_isInit (fst (FdCtx_ctor st flags fd)) = (st \<noteq> None)"
  "m_isSocket (fst (FdCtx_ctor st flags fd)) = (st = Some True)"
  "m_sysNonblock (fst (FdCtx_ctor st flags fd)) = (st = Some True)"
  "\<not> m_userNonblock (fst (FdCtx_ctor st flags fd))" "\<not> m_isClosed (fst (FdCtx_ctor st flags fd))"
  "m_recvTimeout (fst (FdCtx_ctor st flags fd)) = - 1" "m_sendTimeout (fst (FdCtx_ctor st flags fd)) = - 1"
  by (auto simp: FdCtx_ctor_def FdCtx_init_def Let_def split: option.splits)

lemma ctor_call:
  "snd (FdCtx_ctor st flags fd) =
    (if st = Some True \<and> flags AND O_NONBLOCK = 0 then Some (flags OR O_NONBLOCK) else None)"
  by (auto simp: FdCtx_ctor_def FdCtx_init_def Let_def split: option.splits)

lemma fd_inv_ctor: "fd_inv FdManager_ctor"
  by (simp add: fd_inv_def FdManager_ctor_def)

lemma resize_longer:
  "length xs \<le> n \<Longrightarrow> length (resize n xs) = n"
  "length xs \<le> n \<Longrightarrow> i < n \<Longrightarrow> resize n xs ! i = (if i < length xs then xs ! i else None)"
  by (simp_all add: resize_def nth_append)

text \<open>What creation does when the vector has to grow and when it has not.\<close>

lemma get_create_ok:
  assumes inv: "fd_inv s" and fd: "0 \<le> fd"
  obtains s1 where "get_create st flags s fd = Inr (s1, fd_count s)" "fd_inv s1"
    "length (m_datas s) \<le> length (m_datas s1)" "nat fd < length (m_datas s1)"
    "m_datas s1 ! nat fd = Some (fd_count s)" "fd_count s1 = Suc (fd_count s)"
    "fd_ctxs s1 = (fd_ctxs s)(fd_count s := fst (FdCtx_ctor st flags fd))"
    "\<forall>i < length (m_datas s1). i \<noteq> nat fd \<longrightarrow>
      m_datas s1 ! i = (if i < length (m_datas s) then m_datas s ! i else None)"
    "setfl_calls s1 = setfl_calls s @
      (case snd (FdCtx_ctor st flags fd) of None \<Rightarrow> [] | Some f \<Rightarrow> [(fd, f)])"
proof -
  define xs where "xs = (if too_short s fd then resize (nat (fd * 3 div 2)) (m_datas s) else m_datas s)"
  have len: "64 \<le> length (m_datas s)" using inv by (simp add: fd_inv_def)
  have sz: "length (m_datas s) \<le> nat (fd * 3 div 2)" "nat fd < nat (fd * 3 div 2)" if "too_short s fd"
    using that len fd by (simp_all add: too_short_def) linarith+
  have xs: "length (m_datas s) \<le> length xs" "nat fd < length xs"
    "\<And>i. i < length xs \<Longrightarrow> xs ! i = (if i < length (m_datas s) then m_datas s ! i else None)"
    using sz fd by (auto simp: xs_def resize_longer too_short_def)
  let ?c = "fst (FdCtx_ctor st flags fd)" and ?a = "fd_count s"
  let ?s1 = "s\<lparr>fd_ctxs := (fd_ctxs s)(?a := ?c), fd_count := Suc ?a, m_datas := xs[nat fd := Some ?a],
    setfl_calls := setfl_calls s @ (case snd (FdCtx_ctor st flags fd) of None \<Rightarrow> [] | Some f \<Rightarrow> [(fd, f)])\<rparr>"
  have r: "get_create st flags s fd = Inr (?s1, ?a)"
    using fd xs(2) by (cases "too_short s fd") (simp_all add: get_create_def Let_def xs_def case_prod_beta)
  have i: "fd_inv ?s1" unfolding fd_inv_def
  proof (intro conjI allI impI)
    fix i a assume "i < length (m_datas ?s1)" "m_datas ?s1 ! i = Some a"
    then have "i = nat fd \<and> a = ?a \<or> (i < length (m_datas s) \<and> m_datas s ! i = Some a)"
      using xs by (auto simp: nth_list_update split: if_splits)
    then show "a < fd_count ?s1" "m_fd (fd_ctxs ?s1 a) = int i"
      "m_sysNonblock (fd_ctxs ?s1 a) = m_isSocket (fd_ctxs ?s1 a)"
      using inv fd by (auto simp: fd_inv_def)
  qed (use len xs in simp)
  show ?thesis by (rule that [OF r i]) (use xs in auto)
qed

section \<open>The table as its users see it\<close>

lemma get_lookup_found:
  "0 \<le> fd \<Longrightarrow> nat fd < length (m_datas s) \<Longrightarrow> m_datas s ! nat fd = Some a \<Longrightarrow>
    get_lookup s fd auto = Some (Some a)"
  by (simp add: get_lookup_def too_short_def)

lemma FdManager_get_inv:
  assumes inv: "fd_inv s" and fd: "- 1 \<le> fd"
  shows "\<exists>s1 r. FdManager_get st flags s fd auto = Inr (s1, r) \<and> fd_inv s1"
proof (cases "get_lookup s fd auto")
  case None
  then have "0 \<le> fd" using fd by (simp add: get_lookup_def split: if_splits)
  from get_create_ok [OF inv this] obtain s1 where
    "get_create st flags s fd = Inr (s1, fd_count s)" "fd_inv s1" by blast
  with None show ?thesis by (simp add: FdManager_get_def)
qed (use inv in \<open>simp add: FdManager_get_def\<close>)

lemma fd_inv_del: "fd_inv s \<Longrightarrow> fd_inv (FdManager_del s fd)"
  by (auto simp: fd_inv_def FdManager_del_def too_short_def Let_def put_fdctx_def nth_list_update
      split: option.splits if_splits)

lemma fd_inv_settings:
  "fd_inv s \<Longrightarrow> m_fd c = m_fd (fd_ctxs s a) \<Longrightarrow> m_isSocket c = m_isSocket (fd_ctxs s a) \<Longrightarrow>
    m_sysNonblock c = m_sysNonblock (fd_ctxs s a) \<Longrightarrow> fd_inv (put_fdctx a c s)"
  by (simp add: fd_inv_def put_fdctx_def)

lemma setTimeout_frame [simp]:
  "m_fd (setTimeout ty v c) = m_fd c" "m_isSocket (setTimeout ty v c) = m_isSocket c"
  "m_sysNonblock (setTimeout ty v c) = m_sysNonblock c" "m_isClosed (setTimeout ty v c) = m_isClosed c"
  "m_userNonblock (setTimeout ty v c) = m_userNonblock c"
  by (simp_all add: setTimeout_def)

text \<open>
  A context lives from its creation to its deletion: \<^verbatim>\<open>get(fd, true)\<close> on a
  descriptor that is not negative returns a context of that descriptor, marked initialised and
  as a socket as \<^verbatim>\<open>fstat\<close> reported and, for a socket, made non-blocking in the kernel; every
  later \<^verbatim>\<open>get\<close> returns the same object, whatever it is asked; \<^verbatim>\<open>del\<close> marks that object
  closed for those who still hold it, empties the entry, and leaves all others alone.
\<close>

theorem fd_context_lifetime:
  assumes "fd_inv s" and "0 \<le> fd" and "get_lookup s fd True = None"
    and "FdManager_get st flags s fd True = Inr (s1, r)"
  shows "\<exists>a. r = Some a \<and> fd_inv s1 \<and> m_fd (fd_ctxs s1 a) = fd \<and>
    m_isInit (fd_ctxs s1 a) = (st \<noteq> None) \<and> m_isSocket (fd_ctxs s1 a) = (st = Some True) \<and>
    setfl_calls s1 = setfl_calls s @
      (if st = Some True \<and> flags AND O_NONBLOCK = 0 then [(fd, flags OR O_NONBLOCK)] else []) \<and>
    (\<forall>st' flags' auto. FdManager_get st' flags' s1 fd auto = Inr (s1, Some a)) \<and>
    m_isClosed (fd_ctxs (FdManager_del s1 fd) a) \<and>
    get_lookup (FdManager_del s1 fd) fd False = Some None \<and>
    (\<forall>fd'. fd' \<noteq> fd \<longrightarrow> get_lookup (FdManager_del s1 fd) fd' False = get_lookup s fd' False)"
proof -
  obtain s' where s': "get_create st flags s fd = Inr (s', fd_count s)" "fd_inv s'"
    "length (m_datas s) \<le> length (m_datas s')" "nat fd < length (m_datas s')"
    "m_datas s' ! nat fd = Some (fd_count s)" "fd_count s' = Suc (fd_count s)"
    "fd_ctxs s' = (fd_ctxs s)(fd_count s := fst (FdCtx_ctor st flags fd))"
    "\<forall>i < length (m_datas s'). i \<noteq> nat fd \<longrightarrow>
      m_datas s' ! i = (if i < length (m_datas s) then m_datas s ! i else None)"
    "setfl_calls s' = setfl_calls s @
      (case snd (FdCtx_ctor st flags fd) of None \<Rightarrow> [] | Some f \<Rightarrow> [(fd, f)])"
    by (rule get_create_ok [OF assms(1,2)])
  have r: "s1 = s'" "r = Some (fd_count s)"
    using assms(3,4) s'(1) by (auto simp: FdManager_get_def)

  have "get_lookup (FdManager_del s' fd) fd' False = get_lookup s fd' False" if "fd' \<noteq> fd" for fd'
  proof -
    have "nat fd' \<noteq> nat fd" if "0 \<le> fd'" using that \<open>fd' \<noteq> fd\<close> assms(2) by simp
    with s'(3,4,5,8) assms(2) show ?thesis
      by (auto simp: get_lookup_def FdManager_del_def too_short_def Let_def put_fdctx_def)
  qed
  moreover have "get_lookup (FdManager_del s' fd) fd False = Some None"
    "m_isClosed (fd_ctxs (FdManager_del s' fd) (fd_count s))"
    using s'(4,5) assms(2)
    by (simp_all add: get_lookup_def FdManager_del_def too_short_def Let_def put_fdctx_def)
  moreover have "FdManager_get st' flags' s' fd auto = Inr (s', Some (fd_count s))" for st' flags' auto
    by (simp add: FdManager_get_def get_lookup_found [OF assms(2) s'(4,5)])
  ultimately show ?thesis
    unfolding r using s'(2,7,9) by (simp add: ctor_call)
qed

lemma fd_context_lifetime_witness:
  "\<exists>s1 a. FdManager_get (Some True) 2 FdManager_ctor 70 True = Inr (s1, Some a) \<and>
    length (m_datas s1) = 105 \<and> setfl_calls s1 = [(70, 0x802)] \<and> m_isClosed (fd_ctxs (FdManager_del s1 70) a)"
proof -
  have l: "get_lookup FdManager_ctor 70 True = None"
    by (simp add: get_lookup_def too_short_def FdManager_ctor_def)
  obtain s1 r where s1: "FdManager_get (Some True) 2 FdManager_ctor 70 True = Inr (s1, r)"
    "length (m_datas s1) = 105"
    using l by (simp add: FdManager_get_def get_create_def too_short_def FdManager_ctor_def Let_def
        resize_def case_prod_beta)
  from fd_context_lifetime [OF fd_inv_ctor _ l s1(1)] s1 show ?thesis
    by (auto simp: FdManager_ctor_def O_NONBLOCK_def)
qed

text \<open>
  The second check under the write lock looks at the size of the vector and not
  at the entry. When two threads ask for a descriptor without a context and both find none,
  the second one replaces the first one's context: they end up with different objects, the one
  returned to the first is no longer in the table, and whatever is set on it in between (\<open>c\<close>: a
  timeout, the user's non-blocking mark) is not seen by any later \<^verbatim>\<open>get\<close>, nor does \<^verbatim>\<open>del\<close>
  mark it closed.
\<close>

theorem fd_create_race:
  assumes "fd_inv s" and "0 \<le> fd" and "get_lookup s fd True = None"
    and "get_create st1 flags1 s fd = Inr (s1, a1)"
    and "\<not> m_isClosed c" and "get_create st2 flags2 (put_fdctx a1 c s1) fd = Inr (s2, a2)"
  shows "a1 \<noteq> a2 \<and> fd_ctxs s2 a1 = c \<and> get_lookup s2 fd auto = Some (Some a2) \<and>
    m_recvTimeout (fd_ctxs s2 a2) = - 1 \<and> m_sendTimeout (fd_ctxs s2 a2) = - 1 \<and>
    \<not> m_userNonblock (fd_ctxs s2 a2) \<and> \<not> m_isClosed (fd_ctxs (FdManager_del s2 fd) a1)"
proof -
  obtain s1' where s1: "get_create st1 flags1 s fd = Inr (s1', fd_count s)" "fd_inv s1'"
    "fd_count s1' = Suc (fd_count s)"
    by (rule get_create_ok [OF assms(1,2)])
  then have e: "s1' = s1" "a1 = fd_count s" using assms(4) by simp_all
  let ?s = "put_fdctx a1 c s1"
  obtain t where t: "get_create st2 flags2 s1 fd = Inr (t, fd_count s1)" "fd_inv t"
    "nat fd < length (m_datas t)" "m_datas t ! nat fd = Some (fd_count s1)"
    "fd_ctxs t = (fd_ctxs s1)(fd_count s1 := fst (FdCtx_ctor st2 flags2 fd))"
    by (rule get_create_ok [OF s1(2) [unfolded e] assms(2)])
  have s2: "a2 = fd_count s1" "m_datas s2 = m_datas t"
    "fd_ctxs s2 = (fd_ctxs s1)(a1 := c, fd_count s1 := fst (FdCtx_ctor st2 flags2 fd))"
    using assms(6) t(1)
    by (auto simp: get_create_def put_fdctx_def too_short_def Let_def case_prod_beta split: if_splits)
  have ne: "a1 \<noteq> a2" using s1(3) e s2(1) by simp
  with s2 t(3,4) assms(2,5) show ?thesis
    by (simp add: get_lookup_def too_short_def FdManager_del_def Let_def put_fdctx_def)
qed

lemma fd_create_race_witness:
  "\<exists>s1 s2. get_create (Some True) 0 FdManager_ctor 5 = Inr (s1, 0) \<and>
    get_create (Some True) 0x800 (put_fdctx 0 (setTimeout SO_RCVTIMEO 250 (fd_ctxs s1 0)) s1) 5 = Inr (s2, 1) \<and>
    m_recvTimeout (fd_ctxs s2 0) = 250 \<and> get_lookup s2 5 False = Some (Some 1) \<and>
    m_recvTimeout (fd_ctxs s2 1) = - 1"
proof -
  have l: "get_lookup FdManager_ctor 5 True = None"
    by (simp add: get_lookup_def too_short_def FdManager_ctor_def)
  obtain s1 where s1: "get_create (Some True) 0 FdManager_ctor 5 = Inr (s1, 0)"
    "\<not> m_isClosed (fd_ctxs s1 0)" "64 \<le> length (m_datas s1)" "fd_count s1 = 1"
    by (simp add: get_create_def too_short_def FdManager_ctor_def Let_def case_prod_beta)
  let ?c = "setTimeout SO_RCVTIMEO 250 (fd_ctxs s1 0)"
  obtain s2 where s2: "get_create (Some True) 0x800 (put_fdctx 0 ?c s1) 5 = Inr (s2, 1)"
    using s1(3,4) by (simp add: get_create_def too_short_def put_fdctx_def Let_def case_prod_beta)
  from fd_create_race [OF fd_inv_ctor _ l s1(1) _ s2] s1(2) have
    "fd_ctxs s2 0 = ?c \<and> get_lookup s2 5 False = Some (Some 1) \<and> m_recvTimeout (fd_ctxs s2 1) = - 1"
    by simp
  with s1(1) s2 show ?thesis by (intro exI [of _ s1] exI [of _ s2]) (simp add: setTimeout_def)
qed

section \<open>The manager as a table\<close>

text \<open>
  Runs of operations: looking a context up, deleting it, and what its users set on it. \<^verbatim>\<open>get\<close>
  has two locked sections. \<open>FdGet\<close> is a call that nobody interrupts; \<open>FdCreate\<close> is the second section
  of a call whose first section, at any time before, found nothing. The first section changes
  nothing and needs no operation. The specification is a map from descriptors to contexts.
\<close>

datatype fd_op =
    FdGet "bool option" u32 int bool
  | FdCreate "bool option" u32 int
  | FdDel int
  | FdTimeout int int u64
  | FdUserNonblock int bool

definition fd_update :: "int \<Rightarrow> (FdCtx \<Rightarrow> FdCtx) \<Rightarrow> FdManager \<Rightarrow> FdManager" where
  "fd_update fd f s =
     (case get_lookup s fd False of Some (Some a) \<Rightarrow> put_fdctx a (f (fd_ctxs s a)) s | _ \<Rightarrow> s)"

definition user_nonblock :: "bool \<Rightarrow> FdCtx \<Rightarrow> FdCtx" where
  "user_nonblock b c = c\<lparr>m_userNonblock := b\<rparr>"

fun fd_step :: "FdManager \<Rightarrow> fd_op \<Rightarrow> FdManager result" where
  "fd_step s (FdGet st flags fd auto_create) = map_sum id fst (FdManager_get st flags s fd auto_create)"
| "fd_step s (FdCreate st flags fd) = map_sum id fst (get_create st flags s fd)"
| "fd_step s (FdDel fd) = Inr (FdManager_del s fd)"
| "fd_step s (FdTimeout fd type v) = Inr (fd_update fd (setTimeout type v) s)"
| "fd_step s (FdUserNonblock fd b) = Inr (fd_update fd (user_nonblock b) s)"

fun fd_op_ok :: "FdManager \<Rightarrow> fd_op \<Rightarrow> bool" where
  "fd_op_ok s (FdGet st flags fd auto_create) = (0 \<le> fd)"
| "fd_op_ok s (FdCreate st flags fd) = (0 \<le> fd)"
| "fd_op_ok s (FdDel fd) = (0 \<le> fd)"
| "fd_op_ok s (FdTimeout fd type v) = (0 \<le> fd)"
| "fd_op_ok s (FdUserNonblock fd b) = (0 \<le> fd)"

fun spec_fd :: "fd_op \<Rightarrow> (int \<Rightarrow> FdCtx option) \<Rightarrow> (int \<Rightarrow> FdCtx option)" where
  "spec_fd (FdGet st flags fd auto_create) t =
     (if t fd = None \<and> auto_create then t(fd \<mapsto> fst (FdCtx_ctor st flags fd)) else t)"
| "spec_fd (FdCreate st flags fd) t = t(fd \<mapsto> fst (FdCtx_ctor st flags fd))"
| "spec_fd (FdDel fd) t = t(fd := None)"
| "spec_fd (FdTimeout fd type v) t = t(fd := map_option (setTimeout type v) (t fd))"
| "spec_fd (FdUserNonblock fd b) t = t(fd := map_option (user_nonblock b) (t fd))"

definition fd_entry :: "FdManager \<Rightarrow> int \<Rightarrow> nat option" where
  "fd_entry s fd = (if 0 \<le> fd \<and> nat fd < length (m_datas s) then m_datas s ! nat fd else None)"

definition fd_table :: "FdManager \<Rightarrow> int \<Rightarrow> FdCtx option" where
  "fd_table s fd = map_option (fd_ctxs s) (fd_entry s fd)"

text \<open>
  A creating section that finds the entry still empty: no other \<^verbatim>\<open>get\<close> of the descriptor has
  created a context since the lookup.
\<close>

fun unraced :: "FdManager \<Rightarrow> fd_op \<Rightarrow> bool" where
  "unraced s (FdCreate st flags fd) = (get_lookup s fd False = Some None)"
| "unraced s _ = True"

text \<open>
  A context that is closed has left the table; when no creating section is raced (\<open>strict\<close>) one that
  has left the table is closed.
\<close>

definition closed_ok :: "bool \<Rightarrow> FdManager \<Rightarrow> bool" where
  "closed_ok strict s \<longleftrightarrow>
     (\<forall>a < fd_count s. (m_isClosed (fd_ctxs s a) \<longrightarrow> (\<forall>fd. fd_entry s fd \<noteq> Some a)) \<and>
        (strict \<longrightarrow> (\<forall>fd. fd_entry s fd \<noteq> Some a) \<longrightarrow> m_isClosed (fd_ctxs s a)))"

lemma lookup_entry: "0 \<le> fd \<Longrightarrow> get_lookup s fd auto =
    (if fd_entry s fd = None \<and> auto then None else Some (fd_entry s fd))"
  by (auto simp: get_lookup_def fd_entry_def too_short_def)

lemma fd_entryD:
  assumes "fd_inv s" and "fd_entry s fd = Some a"
  shows "a < fd_count s" and "m_fd (fd_ctxs s a) = fd" and "0 \<le> fd"
  using assms by (auto simp: fd_inv_def fd_entry_def split: if_splits)

lemma fd_entry_inj: "fd_inv s \<Longrightarrow> fd_entry s fd = Some a \<Longrightarrow> fd_entry s fd' = Some a \<longleftrightarrow> fd' = fd"
  using fd_entryD(2) by metis

lemma create_sim:
  assumes "fd_inv s" and "closed_ok strict s" and "0 \<le> fd" and "strict \<longrightarrow> fd_entry s fd = None"
  shows "\<exists>s1. get_create st flags s fd = Inr (s1, fd_count s) \<and> fd_inv s1 \<and> closed_ok strict s1 \<and>
    fd_table s1 = (fd_table s)(fd \<mapsto> fst (FdCtx_ctor st flags fd))"
proof -
  obtain s1 where s1: "get_create st flags s fd = Inr (s1, fd_count s)" "fd_inv s1"
    "length (m_datas s) \<le> length (m_datas s1)" "nat fd < length (m_datas s1)"
    "m_datas s1 ! nat fd = Some (fd_count s)" "fd_count s1 = Suc (fd_count s)"
    "fd_ctxs s1 = (fd_ctxs s)(fd_count s := fst (FdCtx_ctor st flags fd))"
    "\<forall>i < length (m_datas s1). i \<noteq> nat fd \<longrightarrow>
      m_datas s1 ! i = (if i < length (m_datas s) then m_datas s ! i else None)"
    by (rule get_create_ok [OF assms(1,3)]) (rule that, assumption+)
  have e: "fd_entry s1 fd' = (if fd' = fd then Some (fd_count s) else fd_entry s fd')" for fd'
    using s1(3-5,8) assms(3) by (auto simp: fd_entry_def)
  have ne: "fd_entry s fd' \<noteq> Some (fd_count s)" for fd' using fd_entryD(1) [OF assms(1)] by blast
  have "closed_ok strict s1" unfolding closed_ok_def
  proof (intro allI impI)
    fix a assume "a < fd_count s1"
    then consider "a = fd_count s" | "a \<noteq> fd_count s" "a < fd_count s" unfolding s1(6) by linarith
    then show "(m_isClosed (fd_ctxs s1 a) \<longrightarrow> (\<forall>fd'. fd_entry s1 fd' \<noteq> Some a)) \<and>
        (strict \<longrightarrow> (\<forall>fd'. fd_entry s1 fd' \<noteq> Some a) \<longrightarrow> m_isClosed (fd_ctxs s1 a))"
    proof cases
      case 1
      then show ?thesis by (auto simp: s1(7) e)
    next
      case 2
      have g: "\<forall>fd'. fd_entry s1 fd' \<noteq> Some a" if "\<forall>fd'. fd_entry s fd' \<noteq> Some a"
        using that 2(1) by (simp add: e)
      have h: "\<forall>fd'. fd_entry s fd' \<noteq> Some a" if "strict" "\<forall>fd'. fd_entry s1 fd' \<noteq> Some a"
      proof
        show "fd_entry s fd' \<noteq> Some a" for fd'
          using that(2) [THEN spec, of fd'] that(1) assms(4) by (cases "fd' = fd") (simp_all add: e)
      qed
      have c: "fd_ctxs s1 a = fd_ctxs s a" using 2(1) by (simp add: s1(7))
      have "(m_isClosed (fd_ctxs s a) \<longrightarrow> (\<forall>fd. fd_entry s fd \<noteq> Some a)) \<and>
          (strict \<longrightarrow> (\<forall>fd. fd_entry s fd \<noteq> Some a) \<longrightarrow> m_isClosed (fd_ctxs s a))"
        using assms(2) 2(2) unfolding closed_ok_def by blast
      with g h show ?thesis unfolding c by blast
    qed
  qed
  moreover have "fd_table s1 fd' = ((fd_table s)(fd \<mapsto> fst (FdCtx_ctor st flags fd))) fd'" for fd'
    using ne [of fd'] by (cases "fd_entry s fd'") (auto simp: fd_table_def e s1(7))
  ultimately show ?thesis using s1(1,2) by (intro exI [of _ s1]) (simp add: fun_eq_iff)
qed

lemma get_sim:
  assumes "fd_inv s" and "closed_ok strict s" and "0 \<le> fd"
  shows "\<exists>s1. fd_step s (FdGet st flags fd auto_create) = Inr s1 \<and> (fd_inv s1 \<and> closed_ok strict s1) \<and>
    fd_table s1 = spec_fd (FdGet st flags fd auto_create) (fd_table s)"
proof (cases "fd_entry s fd = None \<and> auto_create")
  case False
  then show ?thesis using assms by (auto simp: FdManager_get_def lookup_entry fd_table_def)
next
  case True
  with create_sim [OF assms, of st flags] assms(3) show ?thesis
    by (auto simp: FdManager_get_def lookup_entry fd_table_def)
qed

lemma del_sim:
  assumes "fd_inv s" and "closed_ok strict s" and "0 \<le> fd"
  shows "fd_inv (FdManager_del s fd) \<and> closed_ok strict (FdManager_del s fd) \<and>
    fd_table (FdManager_del s fd) = (fd_table s)(fd := None)"
proof (cases "fd_entry s fd")
  case None
  then have "FdManager_del s fd = s"
    using assms(3) by (auto simp: FdManager_del_def fd_entry_def too_short_def Let_def list_update_same_conv)
  with assms None show ?thesis by (auto simp: fd_table_def fun_eq_iff)
next
  case (Some a)
  define s1 where "s1 = FdManager_del s fd"
  have a: "a < fd_count s" by (rule fd_entryD(1) [OF assms(1) Some])
  have h: "fd_ctxs s1 = (fd_ctxs s)(a := (fd_ctxs s a)\<lparr>m_isClosed := True\<rparr>)" "fd_count s1 = fd_count s"
    "m_datas s1 = (m_datas s)[nat fd := None]"
    using Some assms(3) by (auto simp: s1_def FdManager_del_def fd_entry_def too_short_def Let_def put_fdctx_def
        split: if_splits)
  have e: "fd_entry s1 fd' = (if fd' = fd then None else fd_entry s fd')" for fd'
    using assms(3) by (auto simp: fd_entry_def h(3) nth_list_update)
  have i: "fd_entry s fd' = Some a \<longleftrightarrow> fd' = fd" for fd' by (rule fd_entry_inj [OF assms(1) Some])
  have "closed_ok strict s1" unfolding closed_ok_def h(2)
  proof (intro allI impI)
    fix b assume b: "b < fd_count s"
    show "(m_isClosed (fd_ctxs s1 b) \<longrightarrow> (\<forall>fd'. fd_entry s1 fd' \<noteq> Some b)) \<and>
        (strict \<longrightarrow> (\<forall>fd'. fd_entry s1 fd' \<noteq> Some b) \<longrightarrow> m_isClosed (fd_ctxs s1 b))"
    proof (cases "b = a")
      case True
      then show ?thesis using i by (simp add: h(1) e)
    next
      case False
      have "fd_entry s1 fd' = Some b \<longleftrightarrow> fd_entry s fd' = Some b" for fd'
        using False Some by (simp add: e)
      with False b assms(2) show ?thesis by (simp add: closed_ok_def h(1))
    qed
  qed
  moreover have "fd_table s1 fd' = ((fd_table s)(fd := None)) fd'" for fd'
    using i [of fd'] by (cases "fd_entry s fd'") (auto simp: fd_table_def e h(1))
  ultimately show ?thesis using fd_inv_del [OF assms(1), of fd] by (auto simp: s1_def fun_eq_iff)
qed

text \<open>What is set on a context leaves the descriptor, the kind and the closing alone.\<close>

lemma update_sim:
  assumes "fd_inv s" and "closed_ok strict s" and "0 \<le> fd"
    and "\<forall>c. m_fd (f c) = m_fd c \<and> m_isSocket (f c) = m_isSocket c \<and> m_sysNonblock (f c) = m_sysNonblock c \<and>
      m_isClosed (f c) = m_isClosed c"
  shows "fd_inv (fd_update fd f s) \<and> closed_ok strict (fd_update fd f s) \<and>
    fd_table (fd_update fd f s) = (fd_table s)(fd := map_option f (fd_table s fd))"
proof (cases "fd_entry s fd")
  case None
  then have "fd_update fd f s = s" using assms(3) by (simp add: fd_update_def lookup_entry)
  with assms None show ?thesis by (auto simp: fd_table_def fun_eq_iff)
next
  case (Some a)
  have u: "fd_update fd f s = put_fdctx a (f (fd_ctxs s a)) s"
    using assms(3) Some by (simp add: fd_update_def lookup_entry)
  have e: "fd_entry (put_fdctx a c s) fd' = fd_entry s fd'" for c fd' by (simp add: fd_entry_def put_fdctx_def)
  have i: "fd_entry s fd' = Some a \<longleftrightarrow> fd' = fd" for fd' by (rule fd_entry_inj [OF assms(1) Some])
  have "fd_inv (fd_update fd f s)" unfolding u by (rule fd_inv_settings [OF assms(1)]) (simp_all add: assms(4))
  moreover have "closed_ok strict (fd_update fd f s)"
    using assms(2,4) unfolding u closed_ok_def e by (simp add: put_fdctx_def)
  moreover have "fd_table (fd_update fd f s) fd' = ((fd_table s)(fd := map_option f (fd_table s fd))) fd'" for fd'
    using i [of fd'] Some unfolding u fd_table_def e by (cases "fd_entry s fd'") (auto simp: put_fdctx_def)
  ultimately show ?thesis by (auto simp: fun_eq_iff)
qed

lemma user_nonblock_frame [simp]:
  "m_fd (user_nonblock b c) = m_fd c" "m_isSocket (user_nonblock b c) = m_isSocket c"
  "m_sysNonblock (user_nonblock b c) = m_sysNonblock c" "m_isClosed (user_nonblock b c) = m_isClosed c"
  by (simp_all add: user_nonblock_def)

text \<open>The manager implements the table, whether or not the creating sections are raced.\<close>

interpretation fd_sim: simulation "\<lambda>s. fd_inv s \<and> closed_ok strict s" "\<lambda>s x. fd_op_ok s x \<and> (strict \<longrightarrow> unraced s x)"
    fd_step spec_fd fd_table
  for strict
proof
  fix s opn assume g: "fd_inv s \<and> closed_ok strict s" and ok: "fd_op_ok s opn \<and> (strict \<longrightarrow> unraced s opn)"
  have "fd_inv s" "closed_ok strict s" using g by simp_all
  note S = get_sim [OF this] del_sim [OF this] update_sim [OF this]
  show "\<exists>s1. fd_step s opn = Inr s1 \<and> (fd_inv s1 \<and> closed_ok strict s1) \<and> fd_table s1 = spec_fd opn (fd_table s)"
  proof (cases opn)
    case (FdCreate st flags fd)
    then have "strict \<longrightarrow> fd_entry s fd = None" using ok by (auto simp: lookup_entry)
    with create_sim [of s strict fd st flags] g ok FdCreate show ?thesis by auto
  qed (use ok S in simp_all)
qed



end
