(* ===== verification/Co_Hook.thy ===== *)
theory Co_Hook
  imports Io_Manager Fd_Manager "HOL-Library.Signed_Division"
begin

text \<open>
  The system-call hooks (src/hook.cpp): the template \<^verbatim>\<open>do_io\<close> behind the reading and writing
  calls, the sleep family, \<^verbatim>\<open>connect\<close>, \<^verbatim>\<open>accept\<close>, \<^verbatim>\<open>socket\<close>, \<^verbatim>\<open>close\<close>,
  \<^verbatim>\<open>fcntl\<close>, \<^verbatim>\<open>ioctl\<close> and \<^verbatim>\<open>setsockopt\<close>, and the callbacks they leave in the timer
  manager. The original system calls are not code of the repository: their results are
  arguments, in the order the calls are made. A call that suspends its fiber is cut at
  \<^verbatim>\<open>yield()\<close>: one definition runs up to it, another from the resumption on.
\<close>

section \<open>The state the hooks work on\<close>

definition EINTR :: int where "EINTR = 4"
definition EBADF :: int where "EBADF = 9"
definition EAGAIN :: int where "EAGAIN = 11"
definition ETIMEDOUT :: int where "ETIMEDOUT = 110"
definition EINPROGRESS :: int where "EINPROGRESS = 115"

lemmas errno_defs = EINTR_def EBADF_def EAGAIN_def ETIMEDOUT_def EINPROGRESS_def

text \<open>
  \<open>t_hook_enable\<close> and \<open>t_iom\<close> (whether \<^verbatim>\<open>IOManager::GetThis()\<close> is not null) belong to the
  calling thread. The \<^verbatim>\<open>timer_info\<close> objects are numbered: \<open>ti_cancelled\<close> is their field,
  \<open>ti_alive\<close> says which of them a weak reference still locks. \<open>next_timer\<close> is the address of
  the next \<^verbatim>\<open>Timer\<close>.
\<close>

record Runtime =
  t_hook_enable :: bool
  t_iom :: bool
  iom :: IOManager
  fdmgr :: FdManager
  ti_cancelled :: "nat \<Rightarrow> int"
  ti_alive :: "nat \<Rightarrow> bool"
  ti_count :: nat
  next_timer :: nat
  errno :: int

text \<open>A system call returns a value and, when that is \<open>-1\<close>, sets \<^verbatim>\<open>errno\<close>.\<close>

type_synonym sysret = "int \<times> int"

definition call_f :: "Runtime \<Rightarrow> sysret \<Rightarrow> Runtime \<times> int" where
  "call_f w r = (if fst r = -1 then w\<lparr>errno := snd r\<rparr> else w, fst r)"

definition fail :: "int \<Rightarrow> Runtime \<Rightarrow> Runtime \<times> int" where
  "fail e w = (w\<lparr>errno := e\<rparr>, -1)"

text \<open>\<^verbatim>\<open>FdMgr::GetInstance()->get(fd)\<close>, which never creates, and the object behind it.\<close>

definition get_ctx :: "Runtime \<Rightarrow> int \<Rightarrow> nat option" where
  "get_ctx w fd = (case get_lookup (fdmgr w) fd False of Some r \<Rightarrow> r | None \<Rightarrow> None)"

definition ctx_obj :: "Runtime \<Rightarrow> nat \<Rightarrow> FdCtx" where
  "ctx_obj w a = fd_ctxs (fdmgr w) a"

definition set_ctx :: "nat \<Rightarrow> FdCtx \<Rightarrow> Runtime \<Rightarrow> Runtime" where
  "set_ctx a c w = w\<lparr>fdmgr := put_fdctx a c (fdmgr w)\<rparr>"

section \<open>Timers of the manager\<close>

text \<open>\<^verbatim>\<open>iom->addTimer\<close> with the virtual \<^verbatim>\<open>onTimerInsertedAtFront\<close>, and \<^verbatim>\<open>timer->cancel()\<close>.\<close>

definition iom_addTimer :: "Runtime \<Rightarrow> u64 \<Rightarrow> callback \<Rightarrow> int \<Rightarrow> Runtime \<times> nat" where
  "iom_addTimer w ms cb now =
     (let a = next_timer w
      in case addTimer (io_timers (iom w)) a ms (Some cb) False now of
           (t, at_front) \<Rightarrow>
             let m = (iom w)\<lparr>io_timers := t\<rparr>
             in (w\<lparr>iom := (if at_front then onTimerInsertedAtFront m else m), next_timer := Suc a\<rparr>, a))"

definition iom_addConditionTimer ::
    "Runtime \<Rightarrow> u64 \<Rightarrow> callback \<Rightarrow> nat \<Rightarrow> int \<Rightarrow> Runtime \<times> nat" where
  "iom_addConditionTimer w ms cb weak_cond now = iom_addTimer w ms (OnTimerCb weak_cond cb) now"

definition cancel_timer :: "nat option \<Rightarrow> Runtime \<Rightarrow> Runtime" where
  "cancel_timer timer w =
     (case timer of
        None \<Rightarrow> w
      | Some a \<Rightarrow> w\<lparr>iom := (iom w)\<lparr>io_timers := fst (cancel (io_timers (iom w)) a)\<rparr>\<rparr>)"

text \<open>
  The callbacks the hooks leave behind, when a worker runs them: the sleep lambdas, the timeout
  lambda, and \<^verbatim>\<open>OnTimer\<close> around it. \<open>user\<close> is what the callbacks of the library's user do,
  \<open>rt\<close> the result of the \<^verbatim>\<open>epoll_ctl\<close> made.
\<close>

fun run_cb :: "(nat \<Rightarrow> Runtime \<Rightarrow> Runtime) \<Rightarrow> int \<Rightarrow> Runtime \<Rightarrow> callback \<Rightarrow> Runtime result" where
  "run_cb user rt w (UserCb n) = Inr (user n w)"
| "run_cb user rt w (WakeFiberCb f) = Inr (w\<lparr>iom := io_schedule (iom w) (FiberPtr (Some f))\<rparr>)"
| "run_cb user rt w (OnTimerCb c cb) = (if ti_alive w c then run_cb user rt w cb else Inr w)"
| "run_cb user rt w (CancelEventCb t fd event) =
     (if \<not> ti_alive w t \<or> ti_cancelled w t \<noteq> 0 then Inr w
      else let w1 = w\<lparr>ti_cancelled := (ti_cancelled w)(t := ETIMEDOUT)\<rparr>
           in case cancelEvent (iom w1) fd event rt of
                Inl e \<Rightarrow> Inl e
              | Inr (m, _) \<Rightarrow> Inr (w1\<lparr>iom := m\<rparr>))"

section \<open>do_io\<close>

text \<open>The checks before the first call.\<close>

datatype io_guard = Passthrough | Refused int | Hooked u64

definition do_io_guard :: "Runtime \<Rightarrow> int \<Rightarrow> int \<Rightarrow> io_guard" where
  "do_io_guard w fd timeout_so =
     (if \<not> t_hook_enable w then Passthrough
      else case get_ctx w fd of
             None \<Rightarrow> Passthrough
           | Some a \<Rightarrow>
               if m_isClosed (ctx_obj w a) then Refused EBADF
               else if \<not> m_isSocket (ctx_obj w a) \<or> m_userNonblock (ctx_obj w a) then Passthrough
               else Hooked (getTimeout timeout_so (ctx_obj w a)))"

text \<open>\<^verbatim>\<open>new timer_info\<close>, and the end of its last shared reference.\<close>

definition new_tinfo :: "Runtime \<Rightarrow> Runtime \<times> nat" where
  "new_tinfo w =
     (let t = ti_count w
      in (w\<lparr>ti_cancelled := (ti_cancelled w)(t := 0), ti_alive := (ti_alive w)(t := True),
            ti_count := Suc t\<rparr>, t))"

definition drop_tinfo :: "nat \<Rightarrow> Runtime \<Rightarrow> Runtime" where
  "drop_tinfo t w = w\<lparr>ti_alive := (ti_alive w)(t := False)\<rparr>"

text \<open>The call, repeated while a signal interrupts it. \<open>None\<close>: no result yet.\<close>

fun retry_eintr :: "Runtime \<Rightarrow> sysret list \<Rightarrow> (Runtime \<times> int \<times> sysret list) option" where
  "retry_eintr w [] = None"
| "retry_eintr w (r # rs) =
     (case call_f w r of
        (w1, n) \<Rightarrow> if n = -1 \<and> errno w1 = EINTR then retry_eintr w1 rs else Some (w1, n, rs))"

text \<open>Where a hooked call is: it has returned, or its fiber has yielded with this timer.\<close>

datatype io_pc = Returned int | Waiting "nat option"

text \<open>The timeout timer, unless the timeout is \<^verbatim>\<open>(uint64_t)-1\<close>.\<close>

definition arm_timeout :: "Runtime \<Rightarrow> int \<Rightarrow> u32 \<Rightarrow> u64 \<Rightarrow> nat \<Rightarrow> int \<Rightarrow> Runtime \<times> nat option" where
  "arm_timeout w fd event timeout t now =
     (if timeout \<noteq> - 1
      then case iom_addConditionTimer w timeout (CancelEventCb t fd event) t now of
             (w1, a) \<Rightarrow> (w1, Some a)
      else (w, None))"

text \<open>
  The \<^verbatim>\<open>errno\<close> that \<^verbatim>\<open>addEvent\<close> leaves when it was \<open>e\<close> before: a failing
  \<^verbatim>\<open>epoll_ctl\<close> sets its own, the other ways out leave it alone.
\<close>

definition addEvent_errno :: "IOManager \<Rightarrow> int \<Rightarrow> u32 \<Rightarrow> int \<Rightarrow> int \<Rightarrow> int" where
  "addEvent_errno s fd event rt e =
     (let epoll_ctl = (if rt \<noteq> 0 then rt else e)
      in if fd < 0 then e
         else case lookup_ctx s fd of
                Inr (Some a) \<Rightarrow> if fc_events (ctx_heap s a) AND event \<noteq> 0 then e else epoll_ctl
              | _ \<Rightarrow> epoll_ctl)"

text \<open>Registration with the running fiber; on failure the timer is cancelled.\<close>

definition register_wait ::
    "Runtime \<Rightarrow> int \<Rightarrow> u32 \<Rightarrow> nat option \<Rightarrow> fid \<Rightarrow> int \<Rightarrow> (Runtime \<times> io_pc) result" where
  "register_wait w fd event timer cur rt =
     (case addEvent (iom w) fd event None cur rt of
        Inl e \<Rightarrow> Inl e
      | Inr (m, ok) \<Rightarrow>
          let w1 = w\<lparr>iom := m\<rparr>
          in if \<not> ok
             then Inr (cancel_timer timer (w1\<lparr>errno := addEvent_errno (iom w) fd event rt (errno w)\<rparr>), Returned (-1))
             else Inr (w1, Waiting timer))"

text \<open>From the label \<^verbatim>\<open>retry\<close> to the next \<^verbatim>\<open>return\<close> or \<^verbatim>\<open>yield()\<close>.\<close>

definition do_io_attempt ::
    "Runtime \<Rightarrow> sysret list \<Rightarrow> int \<Rightarrow> u32 \<Rightarrow> u64 \<Rightarrow> nat \<Rightarrow> fid \<Rightarrow> int \<Rightarrow> int \<Rightarrow>
     (Runtime \<times> sysret list \<times> io_pc) result option" where
  "do_io_attempt w rs fd event timeout t cur now rt =
     (case retry_eintr w rs of
        None \<Rightarrow> None
      | Some (w1, n, rs1) \<Rightarrow>
          if n = -1 \<and> errno w1 = EAGAIN
          then if \<not> t_iom w1
               then (case rs1 of
                       [] \<Rightarrow> None
                     | r # rs2 \<Rightarrow> (case call_f w1 r of (w2, n2) \<Rightarrow> Some (Inr (w2, rs2, Returned n2))))
               else (case arm_timeout w1 fd event timeout t now of
                       (w2, timer) \<Rightarrow>
                         (case register_wait w2 fd event timer cur rt of
                            Inl e \<Rightarrow> Some (Inl e)
                          | Inr (w3, p) \<Rightarrow> Some (Inr (w3, rs1, p))))
          else Some (Inr (w1, rs1, Returned n)))"

text \<open>The local \<^verbatim>\<open>tinfo\<close> dies when the function returns.\<close>

definition leave :: "nat \<Rightarrow> (Runtime \<times> sysret list \<times> io_pc) result option \<Rightarrow>
    (Runtime \<times> sysret list \<times> io_pc) result option" where
  "leave t r =
     (case r of
        Some (Inr (w, rs, Returned n)) \<Rightarrow> Some (Inr (drop_tinfo t w, rs, Returned n))
      | _ \<Rightarrow> r)"

definition do_io ::
    "Runtime \<Rightarrow> sysret list \<Rightarrow> int \<Rightarrow> u32 \<Rightarrow> int \<Rightarrow> fid \<Rightarrow> int \<Rightarrow> int \<Rightarrow>
     (Runtime \<times> sysret list \<times> io_pc) result option" where
  "do_io w rs fd event timeout_so cur now rt =
     (case do_io_guard w fd timeout_so of
        Passthrough \<Rightarrow>
          (case rs of
             [] \<Rightarrow> None
           | r # rs1 \<Rightarrow> (case call_f w r of (w1, n) \<Rightarrow> Some (Inr (w1, rs1, Returned n))))
      | Refused e \<Rightarrow> (case fail e w of (w1, n) \<Rightarrow> Some (Inr (w1, rs, Returned n)))
      | Hooked timeout \<Rightarrow>
          (case new_tinfo w of
             (w1, t) \<Rightarrow> leave t (do_io_attempt w1 rs fd event timeout t cur now rt)))"

text \<open>After \<^verbatim>\<open>yield()\<close> has come back.\<close>

definition do_io_resume ::
    "Runtime \<Rightarrow> sysret list \<Rightarrow> int \<Rightarrow> u32 \<Rightarrow> u64 \<Rightarrow> nat \<Rightarrow> nat option \<Rightarrow> fid \<Rightarrow> int \<Rightarrow> int \<Rightarrow>
     (Runtime \<times> sysret list \<times> io_pc) result option" where
  "do_io_resume w rs fd event timeout t timer cur now rt =
     (let w1 = cancel_timer timer w
      in if ti_cancelled w1 t = ETIMEDOUT
         then (case fail (ti_cancelled w1 t) w1 of
                 (w2, n) \<Rightarrow> leave t (Some (Inr (w2, rs, Returned n))))
         else leave t (do_io_attempt w1 rs fd event timeout t cur now rt))"

section \<open>The calls built on do_io\<close>

datatype io_call =
    Accept | Read | Readv | Recv | Recvfrom | Recvmsg | Write | Writev | Send | Sendto | Sendmsg

fun call_event :: "io_call \<Rightarrow> u32" where
  "call_event Accept = READ"
| "call_event Read = READ"
| "call_event Readv = READ"
| "call_event Recv = READ"
| "call_event Recvfrom = READ"
| "call_event Recvmsg = READ"
| "call_event Write = WRITE"
| "call_event Writev = WRITE"
| "call_event Send = WRITE"
| "call_event Sendto = WRITE"
| "call_event Sendmsg = WRITE"

fun call_timeout :: "io_call \<Rightarrow> int" where
  "call_timeout Accept = SO_RCVTIMEO"
| "call_timeout Read = SO_RCVTIMEO"
| "call_timeout Readv = SO_RCVTIMEO"
| "call_timeout Recv = SO_RCVTIMEO"
| "call_timeout Recvfrom = SO_RCVTIMEO"
| "call_timeout Recvmsg = SO_RCVTIMEO"
| "call_timeout Write = SO_SNDTIMEO"
| "call_timeout Writev = SO_SNDTIMEO"
| "call_timeout Send = SO_SNDTIMEO"
| "call_timeout Sendto = SO_SNDTIMEO"
| "call_timeout Sendmsg = SO_SNDTIMEO"

text \<open>
  \<^verbatim>\<open>get(fd, true)\<close> for a new descriptor, after \<^verbatim>\<open>accept\<close> and \<^verbatim>\<open>socket\<close>; \<open>st\<close> and \<open>flags\<close> as
  in \<open>FdCtx_init\<close>.
\<close>

definition adopt_fd :: "bool option \<Rightarrow> u32 \<Rightarrow> Runtime \<Rightarrow> int \<Rightarrow> Runtime result" where
  "adopt_fd st flags w fd =
     (case FdManager_get st flags (fdmgr w) fd True of
        Inl e \<Rightarrow> Inl e
      | Inr (m, _) \<Rightarrow> Inr (w\<lparr>fdmgr := m\<rparr>))"

definition accept_return :: "bool option \<Rightarrow> u32 \<Rightarrow> Runtime \<Rightarrow> int \<Rightarrow> (Runtime \<times> int) result" where
  "accept_return st flags w fd =
     (if fd \<ge> 0 then map_sum id (\<lambda>w1. (w1, fd)) (adopt_fd st flags w fd) else Inr (w, fd))"

text \<open>What a call does with the value that \<^verbatim>\<open>do_io\<close> returns: only \<^verbatim>\<open>accept\<close> goes on.\<close>

definition io_return ::
    "io_call \<Rightarrow> bool option \<Rightarrow> u32 \<Rightarrow> (Runtime \<times> sysret list \<times> io_pc) result option \<Rightarrow>
     (Runtime \<times> sysret list \<times> io_pc) result option" where
  "io_return call st flags r =
     (case r of
        Some (Inr (w, rs, Returned n)) \<Rightarrow>
          if call = Accept
          then Some (map_sum id (\<lambda>(w1, fd). (w1, rs, Returned fd)) (accept_return st flags w n)) else r
      | _ \<Rightarrow> r)"

text \<open>The calls, up to their end or their first \<^verbatim>\<open>yield()\<close>, and from there on.\<close>

definition hooked_io ::
    "io_call \<Rightarrow> bool option \<Rightarrow> u32 \<Rightarrow> Runtime \<Rightarrow> sysret list \<Rightarrow> int \<Rightarrow> fid \<Rightarrow> int \<Rightarrow> int \<Rightarrow>
     (Runtime \<times> sysret list \<times> io_pc) result option" where
  "hooked_io call st flags w rs fd cur now rt =
     io_return call st flags (do_io w rs fd (call_event call) (call_timeout call) cur now rt)"

definition hooked_io_resume ::
    "io_call \<Rightarrow> bool option \<Rightarrow> u32 \<Rightarrow> Runtime \<Rightarrow> sysret list \<Rightarrow> int \<Rightarrow> u64 \<Rightarrow> nat \<Rightarrow> nat option \<Rightarrow> fid \<Rightarrow>
     int \<Rightarrow> int \<Rightarrow> (Runtime \<times> sysret list \<times> io_pc) result option" where
  "hooked_io_resume call st flags w rs fd timeout t timer cur now rt =
     io_return call st flags (do_io_resume w rs fd (call_event call) timeout t timer cur now rt)"

lemma io_return_other: "call \<noteq> Accept \<Longrightarrow> io_return call st flags r = r"
  by (auto simp: io_return_def split: option.split sum.split io_pc.split)

lemma io_return_simps [simp]:
  "io_return call st flags None = None"
  "io_return call st flags (Some (Inl e)) = Some (Inl e)"
  "io_return call st flags (Some (Inr (w, rs, Waiting timer))) = Some (Inr (w, rs, Waiting timer))"
  by (simp_all add: io_return_def)

definition hook_socket :: "bool option \<Rightarrow> u32 \<Rightarrow> Runtime \<Rightarrow> sysret \<Rightarrow> (Runtime \<times> int) result" where
  "hook_socket st flags w r =
     (if \<not> t_hook_enable w then Inr (call_f w r)
      else case call_f w r of
             (w1, fd) \<Rightarrow> if fd = -1 then Inr (w1, fd)
                         else map_sum id (\<lambda>w2. (w2, fd)) (adopt_fd st flags w1 fd))"

section \<open>connect\<close>

definition s_connect_timeout :: u64 where "s_connect_timeout = - 1"

text \<open>
  \<open>r\<close> is the result of \<^verbatim>\<open>connect_f\<close>, \<open>r2\<close> of the second call made without a manager.
  The fiber waits with its \<^verbatim>\<open>timer_info\<close> and timer.
\<close>

datatype connect_pc = Connected int | Connecting nat "nat option"

definition connect_with_timeout ::
    "Runtime \<Rightarrow> sysret \<Rightarrow> sysret \<Rightarrow> int \<Rightarrow> u64 \<Rightarrow> fid \<Rightarrow> int \<Rightarrow> int \<Rightarrow> (Runtime \<times> connect_pc) result" where
  "connect_with_timeout w r r2 fd timeout_ms cur now rt =
     (let direct = (\<lambda>w r. case call_f w r of (w1, n) \<Rightarrow> Inr (w1, Connected n))
      in if \<not> t_hook_enable w then direct w r
         else case get_ctx w fd of
                None \<Rightarrow> (case fail EBADF w of (w1, n) \<Rightarrow> Inr (w1, Connected n))
              | Some a \<Rightarrow>
                  if m_isClosed (ctx_obj w a)
                  then (case fail EBADF w of (w1, n) \<Rightarrow> Inr (w1, Connected n))
                  else if \<not> m_isSocket (ctx_obj w a) then direct w r
                  else if m_userNonblock (ctx_obj w a) then direct w r
                  else (case call_f w r of
                          (w1, n) \<Rightarrow>
                            if n = 0 then Inr (w1, Connected 0)
                            else if n \<noteq> -1 \<or> errno w1 \<noteq> EINPROGRESS then Inr (w1, Connected n)
                            else if \<not> t_iom w1 then direct w1 r2
                            else (case new_tinfo w1 of
                                    (w2, t) \<Rightarrow>
                                      (case arm_timeout w2 fd WRITE timeout_ms t now of
                                         (w3, timer) \<Rightarrow>
                                           (case register_wait w3 fd WRITE timer cur rt of
                                              Inl e \<Rightarrow> Inl e
                                            | Inr (w4, Returned n4) \<Rightarrow> Inr (drop_tinfo t w4, Connected n4)
                                            | Inr (w4, Waiting tm) \<Rightarrow> Inr (w4, Connecting t tm))))))"

text \<open>After \<^verbatim>\<open>yield()\<close>: \<open>gs\<close> is the result of \<^verbatim>\<open>getsockopt\<close> and \<open>soerror\<close> the \<^verbatim>\<open>SO_ERROR\<close> it read.\<close>

definition connect_resume ::
    "Runtime \<Rightarrow> nat \<Rightarrow> nat option \<Rightarrow> sysret \<Rightarrow> int \<Rightarrow> Runtime \<times> int" where
  "connect_resume w t timer gs soerror =
     (let w1 = cancel_timer timer w
      in if ti_cancelled w1 t \<noteq> 0 then fail (ti_cancelled w1 t) (drop_tinfo t w1)
         else case call_f w1 gs of
                (w2, n) \<Rightarrow> let w3 = drop_tinfo t w2
                           in if n = -1 then (w3, -1)
                              else if soerror = 0 then (w3, 0)
                              else fail soerror w3)"

definition hook_connect ::
    "Runtime \<Rightarrow> sysret \<Rightarrow> sysret \<Rightarrow> int \<Rightarrow> fid \<Rightarrow> int \<Rightarrow> int \<Rightarrow> (Runtime \<times> connect_pc) result" where
  "hook_connect w r r2 fd cur now rt = connect_with_timeout w r r2 fd s_connect_timeout cur now rt"

section \<open>Sleeping\<close>

text \<open>The original call was made, or the fiber has yielded with a timer that wakes it.\<close>

datatype sleep_pc = Original | Asleep nat

definition hook_sleep :: "Runtime \<Rightarrow> u32 \<Rightarrow> fid \<Rightarrow> int \<Rightarrow> (Runtime \<times> sleep_pc) result" where
  "hook_sleep w seconds cur now =
     (if \<not> t_hook_enable w then Inr (w, Original)
      else if \<not> t_iom w then Inl Null_Dereference
      else case iom_addTimer w (ucast (seconds * 1000)) (WakeFiberCb cur) now of
             (w1, a) \<Rightarrow> Inr (w1, Asleep a))"

definition hook_usleep :: "Runtime \<Rightarrow> u32 \<Rightarrow> fid \<Rightarrow> int \<Rightarrow> (Runtime \<times> sleep_pc) result" where
  "hook_usleep w usec cur now =
     (if \<not> t_hook_enable w then Inr (w, Original)
      else if \<not> t_iom w then Inl Null_Dereference
      else case iom_addTimer w (ucast (usec div 1000)) (WakeFiberCb cur) now of
             (w1, a) \<Rightarrow> Inr (w1, Asleep a))"

definition hook_nanosleep ::
    "Runtime \<Rightarrow> int \<Rightarrow> int \<Rightarrow> fid \<Rightarrow> int \<Rightarrow> (Runtime \<times> sleep_pc) result" where
  "hook_nanosleep w tv_sec tv_nsec cur now =
     (if \<not> t_hook_enable w then Inr (w, Original)
      else if \<not> t_iom w then Inr (w, Original)
      else let timeout_ms = (word_of_int tv_sec :: u64) * 1000 + word_of_int (tv_nsec sdiv 1000000)
           in case iom_addTimer w timeout_ms (WakeFiberCb cur) now of
                (w1, a) \<Rightarrow> Inr (w1, Asleep a))"

section \<open>close\<close>

text \<open>\<open>rt\<close> is the result of the \<^verbatim>\<open>epoll_ctl\<close> of \<^verbatim>\<open>cancelAll\<close>, \<open>r\<close> of \<^verbatim>\<open>close_f\<close>.\<close>

definition hook_close :: "Runtime \<Rightarrow> int \<Rightarrow> int \<Rightarrow> sysret \<Rightarrow> (Runtime \<times> int) result" where
  "hook_close w fd rt r =
     (if \<not> t_hook_enable w then Inr (call_f w r)
      else case get_ctx w fd of
             None \<Rightarrow> Inr (call_f w r)
           | Some a \<Rightarrow>
               let w1 = set_ctx a ((ctx_obj w a)\<lparr>m_isClosed := True\<rparr>) w
               in case (if t_iom w1 then map_sum id fst (cancelAll (iom w1) fd rt) else Inr (iom w1)) of
                    Inl e \<Rightarrow> Inl e
                  | Inr m \<Rightarrow>
                      let w2 = w1\<lparr>iom := m, fdmgr := FdManager_del (fdmgr w1) fd\<rparr>
                      in Inr (call_f w2 r))"

section \<open>fcntl, ioctl, setsockopt\<close>

text \<open>
  The commands: \<open>WithArg\<close> and \<open>NoArg\<close> are the listed ones that the switch passes on with and
  without their third argument, \<open>Unlisted\<close> the ones its \<^verbatim>\<open>default\<close> branch passes on without
  it. The hook's outcome is the state, the command handed to \<^verbatim>\<open>fcntl_f\<close> and the value
  returned, where \<open>k\<close> is what the kernel answers to a command. An \<^verbatim>\<open>int\<close> that holds flags is
  a 32-bit word.
\<close>

datatype fcntl_cmd =
    F_SETFL u32
  | F_GETFL
  | WithArg nat int
  | NoArg nat
  | Unlisted nat "int option"

definition hook_fcntl ::
    "(fcntl_cmd \<Rightarrow> u32) \<Rightarrow> Runtime \<Rightarrow> int \<Rightarrow> fcntl_cmd \<Rightarrow> Runtime \<times> fcntl_cmd \<times> u32" where
  "hook_fcntl k w fd cmd =
     (case cmd of
        F_SETFL arg \<Rightarrow>
          (case get_ctx w fd of
             None \<Rightarrow> (w, cmd, k cmd)
           | Some a \<Rightarrow>
               if m_isClosed (ctx_obj w a) \<or> \<not> m_isSocket (ctx_obj w a) then (w, cmd, k cmd)
               else let w1 = set_ctx a ((ctx_obj w a)\<lparr>m_userNonblock := (arg AND O_NONBLOCK \<noteq> 0)\<rparr>) w;
                        arg1 = (if m_sysNonblock (ctx_obj w1 a) then arg OR O_NONBLOCK
                                else arg AND NOT O_NONBLOCK)
                    in (w1, F_SETFL arg1, k (F_SETFL arg1)))
      | F_GETFL \<Rightarrow>
          let arg = k F_GETFL
          in (case get_ctx w fd of
                None \<Rightarrow> (w, cmd, arg)
              | Some a \<Rightarrow>
                  if m_isClosed (ctx_obj w a) \<or> \<not> m_isSocket (ctx_obj w a) then (w, cmd, arg)
                  else if m_userNonblock (ctx_obj w a) then (w, cmd, arg OR O_NONBLOCK)
                  else (w, cmd, arg AND NOT O_NONBLOCK))
      | WithArg n arg \<Rightarrow> (w, WithArg n arg, k (WithArg n arg))
      | NoArg n \<Rightarrow> (w, NoArg n, k (NoArg n))
      | Unlisted n _ \<Rightarrow> (w, Unlisted n None, k (Unlisted n None)))"

definition FIONBIO :: u64 where "FIONBIO = 0x5421"

text \<open>\<open>argval\<close> is the \<^verbatim>\<open>int\<close> the argument points to. Returned: the state and the value the kernel gets.\<close>

definition hook_ioctl :: "Runtime \<Rightarrow> int \<Rightarrow> u64 \<Rightarrow> int \<Rightarrow> Runtime \<times> u64 \<times> int" where
  "hook_ioctl w fd request argval =
     (if FIONBIO = request
      then let user_nonblock = (argval \<noteq> 0)
           in case get_ctx w fd of
                None \<Rightarrow> (w, request, argval)
              | Some a \<Rightarrow>
                  if m_isClosed (ctx_obj w a) \<or> \<not> m_isSocket (ctx_obj w a) then (w, request, argval)
                  else (set_ctx a ((ctx_obj w a)\<lparr>m_userNonblock := user_nonblock\<rparr>) w, request, argval)
      else (w, request, argval))"

definition SOL_SOCKET :: int where "SOL_SOCKET = 1"

text \<open>\<open>(tv_sec, tv_usec)\<close> is the \<^verbatim>\<open>timeval\<close> at \<^verbatim>\<open>optval\<close>; the option is passed on as it is.\<close>

definition hook_setsockopt :: "Runtime \<Rightarrow> int \<Rightarrow> int \<Rightarrow> int \<Rightarrow> int \<times> int \<Rightarrow> Runtime" where
  "hook_setsockopt w sockfd level optname tv =
     (if \<not> t_hook_enable w then w
      else if level = SOL_SOCKET \<and> (optname = SO_RCVTIMEO \<or> optname = SO_SNDTIMEO)
      then (case get_ctx w sockfd of
              None \<Rightarrow> w
            | Some a \<Rightarrow>
                set_ctx a (setTimeout optname (word_of_int (fst tv * 1000 + snd tv sdiv 1000)) (ctx_obj w a)) w)
      else w)"

section \<open>The invariant\<close>

text \<open>
  The manager's contexts, its timers and the descriptor table are consistent, and the next
  timer address is not in use.
\<close>

definition rt_inv :: "Runtime \<Rightarrow> bool" where
  "rt_inv w \<longleftrightarrow> io_inv (iom w) \<and> timer_inv (io_timers (iom w)) \<and> fd_inv (fdmgr w) \<and>
     (\<forall>a \<in> set (m_timers (io_timers (iom w))). a < next_timer w)"

lemma io_inv_timers [simp]:
  "io_inv (m\<lparr>io_timers := t\<rparr>) = io_inv m" "io_inv (m\<lparr>tickle_writes := n\<rparr>) = io_inv m"
  by (simp_all add: io_inv_def registered_def)

lemma tickle_frame [simp]:
  "io_inv (tickle m) = io_inv m" "io_timers (tickle m) = io_timers m" "io_sched (tickle m) = io_sched m"
  "ctx_heap (tickle m) = ctx_heap m" "m_fdContexts (tickle m) = m_fdContexts m"
  "m_pendingEventCount (tickle m) = m_pendingEventCount m"
  by (simp_all add: tickle_def)

lemma call_f_frame [simp]:
  "iom (fst (call_f w r)) = iom w" "fdmgr (fst (call_f w r)) = fdmgr w"
  "ti_alive (fst (call_f w r)) = ti_alive w" "ti_cancelled (fst (call_f w r)) = ti_cancelled w"
  "ti_count (fst (call_f w r)) = ti_count w" "next_timer (fst (call_f w r)) = next_timer w"
  "t_iom (fst (call_f w r)) = t_iom w" "t_hook_enable (fst (call_f w r)) = t_hook_enable w"
  "snd (call_f w r) = fst r"
  by (simp_all add: call_f_def)

lemma iom_addTimer_ok:
  assumes inv: "rt_inv w" and add: "iom_addTimer w ms cb now = (w1, a)"
  shows "rt_inv w1" and "a = next_timer w" and "a \<in> set (m_timers (io_timers (iom w1)))"
    and "timer_at (io_timers (iom w1)) a = Timer_ctor ms (Some cb) False now"
    and "w1 = w\<lparr>iom := iom w1, next_timer := Suc a\<rparr>"
    and "io_sched (iom w1) = io_sched (iom w)" and "ctx_heap (iom w1) = ctx_heap (iom w)"
    and "m_fdContexts (iom w1) = m_fdContexts (iom w)"
    and "m_pendingEventCount (iom w1) = m_pendingEventCount (iom w)"
    and "set (m_timers (io_timers (iom w1))) = insert a (set (m_timers (io_timers (iom w))))"
proof -
  let ?t = "io_timers (iom w)"
  have fresh: "next_timer w \<notin> set (m_timers ?t)" using inv by (auto simp: rt_inv_def)
  obtain t front where t: "addTimer ?t (next_timer w) ms (Some cb) False now = (t, front)" by fastforce
  then have t1: "t = fst (addTimer ?t (next_timer w) ms (Some cb) False now)" by simp
  have ti: "timer_inv t" unfolding t1 by (rule timer_inv_addTimer) (use inv fresh in \<open>simp_all add: rt_inv_def\<close>)
  have ts: "set (m_timers t) = insert (next_timer w) (set (m_timers ?t))"
    "timer_at t (next_timer w) = Timer_ctor ms (Some cb) False now"
    unfolding t1 by (simp_all add: addTimer_def timer_set.insert_set timer_at_def)
  have w: "w1 = w\<lparr>iom := (if front then tickle ((iom w)\<lparr>io_timers := t\<rparr>) else (iom w)\<lparr>io_timers := t\<rparr>),
      next_timer := Suc (next_timer w)\<rparr>" and a: "a = next_timer w"
    using add by (auto simp: iom_addTimer_def Let_def t onTimerInsertedAtFront_def)
  show "a = next_timer w" by (rule a)
  show "rt_inv w1" using inv ti ts unfolding rt_inv_def w by auto
  show "a \<in> set (m_timers (io_timers (iom w1)))"
    "timer_at (io_timers (iom w1)) a = Timer_ctor ms (Some cb) False now"
    "set (m_timers (io_timers (iom w1))) = insert a (set (m_timers (io_timers (iom w))))"
    using ts by (simp_all add: w a)
  show "w1 = w\<lparr>iom := iom w1, next_timer := Suc a\<rparr>" by (simp add: w a)
  show "io_sched (iom w1) = io_sched (iom w)" "ctx_heap (iom w1) = ctx_heap (iom w)"
    "m_fdContexts (iom w1) = m_fdContexts (iom w)"
    "m_pendingEventCount (iom w1) = m_pendingEventCount (iom w)"
    by (simp_all add: w)
qed

lemma cancel_timer_ok:
  assumes "rt_inv w"
  shows "rt_inv (cancel_timer timer w)"
    and "set (m_timers (io_timers (iom (cancel_timer timer w)))) =
      set (m_timers (io_timers (iom w))) - set_option timer"
  using assms timer_inv_cancel [of "io_timers (iom w)"] cancel_timers [of "io_timers (iom w)"]
  by (auto simp: rt_inv_def cancel_timer_def split: option.splits)

lemma cancel_timer_frame [simp]:
  "ti_alive (cancel_timer timer w) = ti_alive w" "ti_cancelled (cancel_timer timer w) = ti_cancelled w"
  "errno (cancel_timer timer w) = errno w" "fdmgr (cancel_timer timer w) = fdmgr w"
  "t_iom (cancel_timer timer w) = t_iom w" "next_timer (cancel_timer timer w) = next_timer w"
  "io_sched (iom (cancel_timer timer w)) = io_sched (iom w)"
  "ctx_heap (iom (cancel_timer timer w)) = ctx_heap (iom w)"
  "m_fdContexts (iom (cancel_timer timer w)) = m_fdContexts (iom w)"
  by (simp_all add: cancel_timer_def split: option.splits)

section \<open>One attempt\<close>

lemma retry_eintr_skip:
  "\<exists>v. retry_eintr w (replicate k (-1, EINTR) @ rs) = retry_eintr (w\<lparr>errno := v\<rparr>) rs \<and> (k = 0 \<longrightarrow> v = errno w)"
proof (induction k arbitrary: w)
  case (Suc k)
  from Suc [of "w\<lparr>errno := EINTR\<rparr>"] show ?case by (auto simp: call_f_def)
next
  case 0
  show ?case by (intro exI [of _ "errno w"]) simp
qed

lemma retry_eintr_stop:
  "(n, e) \<noteq> (-1, EINTR) \<Longrightarrow> retry_eintr w ((n, e) # rs) = Some (fst (call_f w (n, e)), n, rs)"
  by (auto simp: call_f_def split: if_splits)

lemma arm_timeout_ok:
  assumes inv: "rt_inv w" and arm: "arm_timeout w fd event timeout t now = (w1, timer)"
  shows "rt_inv w1" and "timer = (if timeout = - 1 then None else Some (next_timer w))"
    and "timer = Some a \<Longrightarrow> a \<in> set (m_timers (io_timers (iom w1))) \<and>
      timer_at (io_timers (iom w1)) a =
        Timer_ctor timeout (Some (OnTimerCb t (CancelEventCb t fd event))) False now"
    and "w1 = w\<lparr>iom := iom w1, next_timer := next_timer w1\<rparr>"
    and "io_sched (iom w1) = io_sched (iom w)" and "ctx_heap (iom w1) = ctx_heap (iom w)"
    and "m_fdContexts (iom w1) = m_fdContexts (iom w)"
    and "set (m_timers (io_timers (iom w1))) - set_option timer = set (m_timers (io_timers (iom w)))"
proof -
  obtain w2 b where b: "iom_addTimer w timeout (OnTimerCb t (CancelEventCb t fd event)) now = (w2, b)"
    by fastforce
  note A = iom_addTimer_ok [OF inv b]
  have c: "timeout = - 1 \<and> w1 = w \<and> timer = None \<or> timeout \<noteq> - 1 \<and> w1 = w2 \<and> timer = Some b"
    using arm by (auto simp: arm_timeout_def iom_addConditionTimer_def b split: if_splits)
  then show "rt_inv w1" "timer = (if timeout = - 1 then None else Some (next_timer w))"
    "io_sched (iom w1) = io_sched (iom w)" "ctx_heap (iom w1) = ctx_heap (iom w)"
    "m_fdContexts (iom w1) = m_fdContexts (iom w)"
    using inv A(1,2,6-8) by auto
  have "next_timer w \<notin> set (m_timers (io_timers (iom w)))" using inv by (auto simp: rt_inv_def)
  then show "set (m_timers (io_timers (iom w1))) - set_option timer = set (m_timers (io_timers (iom w)))"
    using c A(2,10) by auto
  have n: "next_timer w2 = Suc b" by (subst A(5)) simp
  show "w1 = w\<lparr>iom := iom w1, next_timer := next_timer w1\<rparr>"
    using c
  proof (elim disjE conjE)
    assume "w1 = w2"
    show ?thesis unfolding \<open>w1 = w2\<close> n by (rule A(5))
  qed simp
  show "timer = Some a \<Longrightarrow> a \<in> set (m_timers (io_timers (iom w1))) \<and>
      timer_at (io_timers (iom w1)) a =
        Timer_ctor timeout (Some (OnTimerCb t (CancelEventCb t fd event))) False now"
    using c A(3,4) by auto
qed

text \<open>The event of a descriptor is registered with this fiber as its continuation.\<close>

definition waits_for :: "IOManager \<Rightarrow> int \<Rightarrow> u32 \<Rightarrow> fid \<Rightarrow> bool" where
  "waits_for s fd event f \<longleftrightarrow>
     (\<exists>a. lookup_ctx s fd = Inr (Some a) \<and> fc_events (ctx_heap s a) AND event \<noteq> 0 \<and>
        continuation (slot_of (ctx_heap s a) (slot_for event)) = FiberPtr (Some f))"

lemma addEvent_errno:
  "0 \<le> fd \<Longrightarrow> addEvent_errno s fd event rt e = (if is_registered s fd event \<or> rt = 0 then e else rt)"
  by (auto simp: addEvent_errno_def is_registered_def Let_def split: sum.split option.split)

lemma register_wait_ok:
  assumes inv: "rt_inv w" and ev: "event \<in> {READ, WRITE}" and fd: "0 \<le> fd"
  obtains w1 where
    "register_wait w fd event timer cur rt = Inr (w1,
      if \<not> is_registered (iom w) fd event \<and> rt = 0 then Waiting timer else Returned (-1))"
    "rt_inv w1" "w1 = w\<lparr>iom := iom w1, errno := errno w1\<rparr>" "io_sched (iom w1) = io_sched (iom w)"
    "errno w1 = (if is_registered (iom w) fd event \<or> rt = 0 then errno w else rt)"
    "\<not> is_registered (iom w) fd event \<and> rt = 0 \<Longrightarrow>
      waits_for (iom w1) fd event cur \<and> io_timers (iom w1) = io_timers (iom w)"
    "\<not> (\<not> is_registered (iom w) fd event \<and> rt = 0) \<Longrightarrow>
      set (m_timers (io_timers (iom w1))) = set (m_timers (io_timers (iom w))) - set_option timer"
proof -
  have io: "io_inv (iom w)" using inv by (simp add: rt_inv_def)
  obtain m where m: "addEvent (iom w) fd event None cur rt =
      Inr (m, \<not> is_registered (iom w) fd event \<and> rt = 0)"
    using addEvent_result [OF io ev fd] by blast
  with addEvent_ok [OF io ev fd, of None cur rt] have m2: "io_inv m" "io_sched m = io_sched (iom w)"
    "io_timers m = io_timers (iom w)"
    "\<not> is_registered (iom w) fd event \<and> rt = 0 \<longrightarrow>
      nat fd < length (m_fdContexts m) \<and> fc_events (ctx_heap m (m_fdContexts m ! nat fd)) AND event \<noteq> 0 \<and>
      continuation (slot_of (ctx_heap m (m_fdContexts m ! nat fd)) (slot_for event)) = FiberPtr (Some cur)"
    by auto
  have i: "rt_inv (w\<lparr>iom := m\<rparr>)" using inv m2(1,3) by (simp add: rt_inv_def)
  show ?thesis
  proof (cases "\<not> is_registered (iom w) fd event \<and> rt = 0")
    case True
    then have "lookup_ctx m fd = Inr (Some (m_fdContexts m ! nat fd))"
      using m2(4) fd by (auto simp: lookup_ctx_def)
    with True m2(4) have "waits_for m fd event cur" by (auto simp: waits_for_def)
    with True show ?thesis using m m2(2,3) i
      by (intro that [of "w\<lparr>iom := m\<rparr>"]) (simp_all add: register_wait_def)
  next
    case False
    let ?w = "w\<lparr>iom := m, errno := addEvent_errno (iom w) fd event rt (errno w)\<rparr>"
    have e: "cancel_timer timer ?w = w\<lparr>iom := iom (cancel_timer timer ?w), errno := errno ?w\<rparr>"
      by (simp add: cancel_timer_def split: option.split)
    have iw: "rt_inv ?w" using i by (simp add: rt_inv_def)
    show ?thesis
    proof (rule that [of "cancel_timer timer ?w"])
      show "register_wait w fd event timer cur rt = Inr (cancel_timer timer ?w,
        if \<not> is_registered (iom w) fd event \<and> rt = 0 then Waiting timer else Returned (-1))"
        using m False by (auto simp: register_wait_def Let_def)
      show "cancel_timer timer ?w = w\<lparr>iom := iom (cancel_timer timer ?w), errno := errno (cancel_timer timer ?w)\<rparr>"
        by (subst e) simp
    qed (use cancel_timer_ok [OF iw] False m2(2,3) fd in \<open>auto simp: addEvent_errno\<close>)
  qed
qed

section \<open>What a hooked call returns\<close>

text \<open>The state of a call that waits: registered, and with its timeout armed if it has one.\<close>

definition suspended ::
    "Runtime \<Rightarrow> int \<Rightarrow> u32 \<Rightarrow> u64 \<Rightarrow> nat \<Rightarrow> nat option \<Rightarrow> fid \<Rightarrow> int \<Rightarrow> bool" where
  "suspended w fd event timeout t timer cur now \<longleftrightarrow>
     rt_inv w \<and> waits_for (iom w) fd event cur \<and> ti_alive w t \<and> ti_cancelled w t = 0 \<and>
     (case timer of
        None \<Rightarrow> timeout = - 1
      | Some a \<Rightarrow> timeout \<noteq> - 1 \<and> a \<in> set (m_timers (io_timers (iom w))) \<and>
          timer_at (io_timers (iom w)) a =
            Timer_ctor timeout (Some (OnTimerCb t (CancelEventCb t fd event))) False now)"

lemma rt_inv_frame:
  "rt_inv w \<Longrightarrow> iom w1 = iom w \<Longrightarrow> fdmgr w1 = fdmgr w \<Longrightarrow> next_timer w1 = next_timer w \<Longrightarrow> rt_inv w1"
  by (simp add: rt_inv_def)

lemma attempt_again:
  assumes inv: "rt_inv w" and io: "t_iom w" and ev: "event \<in> {READ, WRITE}" and fd: "0 \<le> fd"
    and ti: "ti_alive w t" "ti_cancelled w t = 0"
    and rs: "retry_eintr w rs = Some (w1, -1, rs1)" "errno w1 = EAGAIN"
      "w1 = w\<lparr>errno := errno w1\<rparr>"
  obtains w2 timer where
    "do_io_attempt w rs fd event timeout t cur now rt = Some (Inr (w2, rs1,
      if \<not> is_registered (iom w) fd event \<and> rt = 0 then Waiting timer else Returned (-1)))"
    "rt_inv w2" "io_sched (iom w2) = io_sched (iom w)"
    "errno w2 = (if is_registered (iom w) fd event \<or> rt = 0 then EAGAIN else rt)"
    "\<not> is_registered (iom w) fd event \<and> rt = 0 \<Longrightarrow> suspended w2 fd event timeout t timer cur now"
    "\<not> (\<not> is_registered (iom w) fd event \<and> rt = 0) \<Longrightarrow>
      set (m_timers (io_timers (iom w2))) = set (m_timers (io_timers (iom w)))"
proof -
  have f: "iom w1 = iom w" "fdmgr w1 = fdmgr w" "next_timer w1 = next_timer w" "t_iom w1 = t_iom w"
    "ti_alive w1 = ti_alive w" "ti_cancelled w1 = ti_cancelled w"
    by (subst rs(3), simp)+
  have i1: "rt_inv w1" by (rule rt_inv_frame [OF inv f(1-3)])
  obtain w2 timer where arm: "arm_timeout w1 fd event timeout t now = (w2, timer)" by fastforce
  note A = arm_timeout_ok [OF i1 arm]
  have reg: "is_registered (iom w2) fd event = is_registered (iom w) fd event"
    using A(6,7) f(1) by (simp add: is_registered_def lookup_ctx_def)
  have e2: "errno w2 = EAGAIN" "ti_alive w2 = ti_alive w" "ti_cancelled w2 = ti_cancelled w"
    by (subst A(4), simp add: rs(2) f)+
  obtain w3 where w3: "register_wait w2 fd event timer cur rt = Inr (w3,
      if \<not> is_registered (iom w) fd event \<and> rt = 0 then Waiting timer else Returned (-1))"
    "rt_inv w3" "w3 = w2\<lparr>iom := iom w3, errno := errno w3\<rparr>" "io_sched (iom w3) = io_sched (iom w2)"
    "errno w3 = (if is_registered (iom w) fd event \<or> rt = 0 then errno w2 else rt)"
    "\<not> is_registered (iom w) fd event \<and> rt = 0 \<Longrightarrow>
      waits_for (iom w3) fd event cur \<and> io_timers (iom w3) = io_timers (iom w2)"
    "\<not> (\<not> is_registered (iom w) fd event \<and> rt = 0) \<Longrightarrow>
      set (m_timers (io_timers (iom w3))) = set (m_timers (io_timers (iom w2))) - set_option timer"
    using register_wait_ok [OF A(1) ev fd, of timer cur rt, unfolded reg] by metis
  have e3: "ti_alive w3 = ti_alive w" "ti_cancelled w3 = ti_cancelled w"
    by (subst w3(3), simp add: e2)+
  show ?thesis
  proof (rule that [of w3 timer])
    show "do_io_attempt w rs fd event timeout t cur now rt = Some (Inr (w3, rs1,
      if \<not> is_registered (iom w) fd event \<and> rt = 0 then Waiting timer else Returned (-1)))"
      using rs(1,2) io f(4) arm w3(1) by (simp add: do_io_attempt_def)
    show "suspended w3 fd event timeout t timer cur now"
      if "\<not> is_registered (iom w) fd event \<and> rt = 0"
      using w3(2,6) e3 ti that A(2,3) by (auto simp: suspended_def split: option.split)
  qed (use w3(2,4,5,7) e2 A(5,8) f(1) in auto)
qed

lemma retry_eintr_errno: "retry_eintr w rs = Some (w1, n, rs1) \<Longrightarrow> w1 = w\<lparr>errno := errno w1\<rparr>"
proof (induction w rs rule: retry_eintr.induct)
  case (2 w r rs)
  obtain w' n' where c: "call_f w r = (w', n')" by fastforce
  then have w': "w' = w\<lparr>errno := errno w'\<rparr>" by (auto simp: call_f_def split: if_splits)
  show ?case
  proof (cases "n' = -1 \<and> errno w' = EINTR")
    case True
    with 2 c have "w1 = w'\<lparr>errno := errno w1\<rparr>" by simp
    then show ?thesis by (subst (asm) w') simp
  next
    case False
    with 2(2) c have "w1 = w'" by auto
    with w' show ?thesis by simp
  qed
qed simp

lemma call_errno: "call_f w r = (w1, n) \<Longrightarrow> n = -1 \<Longrightarrow> errno w1 = snd r"
  by (auto simp: call_f_def split: if_splits)

lemma new_tinfo_ok:
  assumes "rt_inv w" and "new_tinfo w = (w1, t)"
  shows "rt_inv w1" and "t = ti_count w" and "ti_alive w1 t" and "ti_cancelled w1 t = 0"
    and "iom w1 = iom w" and "fdmgr w1 = fdmgr w" and "t_iom w1 = t_iom w" and "errno w1 = errno w"
  using assms by (auto simp: new_tinfo_def Let_def rt_inv_def)

text \<open>
  Property C13. A hooked call on a blocking socket repeats the original call while a signal
  interrupts it, however often, and returns its first other result with its \<^verbatim>\<open>errno\<close>, leaving
  the manager alone, unless that is \<^verbatim>\<open>EAGAIN\<close>; then the fiber yields with the event
  registered for it and, if the descriptor has a timeout, a one-shot timer armed for exactly
  that long, nothing being scheduled. If the event cannot be registered the caller gets \<open>-1\<close>
  and no timer stays behind; \<^verbatim>\<open>errno\<close> is still \<^verbatim>\<open>EAGAIN\<close> when another fiber waits for the
  event, and the error of \<^verbatim>\<open>epoll_ctl\<close> when that was what failed.
\<close>

theorem do_io_outcome:
  assumes "rt_inv w" and "t_iom w" and "do_io_guard w fd timeout_so = Hooked timeout"
    and "event \<in> {READ, WRITE}" and "0 \<le> fd" and "(n, e) \<noteq> (-1, EINTR)"
  shows "\<exists>w1 p. do_io w (replicate k (-1, EINTR) @ (n, e) # rs) fd event timeout_so cur now rt =
      Some (Inr (w1, rs, p)) \<and> rt_inv w1 \<and> io_sched (iom w1) = io_sched (iom w) \<and>
    ((n, e) \<noteq> (-1, EAGAIN) \<longrightarrow> p = Returned n \<and> (n = -1 \<longrightarrow> errno w1 = e) \<and>
      iom w1 = iom w \<and> fdmgr w1 = fdmgr w) \<and>
    ((n, e) = (-1, EAGAIN) \<and> \<not> is_registered (iom w) fd event \<and> rt = 0 \<longrightarrow>
      (\<exists>timer. p = Waiting timer \<and> suspended w1 fd event timeout (ti_count w) timer cur now)) \<and>
    ((n, e) = (-1, EAGAIN) \<and> (is_registered (iom w) fd event \<or> rt \<noteq> 0) \<longrightarrow>
      p = Returned (-1) \<and> errno w1 = (if is_registered (iom w) fd event then EAGAIN else rt) \<and>
      set (m_timers (io_timers (iom w1))) = set (m_timers (io_timers (iom w))))"
proof -
  let ?rs = "replicate k (-1, EINTR) @ (n, e) # rs"
  obtain w0 t where t: "new_tinfo w = (w0, t)" by fastforce
  note T = new_tinfo_ok [OF assms(1) t]
  from retry_eintr_skip [of w0 k "(n, e) # rs"] obtain v where
    "retry_eintr w0 ?rs = Some (fst (call_f (w0\<lparr>errno := v\<rparr>) (n, e)), n, rs)"
    using retry_eintr_stop [OF assms(6)] by metis
  then obtain w2 where w2: "retry_eintr w0 ?rs = Some (w2, n, rs)" "n = -1 \<longrightarrow> errno w2 = e"
    by (auto simp: call_f_def split: if_splits)
  note e2 = retry_eintr_errno [OF w2(1)]
  have f2: "iom w2 = iom w" "fdmgr w2 = fdmgr w" "rt_inv w2"
    by (subst e2, simp add: T(5,6)) (subst e2, simp add: T(5,6), subst e2, use T(1) in \<open>simp add: rt_inv_def\<close>)
  have d: "do_io w ?rs fd event timeout_so cur now rt =
      leave t (do_io_attempt w0 ?rs fd event timeout t cur now rt)"
    by (simp add: do_io_def assms(3) t)
  have nt: "next_timer w0 = next_timer w" using t by (auto simp: new_tinfo_def Let_def)
  show ?thesis
  proof (cases "(n, e) = (-1, EAGAIN)")
    case False
    have "do_io_attempt w0 ?rs fd event timeout t cur now rt = Some (Inr (w2, rs, Returned n))"
      using w2 False by (auto simp: do_io_attempt_def)
    with d have "do_io w ?rs fd event timeout_so cur now rt = Some (Inr (drop_tinfo t w2, rs, Returned n))"
      by (simp add: leave_def)
    then show ?thesis using False w2(2) f2
      by (intro exI [of _ "drop_tinfo t w2"] exI [of _ "Returned n"]) (auto simp: drop_tinfo_def rt_inv_def)
  next
    case True
    with w2 have r: "retry_eintr w0 ?rs = Some (w2, -1, rs)" "errno w2 = EAGAIN" by simp_all
    have io0: "t_iom w0" using T(7) assms(2) by simp
    note ag = attempt_again [OF T(1) io0 assms(4,5) T(3,4) r e2, of timeout cur now rt]
    obtain w3 timer where w3: "do_io_attempt w0 ?rs fd event timeout t cur now rt = Some (Inr (w3, rs,
        if \<not> is_registered (iom w) fd event \<and> rt = 0 then Waiting timer else Returned (-1)))"
      "rt_inv w3" "io_sched (iom w3) = io_sched (iom w)"
      "errno w3 = (if is_registered (iom w) fd event \<or> rt = 0 then EAGAIN else rt)"
      "\<not> is_registered (iom w) fd event \<and> rt = 0 \<longrightarrow> suspended w3 fd event timeout t timer cur now"
      "\<not> (\<not> is_registered (iom w) fd event \<and> rt = 0) \<longrightarrow>
        set (m_timers (io_timers (iom w3))) = set (m_timers (io_timers (iom w)))"
      by (rule ag [unfolded T(5)]) (rule that, assumption+, simp_all)
    show ?thesis
    proof (cases "\<not> is_registered (iom w) fd event \<and> rt = 0")
      case reg: True
      then have "do_io w ?rs fd event timeout_so cur now rt = Some (Inr (w3, rs, Waiting timer))"
        using d w3(1) by (simp add: leave_def)
      with reg True w3(2,3,5) T(2) show ?thesis
        by (intro exI [of _ w3] exI [of _ "Waiting timer"]) simp
    next
      case reg: False
      then have "do_io w ?rs fd event timeout_so cur now rt = Some (Inr (drop_tinfo t w3, rs, Returned (-1)))"
        using d w3(1) by (auto simp: leave_def)
      with reg True w3(2-4,6) show ?thesis
        by (intro exI [of _ "drop_tinfo t w3"] exI [of _ "Returned (-1)"]) (auto simp: drop_tinfo_def rt_inv_def)
    qed
  qed
qed

section \<open>Timeouts\<close>

lemma cancelEvent_timers: "cancelEvent s fd event rt = Inr (s', b) \<Longrightarrow> io_timers s' = io_timers s"
  by (auto simp: cancelEvent_def cancelEvent_at_def trigger_at_def Let_def split: sum.splits option.splits if_splits)

abbreviation timeout_cb :: "nat \<Rightarrow> int \<Rightarrow> u32 \<Rightarrow> callback" where
  "timeout_cb t fd event \<equiv> OnTimerCb t (CancelEventCb t fd event)"

text \<open>The timeout callback does nothing once the call has returned or a timeout was noted.\<close>

lemma timeout_cb_idle:
  "\<not> ti_alive w t \<or> ti_cancelled w t \<noteq> 0 \<Longrightarrow> run_cb user rt w (timeout_cb t fd event) = Inr w"
  by auto

text \<open>It wakes exactly the fiber that waits, and notes the timeout for it.\<close>

lemma timeout_cb_wakes:
  assumes inv: "rt_inv w" and ev: "event \<in> {READ, WRITE}" and fd: "0 \<le> fd"
    and wait: "waits_for (iom w) fd event f" and ti: "ti_alive w t" "ti_cancelled w t = 0"
  obtains w2 where "run_cb user 0 w (timeout_cb t fd event) = Inr w2" "rt_inv w2"
    "io_sched (iom w2) = fst (scheduleLock (io_sched (iom w)) (FiberPtr (Some f)) (-1))"
    "\<not> is_registered (iom w2) fd event" "ti_cancelled w2 t = ETIMEDOUT"
    "io_timers (iom w2) = io_timers (iom w)"
proof -
  have io: "io_inv (iom w)" using inv by (simp add: rt_inv_def)
  from wait obtain a where a: "lookup_ctx (iom w) fd = Inr (Some a)"
    "fc_events (ctx_heap (iom w) a) AND event \<noteq> 0"
    "continuation (slot_of (ctx_heap (iom w) a) (slot_for event)) = FiberPtr (Some f)"
    by (auto simp: waits_for_def)
  note L = lookup_ctxD [OF io a(1)]
  obtain m b where m: "cancelEvent (iom w) fd event 0 = Inr (m, b)" "io_inv m"
    "b \<longrightarrow> m_fdContexts m = m_fdContexts (iom w) \<and>
      fc_events (ctx_heap m a) = fc_events (ctx_heap (iom w) a) AND NOT event \<and>
      io_sched m = fst (scheduleLock (io_sched (iom w)) (FiberPtr (Some f)) (-1))"
    using cancelEvent_ok [OF io ev fd, of 0] a(3) unfolding L(6) by auto
  have b: "b" using m(1) a(1,2) by (auto simp: cancelEvent_def cancelEvent_at_def Let_def split: sum.splits)
  have "lookup_ctx m fd = Inr (Some a)" using a(1) m(3) b lookup_ctx_vec [of m "iom w"] by simp
  then have u: "\<not> is_registered m fd event" using m(3) b by (simp add: is_registered_def and_not_self)
  let ?w2 = "w\<lparr>ti_cancelled := (ti_cancelled w)(t := ETIMEDOUT), iom := m\<rparr>"
  have "run_cb user 0 w (timeout_cb t fd event) = Inr ?w2" using ti m(1) by simp
  moreover have "rt_inv ?w2" using inv m(2) cancelEvent_timers [OF m(1)] by (simp add: rt_inv_def)
  ultimately show ?thesis using m(3) b u cancelEvent_timers [OF m(1)] by (intro that [of ?w2]) simp_all
qed

text \<open>The timer of a call expires: the manager hands its callback out, and it is pending no more.\<close>

lemma timeout_expires:
  assumes sane: "timer_sane clk (io_timers (iom w))" "clk \<le> n'" and inv: "rt_inv w"
    and a: "a \<in> set (m_timers (io_timers (iom w)))"
      "timer_at (io_timers (iom w)) a = Timer_ctor timeout (Some cb) False now"
    and due: "now + milliseconds timeout \<le> n"
  obtains ts cbs where "listExpiredCb (io_timers (iom w)) n n' = Some (ts, cbs)" "Some cb \<in> set cbs"
    "rt_inv (w\<lparr>iom := (iom w)\<lparr>io_timers := ts\<rparr>\<rparr>)" "a \<notin> set (m_timers ts)"
proof -
  let ?t = "io_timers (iom w)"
  obtain ts where ts: "listExpiredCb ?t n n' = Some (ts, map (\<lambda>a. m_cb (timer_at ?t a)) (due_timers False n ?t))"
    "timer_inv ts"
    "set (m_timers ts) = {a \<in> set (m_timers ?t). n < m_next (timer_at ?t a) \<or> m_recurring (timer_at ?t a)}"
    using listExpired_spec [OF sane, of n] by blast
  have "a \<in> set (due_timers False n ?t)"
    using due_in_order [OF timer_saneD(1) [OF sane(1)], of n] a due by (simp add: Timer_ctor_def)
  then have "Some cb \<in> set (map (\<lambda>a. m_cb (timer_at ?t a)) (due_timers False n ?t))"
    using a(2) by (force simp: Timer_ctor_def)
  moreover have "a \<notin> set (m_timers ts)" using ts(3) a(2) due by (simp add: Timer_ctor_def)
  moreover have "rt_inv (w\<lparr>iom := (iom w)\<lparr>io_timers := ts\<rparr>\<rparr>)"
    using inv ts(2,3) by (simp add: rt_inv_def)
  ultimately show ?thesis using that [OF ts(1)] by blast
qed

lemma waits_for_timers [simp]:
  "waits_for (m\<lparr>io_timers := ts\<rparr>) fd event f = waits_for m fd event f"
  "is_registered (m\<lparr>io_timers := ts\<rparr>) fd event = is_registered m fd event"
  by (simp_all add: waits_for_def is_registered_def lookup_ctx_def)

lemma resume_timed_out:
  "ti_cancelled w t = ETIMEDOUT \<Longrightarrow>
    do_io_resume w rs fd event timeout t timer cur now rt =
      Some (Inr (drop_tinfo t ((cancel_timer timer w)\<lparr>errno := ETIMEDOUT\<rparr>), rs, Returned (-1)))"
  by (simp add: do_io_resume_def Let_def fail_def leave_def)

text \<open>
  Property C32. A call that waits with a timeout gives up when the timeout has passed: from then
  on \<^verbatim>\<open>listExpiredCb\<close> hands out its callback; run, the callback schedules exactly the waiting
  fiber and takes the event off; and the resumed call returns \<open>-1\<close> with \<^verbatim>\<open>ETIMEDOUT\<close>,
  its timer gone. A second, late run of the callback does nothing.
\<close>

theorem do_io_timeout:
  assumes "suspended w fd event timeout t (Some a) cur now0" and "event \<in> {READ, WRITE}" and "0 \<le> fd"
    and "timer_sane clk (io_timers (iom w))" and "clk \<le> n'" and "now0 + milliseconds timeout \<le> n"
  shows "\<exists>ts cbs w2 w3. listExpiredCb (io_timers (iom w)) n n' = Some (ts, cbs) \<and>
    Some (timeout_cb t fd event) \<in> set cbs \<and>
    run_cb user 0 (w\<lparr>iom := (iom w)\<lparr>io_timers := ts\<rparr>\<rparr>) (timeout_cb t fd event) = Inr w2 \<and>
    io_sched (iom w2) = fst (scheduleLock (io_sched (iom w)) (FiberPtr (Some cur)) (-1)) \<and>
    \<not> is_registered (iom w2) fd event \<and>
    do_io_resume w2 rs fd event timeout t (Some a) cur now rt = Some (Inr (w3, rs, Returned (-1))) \<and>
    errno w3 = ETIMEDOUT \<and> a \<notin> set (m_timers (io_timers (iom w3))) \<and>
    (\<forall>rt2. run_cb user rt2 w3 (timeout_cb t fd event) = Inr w3)"
proof -
  have s: "rt_inv w" "waits_for (iom w) fd event cur" "ti_alive w t" "ti_cancelled w t = 0"
    "a \<in> set (m_timers (io_timers (iom w)))"
    "timer_at (io_timers (iom w)) a = Timer_ctor timeout (Some (timeout_cb t fd event)) False now0"
    using assms(1) by (simp_all add: suspended_def)
  obtain ts cbs where ts: "listExpiredCb (io_timers (iom w)) n n' = Some (ts, cbs)"
    "Some (timeout_cb t fd event) \<in> set cbs" "rt_inv (w\<lparr>iom := (iom w)\<lparr>io_timers := ts\<rparr>\<rparr>)"
    "a \<notin> set (m_timers ts)"
    by (rule timeout_expires [OF assms(4,5) s(1,5,6) assms(6)])
  let ?w1 = "w\<lparr>iom := (iom w)\<lparr>io_timers := ts\<rparr>\<rparr>"
  have w1: "waits_for (iom ?w1) fd event cur" "ti_alive ?w1 t" "ti_cancelled ?w1 t = 0"
    using s(2-4) by simp_all
  obtain w2 where w2: "run_cb user 0 ?w1 (timeout_cb t fd event) = Inr w2" "rt_inv w2"
    "io_sched (iom w2) = fst (scheduleLock (io_sched (iom ?w1)) (FiberPtr (Some cur)) (-1))"
    "\<not> is_registered (iom w2) fd event" "ti_cancelled w2 t = ETIMEDOUT" "io_timers (iom w2) = ts"
    using timeout_cb_wakes [OF ts(3) assms(2,3) w1, of user] by auto
  let ?w3 = "drop_tinfo t ((cancel_timer (Some a) w2)\<lparr>errno := ETIMEDOUT\<rparr>)"
  have 3: "do_io_resume w2 rs fd event timeout t (Some a) cur now rt = Some (Inr (?w3, rs, Returned (-1)))"
    by (rule resume_timed_out [OF w2(5)])
  moreover have "a \<notin> set (m_timers (io_timers (iom ?w3)))"
    using cancel_timer_ok(2) [OF w2(2), of "Some a"] by (simp add: drop_tinfo_def)
  moreover have "run_cb user rt2 ?w3 (timeout_cb t fd event) = Inr ?w3" for rt2
    by (rule timeout_cb_idle) (simp add: drop_tinfo_def)
  moreover have "errno ?w3 = ETIMEDOUT" by (simp add: drop_tinfo_def)
  moreover have "io_sched (iom w2) = fst (scheduleLock (io_sched (iom w)) (FiberPtr (Some cur)) (-1))"
    using w2(3) by simp
  ultimately show ?thesis using ts(1,2) w2(1,4) by blast
qed

lemma cancelEvent_unregistered:
  assumes "io_inv m" and "event \<in> {READ, WRITE}" and "0 \<le> fd" and "\<not> is_registered m fd event"
  shows "cancelEvent m fd event rt = Inr (m, False)"
proof -
  from cancelEvent_ok [OF assms(1-3), of rt] obtain m1 b where
    m1: "cancelEvent m fd event rt = Inr (m1, b)" "\<not> b \<longrightarrow> m1 = m" by blast
  moreover have "\<not> b" using m1(1) assms(4)
    by (auto simp: cancelEvent_def cancelEvent_at_def is_registered_def Let_def split: sum.splits option.splits if_splits)
  ultimately show ?thesis by simp
qed

lemma register_wait_waits:
  assumes "rt_inv w" and "event \<in> {READ, WRITE}" and "0 \<le> fd" and "\<not> is_registered (iom w) fd event"
  obtains w1 where "register_wait w fd event timer cur 0 = Inr (w1, Waiting timer)" "rt_inv w1"
    "w1 = w\<lparr>iom := iom w1, errno := errno w1\<rparr>"
    "waits_for (iom w1) fd event cur" "io_timers (iom w1) = io_timers (iom w)"
proof (rule register_wait_ok [OF assms(1-3), of timer cur 0])
  have reg: "\<not> is_registered (iom w) fd event \<and> (0 :: int) = 0" using assms(4) by simp
  fix w1
  assume r: "register_wait w fd event timer cur 0 = Inr (w1,
      if \<not> is_registered (iom w) fd event \<and> (0 :: int) = 0 then Waiting timer else Returned (-1))"
    and i: "rt_inv w1" and e: "w1 = w\<lparr>iom := iom w1, errno := errno w1\<rparr>"
    and wf: "\<not> is_registered (iom w) fd event \<and> (0 :: int) = 0 \<Longrightarrow>
      waits_for (iom w1) fd event cur \<and> io_timers (iom w1) = io_timers (iom w)"
  show thesis
    by (rule that [OF _ i e conjunct1 [OF wf [OF reg]] conjunct2 [OF wf [OF reg]]])
      (use r reg in \<open>simp only: if_True simp_thms\<close>)
qed

text \<open>
  Property C33. The timeout is lost when the timer fires between arming and registration: another
  thread runs the callback, which notes the timeout but finds no event to cancel and wakes
  nobody; the fiber then registers and yields with no timer pending, and running the
  callback again does nothing. Only readiness of the descriptor can wake it.
\<close>

theorem do_io_timeout_race:
  assumes "rt_inv w" and "event \<in> {READ, WRITE}" and "0 \<le> fd" and "\<not> is_registered (iom w) fd event"
    and "ti_alive w t" and "ti_cancelled w t = 0" and "arm_timeout w fd event timeout t now = (w1, Some a)"
    and "timer_sane clk (io_timers (iom w1))" and "clk \<le> n'" and "now + milliseconds timeout \<le> n"
  shows "\<exists>ts cbs w2 w3. listExpiredCb (io_timers (iom w1)) n n' = Some (ts, cbs) \<and>
    Some (timeout_cb t fd event) \<in> set cbs \<and>
    run_cb user rt (w1\<lparr>iom := (iom w1)\<lparr>io_timers := ts\<rparr>\<rparr>) (timeout_cb t fd event) = Inr w2 \<and>
    io_sched (iom w2) = io_sched (iom w) \<and>
    register_wait w2 fd event (Some a) cur 0 = Inr (w3, Waiting (Some a)) \<and>
    waits_for (iom w3) fd event cur \<and> a \<notin> set (m_timers (io_timers (iom w3))) \<and>
    (\<forall>rt2. run_cb user rt2 w3 (timeout_cb t fd event) = Inr w3)"
proof -
  note A = arm_timeout_ok [OF assms(1,7)]
  have a: "a \<in> set (m_timers (io_timers (iom w1)))"
    "timer_at (io_timers (iom w1)) a = Timer_ctor timeout (Some (timeout_cb t fd event)) False now"
    using A(3) by simp_all
  obtain ts cbs where ts: "listExpiredCb (io_timers (iom w1)) n n' = Some (ts, cbs)"
    "Some (timeout_cb t fd event) \<in> set cbs" "rt_inv (w1\<lparr>iom := (iom w1)\<lparr>io_timers := ts\<rparr>\<rparr>)"
    "a \<notin> set (m_timers ts)"
    by (rule timeout_expires [OF assms(8,9) A(1) a assms(10)])
  let ?v = "w1\<lparr>iom := (iom w1)\<lparr>io_timers := ts\<rparr>\<rparr>"
  have ti: "ti_alive w1 t" "ti_cancelled w1 t = 0" by (subst A(4), use assms(5,6) in simp)+
  have reg: "\<not> is_registered (iom ?v) fd event"
    using assms(4) A(6,7) by (simp add: is_registered_def lookup_ctx_def)
  have vinv: "io_inv (iom ?v)" using ts(3) by (simp add: rt_inv_def)
  have c: "cancelEvent (iom ?v) fd event rt = Inr (iom ?v, False)"
    by (rule cancelEvent_unregistered [OF vinv assms(2,3) reg])
  let ?w2 = "?v\<lparr>ti_cancelled := (ti_cancelled ?v)(t := ETIMEDOUT)\<rparr>"
  have r2: "run_cb user rt ?v (timeout_cb t fd event) = Inr ?w2" using ti c by simp
  have i2: "rt_inv ?w2" using ts(3) by (simp add: rt_inv_def)
  have reg2: "\<not> is_registered (iom ?w2) fd event" using reg by simp
  obtain w3 where w3: "register_wait ?w2 fd event (Some a) cur 0 = Inr (w3, Waiting (Some a))" "rt_inv w3"
    "w3 = ?w2\<lparr>iom := iom w3, errno := errno w3\<rparr>" "waits_for (iom w3) fd event cur" "io_timers (iom w3) = io_timers (iom ?w2)"
    by (rule register_wait_waits [OF i2 assms(2,3) reg2])
  have "ti_cancelled w3 t = ETIMEDOUT" by (subst w3(3)) simp
  then have "\<forall>rt2. run_cb user rt2 w3 (timeout_cb t fd event) = Inr w3"
    by (intro allI timeout_cb_idle) (simp add: errno_defs)
  moreover have "io_sched (iom ?w2) = io_sched (iom w)" using A(5) by simp
  moreover have "a \<notin> set (m_timers (io_timers (iom w3)))" using w3(5) ts(4) by simp
  ultimately show ?thesis using ts(1,2) r2 w3(1,4) by blast
qed

section \<open>Sleeping\<close>

lemma sint_ucast_u32: "sint (ucast (x :: u32) :: u64) = uint x"
proof -
  have "uint x < 2 ^ 32" using unsigned_less [of x] by simp
  moreover from this have "uint (ucast x :: u64) = uint x" by (simp add: unsigned_ucast_eq take_bit_int_eq_self)
  moreover have "signed_take_bit 63 (uint x) = uint x"
  proof (rule signed_take_bit_int_eq_self)
    show "- (2 ^ 63) \<le> uint x" by (rule order_trans [of _ 0]) simp_all
  qed (use \<open>uint x < 2 ^ 32\<close> in simp)
  ultimately show ?thesis by (simp add: sint_uint)
qed

lemma milliseconds_small: "0 \<le> x \<Longrightarrow> x < 2 ^ 63 \<Longrightarrow> milliseconds (word_of_int x) = x * 1000000"
  by (simp add: milliseconds_def sint_uint uint_word_of_int signed_take_bit_int_eq_self)

lemma sdiv_pos: "0 \<le> x \<Longrightarrow> 0 < y \<Longrightarrow> x sdiv y = x div (y :: int)"
  by (auto simp: signed_divide_int_def sgn_if)

text \<open>A fiber sleeps on a one-shot timer that wakes it at the deadline.\<close>

definition asleep_until :: "Runtime \<Rightarrow> nat \<Rightarrow> fid \<Rightarrow> int \<Rightarrow> bool" where
  "asleep_until w a f deadline \<longleftrightarrow> a \<in> set (m_timers (io_timers (iom w))) \<and>
     m_cb (timer_at (io_timers (iom w)) a) = Some (WakeFiberCb f) \<and>
     \<not> m_recurring (timer_at (io_timers (iom w)) a) \<and> m_next (timer_at (io_timers (iom w)) a) = deadline"

lemma add_wake_timer:
  assumes "rt_inv w"
  shows "\<exists>w1. iom_addTimer w ms (WakeFiberCb f) now = (w1, next_timer w) \<and> rt_inv w1 \<and>
    asleep_until w1 (next_timer w) f (now + milliseconds ms)"
proof -
  obtain w1 a where a: "iom_addTimer w ms (WakeFiberCb f) now = (w1, a)" by fastforce
  note A = iom_addTimer_ok [OF assms a]
  have "asleep_until w1 a f (now + milliseconds ms)"
    using A(3,4) by (simp add: asleep_until_def Timer_ctor_def)
  with A(1) a show ?thesis unfolding A(2) by blast
qed

lemma clock_range_u32:
  "0 \<le> now \<Longrightarrow> now < 2 ^ 62 \<Longrightarrow> 0 \<le> x \<Longrightarrow> x < 2 ^ 32 \<Longrightarrow> in_clock_range (now + x * 1000000)"
  by (simp add: in_clock_range_def)


section \<open>Options of a descriptor\<close>

text \<open>An open socket's context.\<close>

definition open_socket :: "Runtime \<Rightarrow> int \<Rightarrow> nat \<Rightarrow> bool" where
  "open_socket w fd a \<longleftrightarrow> get_ctx w fd = Some a \<and> \<not> m_isClosed (ctx_obj w a) \<and>
     m_isSocket (ctx_obj w a) \<and> m_sysNonblock (ctx_obj w a)"

lemma set_ctx_simps [simp]:
  "get_ctx (set_ctx a c w) fd = get_ctx w fd" "ctx_obj (set_ctx a c w) a = c"
  "t_hook_enable (set_ctx a c w) = t_hook_enable w" "iom (set_ctx a c w) = iom w"
  "t_iom (set_ctx a c w) = t_iom w"
  by (simp_all add: get_ctx_def set_ctx_def get_lookup_def too_short_def put_fdctx_def ctx_obj_def)

lemma or_nonblock: "(arg OR O_NONBLOCK) AND NOT O_NONBLOCK = (arg AND NOT O_NONBLOCK :: u32)"
  "arg AND O_NONBLOCK \<noteq> 0 \<Longrightarrow> arg OR O_NONBLOCK = arg"
  "arg AND O_NONBLOCK = 0 \<Longrightarrow> arg AND NOT O_NONBLOCK = (arg :: u32)"
proof -
  have p: "O_NONBLOCK = 2 ^ 11" by (simp add: O_NONBLOCK_def)
  have b: "bit O_NONBLOCK n \<longleftrightarrow> n = 11" if "n < 32" for n
    using that unfolding p bit_exp_iff by auto
  show "(arg OR O_NONBLOCK) AND NOT O_NONBLOCK = (arg AND NOT O_NONBLOCK :: u32)"
    by (rule bit_word_eqI) (auto simp: bit_simps)
  have 11: "arg AND O_NONBLOCK = 0 \<longleftrightarrow> \<not> bit arg 11"
    unfolding p by (rule and_exp_eq_0_iff_not_bit)
  show "arg OR O_NONBLOCK = arg" if "arg AND O_NONBLOCK \<noteq> 0"
    using that b by (intro bit_word_eqI) (auto simp: 11 bit_simps)
  show "arg AND NOT O_NONBLOCK = arg" if "arg AND O_NONBLOCK = 0"
    using that b by (intro bit_word_eqI) (auto simp: 11 bit_simps)
qed

text \<open>
  Property C35. The hooked \<^verbatim>\<open>fcntl\<close> gives back the flags it was given while the kernel's
  descriptor stays non-blocking: on a socket the kernel always gets the user's flags with
  \<^verbatim>\<open>O_NONBLOCK\<close> added, and a kernel that answers with what it got makes \<^verbatim>\<open>F_GETFL\<close> return
  exactly the user's flags. But the answer is masked even when it is the error \<open>-1\<close>: with a
  user-blocking socket the caller then sees \<open>-2049\<close>. The \<^verbatim>\<open>default\<close> branch drops the
  third argument of the commands it does not list.
\<close>

theorem fcntl_flags_roundtrip:
  assumes "open_socket w fd a" and "hook_fcntl k w fd (F_SETFL arg) = (w1, c1, r1)"
  shows "c1 = F_SETFL (arg OR O_NONBLOCK) \<and> r1 = k c1 \<and> open_socket w1 fd a \<and>
    (k1 F_GETFL = arg OR O_NONBLOCK \<longrightarrow> hook_fcntl k1 w1 fd F_GETFL = (w1, F_GETFL, arg)) \<and>
    (k2 F_GETFL = - 1 \<and> arg AND O_NONBLOCK = 0 \<longrightarrow>
      hook_fcntl k2 w1 fd F_GETFL = (w1, F_GETFL, - 2049)) \<and>
    fst (snd (hook_fcntl k w fd (Unlisted c (Some v)))) = Unlisted c None"
proof -
  let ?c = "(ctx_obj w a)\<lparr>m_userNonblock := (arg AND O_NONBLOCK \<noteq> 0)\<rparr>"
  have o: "get_ctx w fd = Some a" "\<not> m_isClosed (ctx_obj w a)" "m_isSocket (ctx_obj w a)"
    "m_sysNonblock (ctx_obj w a)" using assms(1) by (simp_all add: open_socket_def)
  have e: "w1 = set_ctx a ?c w" "c1 = F_SETFL (arg OR O_NONBLOCK)" "r1 = k c1"
    using assms(2) o by (auto simp: hook_fcntl_def Let_def)
  have m: "(- 1 :: u32) AND NOT O_NONBLOCK = - 2049" by (simp add: O_NONBLOCK_def)
  have "hook_fcntl k1 w1 fd F_GETFL = (w1, F_GETFL, arg)" if "k1 F_GETFL = arg OR O_NONBLOCK"
  proof (cases "arg AND O_NONBLOCK = 0")
    case True
    with that o show ?thesis by (simp add: hook_fcntl_def Let_def e(1) or_nonblock)
  next
    case False
    with that o show ?thesis by (simp add: hook_fcntl_def Let_def e(1) or_nonblock or.assoc)
  qed
  moreover have "hook_fcntl k2 w1 fd F_GETFL = (w1, F_GETFL, - 2049)"
    if "k2 F_GETFL = - 1 \<and> arg AND O_NONBLOCK = 0"
    using that o m by (simp add: hook_fcntl_def e(1))
  moreover have "open_socket w1 fd a" using o by (simp add: open_socket_def e(1))
  ultimately show ?thesis using e(2,3) by (simp add: hook_fcntl_def)
qed

text \<open>
  \<^verbatim>\<open>ioctl(FIONBIO)\<close>, unlike \<^verbatim>\<open>fcntl\<close>, hands the user's choice to the kernel
  unchanged: when it asks for blocking mode, the kernel's descriptor becomes blocking although the
  library still has it marked non-blocking, and the next hooked read or write goes through the
  waiting path with a call that blocks the worker thread.
\<close>

theorem ioctl_blocks_kernel:
  assumes "open_socket w fd a" and "t_hook_enable w" and "hook_ioctl w fd FIONBIO v = (w1, req, v1)"
  shows "req = FIONBIO \<and> v1 = v \<and> open_socket w1 fd a \<and>
    do_io_guard w1 fd so = (if v \<noteq> 0 then Passthrough else Hooked (getTimeout so (ctx_obj w a)))"
proof -
  let ?c = "(ctx_obj w a)\<lparr>m_userNonblock := (v \<noteq> 0)\<rparr>"
  have o: "get_ctx w fd = Some a" "\<not> m_isClosed (ctx_obj w a)" "m_isSocket (ctx_obj w a)"
    "m_sysNonblock (ctx_obj w a)" using assms(1) by (simp_all add: open_socket_def)
  have "w1 = set_ctx a ?c w" "req = FIONBIO" "v1 = v"
    using assms(3) o by (auto simp: hook_ioctl_def Let_def)
  with o assms(2) show ?thesis
    by (simp add: open_socket_def do_io_guard_def getTimeout_def)
qed

text \<open>
  A receive or send timeout set on a socket is the timeout, in whole milliseconds,
  of every later hooked call of that direction, and leaves the other direction alone. A zero
  \<^verbatim>\<open>timeval\<close>, which by the socket interface means no timeout, becomes a timeout of zero
  milliseconds: a call that has to wait then arms a timer that is already due.
\<close>

theorem socket_timeout_option:
  assumes "open_socket w fd a" and "t_hook_enable w" and "\<not> m_userNonblock (ctx_obj w a)"
    and "so \<in> {SO_RCVTIMEO, SO_SNDTIMEO}" and "0 \<le> sec" and "sec < 2 ^ 50" and "0 \<le> usec" and "usec < 10 ^ 6"
  shows "do_io_guard (hook_setsockopt w fd SOL_SOCKET so (sec, usec)) fd so =
      Hooked (word_of_int (sec * 1000 + usec div 1000)) \<and>
    (so2 \<in> {SO_RCVTIMEO, SO_SNDTIMEO} - {so} \<longrightarrow>
      do_io_guard (hook_setsockopt w fd SOL_SOCKET so (sec, usec)) fd so2 = do_io_guard w fd so2) \<and>
    (suspended w2 fd event (word_of_int (sec * 1000 + usec div 1000)) t timer cur now \<longrightarrow>
      (\<exists>b. timer = Some b \<and> m_next (timer_at (io_timers (iom w2)) b) = now + (sec * 1000 + usec div 1000) * 1000000))"
proof -
  have o: "get_ctx w fd = Some a" "\<not> m_isClosed (ctx_obj w a)" "m_isSocket (ctx_obj w a)"
    using assms(1) by (simp_all add: open_socket_def)
  have d: "usec sdiv 1000 = usec div 1000" using assms(7) by (simp add: sdiv_pos)
  have "usec div 1000 < 1000" using assms(8) by simp
  then have b: "0 \<le> sec * 1000 + usec div 1000" "sec * 1000 + usec div 1000 < 2 ^ 63"
    using assms(5-7) by simp_all
  note ms = milliseconds_small [OF b]
  have "(word_of_int (sec * 1000 + usec div 1000) :: u64) \<noteq> - 1"
  proof
    assume "(word_of_int (sec * 1000 + usec div 1000) :: u64) = - 1"
    then have "milliseconds (- 1) = (sec * 1000 + usec div 1000) * 1000000" using ms by simp
    then show False using b(1) by (simp add: milliseconds_def)
  qed
  then have "\<exists>b. timer = Some b \<and> m_next (timer_at (io_timers (iom w2)) b) = now + (sec * 1000 + usec div 1000) * 1000000"
    if "suspended w2 fd event (word_of_int (sec * 1000 + usec div 1000)) t timer cur now"
    using that ms by (auto simp: suspended_def Timer_ctor_def split: option.splits)
  moreover have "do_io_guard (hook_setsockopt w fd SOL_SOCKET so (sec, usec)) fd so2 = do_io_guard w fd so2"
    if "so2 \<in> {SO_RCVTIMEO, SO_SNDTIMEO} - {so}"
    using that o assms(2-4)
    by (auto simp: hook_setsockopt_def do_io_guard_def setTimeout_def getTimeout_def SO_RCVTIMEO_def SO_SNDTIMEO_def)
  moreover have "do_io_guard (hook_setsockopt w fd SOL_SOCKET so (sec, usec)) fd so =
      Hooked (word_of_int (sec * 1000 + usec div 1000))"
    using o assms(2-4) d
    by (auto simp: hook_setsockopt_def do_io_guard_def setTimeout_def getTimeout_def)
  ultimately show ?thesis by blast
qed

section \<open>Closing\<close>

lemma trigger_if_timers: "trigger_if which event a s = Inr s' \<Longrightarrow> io_timers s' = io_timers s"
  by (auto simp: trigger_if_def trigger_at_def split: sum.splits if_splits)

lemma cancelAll_timers: "cancelAll s fd rt = Inr (s', b) \<Longrightarrow> io_timers s' = io_timers s"
  by (auto simp: cancelAll_def cancelAll_at_def Let_def trigger_if_timers split: sum.splits option.splits if_splits
      dest!: trigger_if_timers)

lemma schedule_slots_none [simp]: "schedule_slots 0 c q = q"
  by (simp add: schedule_slots_def)

text \<open>The scheduler after the continuations of all events of a descriptor were handed to it.\<close>

definition all_woken :: "IOManager \<Rightarrow> int \<Rightarrow> Scheduler" where
  "all_woken s fd =
     (case lookup_ctx s fd of
        Inr (Some b) \<Rightarrow> schedule_slots (fc_events (ctx_heap s b)) (ctx_heap s b) (io_sched s)
      | _ \<Rightarrow> io_sched s)"

lemma cancelAll_wakes:
  assumes inv: "io_inv s" and fd: "0 \<le> fd"
  shows "\<exists>s' b. cancelAll s fd 0 = Inr (s', b) \<and> io_inv s' \<and> io_sched s' = all_woken s fd \<and>
    \<not> is_registered s' fd event"
proof -
  obtain s' b where c: "cancelAll s fd 0 = Inr (s', b)" "io_inv s'" "\<not> b \<longrightarrow> s' = s"
    "b \<longrightarrow> nat fd < length (m_fdContexts s) \<and> m_fdContexts s' = m_fdContexts s \<and>
      fc_events (ctx_heap s' (m_fdContexts s ! nat fd)) = 0 \<and>
      io_sched s' = schedule_slots (fc_events (ctx_heap s (m_fdContexts s ! nat fd)))
        (ctx_heap s (m_fdContexts s ! nat fd)) (io_sched s)"
    using cancelAll_ok [OF inv fd, of 0] by blast
  show ?thesis
  proof (cases b)
    case True
    with c(4) fd have "lookup_ctx s fd = Inr (Some (m_fdContexts s ! nat fd))"
      "lookup_ctx s' fd = Inr (Some (m_fdContexts s ! nat fd))" by (auto simp: lookup_ctx_def)
    with c True show ?thesis by (auto simp: all_woken_def is_registered_def)
  next
    case False
    obtain r where r: "lookup_ctx s fd = Inr r" using lookup_total [OF fd] by blast
    have "r = None \<or> (\<exists>a. r = Some a \<and> fc_events (ctx_heap s a) = 0)"
      using c(1) False r by (auto simp: cancelAll_def cancelAll_at_def Let_def split: option.splits if_splits sum.splits)
    with c False r show ?thesis by (auto simp: all_woken_def is_registered_def)
  qed
qed

lemma get_ctxD:
  assumes "get_ctx w fd = Some a"
  shows "0 \<le> fd" and "nat fd < length (m_datas (fdmgr w))" and "m_datas (fdmgr w) ! nat fd = Some a"
  using assms by (auto simp: get_ctx_def get_lookup_def too_short_def split: if_splits)

lemma hook_close_ok:
  assumes "rt_inv w" and "t_hook_enable w" and "t_iom w" and "get_ctx w fd = Some a"
  shows "\<exists>w1. hook_close w fd 0 r = Inr (w1, fst r) \<and> rt_inv w1 \<and>
    io_sched (iom w1) = all_woken (iom w) fd \<and>
    (\<forall>event. \<not> is_registered (iom w1) fd event) \<and> m_isClosed (ctx_obj w1 a) \<and>
    get_ctx w1 fd = None \<and> do_io_guard w1 fd so = Passthrough"
proof -
  note G = get_ctxD [OF assms(4)]
  have io: "io_inv (iom w)" using assms(1) by (simp add: rt_inv_def)
  let ?w1 = "set_ctx a ((ctx_obj w a)\<lparr>m_isClosed := True\<rparr>) w"
  obtain m b where m: "cancelAll (iom w) fd 0 = Inr (m, b)" "io_inv m" "io_sched m = all_woken (iom w) fd"
    using cancelAll_wakes [OF io G(1)] by blast
  have un: "\<not> is_registered m fd event" for event
    using cancelAll_wakes [OF io G(1), of event] m(1) by auto
  let ?f = "FdManager_del (fdmgr ?w1) fd"
  let ?w2 = "?w1\<lparr>iom := m, fdmgr := ?f\<rparr>"
  have c: "hook_close w fd 0 r = Inr (fst (call_f ?w2 r), fst r)"
    using assms(2-4) m(1) by (simp add: hook_close_def Let_def prod_eq_iff)
  have "fd_inv (fdmgr w)" using assms(1) by (simp add: rt_inv_def)
  then have fi: "fd_inv ?f"
    by (auto simp: set_ctx_def ctx_obj_def intro!: fd_inv_del fd_inv_settings)
  have del: "m_isClosed (fd_ctxs ?f a)" "get_ctx ?w2 fd = None"
    using G by (simp_all add: FdManager_del_def set_ctx_def put_fdctx_def too_short_def Let_def get_ctx_def
        get_lookup_def)
  have "get_ctx (fst (call_f ?w2 r)) fd = None" "ctx_obj (fst (call_f ?w2 r)) a = fd_ctxs ?f a"
    using del(2) by (simp_all add: get_ctx_def ctx_obj_def)
  moreover from this have "do_io_guard (fst (call_f ?w2 r)) fd so = Passthrough"
    by (simp add: do_io_guard_def)
  moreover have "rt_inv (fst (call_f ?w2 r))"
    using assms(1) fi m(2) cancelAll_timers [OF m(1)] by (simp add: rt_inv_def set_ctx_def)
  ultimately show ?thesis using c m(3) un del(1)
    by (intro exI [of _ "fst (call_f ?w2 r)"]) simp
qed

text \<open>
  Closing a known descriptor wakes everybody who waits for it: the continuations
  of all its registered events are scheduled and no event stays registered; those who still hold
  its context see it closed, the table forgets it, and the value returned is the one of the
  original \<^verbatim>\<open>close\<close>. A later hooked call on the number goes straight to the original call.
\<close>

theorem close_wakes_waiters:
  assumes "rt_inv w" and "t_hook_enable w" and "t_iom w" and "get_ctx w fd = Some a"
  shows "\<exists>w1. hook_close w fd 0 r = Inr (w1, fst r) \<and> rt_inv w1 \<and>
    io_sched (iom w1) = all_woken (iom w) fd \<and>
    (\<forall>event. \<not> is_registered (iom w1) fd event) \<and> m_isClosed (ctx_obj w1 a) \<and>
    get_ctx w1 fd = None \<and> do_io_guard w1 fd so = Passthrough"
  by (rule hook_close_ok [OF assms])

section \<open>Concrete states\<close>

text \<open>
  A worker of a new manager; descriptor 5 is a socket with a receive timeout of 250 ms.
\<close>

definition demo_fds :: FdManager where
  "demo_fds = \<lparr>fd_ctxs = (\<lambda>_. setTimeout SO_RCVTIMEO 250 (fst (FdCtx_ctor (Some True) 2 5))), fd_count = 1,
     m_datas = (replicate 64 None)[5 := Some 0], setfl_calls = [(5, 0x802)]\<rparr>"

definition demo_rt :: Runtime where
  "demo_rt = \<lparr>t_hook_enable = True, t_iom = True, iom = init_IOManager 4 0, fdmgr = demo_fds,
     ti_cancelled = (\<lambda>_. 0), ti_alive = (\<lambda>_. False), ti_count = 0, next_timer = 0, errno = 0\<rparr>"

lemma demo_inv: "rt_inv demo_rt"
proof -
  have "m_timers (io_timers (init_IOManager 4 0)) = []" "timer_inv (io_timers (init_IOManager 4 0))"
    using timer_inv_ctor [of 0] by (simp_all add: init_IOManager_def contextResize_def TimerManager_ctor_def)
  moreover have "fd_inv demo_fds"
    by (auto simp: fd_inv_def demo_fds_def nth_list_update)
  ultimately show ?thesis using init_io_inv [of 4 0] by (simp add: rt_inv_def demo_rt_def)
qed

lemma demo_fields [simp]:
  "t_hook_enable demo_rt" "t_iom demo_rt" "get_ctx demo_rt 5 = Some 0"
  "m_isSocket (ctx_obj demo_rt 0)" "\<not> m_isClosed (ctx_obj demo_rt 0)" "m_sysNonblock (ctx_obj demo_rt 0)"
  "\<not> m_userNonblock (ctx_obj demo_rt 0)" "getTimeout SO_RCVTIMEO (ctx_obj demo_rt 0) = 250"
  "ti_count demo_rt = 0" "io_timers (iom demo_rt) = TimerManager_ctor 0"
  by (simp_all add: demo_rt_def demo_fds_def get_ctx_def get_lookup_def too_short_def ctx_obj_def
      setTimeout_def getTimeout_def init_IOManager_def contextResize_def)

lemma demo_open: "open_socket demo_rt 5 0" by (simp add: open_socket_def)

lemma demo_guard: "do_io_guard demo_rt 5 SO_RCVTIMEO = Hooked 250"
  by (simp add: do_io_guard_def)

lemma demo_unregistered: "\<not> is_registered (iom demo_rt) 5 READ"
  by (auto simp: is_registered_def demo_rt_def io_eval Let_def)

lemma do_io_outcome_witness:
  "\<exists>w1 timer. do_io demo_rt [(-1, EINTR), (-1, EAGAIN)] 5 READ SO_RCVTIMEO 7 0 0 =
      Some (Inr (w1, [], Waiting timer)) \<and> suspended w1 5 READ 250 0 timer 7 0"
proof -
  have "((-1, EAGAIN) :: int \<times> int) \<noteq> (-1, EINTR)" by (simp add: errno_defs)
  from do_io_outcome [OF demo_inv _ demo_guard _ _ this, of READ 1 "[]" 7 0 0]
  have "\<exists>w1 p. do_io demo_rt [(-1, EINTR), (-1, EAGAIN)] 5 READ SO_RCVTIMEO 7 0 0 =
      Some (Inr (w1, [], p)) \<and> (\<exists>timer. p = Waiting timer \<and> suspended w1 5 READ 250 0 timer 7 0)"
    using demo_unregistered by auto
  then show ?thesis by blast
qed

lemma demo_arm:
  obtains w1 where "arm_timeout (fst (new_tinfo demo_rt)) 5 READ 250 0 0 = (w1, Some 0)"
    "timer_sane 0 (io_timers (iom w1))"
proof -
  obtain w1 timer where a: "arm_timeout (fst (new_tinfo demo_rt)) 5 READ 250 0 0 = (w1, timer)" by fastforce
  have t: "timer = Some 0" using a by (auto simp: arm_timeout_def iom_addConditionTimer_def iom_addTimer_def
      new_tinfo_def demo_rt_def Let_def split: prod.splits)
  have i: "rt_inv (fst (new_tinfo demo_rt))"
    by (rule new_tinfo_ok(1) [OF demo_inv]) (rule prod.collapse [symmetric])
  note A = arm_timeout_ok [OF i a]
  have "set (m_timers (io_timers (iom w1))) \<subseteq> {0}"
    using A(8) t by (auto simp: new_tinfo_def Let_def TimerManager_ctor_def)
  moreover have "timer_at (io_timers (iom w1)) 0 = Timer_ctor 250 (Some (timeout_cb 0 5 READ)) False 0"
    using A(3) t by simp
  moreover have "m_previouseTime (io_timers (iom w1)) = 0"
    using a by (auto simp: arm_timeout_def iom_addConditionTimer_def iom_addTimer_def new_tinfo_def Let_def
        addTimer_def addTimer_ptr_def onTimerInsertedAtFront_def TimerManager_ctor_def split: if_splits)
  ultimately have "timer_sane 0 (io_timers (iom w1))"
    using A(1) by (auto simp: timer_sane_def rt_inv_def Timer_ctor_def)
  with a t show ?thesis using that by simp
qed

lemma ms250: "milliseconds 250 = 250000000"
  using milliseconds_small [of 250] by simp

lemma do_io_timeout_race_witness:
  "\<exists>w2 w3. register_wait w2 5 READ (Some 0) 7 0 = Inr (w3, Waiting (Some 0)) \<and>
    waits_for (iom w3) 5 READ 7 \<and> 0 \<notin> set (m_timers (io_timers (iom w3)))"
proof -
  let ?w = "fst (new_tinfo demo_rt)"
  have n: "new_tinfo demo_rt = (?w, 0)" by (simp add: new_tinfo_def Let_def)
  note T = new_tinfo_ok [OF demo_inv n]
  obtain w1 where a: "arm_timeout ?w 5 READ 250 0 0 = (w1, Some 0)" "timer_sane 0 (io_timers (iom w1))"
    by (rule demo_arm)
  have u: "\<not> is_registered (iom ?w) 5 READ" using demo_unregistered T(5) by simp
  have r: "READ \<in> {READ, WRITE}" "(0 :: int) \<le> 5" "(0 :: int) \<le> 0" "0 + milliseconds 250 \<le> 250000000"
    by (simp_all add: ms250)
  from do_io_timeout_race [OF T(1) r(1,2) u T(3,4) a r(3,4), where user = "\<lambda>_ w. w" and rt = 0 and cur = 7]
  show ?thesis by blast
qed

lemma do_io_timeout_witness:
  "\<exists>w w2 w3. suspended w 5 READ 250 0 (Some 0) 7 0 \<and>
    do_io_resume w2 [] 5 READ 250 0 (Some 0) 7 1 0 = Some (Inr (w3, [], Returned (-1))) \<and>
    errno w3 = ETIMEDOUT"
proof -
  let ?w = "fst (new_tinfo demo_rt)"
  have n: "new_tinfo demo_rt = (?w, 0)" by (simp add: new_tinfo_def Let_def)
  note T = new_tinfo_ok [OF demo_inv n]
  obtain w1 where a: "arm_timeout ?w 5 READ 250 0 0 = (w1, Some 0)" "timer_sane 0 (io_timers (iom w1))"
    by (rule demo_arm)
  note A = arm_timeout_ok [OF T(1) a(1)]
  have u: "\<not> is_registered (iom w1) 5 READ"
    using demo_unregistered T(5) A(6,7) by (simp add: is_registered_def lookup_ctx_def)
  have ti: "ti_alive w1 0" "ti_cancelled w1 0 = 0" by (subst A(4), use T(3,4) in simp)+
  have r5: "READ \<in> {READ, WRITE}" "(0 :: int) \<le> 5" by simp_all
  obtain w2 where w2: "rt_inv w2" "w2 = w1\<lparr>iom := iom w2, errno := errno w2\<rparr>" "waits_for (iom w2) 5 READ 7"
    "io_timers (iom w2) = io_timers (iom w1)"
    by (rule register_wait_waits [OF A(1) r5 u, of "Some 0" 7])
  have ti2: "ti_alive w2 0" "ti_cancelled w2 0 = 0" by (subst w2(2), use ti in simp)+
  have s: "suspended w2 5 READ 250 0 (Some 0) 7 0"
    using w2 ti2 A(3) by (simp add: suspended_def)
  have r: "READ \<in> {READ, WRITE}" "(0 :: int) \<le> 5" "(0 :: int) \<le> 0" "0 + milliseconds 250 \<le> 250000000"
    by (simp_all add: ms250)
  from do_io_timeout [OF s r(1,2) a(2) [folded w2(4)] r(3,4), where user = "\<lambda>_ w. w" and rs = "[]" and now = 1 and rt = 0] s
  show ?thesis by blast
qed


lemma fcntl_flags_roundtrip_witness:
  "\<exists>w1. hook_fcntl (\<lambda>_. 0) demo_rt 5 (F_SETFL 2) = (w1, F_SETFL 0x802, 0) \<and>
    hook_fcntl (\<lambda>_. 0x802) w1 5 F_GETFL = (w1, F_GETFL, 2) \<and>
    hook_fcntl (\<lambda>_. - 1) w1 5 F_GETFL = (w1, F_GETFL, - 2049)"
proof -
  obtain w1 c1 r1 where h: "hook_fcntl (\<lambda>_. 0) demo_rt 5 (F_SETFL 2) = (w1, c1, r1)"
    by (rule prod_cases3)
  from fcntl_flags_roundtrip [OF demo_open h, of "\<lambda>_. 0x802" "\<lambda>_. - 1"] h show ?thesis
    by (simp add: O_NONBLOCK_def)
qed

lemma ioctl_blocks_kernel_witness:
  "\<exists>w1. hook_ioctl demo_rt 5 FIONBIO 0 = (w1, FIONBIO, 0) \<and> do_io_guard w1 5 SO_RCVTIMEO = Hooked 250"
proof -
  obtain w1 req v1 where h: "hook_ioctl demo_rt 5 FIONBIO 0 = (w1, req, v1)" by (rule prod_cases3)
  from ioctl_blocks_kernel [OF demo_open _ h, of SO_RCVTIMEO] h show ?thesis by simp
qed

lemma socket_timeout_option_witness:
  "do_io_guard (hook_setsockopt demo_rt 5 SOL_SOCKET SO_RCVTIMEO (1, 500000)) 5 SO_RCVTIMEO = Hooked 1500 \<and>
   do_io_guard (hook_setsockopt demo_rt 5 SOL_SOCKET SO_RCVTIMEO (0, 0)) 5 SO_RCVTIMEO = Hooked 0"
  using socket_timeout_option [OF demo_open, of SO_RCVTIMEO 1 500000]
    socket_timeout_option [OF demo_open, of SO_RCVTIMEO 0 0] by simp

lemma close_wakes_waiters_witness:
  "\<exists>w1. hook_close demo_rt 5 0 (0, 0) = Inr (w1, 0) \<and> get_ctx w1 5 = None \<and> m_isClosed (ctx_obj w1 0)"
  using close_wakes_waiters [OF demo_inv, of 5 0 "(0, 0)"] by auto

end
