(* ===== verification/Co_Context.thy ===== *)
theory Co_Context
  imports Co_Prelude
begin

text \<open>
  The saved context of a fiber (include/mycoroutine/context.h), its preparation on a fresh stack
  (\<^verbatim>\<open>AlignDown\<close>, \<^verbatim>\<open>InitFiberContextStack\<close> of src/fiber.cpp) and the assembly routine
  \<^verbatim>\<open>mycoroutine_context_swap\<close> (src/context_switch_x86_64.S) as a list of instructions with
  an interpreter. The architecture is x86_64.
\<close>

unbundle bit_operations_syntax

section \<open>Contexts\<close>

record FiberContext =
  c_rsp :: u64
  c_rip :: u64
  c_rbx :: u64
  c_rbp :: u64
  c_r12 :: u64
  c_r13 :: u64
  c_r14 :: u64
  c_r15 :: u64

definition empty_FiberContext :: FiberContext where
  "empty_FiberContext = \<lparr>c_rsp = 0, c_rip = 0, c_rbx = 0, c_rbp = 0, c_r12 = 0, c_r13 = 0,
     c_r14 = 0, c_r15 = 0\<rparr>"

definition kFiberContextStackAlignment :: u64 where "kFiberContextStackAlignment = 16"
definition kFiberContextEntryStackAdjust :: u64 where "kFiberContextEntryStackAdjust = 8"

definition GetContextStackPointer :: "FiberContext \<Rightarrow> u64" where
  "GetContextStackPointer ctx = c_rsp ctx"

definition AlignDown :: "u64 \<Rightarrow> u64 \<Rightarrow> u64" where
  "AlignDown value alignment = value AND NOT (alignment - 1)"

text \<open>
  \<^verbatim>\<open>InitFiberContextStack\<close>: the context and the address of the eight bytes set to zero;
  \<open>entry\<close> is the address of \<^verbatim>\<open>FiberEntryPoint\<close>.
\<close>

definition InitFiberContextStack :: "u64 \<Rightarrow> u64 \<Rightarrow> u64 \<Rightarrow> (FiberContext \<times> u64) result" where
  "InitFiberContextStack entry stack stack_size =
     (if stack = 0 \<or> stack_size = 0 then Inl Assertion_Failed
      else let stack_top = stack + stack_size;
               aligned_top = AlignDown stack_top kFiberContextStackAlignment;
               entry_sp = aligned_top - kFiberContextEntryStackAdjust
           in Inr (empty_FiberContext\<lparr>c_rsp := entry_sp, c_rip := entry\<rparr>, entry_sp))"

lemma AlignDown_16: "unat (AlignDown v 16) = unat v div 16 * 16"
proof -
  have "NOT (16 - 1 :: u64) = NOT (mask 4)" by (simp add: mask_eq_exp_minus_1)
  moreover have "v AND NOT (mask 4) = push_bit 4 (drop_bit 4 v)"
    by (rule bit_word_eqI) (auto simp: bit_simps)
  ultimately have e: "AlignDown v 16 = push_bit 4 (drop_bit 4 v)" by (simp add: AlignDown_def)
  have "unat v < 2 ^ 64" using unsigned_less [of v] by simp
  then have "unat v div 16 * 16 < 2 ^ 64" by simp
  then show ?thesis
    by (simp add: e push_bit_eq_mult drop_bit_eq_div unat_word_ariths unat_div_distrib)
qed

text \<open>
  The stack pointer a fresh fiber enters with: for a block of at least 24 bytes that does not
  wrap around it lies inside the block, with room for eight bytes above it and no more than 23,
  and is congruent to 8 modulo 16, as the calling convention has it at the entry of a function.
\<close>

definition entry_sp :: "u64 \<Rightarrow> u64 \<Rightarrow> u64" where
  "entry_sp stack sz = AlignDown (stack + sz) 16 - 8"

lemma InitFiberContextStack_eq:
  "stack \<noteq> 0 \<Longrightarrow> sz \<noteq> 0 \<Longrightarrow> InitFiberContextStack entry stack sz =
    Inr (empty_FiberContext\<lparr>c_rsp := entry_sp stack sz, c_rip := entry\<rparr>, entry_sp stack sz)"
  by (simp add: InitFiberContextStack_def entry_sp_def Let_def kFiberContextStackAlignment_def
      kFiberContextEntryStackAdjust_def)

lemma entry_sp_bounds:
  assumes "24 \<le> unat sz" and "unat stack + unat sz < 2 ^ 64"
  shows "unat (entry_sp stack sz) mod 16 = 8" and "unat stack \<le> unat (entry_sp stack sz)"
    and "unat (entry_sp stack sz) + 8 \<le> unat stack + unat sz"
    and "unat stack + unat sz < unat (entry_sp stack sz) + 24"
    and "unat (stack + sz) = unat stack + unat sz"
proof -
  let ?top = "stack + sz"
  let ?sp = "AlignDown ?top 16 - 8"
  show top: "unat ?top = unat stack + unat sz" using assms(2) by (simp add: unat_word_ariths)
  have al: "unat (AlignDown ?top 16) = (unat stack + unat sz) div 16 * 16"
    by (simp add: AlignDown_16 top)
  have ge: "24 \<le> unat stack + unat sz" using assms(1) by simp
  then have 16: "16 \<le> unat (AlignDown ?top 16)" unfolding al by simp
  then have sp: "unat ?sp = unat (AlignDown ?top 16) - 8"
    by (simp add: unat_sub_if_size)
  obtain q where q: "(unat stack + unat sz) div 16 = Suc q"
    using 16 al by (cases "(unat stack + unat sz) div 16") auto
  have "unat ?sp = 8 + 16 * q" using sp al q by simp
  then show "unat (entry_sp stack sz) mod 16 = 8" by (simp add: entry_sp_def)
  show "unat stack \<le> unat (entry_sp stack sz)" unfolding entry_sp_def using sp al assms(1) by linarith
  show "unat (entry_sp stack sz) + 8 \<le> unat stack + unat sz"
    unfolding entry_sp_def using sp al 16 by linarith
  show "unat stack + unat sz < unat (entry_sp stack sz) + 24"
    unfolding entry_sp_def using sp al 16 by linarith
qed

section \<open>What a swap routine promises\<close>

text \<open>
  The contract between a swap routine and the code that switches fibers, for any processor:
  \<open>run l\<close> executes the routine, whose resumption label is \<open>l\<close>, on a machine whose memory is
  \<open>memory\<close> and whose program counter is \<open>at\<close>; \<open>source\<close> and \<open>target\<close> are its two arguments,
  \<open>cells a\<close> the words of a context at \<open>a\<close>, \<open>load\<close> the context in memory and \<open>live p\<close> the one
  of the running code if it is to continue at \<open>p\<close>.
\<close>

locale context_swap =
  fixes run :: "u64 \<Rightarrow> 'c \<Rightarrow> 'c"
    and memory :: "'c \<Rightarrow> u64 \<Rightarrow> u64"
    and at :: "'c \<Rightarrow> u64"
    and source :: "'c \<Rightarrow> u64"
    and target :: "'c \<Rightarrow> u64"
    and cells :: "u64 \<Rightarrow> u64 set"
    and load :: "(u64 \<Rightarrow> u64) \<Rightarrow> u64 \<Rightarrow> 'x"
    and live :: "u64 \<Rightarrow> 'c \<Rightarrow> 'x"
    and goes_on :: "'x \<Rightarrow> u64"
  assumes saved: "cells (source c) \<inter> cells (target c) = {} \<Longrightarrow> load (memory (run l c)) (source c) = live l c"
    and frame: "cells (source c) \<inter> cells (target c) = {} \<Longrightarrow> a \<notin> cells (source c) \<Longrightarrow>
      memory (run l c) a = memory c a"
    and loaded: "cells (source c) \<inter> cells (target c) = {} \<Longrightarrow>
      live (goes_on (load (memory c) (target c))) (run l c) = load (memory c) (target c)"
    and jumped: "cells (source c) \<inter> cells (target c) = {} \<Longrightarrow>
      at (run l c) = goes_on (load (memory c) (target c))"
    and local: "(\<forall>a \<in> cells d. m a = m' a) \<Longrightarrow> load m d = load m' d"
    and goes_on_live: "goes_on (live p c) = p"
begin

text \<open>A context that is switched to again is the one that was saved.\<close>

lemma returns:
  assumes "cells (source c) \<inter> cells (target c) = {}" and "cells (source c2) \<inter> cells (target c2) = {}"
    and "target c2 = source c" and "\<forall>a \<in> cells (source c). memory c2 a = memory (run l c) a"
  shows "live l (run l c2) = live l c" and "at (run l c2) = l"
proof -
  have "load (memory c2) (target c2) = live l c"
    using local [OF assms(4)] saved [OF assms(1)] assms(3) by simp
  with loaded [OF assms(2), of l] jumped [OF assms(2), of l]
  show "live l (run l c2) = live l c" "at (run l c2) = l" by (simp_all add: goes_on_live)
qed

text \<open>On a table of contexts the routine is a switch of the current context.\<close>

lemma switches:
  assumes table: "\<forall>h \<in> H. ctx h = load (memory c) (adr h)" and fg: "f \<in> H" "g \<in> H" "f \<noteq> g"
    and apart: "\<forall>h \<in> H. \<forall>k \<in> H. h \<noteq> k \<longrightarrow> cells (adr h) \<inter> cells (adr k) = {}"
    and args: "source c = adr f" "target c = adr g"
  shows "\<forall>h \<in> H. (ctx(f := live l c)) h = load (memory (run l c)) (adr h)"
    and "live (goes_on (ctx g)) (run l c) = ctx g" and "at (run l c) = goes_on (ctx g)"
proof -
  have d: "cells (source c) \<inter> cells (target c) = {}" using fg apart args by simp
  show "live (goes_on (ctx g)) (run l c) = ctx g" "at (run l c) = goes_on (ctx g)"
    using loaded [OF d, of l] jumped [OF d, of l] table fg(2) args by simp_all
  show "\<forall>h \<in> H. (ctx(f := live l c)) h = load (memory (run l c)) (adr h)"
  proof
    fix h assume h: "h \<in> H"
    show "(ctx(f := live l c)) h = load (memory (run l c)) (adr h)"
    proof (cases "h = f")
      case True
      then show ?thesis using saved [OF d, of l] args by simp
    next
      case False
      then have "\<forall>a \<in> cells (adr h). memory (run l c) a = memory c a"
        using frame [OF d] apart h fg(1) args by (metis disjoint_iff)
      then show ?thesis using local False table h by (metis fun_upd_other)
    qed
  qed
qed

end

section \<open>The swap routine\<close>

datatype reg = RAX | RBX | RBP | RSP | RDI | RSI | R12 | R13 | R14 | R15

text \<open>\<open>qmem\<close> is the memory in eight-byte cells.\<close>

record CPU =
  regs :: "reg \<Rightarrow> u64"
  qmem :: "u64 \<Rightarrow> u64"
  pc :: u64

text \<open>
  \<open>Store r off b\<close> is \<^verbatim>\<open>movq %r, off(%b)\<close>, \<open>Load off b r\<close> is \<^verbatim>\<open>movq off(%b), %r\<close>,
  \<open>LeaResume r\<close> is \<^verbatim>\<open>leaq .Lresume(%rip), %r\<close>.
\<close>

datatype instr =
    Store reg u64 reg
  | Load u64 reg reg
  | LeaResume reg
  | JmpReg reg
  | Ret

definition set_reg :: "reg \<Rightarrow> u64 \<Rightarrow> CPU \<Rightarrow> CPU" where
  "set_reg r v c = c\<lparr>regs := (regs c)(r := v)\<rparr>"

text \<open>\<open>lresume\<close> is the address of the label \<^verbatim>\<open>.Lresume\<close>.\<close>

fun exec_instr :: "u64 \<Rightarrow> instr \<Rightarrow> CPU \<Rightarrow> CPU" where
  "exec_instr lresume (Store r off b) c = c\<lparr>qmem := (qmem c)(regs c b + off := regs c r)\<rparr>"
| "exec_instr lresume (Load off b r) c = set_reg r (qmem c (regs c b + off)) c"
| "exec_instr lresume (LeaResume r) c = set_reg r lresume c"
| "exec_instr lresume (JmpReg r) c = c\<lparr>pc := regs c r\<rparr>"
| "exec_instr lresume Ret c = (set_reg RSP (regs c RSP + 8) c)\<lparr>pc := qmem c (regs c RSP)\<rparr>"

fun exec :: "u64 \<Rightarrow> instr list \<Rightarrow> CPU \<Rightarrow> CPU" where
  "exec lresume [] c = c"
| "exec lresume (i # is) c = exec lresume is (exec_instr lresume i c)"

text \<open>The routine up to its jump, and what stands at \<^verbatim>\<open>.Lresume\<close>.\<close>

definition swap_code :: "instr list" where
  "swap_code =
     [Store RSP 0 RDI, LeaResume RAX, Store RAX 8 RDI, Store RBX 16 RDI, Store RBP 24 RDI,
      Store R12 32 RDI, Store R13 40 RDI, Store R14 48 RDI, Store R15 56 RDI,
      Load 16 RSI RBX, Load 24 RSI RBP, Load 32 RSI R12, Load 40 RSI R13, Load 48 RSI R14,
      Load 56 RSI R15, Load 0 RSI RSP, Load 8 RSI RAX, JmpReg RAX]"

definition resume_code :: "instr list" where "resume_code = [Ret]"

text \<open>A context in memory.\<close>

definition ctx_at :: "(u64 \<Rightarrow> u64) \<Rightarrow> u64 \<Rightarrow> FiberContext" where
  "ctx_at m a = \<lparr>c_rsp = m a, c_rip = m (a + 8), c_rbx = m (a + 16), c_rbp = m (a + 24),
     c_r12 = m (a + 32), c_r13 = m (a + 40), c_r14 = m (a + 48), c_r15 = m (a + 56)\<rparr>"

definition ctx_cells :: "u64 \<Rightarrow> u64 set" where
  "ctx_cells a = {a, a + 8, a + 16, a + 24, a + 32, a + 40, a + 48, a + 56}"

text \<open>The registers that the calling convention obliges a function to preserve.\<close>

definition callee_saved :: "reg set" where "callee_saved = {RBX, RBP, RSP, R12, R13, R14, R15}"

text \<open>The context of the running code, as the routine saves it.\<close>

definition live_ctx :: "u64 \<Rightarrow> CPU \<Rightarrow> FiberContext" where
  "live_ctx lresume c = \<lparr>c_rsp = regs c RSP, c_rip = lresume, c_rbx = regs c RBX, c_rbp = regs c RBP,
     c_r12 = regs c R12, c_r13 = regs c R13, c_r14 = regs c R14, c_r15 = regs c R15\<rparr>"

lemma ctx_cellI: "i \<in> {0, 8, 16, 24, 32, 40, 48, 56} \<Longrightarrow> a + i \<in> ctx_cells a"
  unfolding ctx_cells_def by (elim insertE emptyE) simp_all

lemma swap_spec:
  assumes "ctx_cells (regs c RDI) \<inter> ctx_cells (regs c RSI) = {}"
  shows "ctx_at (qmem (exec lresume swap_code c)) (regs c RDI) = live_ctx lresume c"
    and "a \<notin> ctx_cells (regs c RDI) \<Longrightarrow> qmem (exec lresume swap_code c) a = qmem c a"
    and "live_ctx (c_rip (ctx_at (qmem c) (regs c RSI))) (exec lresume swap_code c) =
      ctx_at (qmem c) (regs c RSI)"
    and "pc (exec lresume swap_code c) = c_rip (ctx_at (qmem c) (regs c RSI))"
proof -
  let ?d = "regs c RDI" and ?s = "regs c RSI"
  have ne: "?s + i \<noteq> ?d + j" if "i \<in> {0, 8, 16, 24, 32, 40, 48, 56}" "j \<in> {0, 8, 16, 24, 32, 40, 48, 56}" for i j
  proof -
    from ctx_cellI [OF that(1)] ctx_cellI [OF that(2)] assms show ?thesis by (metis disjoint_iff)
  qed
  let ?m = "(qmem c)(?d := regs c RSP, ?d + 8 := lresume, ?d + 16 := regs c RBX, ?d + 24 := regs c RBP,
    ?d + 32 := regs c R12, ?d + 40 := regs c R13, ?d + 48 := regs c R14, ?d + 56 := regs c R15)"
  let ?c = "exec lresume swap_code c"
  have m: "qmem ?c = ?m" by (simp add: swap_code_def set_reg_def)
  have s: "?m (?s + i) = qmem c (?s + i)" if "i \<in> {0, 8, 16, 24, 32, 40, 48, 56}" for i
    using ne [OF that, of 0] ne [OF that, of 8] ne [OF that, of 16] ne [OF that, of 24] ne [OF that, of 32]
      ne [OF that, of 40] ne [OF that, of 48] ne [OF that, of 56] by simp
  show "ctx_at (qmem ?c) ?d = live_ctx lresume c" unfolding m by (simp add: ctx_at_def live_ctx_def)
  show "a \<notin> ctx_cells ?d \<Longrightarrow> qmem ?c a = qmem c a" unfolding m by (simp add: ctx_cells_def)
  have r: "regs ?c RSP = ?m ?s" "regs ?c RBX = ?m (?s + 16)" "regs ?c RBP = ?m (?s + 24)"
    "regs ?c R12 = ?m (?s + 32)" "regs ?c R13 = ?m (?s + 40)" "regs ?c R14 = ?m (?s + 48)"
    "regs ?c R15 = ?m (?s + 56)" "pc ?c = ?m (?s + 8)"
    by (simp_all add: swap_code_def set_reg_def)
  have l: "?m ?s = qmem c ?s" "?m (?s + 16) = qmem c (?s + 16)" "?m (?s + 24) = qmem c (?s + 24)"
    "?m (?s + 32) = qmem c (?s + 32)" "?m (?s + 40) = qmem c (?s + 40)" "?m (?s + 48) = qmem c (?s + 48)"
    "?m (?s + 56) = qmem c (?s + 56)" "?m (?s + 8) = qmem c (?s + 8)"
    using s [of 0] by (simp only: add_0_right insert_iff simp_thms) (rule s; simp)+
  show "live_ctx (c_rip (ctx_at (qmem c) ?s)) ?c = ctx_at (qmem c) ?s" "pc ?c = c_rip (ctx_at (qmem c) ?s)"
    unfolding live_ctx_def r l by (simp_all add: ctx_at_def)
qed

interpretation x86: context_swap "\<lambda>l. exec l swap_code" qmem pc "\<lambda>c. regs c RDI" "\<lambda>c. regs c RSI"
  ctx_cells ctx_at live_ctx c_rip
proof
  show "ctx_at (qmem (exec l swap_code c)) (regs c RDI) = live_ctx l c"
    if "ctx_cells (regs c RDI) \<inter> ctx_cells (regs c RSI) = {}" for c l
    by (rule swap_spec(1) [OF that])
  show "qmem (exec l swap_code c) a = qmem c a"
    if "ctx_cells (regs c RDI) \<inter> ctx_cells (regs c RSI) = {}" "a \<notin> ctx_cells (regs c RDI)" for c a l
    by (rule swap_spec(2) [OF that])
  show "live_ctx (c_rip (ctx_at (qmem c) (regs c RSI))) (exec l swap_code c) = ctx_at (qmem c) (regs c RSI)"
    if "ctx_cells (regs c RDI) \<inter> ctx_cells (regs c RSI) = {}" for c l
    by (rule swap_spec(3) [OF that])
  show "pc (exec l swap_code c) = c_rip (ctx_at (qmem c) (regs c RSI))"
    if "ctx_cells (regs c RDI) \<inter> ctx_cells (regs c RSI) = {}" for c l
    by (rule swap_spec(4) [OF that])
qed (simp_all add: ctx_at_def ctx_cells_def live_ctx_def)

text \<open>
  Property C14. To the code that calls it, the swap routine is a call that returns: whatever runs
  in between, provided it leaves the saved context and the return address on the caller's
  stack alone, when some later swap switches to the saved context execution continues after the
  call with the stack pointer popped and every callee-saved register as it was, and no memory
  has changed by the switch but the other side's context.
\<close>

theorem context_swap_roundtrip:
  assumes "ctx_cells (regs c RDI) \<inter> ctx_cells (regs c RSI) = {}"
    and "regs c2 RSI = regs c RDI" and "ctx_cells (regs c2 RDI) \<inter> ctx_cells (regs c2 RSI) = {}"
    and "\<forall>a \<in> ctx_cells (regs c RDI). qmem c2 a = qmem (exec lresume swap_code c) a"
    and "regs c RSP \<notin> ctx_cells (regs c2 RDI)" and "qmem c2 (regs c RSP) = qmem c (regs c RSP)"
  shows "pc (exec lresume swap_code c2) = lresume \<and>
    (let c3 = exec lresume resume_code (exec lresume swap_code c2)
     in pc c3 = qmem c (regs c RSP) \<and> regs c3 RSP = regs c RSP + 8 \<and>
       (\<forall>r \<in> callee_saved - {RSP}. regs c3 r = regs c r) \<and>
       (\<forall>a. a \<notin> ctx_cells (regs c2 RDI) \<longrightarrow> qmem c3 a = qmem c2 a))"
proof -
  let ?b = "exec lresume swap_code c2"
  note R = x86.returns [OF assms(1,3,2,4)]
  have r: "regs ?b RSP = regs c RSP" "regs ?b RBX = regs c RBX" "regs ?b RBP = regs c RBP"
    "regs ?b R12 = regs c R12" "regs ?b R13 = regs c R13" "regs ?b R14 = regs c R14"
    "regs ?b R15 = regs c R15" using R(1) by (simp_all add: live_ctx_def)
  have m: "qmem ?b a = qmem c2 a" if "a \<notin> ctx_cells (regs c2 RDI)" for a
    by (rule x86.frame [OF assms(3) that])
  note p = R(2)
  show ?thesis
    using p r m [OF assms(5)] assms(6) m
    by (auto simp: Let_def resume_code_def set_reg_def callee_saved_def)
qed

lemma context_swap_roundtrip_witness:
  "let c = \<lparr>regs = (\<lambda>r. if r = RDI then 0x1000 else if r = RSI then 0x2000 else 7)(RSP := 0x8000),
         qmem = (\<lambda>_. 0)(0x8000 := 0x401000), pc = 0\<rparr>;
     c2 = (exec 0x400100 swap_code c)\<lparr>regs := (\<lambda>r. if r = RDI then 0x2000 else if r = RSI then 0x1000 else 9)\<rparr>
   in pc (exec 0x400100 resume_code (exec 0x400100 swap_code c2)) = 0x401000"
proof -
  define c where "c = \<lparr>regs = (\<lambda>r. if r = RDI then 0x1000 else if r = RSI then 0x2000 else 7)(RSP := 0x8000),
         qmem = (\<lambda>_. 0)(0x8000 := 0x401000), pc = 0 :: u64\<rparr>"
  define c2 where "c2 = (exec 0x400100 swap_code c)\<lparr>regs := (\<lambda>r. if r = RDI then 0x2000 else if r = RSI then 0x1000 else 9)\<rparr>"
  have d: "ctx_cells 0x1000 \<inter> ctx_cells 0x2000 = {}" by (simp add: ctx_cells_def)
  have h: "ctx_cells (regs c RDI) \<inter> ctx_cells (regs c RSI) = {}" using d by (simp add: c_def)
  have 2: "regs c2 RSI = regs c RDI" "ctx_cells (regs c2 RDI) \<inter> ctx_cells (regs c2 RSI) = {}"
    "\<forall>a \<in> ctx_cells (regs c RDI). qmem c2 a = qmem (exec 0x400100 swap_code c) a"
    "regs c RSP \<notin> ctx_cells (regs c2 RDI)" using d by (auto simp: c2_def c_def ctx_cells_def)
  have "regs c RSP \<notin> ctx_cells (regs c RDI)" by (simp add: c_def ctx_cells_def)
  then have "qmem c2 (regs c RSP) = qmem c (regs c RSP)"
      using swap_spec(2) [OF h] by (simp add: c2_def)
  from context_swap_roundtrip [OF h 2 this] have "pc (exec 0x400100 resume_code (exec 0x400100 swap_code c2)) = 0x401000"
    by (simp add: Let_def c_def)
  then show ?thesis by (simp add: Let_def c_def c2_def)
qed

end
