(* ===== verification/Fiber_Stack.thy ===== *)
theory Fiber_Stack
  imports Co_Context
begin

text \<open>
  The fiber object and its stacks (include/mycoroutine/fiber.h, src/fiber.cpp): the pools of
  shared stacks, the snapshots a shared-stack fiber is saved to and restored from, and
  \<^verbatim>\<open>prepareSharedStack\<close>, which puts a fiber's stack in place before it runs. The state is
  the one thread's pools and slots, the fibers, and the bytes of memory. The fields and calls for
  the sanitizers are left out.
\<close>

section \<open>Data\<close>

datatype State = READY | RUNNING | TERMINATED

text \<open>\<open>f_cb\<close> is the field \<^verbatim>\<open>m_cb\<close>; slots are numbered; \<open>m_parent\<close> is a weak reference.\<close>

record Fiber =
  m_id :: u64
  m_stacksize :: u32
  m_state :: State
  m_ctx :: FiberContext
  m_stack :: u64
  f_cb :: "callback option"
  m_runInScheduler :: bool
  m_useSharedStack :: bool
  m_ctxInitialized :: bool
  m_ownerThread :: int
  m_sharedStackSlot :: "nat option"
  m_stackSnapshot :: "u8 list"
  m_parent :: "fid option"
  m_returnToParent :: bool

record SharedStackSlot =
  slot_stack :: u64
  slot_size :: u64
  slot_owner :: "fid option"

record SharedStackPool =
  m_slots :: "nat list"
  m_next :: u64

text \<open>
  \<open>fibers\<close> holds the live fibers: a weak reference to one that is gone has expired. \<open>slots\<close>
  holds the slots of all pools, \<open>n_slots\<close> their number. \<open>mem\<close> is the memory by address.
\<close>

record Stacks =
  fibers :: "fid \<Rightarrow> Fiber option"
  slots :: "nat \<Rightarrow> SharedStackSlot"
  n_slots :: nat
  t_shared_stack_pools :: "u64 \<Rightarrow> SharedStackPool option"
  s_shared_stack_slot_count :: u64
  mem :: "nat \<Rightarrow> u8"
  t_fiber :: "fid option"

definition fiber_at :: "Stacks \<Rightarrow> fid \<Rightarrow> Fiber" where
  "fiber_at s f = the (fibers s f)"

definition set_fiber :: "fid \<Rightarrow> Fiber \<Rightarrow> Stacks \<Rightarrow> Stacks" where
  "set_fiber f c s = s\<lparr>fibers := (fibers s)(f \<mapsto> c)\<rparr>"

text \<open>\<^verbatim>\<open>slot->owner.lock()\<close>\<close>

definition lock_owner :: "Stacks \<Rightarrow> nat \<Rightarrow> fid option" where
  "lock_owner s k = (case slot_owner (slots s k) of
     None \<Rightarrow> None | Some f \<Rightarrow> if fibers s f = None then None else Some f)"

section \<open>Memory\<close>

definition read_bytes :: "(nat \<Rightarrow> u8) \<Rightarrow> nat \<Rightarrow> nat \<Rightarrow> u8 list" where
  "read_bytes m a n = map m [a..<a + n]"

definition write_bytes :: "nat \<Rightarrow> u8 list \<Rightarrow> (nat \<Rightarrow> u8) \<Rightarrow> nat \<Rightarrow> u8" where
  "write_bytes a bs m = (\<lambda>x. if a \<le> x \<and> x < a + length bs then bs ! (x - a) else m x)"

lemma length_read [simp]: "length (read_bytes m a n) = n"
  by (simp add: read_bytes_def)

lemma read_eq_iff: "read_bytes m a n = read_bytes m' a n \<longleftrightarrow> (\<forall>x. a \<le> x \<and> x < a + n \<longrightarrow> m x = m' x)"
  by (auto simp: read_bytes_def)

lemma read_write_same: "read_bytes (write_bytes a bs m) a (length bs) = bs"
  by (rule nth_equalityI) (simp_all add: read_bytes_def write_bytes_def)

lemma read_write_other:
  "a + n \<le> b \<or> b + length bs \<le> a \<Longrightarrow> read_bytes (write_bytes b bs m) a n = read_bytes m a n"
  by (auto simp: read_eq_iff write_bytes_def)

lemma nth_read: "i < n \<Longrightarrow> read_bytes m a n ! i = m (a + i)"
  by (simp add: read_bytes_def)

lemma take_read: "k \<le> n \<Longrightarrow> take k (read_bytes m a n) = read_bytes m a k"
  by (simp add: read_bytes_def take_map)

section \<open>Pools\<close>

text \<open>
  The constructor: \<open>blocks\<close> is what \<^verbatim>\<open>malloc\<close> returns for a slot; it is asserted not to be
  null.
\<close>

definition SharedStackPool_ctor ::
    "(nat \<Rightarrow> u64) \<Rightarrow> u64 \<Rightarrow> u64 \<Rightarrow> Stacks \<Rightarrow> (Stacks \<times> SharedStackPool) result" where
  "SharedStackPool_ctor blocks slot_count sz s =
     (let count = (if slot_count = 0 then 1 else slot_count);
          ids = [n_slots s..<n_slots s + unat count]
      in if \<exists>k \<in> set ids. blocks k = 0 then Inl Assertion_Failed
         else Inr (s\<lparr>slots := (\<lambda>k. if k \<in> set ids
                       then \<lparr>slot_stack = blocks k, slot_size = sz, slot_owner = None\<rparr> else slots s k),
                     n_slots := n_slots s + unat count\<rparr>,
                   \<lparr>m_slots = ids, m_next = 0\<rparr>))"

definition GetSharedStackPool ::
    "(nat \<Rightarrow> u64) \<Rightarrow> u64 \<Rightarrow> Stacks \<Rightarrow> (Stacks \<times> SharedStackPool) result" where
  "GetSharedStackPool blocks sz s =
     (case t_shared_stack_pools s sz of
        Some p \<Rightarrow> Inr (s, p)
      | None \<Rightarrow>
          (case SharedStackPool_ctor blocks (s_shared_stack_slot_count s) sz s of
             Inl e \<Rightarrow> Inl e
           | Inr (s1, p) \<Rightarrow>
               Inr (s1\<lparr>t_shared_stack_pools := (t_shared_stack_pools s1)(sz \<mapsto> p)\<rparr>, p)))"

definition acquireSlot :: "SharedStackPool \<Rightarrow> (SharedStackPool \<times> nat) result" where
  "acquireSlot p =
     (if m_slots p = [] then Inl Assertion_Failed
      else Inr (p\<lparr>m_next := m_next p + 1\<rparr>, m_slots p ! (unat (m_next p) mod length (m_slots p))))"

definition SetSharedStackSlotCount :: "u64 \<Rightarrow> Stacks \<Rightarrow> Stacks" where
  "SetSharedStackSlotCount slot_count s =
     s\<lparr>s_shared_stack_slot_count := (if slot_count = 0 then 1 else slot_count)\<rparr>"

section \<open>Snapshots\<close>

text \<open>\<open>entry\<close> is the address of \<^verbatim>\<open>FiberEntryPoint\<close>.\<close>

definition initFiberContext :: "u64 \<Rightarrow> Stacks \<Rightarrow> fid \<Rightarrow> Stacks result" where
  "initFiberContext entry s f =
     (let c = fiber_at s f
      in if m_stack c = 0 \<or> m_stacksize c = 0 then Inl Assertion_Failed
         else case InitFiberContextStack entry (m_stack c) (ucast (m_stacksize c)) of
                Inl e \<Rightarrow> Inl e
              | Inr (ctx, zero_at) \<Rightarrow>
                  Inr (set_fiber f (c\<lparr>m_ctx := ctx, m_ctxInitialized := True\<rparr>)
                         (s\<lparr>mem := write_bytes (unat zero_at) (replicate 8 0) (mem s)\<rparr>)))"

text \<open>The copy both \<^verbatim>\<open>save\<close> functions make, of the bytes from \<open>sp\<close> to the top of the slot.\<close>

definition snapshot_from :: "u64 \<Rightarrow> Stacks \<Rightarrow> fid \<Rightarrow> nat \<Rightarrow> Stacks result" where
  "snapshot_from sp s f k =
     (let slot = slots s k; stack_bottom = slot_stack slot; stack_top = stack_bottom + slot_size slot
      in if stack_bottom = 0 then Inl Assertion_Failed
         else if \<not> (sp \<ge> stack_bottom \<and> sp \<le> stack_top) then Inl Assertion_Failed
         else Inr (set_fiber f ((fiber_at s f)\<lparr>m_stackSnapshot :=
                     read_bytes (mem s) (unat sp) (unat (stack_top - sp))\<rparr>) s))"

definition saveSharedStackSnapshot :: "Stacks \<Rightarrow> fid \<Rightarrow> Stacks result" where
  "saveSharedStackSnapshot s f =
     (let c = fiber_at s f
      in case m_sharedStackSlot c of
           None \<Rightarrow> Inr s
         | Some k \<Rightarrow> if \<not> m_useSharedStack c \<or> \<not> m_ctxInitialized c then Inr s
                     else snapshot_from (GetContextStackPointer (m_ctx c)) s f k)"

text \<open>\<open>marker\<close> is the address of the local variable on the running stack.\<close>

definition saveCurrentSharedStackSnapshot :: "u64 \<Rightarrow> Stacks \<Rightarrow> fid \<Rightarrow> Stacks result" where
  "saveCurrentSharedStackSnapshot marker s f =
     (let c = fiber_at s f
      in case m_sharedStackSlot c of
           None \<Rightarrow> Inr s
         | Some k \<Rightarrow> if \<not> m_useSharedStack c then Inr s else snapshot_from marker s f k)"

definition restoreSharedStackSnapshot :: "Stacks \<Rightarrow> fid \<Rightarrow> Stacks result" where
  "restoreSharedStackSnapshot s f =
     (let c = fiber_at s f
      in case m_sharedStackSlot c of
           None \<Rightarrow> Inr s
         | Some k \<Rightarrow>
             if \<not> m_useSharedStack c \<or> m_stackSnapshot c = [] then Inr s
             else let slot = slots s k; stack_bottom = slot_stack slot;
                      stack_top = stack_bottom + slot_size slot; used = length (m_stackSnapshot c)
                  in if stack_bottom = 0 then Inl Assertion_Failed
                     else if \<not> used \<le> unat (slot_size slot) then Inl Assertion_Failed
                     else Inr (s\<lparr>mem := write_bytes (unat (stack_top - of_nat used)) (m_stackSnapshot c) (mem s)\<rparr>))"

section \<open>prepareSharedStack\<close>

definition bind_thread :: "int \<Rightarrow> Fiber \<Rightarrow> Fiber result" where
  "bind_thread tid c =
     (if m_ownerThread c = -1 then Inr (c\<lparr>m_ownerThread := tid\<rparr>)
      else if m_ownerThread c = tid then Inr c else Inl Assertion_Failed)"

definition use_slot :: "nat \<Rightarrow> Stacks \<Rightarrow> Fiber \<Rightarrow> Fiber" where
  "use_slot k s c = c\<lparr>m_stack := slot_stack (slots s k), m_stacksize := ucast (slot_size (slots s k))\<rparr>"

text \<open>The slot of a fiber, taken from the pool of its size the first time.\<close>

definition ensure_slot :: "(nat \<Rightarrow> u64) \<Rightarrow> Stacks \<Rightarrow> fid \<Rightarrow> (Stacks \<times> nat) result" where
  "ensure_slot blocks s f =
     (case m_sharedStackSlot (fiber_at s f) of
        Some k \<Rightarrow> Inr (s, k)
      | None \<Rightarrow>
          let sz = ucast (m_stacksize (fiber_at s f))
          in case GetSharedStackPool blocks sz s of
               Inl e \<Rightarrow> Inl e
             | Inr (s1, p) \<Rightarrow>
                 (case acquireSlot p of
                    Inl e \<Rightarrow> Inl e
                  | Inr (p1, k) \<Rightarrow>
                      let s2 = s1\<lparr>t_shared_stack_pools := (t_shared_stack_pools s1)(sz \<mapsto> p1)\<rparr>
                      in Inr (set_fiber f (use_slot k s2 ((fiber_at s2 f)\<lparr>m_sharedStackSlot := Some k\<rparr>)) s2, k)))"

text \<open>The context of a fiber that has none yet, on its slot.\<close>

definition ensure_ctx :: "u64 \<Rightarrow> Stacks \<Rightarrow> fid \<Rightarrow> nat \<Rightarrow> Stacks result" where
  "ensure_ctx entry s f k =
     (if m_ctxInitialized (fiber_at s f) then Inr s
      else initFiberContext entry (set_fiber f (use_slot k s (fiber_at s f)) s) f)"

text \<open>The previous owner of the slot, if it is another live fiber, is saved.\<close>

definition save_owner :: "u64 \<Rightarrow> Stacks \<Rightarrow> fid \<Rightarrow> nat \<Rightarrow> Stacks result" where
  "save_owner marker s f k =
     (case lock_owner s k of
        Some owner \<Rightarrow>
          if owner \<noteq> f
          then if Some owner = t_fiber s then saveCurrentSharedStackSnapshot marker s owner
               else saveSharedStackSnapshot s owner
          else Inr s
      | None \<Rightarrow> Inr s)"

text \<open>The fiber's own snapshot is put in place when the slot was not its own.\<close>

definition take_over :: "fid option \<Rightarrow> Stacks \<Rightarrow> fid \<Rightarrow> nat \<Rightarrow> Stacks result" where
  "take_over owner s f k =
     (if owner = Some f then Inr s
      else case restoreSharedStackSnapshot s f of
             Inl e \<Rightarrow> Inl e
           | Inr s1 \<Rightarrow> Inr (s1\<lparr>slots := (slots s1)(k := (slots s1 k)\<lparr>slot_owner := Some f\<rparr>)\<rparr>))"

definition prepareSharedStack ::
    "(nat \<Rightarrow> u64) \<Rightarrow> u64 \<Rightarrow> int \<Rightarrow> u64 \<Rightarrow> Stacks \<Rightarrow> fid \<Rightarrow> Stacks result" where
  "prepareSharedStack blocks entry tid marker s f =
     (if \<not> m_useSharedStack (fiber_at s f) then Inl Assertion_Failed
      else case bind_thread tid (fiber_at s f) of
             Inl e \<Rightarrow> Inl e
           | Inr c \<Rightarrow>
               (case ensure_slot blocks (set_fiber f c s) f of
                  Inl e \<Rightarrow> Inl e
                | Inr (s1, k) \<Rightarrow>
                    (case ensure_ctx entry s1 f k of
                       Inl e \<Rightarrow> Inl e
                     | Inr s2 \<Rightarrow>
                         (case save_owner marker s2 f k of
                            Inl e \<Rightarrow> Inl e
                          | Inr s3 \<Rightarrow> take_over (lock_owner s2 k) s3 f k))))"

section \<open>Construction and reset\<close>

text \<open>
  \<^verbatim>\<open>Fiber::Fiber\<close> of a child: \<open>i\<close> is the next fiber number and \<open>block\<close> what \<^verbatim>\<open>malloc\<close>
  returns for a stack of its own.
\<close>

definition new_Fiber :: "u64 \<Rightarrow> callback option \<Rightarrow> u64 \<Rightarrow> bool \<Rightarrow> bool \<Rightarrow> Fiber" where
  "new_Fiber i cb stacksize run_in_scheduler use_shared_stack =
     \<lparr>m_id = i, m_stacksize = ucast (if stacksize \<noteq> 0 then stacksize else 128000), m_state = READY,
      m_ctx = empty_FiberContext, m_stack = 0, f_cb = cb, m_runInScheduler = run_in_scheduler,
      m_useSharedStack = use_shared_stack, m_ctxInitialized = False, m_ownerThread = -1,
      m_sharedStackSlot = None, m_stackSnapshot = [], m_parent = None, m_returnToParent = False\<rparr>"

definition Fiber_ctor ::
    "u64 \<Rightarrow> u64 \<Rightarrow> u64 \<Rightarrow> Stacks \<Rightarrow> fid \<Rightarrow> callback option \<Rightarrow> u64 \<Rightarrow> bool \<Rightarrow> bool \<Rightarrow> Stacks result" where
  "Fiber_ctor i block entry s f cb stacksize run_in_scheduler use_shared_stack =
     (let c = new_Fiber i cb stacksize run_in_scheduler use_shared_stack
      in if use_shared_stack then Inr (set_fiber f c s)
         else if block = 0 then Inl Assertion_Failed
         else initFiberContext entry (set_fiber f (c\<lparr>m_stack := block\<rparr>) s) f)"

text \<open>\<^verbatim>\<open>Fiber::reset\<close> of a terminated fiber.\<close>

definition fiber_reset :: "u64 \<Rightarrow> Stacks \<Rightarrow> fid \<Rightarrow> callback option \<Rightarrow> Stacks result" where
  "fiber_reset entry s f cb =
     (if m_state (fiber_at s f) \<noteq> TERMINATED then Inl Assertion_Failed
      else let c = (fiber_at s f)\<lparr>m_state := READY, f_cb := cb, m_stackSnapshot := [],
                     m_parent := None, m_returnToParent := False\<rparr>;
               s1 = set_fiber f c s
           in if \<not> m_useSharedStack c
              then if m_stack c = 0 then Inl Assertion_Failed else initFiberContext entry s1 f
              else case m_sharedStackSlot c of
                     Some k \<Rightarrow> initFiberContext entry (set_fiber f (use_slot k s1 c) s1) f
                   | None \<Rightarrow> Inr (set_fiber f (c\<lparr>m_ctxInitialized := False\<rparr>) s1))"

text \<open>
  \<^verbatim>\<open>~Fiber\<close>, when the last shared pointer is gone: weak references expire, and a stack of its
  own is freed (the second component). Slots stay as they are. The count of fibers, which nothing
  reads, and the object of the sanitizer are left out.
\<close>

definition Fiber_dtor :: "fid \<Rightarrow> Stacks \<Rightarrow> Stacks \<times> u64 option" where
  "Fiber_dtor f s =
     (s\<lparr>fibers := (fibers s)(f := None)\<rparr>,
      if \<not> m_useSharedStack (fiber_at s f) \<and> m_stack (fiber_at s f) \<noteq> 0
      then Some (m_stack (fiber_at s f)) else None)"

lemma set_fiber_simps [simp]:
  "fibers (set_fiber f c s) = (fibers s)(f \<mapsto> c)" "slots (set_fiber f c s) = slots s"
  "n_slots (set_fiber f c s) = n_slots s" "mem (set_fiber f c s) = mem s"
  "t_fiber (set_fiber f c s) = t_fiber s"
  "t_shared_stack_pools (set_fiber f c s) = t_shared_stack_pools s"
  "fiber_at (set_fiber f c s) g = (if g = f then c else fiber_at s g)"
  by (simp_all add: set_fiber_def fiber_at_def)

end
