(* ===== verification/Sched_Run.thy ===== *)
theory Sched_Run
  imports Co_Hook Fiber_Stack
begin

text \<open>
  The worker threads (\<^verbatim>\<open>Scheduler::run\<close>, \<^verbatim>\<open>stop\<close> in src/scheduler.cpp) of an I/O manager: each
  worker is a program counter over the pieces of the loop between two accesses to shared state,
  and the pieces of all workers interleave with each other and with whatever else schedules
  tasks. Fibers are their states and their mutexes; that a fiber from the pool is ready and in
  nobody's hands is what \<open>Coroutine_Pool\<close> shows.
\<close>

section \<open>Workers\<close>

text \<open>
  Where a worker is: at the head of the loop; after the locked pick with its task and
  \<^verbatim>\<open>tickle_me\<close>; before the lock of a task's fiber, inside its \<^verbatim>\<open>resume\<close>, after it; before the
  decrement of the active count; the same for a callback; entering the idle fiber; inside it, past
  its test of \<^verbatim>\<open>stopping()\<close>, with the outcome; gone.
\<close>

datatype worker =
    Looping
  | Picked "ScheduleTask option" bool
  | HasFiber ScheduleTask fid
  | Resumed ScheduleTask fid
  | Yielded ScheduleTask fid
  | Counting
  | HasCb callback
  | CbResumed fid
  | CbYielded fid
  | Idling
  | IdleBack bool
  | Ended

record Workers =
  mgr :: IOManager
  wpc :: "int \<Rightarrow> worker"
  idle_over :: "int \<Rightarrow> bool"
  fstate :: "fid \<Rightarrow> State"
  fmutex :: "fid \<Rightarrow> int option"

definition set_pc :: "int \<Rightarrow> worker \<Rightarrow> Workers \<Rightarrow> Workers" where
  "set_pc i p s = s\<lparr>wpc := (wpc s)(i := p)\<rparr>"

definition with_sched :: "(Scheduler \<Rightarrow> Scheduler) \<Rightarrow> Workers \<Rightarrow> Workers" where
  "with_sched g s = s\<lparr>mgr := (mgr s)\<lparr>io_sched := g (io_sched (mgr s))\<rparr>\<rparr>"

definition tickle_if :: "bool \<Rightarrow> Workers \<Rightarrow> Workers" where
  "tickle_if b s = (if b then s\<lparr>mgr := tickle (mgr s)\<rparr> else s)"

text \<open>The locked pick, with the count of active threads.\<close>

definition run_pick :: "int \<Rightarrow> Workers \<Rightarrow> Workers" where
  "run_pick i s =
     (case pickNextTaskLocked (io_sched (mgr s)) i of
        (q, out, tickle_me) \<Rightarrow>
          set_pc i (Picked out tickle_me)
            (with_sched (\<lambda>_. if out \<noteq> None then q\<lparr>m_activeThreadCount := m_activeThreadCount q + 1\<rparr> else q) s))"

text \<open>The tickle, and the choice between fiber, callback and idle fiber.\<close>

definition run_branch :: "int \<Rightarrow> Workers \<Rightarrow> Workers" where
  "run_branch i s =
     (case wpc s i of
        Picked out tickle_me \<Rightarrow>
          (let s1 = tickle_if tickle_me s;
               fiber = (case out of None \<Rightarrow> None | Some t \<Rightarrow> task_fiber t);
               cb = (case out of None \<Rightarrow> None | Some t \<Rightarrow> task_cb t)
           in (case fiber of
                 Some f \<Rightarrow> set_pc i (HasFiber (the out) f) s1
               | None \<Rightarrow>
                   (case cb of
                      Some c \<Rightarrow> set_pc i (HasCb c) s1
                    | None \<Rightarrow>
                        if idle_over s1 i then set_pc i Ended s1
                        else set_pc i Idling (with_sched
                          (\<lambda>q. q\<lparr>m_idleThreadCount := m_idleThreadCount q + 1\<rparr>) s1))))
      | _ \<Rightarrow> s)"

text \<open>\<^verbatim>\<open>resume\<close> under the fiber's mutex: \<open>next_pc\<close> is the place inside it.\<close>

definition enter_fiber :: "int \<Rightarrow> fid \<Rightarrow> worker \<Rightarrow> Workers \<Rightarrow> Workers result" where
  "enter_fiber i f next_pc s =
     (if fstate s f \<noteq> READY then Inl Assertion_Failed
      else Inr (set_pc i next_pc (s\<lparr>fmutex := (fmutex s)(f := Some i), fstate := (fstate s)(f := RUNNING)\<rparr>)))"

definition run_fiber :: "int \<Rightarrow> Workers \<Rightarrow> Workers result" where
  "run_fiber i s =
     (case wpc s i of
        HasFiber t f \<Rightarrow>
          if fstate s f \<noteq> TERMINATED then enter_fiber i f (Resumed t f) s
          else Inr (set_pc i (Yielded t f) s)
      | _ \<Rightarrow> Inr s)"

text \<open>The callback on a fiber \<open>f\<close> from the pool.\<close>

definition run_cb_fiber :: "int \<Rightarrow> fid \<Rightarrow> Workers \<Rightarrow> Workers result" where
  "run_cb_fiber i f s = enter_fiber i f (CbResumed f) s"

text \<open>The fiber comes back: it has yielded or ended.\<close>

definition fiber_back :: "int \<Rightarrow> bool \<Rightarrow> Workers \<Rightarrow> Workers" where
  "fiber_back i ended s =
     (let leave = (\<lambda>f p. set_pc i p (s\<lparr>fmutex := (fmutex s)(f := None),
            fstate := (fstate s)(f := if ended then TERMINATED else READY)\<rparr>))
      in case wpc s i of
           Resumed t f \<Rightarrow> leave f (Yielded t f)
         | CbResumed f \<Rightarrow> leave f (CbYielded f)
         | _ \<Rightarrow> s)"

text \<open>The second locked section and its tickle.\<close>

definition run_requeue :: "int \<Rightarrow> Workers \<Rightarrow> Workers" where
  "run_requeue i s =
     (case wpc s i of
        Yielded t f \<Rightarrow>
          (case mlfq_requeue (io_sched (mgr s)) t (fstate s f = READY) of
             (q, requeued) \<Rightarrow> set_pc i Counting (tickle_if requeued (with_sched (\<lambda>_. q) s)))
      | CbYielded f \<Rightarrow> set_pc i Counting s
      | _ \<Rightarrow> s)"

definition run_count :: "int \<Rightarrow> Workers \<Rightarrow> Workers" where
  "run_count i s = set_pc i Looping
     (with_sched (\<lambda>q. q\<lparr>m_activeThreadCount := m_activeThreadCount q - 1\<rparr>) s)"

text \<open>
  The idle fiber tests \<^verbatim>\<open>stopping()\<close>, at clock reading \<open>now\<close>: it ends, or goes on to wait and
  later yields. What it does in between is \<open>idle_round\<close>: steps of others to the workers.
\<close>

definition idle_check :: "int \<Rightarrow> int \<Rightarrow> Workers \<Rightarrow> Workers" where
  "idle_check i now s =
     (case io_stopping (mgr s) now of (m, ended) \<Rightarrow> set_pc i (IdleBack ended) (s\<lparr>mgr := m\<rparr>))"

definition idle_back :: "int \<Rightarrow> Workers \<Rightarrow> Workers" where
  "idle_back i s =
     (case wpc s i of
        IdleBack ended \<Rightarrow>
          set_pc i Looping (with_sched (\<lambda>q. q\<lparr>m_idleThreadCount := m_idleThreadCount q - 1\<rparr>)
            (s\<lparr>idle_over := (idle_over s)(i := ended)\<rparr>))
      | _ \<Rightarrow> s)"

text \<open>\<^verbatim>\<open>scheduleEx\<close> from any thread, with its tickle.\<close>

definition submit :: "FiberOrCb \<Rightarrow> ScheduleOptions \<Rightarrow> Workers \<Rightarrow> Workers" where
  "submit fc options s =
     (case scheduleEx (io_sched (mgr s)) fc options of
        (q, need_tickle) \<Rightarrow> tickle_if need_tickle (with_sched (\<lambda>_. q) s))"

text \<open>The locked part of \<^verbatim>\<open>stop\<close>, then its tickles; \<open>n\<close> is how many.\<close>

definition mark_stopping :: "Workers \<Rightarrow> Workers" where
  "mark_stopping s = with_sched (\<lambda>q. q\<lparr>m_stopping := True\<rparr>) s"

definition stop_tickles :: "nat \<Rightarrow> Workers \<Rightarrow> Workers" where
  "stop_tickles n s = ((tickle_if True) ^^ n) s"

definition sched_stop :: "nat \<Rightarrow> bool \<Rightarrow> int \<Rightarrow> Workers \<Rightarrow> Workers" where
  "sched_stop m_threadCount m_schedulerFiber now s =
     (case io_stopping (mgr s) now of
        (m, True) \<Rightarrow> s\<lparr>mgr := m\<rparr>
      | (m, False) \<Rightarrow>
          let s1 = stop_tickles m_threadCount (mark_stopping (s\<lparr>mgr := m\<rparr>))
          in if m_schedulerFiber then tickle_if True s1 else s1)"

section \<open>Runs\<close>

text \<open>
  \<open>sched_other\<close> is everything that leaves the queue and the counters alone: events, timers,
  fibers made, reset or destroyed outside a worker.
\<close>

inductive sched_reach :: "int set \<Rightarrow> Workers \<Rightarrow> bool" for ws where
  sched_init: "m_tasks (io_sched (mgr s)) = [] \<Longrightarrow> m_activeThreadCount (io_sched (mgr s)) = 0 \<Longrightarrow>
    m_idleThreadCount (io_sched (mgr s)) = 0 \<Longrightarrow> (\<forall>i. wpc s i = Looping) \<Longrightarrow> (\<forall>i. \<not> idle_over s i) \<Longrightarrow>
    (\<forall>f. fmutex s f = None \<and> fstate s f \<noteq> RUNNING) \<Longrightarrow> sched_reach ws s"
| sched_pick: "sched_reach ws s \<Longrightarrow> i \<in> ws \<Longrightarrow> wpc s i = Looping \<Longrightarrow> sched_reach ws (run_pick i s)"
| sched_branch: "sched_reach ws s \<Longrightarrow> i \<in> ws \<Longrightarrow> wpc s i = Picked out tk \<Longrightarrow> sched_reach ws (run_branch i s)"
| sched_fiber: "sched_reach ws s \<Longrightarrow> i \<in> ws \<Longrightarrow> wpc s i = HasFiber t f \<Longrightarrow> fmutex s f = None \<Longrightarrow>
    run_fiber i s = Inr s' \<Longrightarrow> sched_reach ws s'"
| sched_cb: "sched_reach ws s \<Longrightarrow> i \<in> ws \<Longrightarrow> wpc s i = HasCb c \<Longrightarrow> fmutex s f = None \<Longrightarrow>
    run_cb_fiber i f s = Inr s' \<Longrightarrow> sched_reach ws s'"
| sched_back: "sched_reach ws s \<Longrightarrow> i \<in> ws \<Longrightarrow> sched_reach ws (fiber_back i ended s)"
| sched_requeue: "sched_reach ws s \<Longrightarrow> i \<in> ws \<Longrightarrow> sched_reach ws (run_requeue i s)"
| sched_count: "sched_reach ws s \<Longrightarrow> i \<in> ws \<Longrightarrow> wpc s i = Counting \<Longrightarrow> sched_reach ws (run_count i s)"
| sched_idle: "sched_reach ws s \<Longrightarrow> i \<in> ws \<Longrightarrow> wpc s i = Idling \<Longrightarrow> sched_reach ws (idle_check i now s)"
| sched_idle_back: "sched_reach ws s \<Longrightarrow> i \<in> ws \<Longrightarrow> sched_reach ws (idle_back i s)"
| sched_submit: "sched_reach ws s \<Longrightarrow> sched_reach ws (submit fc options s)"
| sched_stop: "sched_reach ws s \<Longrightarrow> sched_reach ws (sched_stop n b now s)"
| sched_other: "sched_reach ws s \<Longrightarrow> io_sched m = io_sched (mgr s) \<Longrightarrow>
    (\<forall>f. fst' f \<noteq> fstate s f \<longrightarrow> fmutex s f = None \<and> fst' f \<noteq> RUNNING) \<Longrightarrow>
    sched_reach ws (s\<lparr>mgr := m, fstate := fst'\<rparr>)"

section \<open>The invariant\<close>

fun busy :: "worker \<Rightarrow> bool" where
  "busy (Picked out tk) = (out \<noteq> None)"
| "busy Looping = False"
| "busy Idling = False"
| "busy (IdleBack ended) = False"
| "busy Ended = False"
| "busy _ = True"

fun idles :: "worker \<Rightarrow> bool" where
  "idles Idling = True"
| "idles (IdleBack ended) = True"
| "idles _ = False"

fun runs :: "worker \<Rightarrow> fid option" where
  "runs (Resumed t f) = Some f"
| "runs (CbResumed f) = Some f"
| "runs _ = None"

definition cnt :: "int set \<Rightarrow> (worker \<Rightarrow> bool) \<Rightarrow> (int \<Rightarrow> worker) \<Rightarrow> nat" where
  "cnt ws Q pcs = card {j \<in> ws. Q (pcs j)}"

definition workers_inv :: "int set \<Rightarrow> Workers \<Rightarrow> bool" where
  "workers_inv ws s \<longleftrightarrow>
     m_activeThreadCount (io_sched (mgr s)) = of_nat (cnt ws busy (wpc s)) \<and>
     m_idleThreadCount (io_sched (mgr s)) = of_nat (cnt ws idles (wpc s)) \<and>
     (\<forall>i f. fmutex s f = Some i \<longleftrightarrow> runs (wpc s i) = Some f \<and> i \<in> ws) \<and>
     (\<forall>f. fstate s f = RUNNING \<longleftrightarrow> fmutex s f \<noteq> None) \<and>
     (\<forall>t \<in> set (m_tasks (io_sched (mgr s))). has_work t) \<and>
     (\<forall>i \<in> ws. \<forall>t tk. wpc s i = Picked (Some t) tk \<longrightarrow> has_work t) \<and>
     (\<forall>i \<in> ws. (idle_over s i \<longrightarrow> m_stopping (io_sched (mgr s))) \<and> (wpc s i = Ended \<longrightarrow> idle_over s i) \<and>
       (wpc s i = IdleBack True \<longrightarrow> m_stopping (io_sched (mgr s))))"

lemma cnt_upd:
  assumes "finite ws" and "i \<in> ws"
  shows "(of_nat (cnt ws Q (pcs(i := p))) :: u64) =
    of_nat (cnt ws Q pcs) - (if Q (pcs i) then 1 else 0) + (if Q p then 1 else 0)"
proof -
  let ?R = "{j \<in> ws - {i}. Q (pcs j)}"
  have "{j \<in> ws. Q ((pcs(i := p)) j)} = (if Q p then insert i ?R else ?R)"
    "{j \<in> ws. Q (pcs j)} = (if Q (pcs i) then insert i ?R else ?R)"
    using assms(2) by auto
  moreover have "finite ?R" "i \<notin> ?R" using assms(1) by auto
  ultimately show ?thesis by (simp add: cnt_def)
qed
section \<open>Preservation\<close>

lemma tickle_sched [simp]: "io_sched (tickle m) = io_sched m"
  by (simp add: tickle_def)

lemma sched_frame [simp]:
  "io_sched (mgr (set_pc i p s)) = io_sched (mgr s)" "io_sched (mgr (tickle_if b s)) = io_sched (mgr s)"
  "io_sched (mgr (with_sched g s)) = g (io_sched (mgr s))"
  "wpc (set_pc i p s) = (wpc s)(i := p)" "wpc (tickle_if b s) = wpc s" "wpc (with_sched g s) = wpc s"
  "fmutex (set_pc i p s) = fmutex s" "fmutex (tickle_if b s) = fmutex s" "fmutex (with_sched g s) = fmutex s"
  "fstate (set_pc i p s) = fstate s" "fstate (tickle_if b s) = fstate s" "fstate (with_sched g s) = fstate s"
  "idle_over (set_pc i p s) = idle_over s" "idle_over (tickle_if b s) = idle_over s"
  "idle_over (with_sched g s) = idle_over s"
  by (simp_all add: set_pc_def tickle_if_def with_sched_def)

lemma step_inv:
  assumes inv: "workers_inv ws s" and ws: "finite ws" "i \<in> ws" and pc: "wpc t = (wpc s)(i := p)"
    and act: "m_activeThreadCount (io_sched (mgr t)) =
      m_activeThreadCount (io_sched (mgr s)) - (if busy (wpc s i) then 1 else 0) + (if busy p then 1 else 0)"
    and idl: "m_idleThreadCount (io_sched (mgr t)) =
      m_idleThreadCount (io_sched (mgr s)) - (if idles (wpc s i) then 1 else 0) + (if idles p then 1 else 0)"
    and tasks: "\<forall>u \<in> set (m_tasks (io_sched (mgr t))). has_work u"
    and work: "\<forall>u tk. p = Picked (Some u) tk \<longrightarrow> has_work u"
    and stop: "m_stopping (io_sched (mgr s)) \<longrightarrow> m_stopping (io_sched (mgr t))"
    and over: "idle_over t = (idle_over s)(i := b)" "b \<longrightarrow> m_stopping (io_sched (mgr t))" "p = Ended \<longrightarrow> b"
      "p = IdleBack True \<longrightarrow> m_stopping (io_sched (mgr t))"
    and mx: "\<forall>j f. fmutex t f = Some j \<longleftrightarrow> runs (wpc t j) = Some f \<and> j \<in> ws"
    and run: "\<forall>f. fstate t f = RUNNING \<longleftrightarrow> fmutex t f \<noteq> None"
  shows "workers_inv ws t"
proof -
  have "m_activeThreadCount (io_sched (mgr t)) = of_nat (cnt ws busy (wpc t))"
    using act inv cnt_upd [OF ws, of busy "wpc s" p] by (simp add: workers_inv_def pc)
  moreover have "m_idleThreadCount (io_sched (mgr t)) = of_nat (cnt ws idles (wpc t))"
    using idl inv cnt_upd [OF ws, of idles "wpc s" p] by (simp add: workers_inv_def pc)
  moreover have "\<forall>j \<in> ws. \<forall>u tk. wpc t j = Picked (Some u) tk \<longrightarrow> has_work u"
    using inv work by (simp add: workers_inv_def pc)
  moreover have "\<forall>j \<in> ws. (idle_over t j \<longrightarrow> m_stopping (io_sched (mgr t))) \<and> (wpc t j = Ended \<longrightarrow> idle_over t j) \<and>
      (wpc t j = IdleBack True \<longrightarrow> m_stopping (io_sched (mgr t)))"
    using inv stop over by (simp add: workers_inv_def pc)
  ultimately show ?thesis using tasks mx run unfolding workers_inv_def by blast
qed

text \<open>A step that neither enters nor leaves a fiber.\<close>

lemma quiet_step_inv:
  assumes "workers_inv ws s" and "finite ws" "i \<in> ws" and "wpc t = (wpc s)(i := p)"
    and "m_activeThreadCount (io_sched (mgr t)) =
      m_activeThreadCount (io_sched (mgr s)) - (if busy (wpc s i) then 1 else 0) + (if busy p then 1 else 0)"
    and "m_idleThreadCount (io_sched (mgr t)) =
      m_idleThreadCount (io_sched (mgr s)) - (if idles (wpc s i) then 1 else 0) + (if idles p then 1 else 0)"
    and "\<forall>u \<in> set (m_tasks (io_sched (mgr t))). has_work u"
    and "\<forall>u tk. p = Picked (Some u) tk \<longrightarrow> has_work u"
    and "m_stopping (io_sched (mgr s)) \<longrightarrow> m_stopping (io_sched (mgr t))"
    and "idle_over t = (idle_over s)(i := b)" "b \<longrightarrow> m_stopping (io_sched (mgr t))" "p = Ended \<longrightarrow> b"
      "p = IdleBack True \<longrightarrow> m_stopping (io_sched (mgr t))"
    and same: "runs (wpc s i) = None" "runs p = None" "fmutex t = fmutex s" "fstate t = fstate s"
  shows "workers_inv ws t"
proof (rule step_inv [OF assms(1-13)])
  show "\<forall>j f. fmutex t f = Some j \<longleftrightarrow> runs (wpc t j) = Some f \<and> j \<in> ws"
    using assms(1,4) same by (auto simp: workers_inv_def)
  show "\<forall>f. fstate t f = RUNNING \<longleftrightarrow> fmutex t f \<noteq> None"
    using assms(1) same by (simp add: workers_inv_def)
qed

lemma over_self: "idle_over s = (idle_over s)(i := idle_over s i)"
  by simp

lemma idle_stopping: "workers_inv ws s \<Longrightarrow> i \<in> ws \<Longrightarrow> idle_over s i \<longrightarrow> m_stopping (io_sched (mgr s))"
  by (simp add: workers_inv_def)

lemma queue_work: "workers_inv ws s \<Longrightarrow> \<forall>u \<in> set (m_tasks (io_sched (mgr s))). has_work u"
  by (simp add: workers_inv_def)

lemma run_pick_inv:
  assumes inv: "workers_inv ws s" and ws: "finite ws" "i \<in> ws" and pc: "wpc s i = Looping"
  shows "workers_inv ws (run_pick i s)"
proof -
  obtain q out tk where p: "pickNextTaskLocked (io_sched (mgr s)) i = (q, out, tk)" by (cases "pickNextTaskLocked (io_sched (mgr s)) i") auto
  note S = pick_state [OF p]
  have idl: "m_idleThreadCount q = m_idleThreadCount (io_sched (mgr s))"
    using p by (cases rule: pick_result) auto
  have sub: "set (m_tasks q) \<subseteq> set (m_tasks (io_sched (mgr s)))"
    using p by (cases rule: pick_result) (auto dest: set_erase_at_subset [THEN subsetD])
  have out: "\<forall>t. out = Some t \<longrightarrow> t \<in> set (m_tasks (io_sched (mgr s)))"
    using p by (cases rule: pick_result) auto
  show ?thesis
    by (rule quiet_step_inv [OF inv ws, where p = "Picked out tk" and b = "idle_over s i"])
      (use p S(5,6) idl sub out pc queue_work [OF inv] idle_stopping [OF inv ws(2)]
        in \<open>auto simp: run_pick_def\<close>)
qed

lemma run_branch_inv:
  assumes inv: "workers_inv ws s" and ws: "finite ws" "i \<in> ws" and pc: "wpc s i = Picked out tk"
  shows "workers_inv ws (run_branch i s)"
proof -
  note I = idle_stopping [OF inv ws(2)] and Q = queue_work [OF inv]
  have w: "out = Some t \<Longrightarrow> task_fiber t \<noteq> None \<or> task_cb t \<noteq> None" for t
    using inv ws(2) pc by (auto simp: workers_inv_def has_work_def)
  consider (fiber) t f where "out = Some t" "task_fiber t = Some f"
    | (cb) t c where "out = Some t" "task_fiber t = None" "task_cb t = Some c"
    | (none) "out = None"
  proof (cases out)
    case (Some t)
    with w [OF Some] fiber [OF Some] cb [OF Some] show thesis by (cases "task_fiber t") auto
  qed (rule none)
  then show ?thesis
  proof cases
    case fiber
    show ?thesis
      by (rule quiet_step_inv [OF inv ws, where p = "HasFiber t f" and b = "idle_over s i"])
        (use fiber pc I Q in \<open>auto simp: run_branch_def Let_def\<close>)
  next
    case cb
    show ?thesis
      by (rule quiet_step_inv [OF inv ws, where p = "HasCb c" and b = "idle_over s i"])
        (use cb pc I Q in \<open>auto simp: run_branch_def Let_def\<close>)
  next
    case none
    show ?thesis
      by (rule quiet_step_inv [OF inv ws, where p = "if idle_over s i then Ended else Idling" and b = "idle_over s i"])
        (use none pc I Q in \<open>auto simp: run_branch_def Let_def\<close>)
  qed
qed

lemma mutex_iff: "workers_inv ws s \<Longrightarrow> fmutex s f = Some i \<longleftrightarrow> runs (wpc s i) = Some f \<and> i \<in> ws"
  by (simp add: workers_inv_def)

lemma running_iff: "workers_inv ws s \<Longrightarrow> fstate s f = RUNNING \<longleftrightarrow> fmutex s f \<noteq> None"
  by (simp add: workers_inv_def)

lemma enter_inv:
  assumes inv: "workers_inv ws s" and ws: "finite ws" "i \<in> ws" and pc: "runs (wpc s i) = None" "busy (wpc s i)"
    and p: "runs p = Some f" and free: "fmutex s f = None" and e: "enter_fiber i f p s = Inr s'"
  shows "workers_inv ws s'"
proof -
  have s': "s' = set_pc i p (s\<lparr>fmutex := (fmutex s)(f := Some i), fstate := (fstate s)(f := RUNNING)\<rparr>)"
    using e by (auto simp: enter_fiber_def split: if_splits)
  have bp: "busy p" "\<not> idles p" "p \<noteq> Ended" "p \<noteq> IdleBack True" "\<And>u tk. p \<noteq> Picked u tk" using p by (cases p; simp)+
  have ni: "\<not> idles (wpc s i)" using pc(2) by (cases "wpc s i") auto
  show ?thesis
  proof (rule step_inv [OF inv ws, where p = p and b = "idle_over s i"])
    show "\<forall>j g. fmutex s' g = Some j \<longleftrightarrow> runs (wpc s' j) = Some g \<and> j \<in> ws"
    proof (intro allI)
      fix j g
      have "runs (wpc s j) = Some f \<longrightarrow> j \<notin> ws" using mutex_iff [OF inv, of f j] free by auto
      then show "fmutex s' g = Some j \<longleftrightarrow> runs (wpc s' j) = Some g \<and> j \<in> ws"
        using mutex_iff [OF inv, of g j] ws(2) pc(1) p free by (auto simp: s')
    qed
    show "\<forall>g. fstate s' g = RUNNING \<longleftrightarrow> fmutex s' g \<noteq> None"
      using running_iff [OF inv] by (auto simp: s')
  qed (use s' bp ni pc(2) queue_work [OF inv] idle_stopping [OF inv ws(2)] in auto)
qed

lemma run_fiber_inv:
  assumes inv: "workers_inv ws s" and ws: "finite ws" "i \<in> ws" and pc: "wpc s i = HasFiber t f"
    and free: "fmutex s f = None" and e: "run_fiber i s = Inr s'"
  shows "workers_inv ws s'"
proof (cases "fstate s f = TERMINATED")
  case True
  then have s': "s' = set_pc i (Yielded t f) s" using e pc by (simp add: run_fiber_def)
  show ?thesis
    by (rule quiet_step_inv [OF inv ws, where p = "Yielded t f" and b = "idle_over s i"])
      (use s' pc queue_work [OF inv] idle_stopping [OF inv ws(2)] in auto)
next
  case False
  then have "enter_fiber i f (Resumed t f) s = Inr s'" using e pc by (simp add: run_fiber_def)
  then show ?thesis by (rule enter_inv [OF inv ws _ _ _ free, rotated 3]) (simp_all add: pc)
qed

lemma fiber_back_inv:
  assumes inv: "workers_inv ws s" and ws: "finite ws" "i \<in> ws"
  shows "workers_inv ws (fiber_back i ended s)"
proof (cases "runs (wpc s i)")
  case None
  then have "fiber_back i ended s = s" by (cases "wpc s i") (simp_all add: fiber_back_def Let_def)
  then show ?thesis using inv by simp
next
  case (Some f)
  define p where "p = (case wpc s i of Resumed t f \<Rightarrow> Yielded t f | _ \<Rightarrow> CbYielded f)"
  have t: "fiber_back i ended s = set_pc i p (s\<lparr>fmutex := (fmutex s)(f := None),
      fstate := (fstate s)(f := if ended then TERMINATED else READY)\<rparr>)"
    using Some by (cases "wpc s i") (simp_all add: fiber_back_def p_def Let_def)
  have p: "busy p" "\<not> idles p" "p \<noteq> Ended" "p \<noteq> IdleBack True" "\<And>u tk. p \<noteq> Picked u tk" "runs p = None"
    by (simp_all add: p_def split: worker.split)
  have o: "busy (wpc s i)" "\<not> idles (wpc s i)" using Some by (cases "wpc s i"; simp)+
  show ?thesis
  proof (rule step_inv [OF inv ws, where p = p and b = "idle_over s i"])
    show "\<forall>j g. fmutex (fiber_back i ended s) g = Some j \<longleftrightarrow> runs (wpc (fiber_back i ended s) j) = Some g \<and> j \<in> ws"
      using mutex_iff [OF inv] ws(2) Some p(6) by (auto simp: t) (metis option.inject)+
    show "\<forall>g. fstate (fiber_back i ended s) g = RUNNING \<longleftrightarrow> fmutex (fiber_back i ended s) g \<noteq> None"
      using running_iff [OF inv] by (auto simp: t)
  qed (use t p o queue_work [OF inv] idle_stopping [OF inv ws(2)] in auto)
qed
lemma run_requeue_inv:
  assumes inv: "workers_inv ws s" and ws: "finite ws" "i \<in> ws"
  shows "workers_inv ws (run_requeue i s)"
proof -
  note I = idle_stopping [OF inv ws(2)] and Q = queue_work [OF inv]
  consider (fiber) t f where "wpc s i = Yielded t f" | (cb) f where "wpc s i = CbYielded f"
    | (none) "run_requeue i s = s"
    by (cases "wpc s i") (auto simp: run_requeue_def)
  then show ?thesis
  proof cases
    case fiber
    obtain q b where q: "mlfq_requeue (io_sched (mgr s)) t (fstate s f = READY) = (q, b)" by fastforce
    have "q = io_sched (mgr s) \<or> (\<exists>u. q = (io_sched (mgr s))\<lparr>m_taskSequence := m_taskSequence (io_sched (mgr s)) + 1,
        m_tasks := m_tasks (io_sched (mgr s)) @ [u]\<rparr> \<and> has_work u)"
      using requeue_shape [of "io_sched (mgr s)" t "fstate s f = READY"] q by auto
    then have "m_activeThreadCount q = m_activeThreadCount (io_sched (mgr s))"
      "m_idleThreadCount q = m_idleThreadCount (io_sched (mgr s))" "m_stopping q = m_stopping (io_sched (mgr s))"
      "\<forall>u \<in> set (m_tasks q). has_work u" using Q by auto
    then show ?thesis using q fiber I
      by (intro quiet_step_inv [OF inv ws, where p = Counting and b = "idle_over s i"])
        (auto simp: run_requeue_def)
  next
    case cb
    then show ?thesis using I Q
      by (intro quiet_step_inv [OF inv ws, where p = Counting and b = "idle_over s i"])
        (auto simp: run_requeue_def)
  qed (use inv in simp)
qed

lemma run_count_inv:
  assumes inv: "workers_inv ws s" and ws: "finite ws" "i \<in> ws" and pc: "wpc s i = Counting"
  shows "workers_inv ws (run_count i s)"
  by (rule quiet_step_inv [OF inv ws, where p = Looping and b = "idle_over s i"])
    (use pc queue_work [OF inv] idle_stopping [OF inv ws(2)] in \<open>auto simp: run_count_def\<close>)

lemma io_stopping_sched: "io_stopping m now = (m', b) \<Longrightarrow> io_sched m' = io_sched m \<and> (b \<longrightarrow> stopping (io_sched m))"
  by (auto simp: io_stopping_eq split: prod.splits)

lemma idle_check_inv:
  assumes inv: "workers_inv ws s" and ws: "finite ws" "i \<in> ws" and pc: "wpc s i = Idling"
  shows "workers_inv ws (idle_check i now s)"
proof -
  obtain m b where m: "io_stopping (mgr s) now = (m, b)" by fastforce
  note S = io_stopping_sched [OF m]
  show ?thesis
    by (rule quiet_step_inv [OF inv ws, where p = "IdleBack b" and b = "idle_over s i"])
      (use pc m S queue_work [OF inv] idle_stopping [OF inv ws(2)] in \<open>auto simp: idle_check_def stopping_def\<close>)
qed

lemma idle_back_inv:
  assumes inv: "workers_inv ws s" and ws: "finite ws" "i \<in> ws"
  shows "workers_inv ws (idle_back i s)"
proof (cases "\<exists>b. wpc s i = IdleBack b")
  case True
  then obtain b where pc: "wpc s i = IdleBack b" by blast
  have "b \<longrightarrow> m_stopping (io_sched (mgr s))" using inv ws(2) pc by (auto simp: workers_inv_def)
  then show ?thesis using pc queue_work [OF inv]
    by (intro quiet_step_inv [OF inv ws, where p = Looping and b = b]) (auto simp: idle_back_def)
next
  case False
  then have "idle_back i s = s" by (cases "wpc s i") (auto simp: idle_back_def)
  with inv show ?thesis by simp
qed

text \<open>Steps that are not a worker's.\<close>

lemma outer_step_inv:
  assumes inv: "workers_inv ws s" and t: "wpc t = wpc s" "fmutex t = fmutex s" "idle_over t = idle_over s"
    and q: "m_activeThreadCount (io_sched (mgr t)) = m_activeThreadCount (io_sched (mgr s))"
      "m_idleThreadCount (io_sched (mgr t)) = m_idleThreadCount (io_sched (mgr s))"
      "m_stopping (io_sched (mgr s)) \<longrightarrow> m_stopping (io_sched (mgr t))"
      "\<forall>u \<in> set (m_tasks (io_sched (mgr t))). has_work u"
    and f: "\<forall>f. (fstate t f = RUNNING) = (fstate s f = RUNNING)"
  shows "workers_inv ws t"
  using assms unfolding workers_inv_def by auto

lemma submit_inv: "workers_inv ws s \<Longrightarrow> workers_inv ws (submit fc options s)"
proof -
  assume inv: "workers_inv ws s"
  obtain q b where q: "scheduleEx (io_sched (mgr s)) fc options = (q, b)" by fastforce
  have "q = io_sched (mgr s) \<or> (\<exists>u. q = (io_sched (mgr s))\<lparr>m_taskSequence := m_taskSequence (io_sched (mgr s)) + 1,
      m_tasks := m_tasks (io_sched (mgr s)) @ [u]\<rparr> \<and> has_work u)"
    using scheduleEx_shape [of "io_sched (mgr s)" fc options] q by auto
  then have "m_activeThreadCount q = m_activeThreadCount (io_sched (mgr s))"
    "m_idleThreadCount q = m_idleThreadCount (io_sched (mgr s))" "m_stopping q = m_stopping (io_sched (mgr s))"
    "\<forall>u \<in> set (m_tasks q). has_work u" using queue_work [OF inv] by auto
  then show ?thesis using q by (intro outer_step_inv [OF inv]) (auto simp: submit_def)
qed

lemma stop_tickles_frame: "\<exists>m. stop_tickles n s = s\<lparr>mgr := m\<rparr> \<and> io_sched m = io_sched (mgr s)"
proof (induction n)
  case 0
  show ?case by (intro exI [of _ "mgr s"]) (simp add: stop_tickles_def)
next
  case (Suc n)
  then obtain m where "stop_tickles n s = s\<lparr>mgr := m\<rparr>" "io_sched m = io_sched (mgr s)" by blast
  then show ?case by (intro exI [of _ "tickle m"]) (simp add: stop_tickles_def tickle_if_def)
qed

lemma sched_stop_inv:
  assumes inv: "workers_inv ws s"
  shows "workers_inv ws (sched_stop n b now s)"
proof -
  obtain m r where m: "io_stopping (mgr s) now = (m, r)" by fastforce
  note S = io_stopping_sched [OF m]
  let ?s = "mark_stopping (s\<lparr>mgr := m\<rparr>)"
  obtain m' where m': "stop_tickles n ?s = ?s\<lparr>mgr := m'\<rparr>" "io_sched m' = io_sched (mgr ?s)"
    using stop_tickles_frame by blast
  show ?thesis
    by (rule outer_step_inv [OF inv])
      (use m m' S queue_work [OF inv] in \<open>auto simp: sched_stop_def Let_def mark_stopping_def split: bool.splits\<close>)
qed

lemma sched_reach_inv:
  assumes "finite ws"
  shows "sched_reach ws s \<Longrightarrow> workers_inv ws s"
proof (induction rule: sched_reach.induct)
  case (sched_init s)
  then show ?case by (simp add: workers_inv_def cnt_def)
next
  case (sched_pick s i)
  then show ?case using run_pick_inv assms by blast
next
  case (sched_branch s i out tk)
  then show ?case using run_branch_inv assms by blast
next
  case (sched_fiber s i t f s')
  then show ?case using run_fiber_inv assms by blast
next
  case (sched_cb s i c f s')
  then show ?case using enter_inv [of ws s i "CbResumed f" f s'] assms by (simp add: run_cb_fiber_def)
next
  case (sched_back s i ended)
  then show ?case using fiber_back_inv assms by blast
next
  case (sched_requeue s i)
  then show ?case using run_requeue_inv assms by blast
next
  case (sched_count s i)
  then show ?case using run_count_inv assms by blast
next
  case (sched_idle s i now)
  then show ?case using idle_check_inv assms by blast
next
  case (sched_idle_back s i)
  then show ?case using idle_back_inv assms by blast
next
  case (sched_submit s fc options)
  then show ?case using submit_inv by blast
next
  case (sched_stop s n b now)
  then show ?case using sched_stop_inv by blast
next
  case (sched_other s m fst')
  have "(fst' f = RUNNING) = (fstate s f = RUNNING)" for f
    using sched_other(3) running_iff [OF sched_other(4), of f] by (cases "fst' f = fstate s f") auto
  then show ?case using sched_other(2) queue_work [OF sched_other(4)]
    by (intro outer_step_inv [OF sched_other(4)]) auto
qed

section \<open>Properties\<close>

text \<open>
  Property C6. The worker loop accounts for its threads and tasks: in every interleaving of the
  workers, of whoever schedules and of \<^verbatim>\<open>stop()\<close>, no fiber runs on two workers and a fiber is
  \<^verbatim>\<open>RUNNING\<close> exactly while a worker runs it, so that the assertion of \<^verbatim>\<open>resume\<close> holds for
  every queued fiber; \<^verbatim>\<open>m_activeThreadCount\<close> and \<^verbatim>\<open>m_idleThreadCount\<close> are the numbers of
  workers with a task and in the idle fiber; when \<^verbatim>\<open>Scheduler::stopping()\<close> holds no task is queued
  and none is in a worker's hands; and a worker leaves the loop only after \<^verbatim>\<open>stop()\<close>.
\<close>

theorem sched_workers:
  assumes "finite ws" and "sched_reach ws s" and "card ws < 2 ^ 64"
  shows "(\<forall>i \<in> ws. \<forall>j \<in> ws. \<forall>f. runs (wpc s i) = Some f \<and> runs (wpc s j) = Some f \<longrightarrow> i = j) \<and>
    (\<forall>f. fstate s f = RUNNING \<longleftrightarrow> (\<exists>i \<in> ws. runs (wpc s i) = Some f)) \<and>
    (\<forall>i \<in> ws. \<forall>t f. wpc s i = HasFiber t f \<and> fmutex s f = None \<longrightarrow> (\<exists>s'. run_fiber i s = Inr s')) \<and>
    unat (m_activeThreadCount (io_sched (mgr s))) = card {i \<in> ws. busy (wpc s i)} \<and>
    unat (m_idleThreadCount (io_sched (mgr s))) = card {i \<in> ws. idles (wpc s i)} \<and>
    (stopping (io_sched (mgr s)) \<longrightarrow> m_tasks (io_sched (mgr s)) = [] \<and> (\<forall>i \<in> ws. \<not> busy (wpc s i))) \<and>
    (\<forall>i \<in> ws. wpc s i = Ended \<longrightarrow> m_stopping (io_sched (mgr s)))"
proof (intro conjI)
  note inv = sched_reach_inv [OF assms(1,2)]
  have small: "unat (of_nat (cnt ws Q (wpc s)) :: u64) = cnt ws Q (wpc s)" for Q
  proof -
    have "cnt ws Q (wpc s) \<le> card ws" unfolding cnt_def using assms(1) by (intro card_mono) auto
    with assms(3) show ?thesis by (simp add: unat_of_nat)
  qed
  show act: "unat (m_activeThreadCount (io_sched (mgr s))) = card {i \<in> ws. busy (wpc s i)}"
    and "unat (m_idleThreadCount (io_sched (mgr s))) = card {i \<in> ws. idles (wpc s i)}"
    using inv small [of busy] small [of idles] by (simp_all add: workers_inv_def cnt_def)
  show "stopping (io_sched (mgr s)) \<longrightarrow> m_tasks (io_sched (mgr s)) = [] \<and> (\<forall>i \<in> ws. \<not> busy (wpc s i))"
    using act assms(1) by (auto simp: stopping_def)
  show "\<forall>i \<in> ws. wpc s i = Ended \<longrightarrow> m_stopping (io_sched (mgr s))" using inv by (auto simp: workers_inv_def)
  show "\<forall>i \<in> ws. \<forall>j \<in> ws. \<forall>f. runs (wpc s i) = Some f \<and> runs (wpc s j) = Some f \<longrightarrow> i = j"
    using mutex_iff [OF inv] by (metis option.inject)
  show "\<forall>f. fstate s f = RUNNING \<longleftrightarrow> (\<exists>i \<in> ws. runs (wpc s i) = Some f)"
    using mutex_iff [OF inv] running_iff [OF inv] by (metis not_None_eq)
  show "\<forall>i \<in> ws. \<forall>t f. wpc s i = HasFiber t f \<and> fmutex s f = None \<longrightarrow> (\<exists>s'. run_fiber i s = Inr s')"
  proof (intro ballI allI impI)
    fix i t f assume A: "wpc s i = HasFiber t f \<and> fmutex s f = None"
    then have "fstate s f \<noteq> RUNNING" using running_iff [OF inv] by simp
    then show "\<exists>s'. run_fiber i s = Inr s'"
      using A by (cases "fstate s f") (simp_all add: run_fiber_def enter_fiber_def)
  qed
qed

section \<open>Concrete states\<close>

text \<open>A manager whose workers all stand at the head of the loop.\<close>

definition workers_0 :: Workers where
  "workers_0 = \<lparr>mgr = init_IOManager 4 0, wpc = (\<lambda>_. Looping), idle_over = (\<lambda>_. False),
     fstate = (\<lambda>_. READY), fmutex = (\<lambda>_. None)\<rparr>"

lemma init_io_sched [simp]: "io_sched (init_IOManager efd now) = init_Scheduler"
  by (simp add: init_IOManager_def contextResize_def)

lemma workers_0_sched [simp]: "io_sched (mgr workers_0) = init_Scheduler" "wpc workers_0 i = Looping"
  "fstate workers_0 f = READY" "fmutex workers_0 f = None" "\<not> idle_over workers_0 i"
  by (simp_all add: workers_0_def)

lemma workers_0_reach: "sched_reach ws workers_0"
  by (rule sched_init) (simp_all add: init_Scheduler_def)

text \<open>Worker 3 has taken the task of fiber 7 and resumes it.\<close>

definition workers_1 :: Workers where
  "workers_1 = run_branch 3 (run_pick 3 (submit (FiberPtr (Some 7)) default_options workers_0))"

definition task_7 :: ScheduleTask where
  "task_7 = \<lparr>task_fiber = Some 7, task_cb = None, task_thread = -1, task_priority = 0,
     mlfq_level = 0, deadline_ms = 0, sequence = 0\<rparr>"

lemma workers_1_picked:
  "wpc (run_pick 3 (submit (FiberPtr (Some 7)) default_options workers_0)) 3 = Picked (Some task_7) False"
  by (simp add: run_pick_def submit_def scheduleEx_def init_Scheduler_def pickNextTaskLocked_def take_task_def
      match_thread_def default_options_def erase_at_def task_7_def)

lemma workers_1_pc: "wpc workers_1 = (\<lambda>_. Looping)(3 := HasFiber task_7 7)"
  "fmutex workers_1 = fmutex workers_0" "fstate workers_1 = fstate workers_0"
  by (simp_all add: workers_1_def run_branch_def run_pick_def submit_def scheduleEx_def init_Scheduler_def
      pickNextTaskLocked_def take_task_def match_thread_def default_options_def erase_at_def task_7_def fun_eq_iff)

lemma workers_1_reach: "sched_reach {3, 4} workers_1"
  unfolding workers_1_def
  by (rule sched_branch [OF sched_pick [OF sched_submit [OF workers_0_reach]] _ workers_1_picked])
    (simp_all add: submit_def split: prod.split)

lemma sched_workers_witness:
  "\<exists>s. sched_reach {3, 4} s \<and> runs (wpc s 3) = Some 7 \<and> fstate s 7 = RUNNING \<and>
    unat (m_activeThreadCount (io_sched (mgr s))) = 1 \<and> \<not> stopping (io_sched (mgr s))"
proof -
  obtain s where s: "run_fiber 3 workers_1 = Inr s"
    by (simp add: run_fiber_def enter_fiber_def workers_1_pc)
  then have pc: "wpc s = (\<lambda>_. Looping)(3 := Resumed task_7 7)"
    by (auto simp: run_fiber_def enter_fiber_def workers_1_pc)
  have r: "sched_reach {3, 4} s"
    by (rule sched_fiber [OF workers_1_reach _ _ _ s]) (simp_all add: workers_1_pc)
  have "{i \<in> {3, 4}. busy (wpc s i)} = {3}" by (auto simp: pc)
  with sched_workers [OF _ r] r show ?thesis by (intro exI [of _ s]) (auto simp: pc)
qed

end
