(* ===== verification/Sched_Wakeup.thy ===== *)
theory Sched_Wakeup
  imports Sched_Run
begin

text \<open>
  Two behaviours of the worker loop that a run of it can show: a task whose wake-up is lost while
  a worker goes idle, and a fiber that waits for the kernel and is put back in the queue.
\<close>

section \<open>A wake-up that is lost, and a fiber that is woken for nothing\<close>

definition submit_all :: "(FiberOrCb \<times> ScheduleOptions) list \<Rightarrow> Workers \<Rightarrow> Workers" where
  "submit_all tasks s = fold (\<lambda>(fc, options). submit fc options) tasks s"

lemma submit_silent:
  assumes "m_idleThreadCount (io_sched (mgr s)) = 0 \<or> m_tasks (io_sched (mgr s)) \<noteq> []"
  shows "tickle_writes (mgr (submit fc options s)) = tickle_writes (mgr s)"
  using assms by (auto simp: submit_def scheduleEx_def Let_def tickle_if_def with_sched_def tickle_def
      hasIdleThreads_def)

lemma submit_frame [simp]:
  "wpc (submit fc options s) = wpc s" "idle_over (submit fc options s) = idle_over s"
  "io_timers (mgr (submit fc options s)) = io_timers (mgr s)"
  "m_idleThreadCount (io_sched (mgr (submit fc options s))) = m_idleThreadCount (io_sched (mgr s))"
  by (auto simp: submit_def scheduleEx_def Let_def tickle_if_def with_sched_def tickle_def)

lemma submit_queue:
  "set (m_tasks (io_sched (mgr s))) \<subseteq> set (m_tasks (io_sched (mgr (submit fc options s))))"
  by (auto simp: submit_def scheduleEx_def Let_def tickle_if_def with_sched_def tickle_def)

lemma submit_work: "fc \<noteq> FiberPtr None \<Longrightarrow> fc \<noteq> Callback None \<Longrightarrow>
  m_tasks (io_sched (mgr (submit fc options s))) \<noteq> []"
  by (cases fc) (auto simp: submit_def scheduleEx_def Let_def tickle_if_def with_sched_def tickle_def)

lemma submit_all_silent:
  assumes "m_tasks (io_sched (mgr s)) \<noteq> []"
  shows "tickle_writes (mgr (submit_all tasks s)) = tickle_writes (mgr s) \<and>
    wpc (submit_all tasks s) = wpc s \<and> io_timers (mgr (submit_all tasks s)) = io_timers (mgr s) \<and>
    set (m_tasks (io_sched (mgr s))) \<subseteq> set (m_tasks (io_sched (mgr (submit_all tasks s))))"
  using assms
proof (induction tasks arbitrary: s)
  case (Cons t tasks)
  obtain fc options where t: "t = (fc, options)" by fastforce
  let ?s = "submit fc options s"
  have q: "set (m_tasks (io_sched (mgr s))) \<subseteq> set (m_tasks (io_sched (mgr ?s)))" by (rule submit_queue)
  with Cons.prems have "m_tasks (io_sched (mgr ?s)) \<noteq> []" by auto
  note IH = Cons.IH [OF this]
  have "tickle_writes (mgr ?s) = tickle_writes (mgr s)" using Cons.prems by (simp add: submit_silent)
  moreover have "submit_all (t # tasks) s = submit_all tasks ?s" by (simp add: submit_all_def t)
  ultimately show ?case using IH submit_frame(1,3) [of fc options s] by (metis q order_trans)
qed (simp add: submit_all_def)

text \<open>
  Property C38. A wake-up can be lost: when a task is scheduled after a worker has found nothing
  to run and before it counts itself idle, with no other worker idle, \<^verbatim>\<open>tickle()\<close> writes nothing,
  and the worker goes to sleep in \<^verbatim>\<open>epoll_wait\<close> with the task in the queue until the next timer
  or for five seconds. No task scheduled after that wakes it either: the queue is not empty, so
  \<^verbatim>\<open>scheduleEx\<close> asks for no tickle.
\<close>

theorem sched_lost_wakeup:
  assumes "sched_reach ws s" and "i \<in> ws" and "wpc s i = Picked None tk" and "\<not> idle_over s i"
    and "m_idleThreadCount (io_sched (mgr s)) = 0" and "fc \<noteq> FiberPtr None" and "fc \<noteq> Callback None"
  shows "\<exists>s1. s1 = run_branch i (submit fc options s) \<and> sched_reach ws s1 \<and> wpc s1 i = Idling \<and>
    (\<forall>more. let t = submit_all more s1 in
       wpc t i = Idling \<and> tickle_writes (mgr t) = tickle_writes (mgr s) \<and>
       m_tasks (io_sched (mgr t)) \<noteq> [] \<and> wpc (idle_check i now t) i = IdleBack False \<and>
       snd (wait_timeout (mgr t) now) = min (snd (getNextTimer (io_timers (mgr s)) now)) 5000)"
proof -
  let ?s = "submit fc options s" let ?b = "run_branch i (submit fc options s)"
  have r: "sched_reach ws ?b"
    by (rule sched_branch [OF sched_submit [OF assms(1)] assms(2)]) (simp add: assms(3))
  have b: "?b = set_pc i Idling (with_sched (\<lambda>q. q\<lparr>m_idleThreadCount := m_idleThreadCount q + 1\<rparr>)
      (tickle_if tk ?s))"
    using assms(3,4) by (simp add: run_branch_def)
  have f: "wpc ?b i = Idling" "m_tasks (io_sched (mgr ?b)) = m_tasks (io_sched (mgr ?s))"
    "io_timers (mgr ?b) = io_timers (mgr s)" "tickle_writes (mgr ?b) = tickle_writes (mgr s)"
    using submit_silent [of s fc options] assms(5)
    by (simp_all add: b set_pc_def with_sched_def tickle_if_def tickle_def hasIdleThreads_def)
  have q: "m_tasks (io_sched (mgr ?b)) \<noteq> []" using submit_work [OF assms(6,7)] f(2) by simp
  have "wpc t i = Idling \<and> tickle_writes (mgr t) = tickle_writes (mgr s) \<and>
       m_tasks (io_sched (mgr t)) \<noteq> [] \<and> wpc (idle_check i now t) i = IdleBack False \<and>
       snd (wait_timeout (mgr t) now) = min (snd (getNextTimer (io_timers (mgr s)) now)) 5000"
    if "t = submit_all more ?b" for t more
  proof -
    note S = submit_all_silent [OF q, of more, folded that]
    have "m_tasks (io_sched (mgr t)) \<noteq> []" using S q by auto
    with S f show ?thesis
      by (simp add: wait_timeout_def idle_check_def io_stopping_eq stopping_def split: prod.split)
  qed
  with r f(1) show ?thesis unfolding Let_def by blast
qed

text \<open>A call that finds its event registered already gives up with the timer it armed.\<close>

lemma register_taken:
  assumes "waits_for (iom w) fd event f" and "0 \<le> fd"
  shows "register_wait w fd event timer cur rt = Inr (cancel_timer timer w, Returned (-1))"
proof -
  obtain a where "lookup_ctx (iom w) fd = Inr (Some a)" "fc_events (ctx_heap (iom w) a) AND event \<noteq> 0"
    using assms(1) by (auto simp: waits_for_def)
  then have "addEvent (iom w) fd event None cur rt = Inr (iom w, False)"
    using assms(2) by (simp add: addEvent_def addEvent_register_def Let_def)
  moreover from this have "addEvent_errno (iom w) fd event rt (errno w) = errno w"
    using assms by (auto simp: addEvent_errno_def Let_def waits_for_def)
  ultimately show ?thesis by (simp add: register_wait_def)
qed

lemma waits_for_frame:
  "ctx_heap m = ctx_heap m' \<Longrightarrow> m_fdContexts m = m_fdContexts m' \<Longrightarrow> waits_for m fd event f = waits_for m' fd event f"
  by (simp add: waits_for_def lookup_ctx_def)

lemma spurious_resume_fails:
  assumes s: "suspended w fd event timeout t timer f now" and io: "t_iom w" and fd: "0 \<le> fd"
  obtains w1 where "do_io_resume w ((-1, EAGAIN) # rs) fd event timeout t timer f now' rt =
      Some (Inr (w1, rs, Returned (-1)))" "errno w1 = EAGAIN" "waits_for (iom w1) fd event f"
proof -
  let ?w = "cancel_timer timer w" and ?e = "\<lambda>w. w\<lparr>errno := EAGAIN\<rparr> :: Runtime"
  have S: "rt_inv w" "waits_for (iom w) fd event f" "ti_cancelled w t = 0"
    using s by (simp_all add: suspended_def)
  have inv: "rt_inv (?e ?w)" by (rule rt_inv_frame [OF cancel_timer_ok(1) [OF S(1)]]) simp_all
  obtain w2 timer2 where arm: "arm_timeout (?e ?w) fd event timeout t now' = (w2, timer2)" by fastforce
  note A = arm_timeout_ok [OF inv arm]
  have w2: "waits_for (iom w2) fd event f"
    using S(2) A(6,7) waits_for_frame [of "iom w2" "iom w"] by simp
  have e: "errno w2 = EAGAIN" by (subst A(4)) simp
  have r: "retry_eintr ?w ((-1, EAGAIN) # rs) = Some (?e ?w, -1, rs)"
    by (simp add: call_f_def errno_defs)
  have "do_io_resume w ((-1, EAGAIN) # rs) fd event timeout t timer f now' rt =
      Some (Inr (drop_tinfo t (cancel_timer timer2 w2), rs, Returned (-1)))"
    using S(3) io arm register_taken [OF w2 fd, of timer2 f rt]
    by (simp add: do_io_resume_def do_io_attempt_def r leave_def ETIMEDOUT_def del: retry_eintr.simps)
  moreover have "errno (drop_tinfo t (cancel_timer timer2 w2)) = EAGAIN" by (simp add: drop_tinfo_def e)
  moreover have "waits_for (iom (drop_tinfo t (cancel_timer timer2 w2))) fd event f"
    using w2 waits_for_frame [of "iom (cancel_timer timer2 w2)" "iom w2"] by (simp add: drop_tinfo_def)
  ultimately show thesis by (rule that)
qed

lemma suspended_frame:
  assumes "suspended w fd event timeout t timer f now" and "ctx_heap m = ctx_heap (iom w)"
    and "ctx_count m = ctx_count (iom w)" and "m_fdContexts m = m_fdContexts (iom w)"
    and "m_pendingEventCount m = m_pendingEventCount (iom w)" and "io_timers m = io_timers (iom w)"
  shows "suspended (w\<lparr>iom := m\<rparr>) fd event timeout t timer f now"
proof -
  have "io_inv m = io_inv (iom w)" using assms(2-5) by (simp add: io_inv_def registered_def)
  with assms waits_for_frame [of m "iom w"] show ?thesis
    by (auto simp: suspended_def rt_inv_def split: option.splits)
qed

lemma requeue_frame:
  "ctx_heap (mgr (run_requeue i s)) = ctx_heap (mgr s)" "ctx_count (mgr (run_requeue i s)) = ctx_count (mgr s)"
  "m_fdContexts (mgr (run_requeue i s)) = m_fdContexts (mgr s)"
  "m_pendingEventCount (mgr (run_requeue i s)) = m_pendingEventCount (mgr s)"
  "io_timers (mgr (run_requeue i s)) = io_timers (mgr s)"
  by (auto simp: run_requeue_def set_pc_def with_sched_def tickle_if_def tickle_def split: worker.split prod.split)

text \<open>
  Property C39. Under \<^verbatim>\<open>MLFQ\<close> waiting is not waiting: a fiber that yields inside a hooked call
  is \<^verbatim>\<open>READY\<close>, so the worker puts it back in the queue, at the end and with a fresh sequence
  number, although its event has not happened and nobody has scheduled it. When it is taken and
  the call still cannot proceed, registering the event a second time fails, and the caller gets
  \<open>-1\<close> with \<^verbatim>\<open>EAGAIN\<close> from a socket it uses as a blocking one, before its timeout; the first
  registration stays behind. Under the other policies the queue is left alone.
\<close>

theorem mlfq_spurious_resume:
  assumes "suspended w fd event timeout t timer f now" and "t_iom w" and "0 \<le> fd" and "iom w = mgr s"
    and "wpc s i = Resumed task f" and "task_fiber task = Some f"
  shows "\<exists>s1. s1 = run_requeue i (fiber_back i False s) \<and>
    (m_policy (io_sched (mgr s)) \<noteq> MLFQ \<longrightarrow> mgr s1 = mgr s) \<and>
    (m_policy (io_sched (mgr s)) = MLFQ \<longrightarrow>
      (\<exists>u. m_tasks (io_sched (mgr s1)) = m_tasks (io_sched (mgr s)) @ [u] \<and> task_fiber u = Some f \<and>
         sequence u = m_taskSequence (io_sched (mgr s))) \<and>
      (\<exists>w1. do_io_resume (w\<lparr>iom := mgr s1\<rparr>) [(-1, EAGAIN)] fd event timeout t timer f now' rt =
           Some (Inr (w1, [], Returned (-1))) \<and> errno w1 = EAGAIN \<and> waits_for (iom w1) fd event f))"
proof -
  let ?b = "fiber_back i False s" and ?q = "io_sched (mgr s)"
  let ?s = "run_requeue i ?b"
  have b: "mgr ?b = mgr s" "wpc ?b i = Yielded task f" "fstate ?b f = READY"
    using assms(5) by (simp_all add: fiber_back_def set_pc_def)
  have q: "io_sched (mgr ?s) = fst (mlfq_requeue ?q task True)"
    using b by (simp add: run_requeue_def split: prod.split)
  have other: "mgr ?s = mgr s" if "m_policy ?q \<noteq> MLFQ"
    using that b by (simp add: run_requeue_def mlfq_requeue_def tickle_if_def set_pc_def with_sched_def)
  have u: "\<exists>u. m_tasks (io_sched (mgr ?s)) = m_tasks ?q @ [u] \<and> task_fiber u = Some f \<and>
      sequence u = m_taskSequence ?q" if "m_policy ?q = MLFQ"
    using that assms(6) by (simp add: q mlfq_requeue_def Let_def)
  have susp: "suspended (w\<lparr>iom := mgr ?s\<rparr>) fd event timeout t timer f now"
    by (rule suspended_frame [OF assms(1)]) (simp_all add: requeue_frame b(1) assms(4))
  have "t_iom (w\<lparr>iom := mgr ?s\<rparr>)" using assms(2) by simp
  from spurious_resume_fails [OF susp this assms(3), of "[]" now' rt] obtain w1 where "do_io_resume (w\<lparr>iom := mgr ?s\<rparr>) [(-1, EAGAIN)] fd event timeout t timer f now' rt =
      Some (Inr (w1, [], Returned (-1)))" "errno w1 = EAGAIN" "waits_for (iom w1) fd event f"
    by blast
  with other u show ?thesis by (intro exI [of _ ?s]) blast
qed

section \<open>Readiness\<close>

lemma scheduled_fiber:
  "\<exists>u. m_tasks (fst (scheduleLock q (FiberPtr (Some f)) thr)) = m_tasks q @ [u] \<and> task_fiber u = Some f \<and>
    task_thread u = thr"
  by (simp add: scheduleLock_def scheduleEx_def Let_def default_options_def)

lemma scheduled_keeps: "set (m_tasks q) \<subseteq> set (m_tasks (fst (scheduleLock q fc thr)))"
  by (auto simp: scheduleLock_def scheduleEx_def Let_def)

lemma slots_wake:
  assumes "which AND event \<noteq> 0" and "event \<in> {READ, WRITE}"
    and "continuation (slot_of c (slot_for event)) = FiberPtr (Some f)"
  shows "\<exists>u \<in> set (m_tasks (schedule_slots which c q)). task_fiber u = Some f \<and> task_thread u = -1"
proof -
  let ?q1 = "if which AND READ \<noteq> 0 then fst (scheduleLock q (continuation (fc_read c)) (-1)) else q"
  have s: "schedule_slots which c q = (if which AND WRITE \<noteq> 0
      then fst (scheduleLock ?q1 (continuation (fc_write c)) (-1)) else ?q1)"
    by (simp add: schedule_slots_def Let_def)
  have "event = READ \<or> event = WRITE" using assms(2) by simp
  then show ?thesis
  proof
    assume r: "event = READ"
    then have c: "continuation (fc_read c) = FiberPtr (Some f)" using assms(3) by (simp add: slot_for_def)
    have "\<exists>u \<in> set (m_tasks ?q1). task_fiber u = Some f \<and> task_thread u = -1"
      using scheduled_fiber [of q f "-1"] assms(1) r c by auto
    moreover have "set (m_tasks ?q1) \<subseteq> set (m_tasks (schedule_slots which c q))"
      unfolding s using scheduled_keeps [of ?q1] by (cases "which AND WRITE \<noteq> 0") simp_all
    ultimately show ?thesis by blast
  next
    assume w: "event = WRITE"
    then have "continuation (fc_write c) = FiberPtr (Some f)"
      using assms(3) by (simp add: slot_for_def event_bits)
    with scheduled_fiber [of ?q1 f "-1"] assms(1) w show ?thesis unfolding s by auto
  qed
qed

text \<open>
  Property C31. Readiness ends the wait of a hooked call: when \<^verbatim>\<open>epoll_wait\<close> reports the event a
  suspended call waits for, on a readiness that is not stale, the idle loop puts a task for
  exactly that fiber into the queue, for any worker; the resumed call cancels its timeout, repeats
  the original call and returns its result; and a timeout callback that is already on its way
  then does nothing.
\<close>

theorem do_io_ready:
  assumes "suspended w fd event timeout t timer f now0" and "event \<in> {READ, WRITE}"
    and "lookup_ctx (iom w) fd = Inr (Some a)" and "reported (ctx_heap (iom w) a) ev AND event \<noteq> 0"
    and "\<not> stale (ctx_heap (iom w) a) ev" and "r \<noteq> (-1, EINTR)" and "r \<noteq> (-1, EAGAIN)"
  shows "\<exists>m w3. handle_ready (iom w) a ev 0 = Inr m \<and>
    (\<exists>task \<in> set (m_tasks (io_sched m)). task_fiber task = Some f \<and> task_thread task = -1) \<and>
    do_io_resume (w\<lparr>iom := m\<rparr>) (r # rs) fd event timeout t timer f now rt = Some (Inr (w3, rs, Returned (fst r))) \<and>
    rt_inv w3 \<and> (\<forall>b. timer = Some b \<longrightarrow> b \<notin> set (m_timers (io_timers (iom w3)))) \<and>
    (\<forall>rt2. run_cb user rt2 w3 (timeout_cb t fd event) = Inr w3)"
proof -
  let ?c = "ctx_heap (iom w) a"
  have s: "rt_inv w" "ti_cancelled w t = 0" "waits_for (iom w) fd event f"
    using assms(1) by (simp_all add: suspended_def)
  have io: "io_inv (iom w)" using s(1) by (simp add: rt_inv_def)
  have c: "continuation (slot_of ?c (slot_for event)) = FiberPtr (Some f)" "fc_events ?c AND event \<noteq> 0"
    using s(3) assms(3) by (auto simp: waits_for_def)
  have e: "fc_events ?c AND reported ?c ev \<noteq> 0"
  proof
    assume z: "fc_events ?c AND reported ?c ev = 0"
    have "ctx_ok ?c" using lookup_ctxD(2) [OF io assms(3)] .
    then have "fc_events ?c \<in> {0, 1, 4, 5}" by (simp add: ctx_ok_def)
    with z c(2) assms(2,4) reported_cases [of ?c ev] show False by (auto simp: event_bits)
  qed
  obtain m where m: "handle_ready (iom w) a ev 0 = Inr m" "io_inv m"
    "io_sched m = schedule_slots (reported ?c ev) ?c (io_sched (iom w))"
    using handle_ready_ok [OF io lookup_ctxD(1) [OF io assms(3)] assms(5), of 0] e by auto
  have tm: "io_timers m = io_timers (iom w)"
    using m(1) by (auto simp: handle_ready_def Let_def dest!: trigger_if_timers split: if_splits sum.splits)
  have q: "\<exists>task \<in> set (m_tasks (io_sched m)). task_fiber task = Some f \<and> task_thread task = -1"
    unfolding m(3) by (rule slots_wake [OF assms(4,2) c(1)])
  have i1: "rt_inv (w\<lparr>iom := m\<rparr>)" using s(1) m(2) tm by (simp add: rt_inv_def)
  let ?w2 = "cancel_timer timer (w\<lparr>iom := m\<rparr>)"
  note C = cancel_timer_ok [OF i1, of timer]
  let ?w3 = "drop_tinfo t (fst (call_f ?w2 r))"
  obtain n e where r: "r = (n, e)" by (cases r)
  have a: "do_io_attempt ?w2 (r # rs) fd event timeout t f now rt = Some (Inr (fst (call_f ?w2 r), rs, Returned n))"
  proof -
    have f: "\<not> (n = -1 \<and> errno (fst (call_f ?w2 r)) = EAGAIN)" using assms(7) r by (auto simp: call_f_def)
    have "retry_eintr ?w2 (r # rs) = Some (fst (call_f ?w2 r), n, rs)"
      using retry_eintr_stop [of n e ?w2 rs] assms(6) r by simp
    then show ?thesis unfolding do_io_attempt_def by (simp only: option.case prod.case f if_False)
  qed
  have res: "do_io_resume (w\<lparr>iom := m\<rparr>) (r # rs) fd event timeout t timer f now rt = Some (Inr (?w3, rs, Returned n))"
    using s(2) a by (simp add: do_io_resume_def Let_def ETIMEDOUT_def leave_def)
  have "rt_inv ?w3" by (rule rt_inv_frame [OF C(1)]) (simp_all add: drop_tinfo_def)
  moreover have "\<forall>b. timer = Some b \<longrightarrow> b \<notin> set (m_timers (io_timers (iom ?w3)))"
    using C(2) by (auto simp: drop_tinfo_def)
  moreover have "\<forall>rt2. run_cb user rt2 ?w3 (timeout_cb t fd event) = Inr ?w3"
    by (intro allI timeout_cb_idle) (simp add: drop_tinfo_def)
  ultimately show ?thesis using m(1) q res r by (intro exI [of _ m] exI [of _ ?w3]) simp
qed

section \<open>Concrete states\<close>

lemma sched_lost_wakeup_witness:
  "\<exists>s. sched_reach {3} s \<and> wpc s 3 = Idling \<and> m_tasks (io_sched (mgr s)) \<noteq> [] \<and> tickle_writes (mgr s) = 0"
proof -
  let ?s = "run_pick 3 workers_0"
  have p: "wpc ?s 3 = Picked None False" "\<not> idle_over ?s 3" "m_idleThreadCount (io_sched (mgr ?s)) = 0"
    "tickle_writes (mgr ?s) = 0"
    by (simp_all add: run_pick_def pickNextTaskLocked_def init_Scheduler_def)
      (simp add: with_sched_def set_pc_def workers_0_def init_IOManager_def contextResize_def)
  have r: "sched_reach {3} ?s" by (rule sched_pick [OF workers_0_reach]) simp_all
  have fc: "Callback (Some (UserCb 5)) \<noteq> FiberPtr None" "Callback (Some (UserCb 5)) \<noteq> Callback None"
    by simp_all
  from sched_lost_wakeup [OF r _ p(1-3) fc, of default_options 0] obtain s1 where s1: "sched_reach {3} s1"
    "wpc s1 3 = Idling" "\<forall>more. let t = submit_all more s1 in
       wpc t 3 = Idling \<and> tickle_writes (mgr t) = tickle_writes (mgr ?s) \<and>
       m_tasks (io_sched (mgr t)) \<noteq> [] \<and> wpc (idle_check 3 0 t) 3 = IdleBack False \<and>
       snd (wait_timeout (mgr t) 0) = min (snd (getNextTimer (io_timers (mgr ?s)) 0)) 5000"
    by blast
  from spec [OF s1(3), of "[]"] p(4) s1(1,2) show ?thesis by (auto simp: submit_all_def)
qed

lemma demo_suspended:
  obtains w where "suspended w 5 READ 250 0 (Some 0) 7 0" "t_iom w"
proof -
  let ?w = "fst (new_tinfo demo_rt)"
  have n: "new_tinfo demo_rt = (?w, 0)" by (simp add: new_tinfo_def Let_def)
  note T = new_tinfo_ok [OF demo_inv n]
  obtain w1 where a: "arm_timeout ?w 5 READ 250 0 0 = (w1, Some 0)" by (rule demo_arm)
  note A = arm_timeout_ok [OF T(1) a]
  have u: "\<not> is_registered (iom w1) 5 READ"
    using demo_unregistered T(5) A(6,7) by (simp add: is_registered_def lookup_ctx_def)
  have ti: "ti_alive w1 0" "ti_cancelled w1 0 = 0" "t_iom w1" by (subst A(4), use T(3,4,7) in simp)+
  have r5: "READ \<in> {READ, WRITE}" "(0 :: int) \<le> 5" by simp_all
  obtain w2 where w2: "rt_inv w2" "w2 = w1\<lparr>iom := iom w2, errno := errno w2\<rparr>" "waits_for (iom w2) 5 READ 7"
    "io_timers (iom w2) = io_timers (iom w1)"
    by (rule register_wait_waits [OF A(1) r5 u, of "Some 0" 7])
  have "ti_alive w2 0" "ti_cancelled w2 0 = 0" "t_iom w2" by (subst w2(2), use ti in simp)+
  with w2 A(3) show thesis by (intro that [of w2]) (simp_all add: suspended_def)
qed

lemma do_io_ready_witness:
  "\<exists>w a m w3. suspended w 5 READ 250 0 (Some 0) 7 0 \<and> handle_ready (iom w) a 1 0 = Inr m \<and>
    do_io_resume (w\<lparr>iom := m\<rparr>) [(12, 0)] 5 READ 250 0 (Some 0) 7 1 0 = Some (Inr (w3, [], Returned 12))"
proof -
  obtain w where w: "suspended w 5 READ 250 0 (Some 0) 7 0" "t_iom w" by (rule demo_suspended)
  then obtain a where a: "lookup_ctx (iom w) 5 = Inr (Some a)" "fc_events (ctx_heap (iom w) a) AND READ \<noteq> 0"
    by (auto simp: suspended_def waits_for_def)
  have r: "reported (ctx_heap (iom w) a) 1 = 1"
    by (simp add: reported_def real_events_def ep_normalise_def Let_def event_bits)
  then have "reported (ctx_heap (iom w) a) 1 AND READ \<noteq> 0" by (simp add: event_bits)
  moreover have "\<not> stale (ctx_heap (iom w) a) 1"
  proof -
    have "io_inv (iom w)" using w(1) by (simp add: suspended_def rt_inv_def)
    from lookup_ctxD(2) [OF this a(1)] have "fc_events (ctx_heap (iom w) a) \<in> {0, 1, 4, 5}" by (simp add: ctx_ok_def)
    with a(2) show ?thesis by (auto simp: stale_def r event_bits)
  qed
  moreover have "(12, 0) \<noteq> (-1 :: int, EINTR)" "(12, 0) \<noteq> (-1 :: int, EAGAIN)" by simp_all
  ultimately obtain m w3 where "handle_ready (iom w) a 1 0 = Inr m"
    "do_io_resume (w\<lparr>iom := m\<rparr>) [(12, 0)] 5 READ 250 0 (Some 0) 7 1 0 = Some (Inr (w3, [], Returned (fst (12, 0 :: int))))"
    using do_io_ready [OF w(1) _ a(1), where ev = 1 and r = "(12, 0)" and rs = "[]" and now = 1 and rt = 0
      and user = "\<lambda>_ w. w"] by auto
  with w(1) show ?thesis by auto
qed

lemma mlfq_spurious_resume_witness:
  "\<exists>w s w1. suspended w 5 READ 250 0 (Some 0) 7 0 \<and> m_policy (io_sched (iom w)) = MLFQ \<and>
    mgr s = iom w \<and> wpc s 3 = Resumed task_7 7 \<and>
    do_io_resume (w\<lparr>iom := mgr (run_requeue 3 (fiber_back 3 False s))\<rparr>) [(-1, EAGAIN)]
      5 READ 250 0 (Some 0) 7 1 0 = Some (Inr (w1, [], Returned (-1))) \<and> errno w1 = EAGAIN"
proof -
  obtain w0 where w0: "suspended w0 5 READ 250 0 (Some 0) 7 0" "t_iom w0" by (rule demo_suspended)
  let ?m = "(iom w0)\<lparr>io_sched := setPolicy (io_sched (iom w0)) MLFQ\<rparr>"
  define w where "w = w0\<lparr>iom := ?m\<rparr>"
  define s where "s = workers_0\<lparr>mgr := ?m, wpc := (\<lambda>_. Looping)(3 := Resumed task_7 7)\<rparr>"
  have w: "suspended w 5 READ 250 0 (Some 0) 7 0" "t_iom w" "iom w = mgr s"
    using suspended_frame [OF w0(1), of ?m] w0(2) by (simp_all add: w_def s_def)
  have s: "wpc s 3 = Resumed task_7 7" "task_fiber task_7 = Some 7" "m_policy (io_sched (mgr s)) = MLFQ"
    by (simp_all add: s_def task_7_def setPolicy_def)
  from mlfq_spurious_resume [OF w(1,2) _ w(3) s(1,2), of 1 0] s(3) obtain w1 where
    "do_io_resume (w\<lparr>iom := mgr (run_requeue 3 (fiber_back 3 False s))\<rparr>) [(-1, EAGAIN)]
      5 READ 250 0 (Some 0) 7 1 0 = Some (Inr (w1, [], Returned (-1)))" "errno w1 = EAGAIN" by auto
  with w s show ?thesis by (intro exI [of _ w] exI [of _ s] exI [of _ w1]) simp
qed

end
