(* ===== verification/Io_Items.thy ===== *)
theory Io_Items
  imports Co_Hook
begin

text \<open>
  The continuations an \<^verbatim>\<open>IOManager\<close> holds: in the slots of its descriptor contexts, in its
  task queue and in its pending timers. The lemmas show that the operations of the manager and
  of the hooks move continuations from one place to another and neither lose nor double one:
  triggering an event, cancelling, handling readiness and expiring timers conserve the multiset,
  registering an event and adding a timer add one, cancelling a pending timer takes one away.
\<close>

section \<open>The multiset of continuations\<close>

text \<open>A null fiber pointer and an empty function are no continuations.\<close>

definition fc_items :: "FiberOrCb \<Rightarrow> FiberOrCb multiset" where
  "fc_items fc = (if fc = FiberPtr None \<or> fc = Callback None then {#} else {#fc#})"

definition task_item :: "ScheduleTask \<Rightarrow> FiberOrCb" where
  "task_item t = (case task_fiber t of Some f \<Rightarrow> FiberPtr (Some f) | None \<Rightarrow> Callback (task_cb t))"

definition queue_items :: "Scheduler \<Rightarrow> FiberOrCb multiset" where
  "queue_items q = (\<Sum>t\<in>#mset (m_tasks q). fc_items (task_item t))"

definition ctx_items :: "FdContext \<Rightarrow> FiberOrCb multiset" where
  "ctx_items c = fc_items (continuation (fc_read c)) + fc_items (continuation (fc_write c))"

definition slot_items :: "IOManager \<Rightarrow> FiberOrCb multiset" where
  "slot_items m = (\<Sum>a<ctx_count m. ctx_items (ctx_heap m a))"

definition timer_items :: "TimerManager \<Rightarrow> FiberOrCb multiset" where
  "timer_items t = (\<Sum>a\<in>set (m_timers t). fc_items (Callback (m_cb (timer_at t a))))"

definition items :: "IOManager \<Rightarrow> FiberOrCb multiset" where
  "items m = slot_items m + queue_items (io_sched m) + timer_items (io_timers m)"

lemma fc_items_simps [simp]:
  "fc_items (FiberPtr None) = {#}" "fc_items (Callback None) = {#}"
  "fc_items (FiberPtr (Some f)) = {#FiberPtr (Some f)#}" "fc_items (Callback (Some cb)) = {#Callback (Some cb)#}"
  by (simp_all add: fc_items_def)

lemma empty_continuation [simp]: "continuation empty_event = FiberPtr None"
  by (simp add: continuation_def empty_event_def)

lemma ctx_items_new [simp]: "ctx_items (new_FdContext i) = {#}"
  by (simp add: ctx_items_def new_FdContext_def)

text \<open>A change that touches neither contexts, queue nor timers.\<close>

lemma items_frame:
  "ctx_heap m' = ctx_heap m \<Longrightarrow> ctx_count m' = ctx_count m \<Longrightarrow> io_sched m' = io_sched m \<Longrightarrow>
    io_timers m' = io_timers m \<Longrightarrow> items m' = items m"
  by (simp add: items_def slot_items_def)

lemma items_simps [simp]:
  "items (log_ctl opn fd ev a m) = items m" "items (dec_pending m) = items m" "items (tickle m) = items m"
  by (simp_all add: items_def slot_items_def dec_pending_def tickle_def log_ctl_def)

section \<open>The task queue\<close>

lemma queue_items_append: "queue_items (q\<lparr>m_taskSequence := n, m_tasks := m_tasks q @ [t]\<rparr>) =
    queue_items q + fc_items (task_item t)"
  by (simp add: queue_items_def)

lemma queue_items_schedule: "queue_items (fst (scheduleLock q fc thr)) = queue_items q + fc_items fc"
proof (cases fc)
  case (FiberPtr f)
  then show ?thesis
    by (cases f) (simp_all add: scheduleLock_def scheduleEx_def Let_def queue_items_append task_item_def)
next
  case (Callback c)
  then show ?thesis
    by (cases c) (simp_all add: scheduleLock_def scheduleEx_def Let_def queue_items_append task_item_def)
qed

lemma items_schedule: "items (io_schedule m fc) = items m + fc_items fc"
  by (simp add: items_def slot_items_def io_schedule_sched queue_items_schedule)

lemma queue_items_pick:
  assumes "pickNextTaskLocked q thr = (q', r, tk)"
  shows "queue_items q = queue_items q' + (case r of None \<Rightarrow> {#} | Some t \<Rightarrow> fc_items (task_item t))"
  using assms
proof (cases rule: pick_result)
  case (some i)
  then show ?thesis using mset_erase_at [of i "m_tasks q"] by (simp add: queue_items_def)
qed simp

section \<open>Events\<close>

lemma slot_items_upd:
  assumes "a < ctx_count m" and "ctx_heap m' = (ctx_heap m)(a := c)" and "ctx_count m' = ctx_count m"
  shows "slot_items m' + ctx_items (ctx_heap m a) = slot_items m + ctx_items c"
proof -
  have "slot_items m' = ctx_items c + (\<Sum>x\<in>{..<ctx_count m} - {a}. ctx_items (ctx_heap m x))"
    unfolding slot_items_def assms(2,3) using assms(1) by (subst sum.remove [of _ a]) (auto intro!: sum.cong)
  moreover have "slot_items m = ctx_items (ctx_heap m a) + (\<Sum>x\<in>{..<ctx_count m} - {a}. ctx_items (ctx_heap m x))"
    unfolding slot_items_def using assms(1) by (subst sum.remove [of _ a]) auto
  ultimately show ?thesis by simp
qed

lemma trigger_ctx_items:
  assumes "triggerEvent c event = Inr (c', fc)" and "event \<in> {READ, WRITE}"
  shows "ctx_items c = ctx_items c' + fc_items fc"
  using assms by (auto simp: triggerEvent_def getEventContext_def event_bits Let_def ctx_items_def
      continuation_def empty_event_def split: if_splits)

lemma trigger_items:
  assumes "trigger_at m a event = Inr m'" and "event \<in> {READ, WRITE}" and "a < ctx_count m"
  shows "items m' = items m" and "ctx_count m' = ctx_count m" and "io_timers m' = io_timers m"
proof -
  obtain c fc where c: "triggerEvent (ctx_heap m a) event = Inr (c, fc)"
    "m' = io_schedule (put_ctx a c m) fc"
    using assms(1) by (auto simp: trigger_at_def split: sum.splits)
  show "ctx_count m' = ctx_count m" "io_timers m' = io_timers m" by (simp_all add: c(2))
  have "slot_items (put_ctx a c m) + ctx_items (ctx_heap m a) = slot_items m + ctx_items c"
    by (rule slot_items_upd [OF assms(3)]) simp_all
  then have "slot_items (put_ctx a c m) + fc_items fc = slot_items m"
    using trigger_ctx_items [OF c(1) assms(2)] by (simp add: add.assoc [symmetric])
  then show "items m' = items m"
    unfolding c(2) items_schedule by (simp add: items_def)
qed
lemma trigger_if_items:
  assumes "trigger_if which event a m = Inr m'" and "event \<in> {READ, WRITE}" and "a < ctx_count m"
  shows "items m' = items m" and "ctx_count m' = ctx_count m" and "io_timers m' = io_timers m"
  using assms trigger_items [OF _ assms(2,3)]
  by (auto simp: trigger_if_def split: if_splits sum.splits)

lemma two_events: "READ \<in> {READ, WRITE}" "WRITE \<in> {READ, WRITE}"
  by simp_all

lemma cancelEvent_items:
  assumes "io_inv m" and "event \<in> {READ, WRITE}" and "cancelEvent m fd event rt = Inr (m', b)"
  shows "items m' = items m"
proof (cases "lookup_ctx m fd")
  case (Inr r)
  show ?thesis
  proof (cases r)
    case (Some a)
    with Inr assms(1) have a: "a < ctx_count m" using lookup_ctxD(1) by blast
    show ?thesis
    proof (cases b)
      case True
      then obtain opn n where "trigger_at (dec_pending (log_ctl opn fd n a m)) a event = Inr m'"
        using assms(3) Inr Some by (auto simp: cancelEvent_def cancelEvent_at_def Let_def split: if_splits sum.splits)
      from trigger_items(1) [OF this assms(2)] a show ?thesis by simp
    next
      case False
      with assms(3) Inr Some show ?thesis
        by (auto simp: cancelEvent_def cancelEvent_at_def Let_def split: if_splits sum.splits)
    qed
  qed (use assms(3) Inr in \<open>simp add: cancelEvent_def cancelEvent_at_def\<close>)
qed (use assms(3) in \<open>simp add: cancelEvent_def cancelEvent_at_def\<close>)

lemma cancelAll_items:
  assumes "io_inv m" and "cancelAll m fd rt = Inr (m', b)"
  shows "items m' = items m"
proof (cases "lookup_ctx m fd")
  case (Inr r)
  show ?thesis
  proof (cases r)
    case (Some a)
    with Inr assms(1) have a: "a < ctx_count m" using lookup_ctxD(1) by blast
    show ?thesis
    proof (cases b)
      case True
      then obtain m1 e1 e2 where t: "trigger_if e1 READ a (log_ctl CtlDel fd 0 a m) = Inr m1"
        "trigger_if e2 WRITE a m1 = Inr m'"
        using assms(2) Inr Some by (auto simp: cancelAll_def cancelAll_at_def Let_def split: if_splits sum.splits)
      have "a < ctx_count (log_ctl CtlDel fd 0 a m)" using a by simp
      note 1 = trigger_if_items [OF t(1) two_events(1) this]
      have "a < ctx_count m1" using a 1(2) by simp
      from trigger_if_items(1) [OF t(2) two_events(2) this] 1(1) show ?thesis by simp
    next
      case False
      with assms(2) Inr Some show ?thesis
        by (auto simp: cancelAll_def cancelAll_at_def Let_def split: if_splits sum.splits)
    qed
  qed (use assms(2) Inr in \<open>simp add: cancelAll_def cancelAll_at_def\<close>)
qed (use assms(2) in \<open>simp add: cancelAll_def cancelAll_at_def\<close>)

lemma handle_ready_items:
  assumes "handle_ready m a ev rt = Inr m'" and "a < ctx_count m"
  shows "items m' = items m \<and> ctx_count m' = ctx_count m \<and> io_timers m' = io_timers m"
proof -
  have "m' = m \<or> (\<exists>opn l r m1. trigger_if r READ a (log_ctl opn (fc_fd (ctx_heap m a)) l a m) = Inr m1 \<and>
      trigger_if r WRITE a m1 = Inr m')"
    using assms(1) by (auto simp: handle_ready_def Let_def split: if_splits sum.splits)
  then show ?thesis
  proof (elim disjE exE conjE)
    fix opn l r m1
    assume t: "trigger_if r READ a (log_ctl opn (fc_fd (ctx_heap m a)) l a m) = Inr m1"
      "trigger_if r WRITE a m1 = Inr m'"
    have "a < ctx_count (log_ctl opn (fc_fd (ctx_heap m a)) l a m)" using assms(2) by simp
    note 1 = trigger_if_items [OF t(1) two_events(1) this]
    have "a < ctx_count m1" using assms(2) 1(2) by simp
    note 2 = trigger_if_items [OF t(2) two_events(2) this]
    show ?thesis using 1 2 by simp
  qed simp
qed

section \<open>Registration\<close>

lemma items_grow:
  "items (contextResize sz m) = items m"
proof -
  let ?n = "sz - length (m_fdContexts m)" and ?m = "contextResize sz m" and ?a = "ctx_count m"
  have h: "ctx_heap ?m x = (if ?a \<le> x \<and> x < ?a + ?n
      then new_FdContext (int (length (m_fdContexts m) + (x - ?a))) else ctx_heap m x)" for x
    by (simp add: contextResize_def Let_def)
  have f: "ctx_count ?m = ?a + ?n" "io_sched ?m = io_sched m" "io_timers ?m = io_timers m"
    by (simp_all add: contextResize_def Let_def)
  have "slot_items ?m = (\<Sum>x<?a. ctx_items (ctx_heap ?m x)) + (\<Sum>x\<in>{?a..<?a + ?n}. ctx_items (ctx_heap ?m x))"
    unfolding slot_items_def f(1) by (subst sum.union_disjoint [symmetric]) (auto intro!: sum.cong)
  moreover have "(\<Sum>x\<in>{?a..<?a + ?n}. ctx_items (ctx_heap ?m x)) = {#}"
    by (rule sum.neutral) (simp add: h)
  ultimately have "slot_items ?m = slot_items m" by (simp add: slot_items_def h)
  then show ?thesis by (simp add: items_def f)
qed

lemma register_items:
  assumes "addEvent_register m a fd event cb cur rt = Inr (m', b)" and "event \<in> {READ, WRITE}" and "a < ctx_count m"
  shows "items m' = items m + (if b then {#if cb \<noteq> None then Callback cb else FiberPtr (Some cur)#} else {#})"
proof (cases b)
  case False
  with assms(1) show ?thesis
    by (auto simp: addEvent_register_def Let_def split: if_splits sum.splits)
next
  case True
  let ?c = "ctx_heap m a" and ?k = "slot_for event"
  let ?c1 = "?c\<lparr>fc_events := fc_events ?c OR event\<rparr>"
  let ?x = "(slot_of ?c1 ?k)\<lparr>ec_scheduler := True\<rparr>"
  let ?e = "if cb \<noteq> None then ?x\<lparr>ec_cb := cb\<rparr> else ?x\<lparr>ec_fiber := Some cur\<rparr>"
  define m1 where "m1 = (log_ctl (if fc_events ?c \<noteq> 0 then CtlMod else CtlAdd) fd
      (EPOLLET OR fc_events ?c OR event) a m)\<lparr>m_pendingEventCount := m_pendingEventCount m + 1\<rparr>"
  have m': "m' = put_ctx a (set_slot ?k ?e ?c1) m1"
    and none: "ec_fiber (slot_of ?c1 ?k) = None" "ec_cb (slot_of ?c1 ?k) = None"
    using assms(1) True
    by (auto simp: m1_def addEvent_register_def Let_def getEventContext_ok [OF assms(2)] split: if_splits)
  let ?i = "if cb \<noteq> None then Callback cb else FiberPtr (Some cur)"
  have f: "io_sched m1 = io_sched m" "io_timers m1 = io_timers m" "ctx_heap m1 = ctx_heap m" "ctx_count m1 = ctx_count m"
    by (simp_all add: m1_def log_ctl_def)
  have "ctx_items (set_slot ?k ?e ?c1) = ctx_items ?c + {#?i#}"
    using none by (cases ?k; cases cb) (simp_all add: ctx_items_def continuation_def)
  moreover have "slot_items m' + ctx_items ?c = slot_items m + ctx_items (set_slot ?k ?e ?c1)"
    by (rule slot_items_upd [OF assms(3)]) (simp_all add: m' f)
  ultimately have "slot_items m' = slot_items m + {#?i#}" by simp
  with True show ?thesis by (simp add: items_def) (simp add: m' f)
qed

lemma addEvent_items:
  assumes "io_inv m" and "event \<in> {READ, WRITE}" and "addEvent m fd event cb cur rt = Inr (m', b)"
  shows "items m' = items m + (if b then {#if cb \<noteq> None then Callback cb else FiberPtr (Some cur)#} else {#})"
proof (cases "fd < 0")
  case False
  then obtain r where r: "lookup_ctx m fd = Inr r" using lookup_total [of fd m] by auto
  show ?thesis
  proof (cases r)
    case (Some a)
    with r lookup_ctxD(1) [OF assms(1)] have "a < ctx_count m" by blast
    from register_items [OF _ assms(2) this] assms(3) r Some False show ?thesis by (simp add: addEvent_def)
  next
    case None
    let ?m = "contextResize (nat (fd * 3 div 2)) m"
    from assms(3) r None False have g: "nat fd < length (m_fdContexts ?m)"
      "addEvent_register ?m (m_fdContexts ?m ! nat fd) fd event cb cur rt = Inr (m', b)"
      by (auto simp: addEvent_def addEvent_resize_def Let_def split: if_splits)
    have "length (m_fdContexts m) \<le> nat fd" using r None False by (auto simp: lookup_ctx_def split: if_splits)
    then have "length (m_fdContexts m) \<le> nat (fd * 3 div 2)" using False by linarith
    from io_inv_grow(1) [OF assms(1) this] g(1)
    have "m_fdContexts ?m ! nat fd < ctx_count ?m" unfolding io_inv_def by blast
    from register_items [OF g(2) assms(2) this] show ?thesis by (simp add: items_grow)
  qed
qed (use assms(3) in \<open>simp add: addEvent_def\<close>)
section \<open>Timers\<close>

lemma timer_items_cong:
  "set (m_timers t') = set (m_timers t) \<Longrightarrow>
    (\<And>a. a \<in> set (m_timers t) \<Longrightarrow> timer_at t' a = timer_at t a) \<Longrightarrow> timer_items t' = timer_items t"
  by (simp add: timer_items_def)

lemma timer_items_insert:
  assumes "set (m_timers t') = insert a (set (m_timers t))" and "a \<notin> set (m_timers t)"
    and "\<And>b. b \<noteq> a \<Longrightarrow> timer_at t' b = timer_at t b"
  shows "timer_items t' = timer_items t + fc_items (Callback (m_cb (timer_at t' a)))"
proof -
  have "(\<Sum>b\<in>set (m_timers t). fc_items (Callback (m_cb (timer_at t' b)))) = timer_items t"
    unfolding timer_items_def using assms(2,3) by (intro sum.cong refl) (metis)
  with assms(2) show ?thesis by (simp add: timer_items_def [of t'] assms(1) add.commute)
qed

lemma addTimer_heap:
  "b \<noteq> a \<Longrightarrow> timer_at (fst (addTimer t a ms cb r now)) b = timer_at t b"
  "timer_at (fst (addTimer t a ms cb r now)) a = Timer_ctor ms cb r now"
  by (simp_all add: addTimer_def addTimer_ptr_def Let_def timer_at_def)

lemma addTimer_items:
  assumes "a \<notin> set (m_timers t)"
  shows "timer_items (fst (addTimer t a ms (Some cb) r now)) = timer_items t + {#Callback (Some cb)#}"
proof -
  have "set (m_timers (fst (addTimer t a ms (Some cb) r now))) = insert a (set (m_timers t))"
    by (simp add: addTimer_def timer_set.insert_set)
  from timer_items_insert [OF this assms addTimer_heap(1)]
  show ?thesis by (simp add: addTimer_heap Timer_ctor_def)
qed

lemma cancel_heap: "b \<noteq> a \<Longrightarrow> timer_at (fst (cancel t a)) b = timer_at t b"
  by (simp add: cancel_def Let_def split: option.split)

lemma cancel_items:
  assumes "timer_inv t"
  shows "timer_items t = timer_items (fst (cancel t a)) +
    (if a \<in> set (m_timers t) then fc_items (Callback (m_cb (timer_at t a))) else {#})"
proof (cases "a \<in> set (m_timers t)")
  case True
  let ?t = "fst (cancel t a)"
  have s: "set (m_timers ?t) = set (m_timers t) - {a}" by (rule cancel_timers [OF assms])
  have "timer_items t = timer_items ?t + fc_items (Callback (m_cb (timer_at t a)))"
    by (rule timer_items_insert) (use True s in \<open>auto simp: cancel_heap\<close>)
  with True show ?thesis by simp
next
  case False
  have "timer_items (fst (cancel t a)) = timer_items t"
    by (rule timer_items_cong) (use False in \<open>auto simp: cancel_timers [OF assms] intro!: cancel_heap\<close>)
  with False show ?thesis by simp
qed

text \<open>Timers none of which repeats: \<^verbatim>\<open>listExpiredCb\<close> hands their callbacks out for good.\<close>

definition one_shot :: "TimerManager \<Rightarrow> bool" where
  "one_shot t \<longleftrightarrow> (\<forall>a \<in> set (m_timers t). \<not> m_recurring (timer_at t a))"

lemma expire_items:
  assumes inv: "timer_inv t" and os: "one_shot t"
  shows "\<exists>t' cbs. listExpiredCb t now now' = Some (t', cbs) \<and> timer_inv t' \<and>
    set (m_timers t') \<subseteq> set (m_timers t) \<and> (\<forall>a \<in> set (m_timers t'). timer_at t' a = timer_at t a) \<and>
    timer_items t = timer_items t' + (\<Sum>cb\<in>#mset cbs. fc_items (Callback cb))"
proof -
  obtain r where r: "detectClockRollover t now' = (t\<lparr>m_previouseTime := now'\<rparr>, r)"
    by (simp add: detectClockRollover_def)
  let ?t = "t\<lparr>m_previouseTime := now'\<rparr>" and ?d = "due_timers r now t"
  have d: "due_timers r now ?t = ?d" by (simp add: due_timers_def due_def [abs_def])
  have sub: "set ?d \<subseteq> set (m_timers t)" by (auto simp: due_timers_def dest: set_takeWhileD)
  have i: "timer_inv ?t" using inv by (simp add: timer_inv_def)
  have "\<forall>a \<in> set (due_timers r now ?t). m_recurring (timer_at ?t a) \<longrightarrow>
      \<not> r \<and> 0 < milliseconds (m_ms (timer_at ?t a))"
    using os sub by (auto simp: d one_shot_def)
  from expire_loop_spec [where cbs = "[]", OF i this, unfolded d] obtain t' where t': "expire_loop r now ?t [] = Some (t', map (\<lambda>a. m_cb (timer_at t a)) ?d)"
    "timer_inv t'" "set (m_timers t') = {a \<in> set (m_timers t). a \<in> set ?d \<longrightarrow> m_recurring (timer_at t a)}"
    "\<forall>a. t_heap t' a = (if a \<in> set ?d then Some (fired now (timer_at t a)) else t_heap t a)"
    by auto
  have set: "set (m_timers t') = set (m_timers t) - set ?d"
    using os sub unfolding t'(3) one_shot_def by blast
  have at: "timer_at t' a = timer_at t a" if "a \<in> set (m_timers t')" for a
    using that t'(4) unfolding set by (simp add: timer_at_def)
  have dist: "distinct ?d"
    unfolding due_timers_def by (rule distinct_takeWhile) (rule timer_invD(2) [OF inv])
  let ?f = "\<lambda>a. fc_items (Callback (m_cb (timer_at t a)))"
  have "timer_items t = (\<Sum>a\<in>set (m_timers t'). ?f a) + (\<Sum>a\<in>set ?d. ?f a)"
    unfolding timer_items_def set using sub by (subst sum.subset_diff [of "set ?d"]) simp_all
  also have "(\<Sum>a\<in>set (m_timers t'). ?f a) = timer_items t'" using at by (simp add: timer_items_def)
  also have "(\<Sum>a\<in>set ?d. ?f a) = (\<Sum>cb\<in>#mset (map (\<lambda>a. m_cb (timer_at t a)) ?d). fc_items (Callback cb))"
    using dist by (simp add: sum_list_distinct_conv_sum_set [symmetric] sum_mset_sum_list [symmetric] o_def)
      (simp add: image_mset.compositionality o_def)
  finally show ?thesis
    using t'(1,2) at set by (intro exI [of _ t'] exI conjI) (auto simp: listExpiredCb_def r)
qed

lemma schedule_cbs_frame [simp]:
  "ctx_heap (schedule_cbs m cbs) = ctx_heap m" "ctx_count (schedule_cbs m cbs) = ctx_count m"
  "io_timers (schedule_cbs m cbs) = io_timers m" "m_fdContexts (schedule_cbs m cbs) = m_fdContexts m"
  "m_pendingEventCount (schedule_cbs m cbs) = m_pendingEventCount m"
  by (induction m cbs rule: schedule_cbs.induct) simp_all

lemma schedule_cbs_items: "items (schedule_cbs m cbs) = items m + (\<Sum>cb\<in>#mset cbs. fc_items (Callback cb))"
  by (induction m cbs rule: schedule_cbs.induct) (simp_all add: items_schedule)

end
