(* ===== verification/Runtime_Moves.thy ===== *)
theory Runtime_Moves
  imports Io_Items
begin

text \<open>
  What the hooks and the idle loop do to the wake-ups of fibers: a fiber that waits is named by
  a continuation the manager holds, and every operation moves these names, adding one exactly
  when the running fiber suspends itself. The relation \<open>moves\<close> states this together with
  the invariant; it composes, so the lemma of a handler chains those of the calls in it.
\<close>

section \<open>Wake-ups\<close>

text \<open>The fiber a continuation wakes: itself, or the sleeper of the lambda of a sleep hook.\<close>

fun fc_wakes :: "FiberOrCb \<Rightarrow> fid multiset" where
  "fc_wakes (FiberPtr (Some f)) = {#f#}"
| "fc_wakes (FiberPtr None) = {#}"
| "fc_wakes (Callback (Some (WakeFiberCb f))) = {#f#}"
| "fc_wakes (Callback _) = {#}"

definition wakes :: "IOManager \<Rightarrow> fid multiset" where
  "wakes m = (\<Sum>fc\<in>#items m. fc_wakes fc)"

text \<open>
  The callbacks a worker may find: those of the hooks, for descriptors and events that exist, and
  those of the library's user.
\<close>

fun is_user :: "callback \<Rightarrow> bool" where
  "is_user (UserCb n) = True"
| "is_user (WakeFiberCb f) = False"
| "is_user (OnTimerCb t cb) = False"
| "is_user (CancelEventCb t fd event) = False"

fun cb_ok :: "callback \<Rightarrow> bool" where
  "cb_ok (UserCb n) = True"
| "cb_ok (WakeFiberCb f) = True"
| "cb_ok (OnTimerCb t cb) = (cb_ok cb \<and> fc_wakes (Callback (Some cb)) = {#} \<and> \<not> is_user cb)"
| "cb_ok (CancelEventCb t fd event) = (0 \<le> fd \<and> event \<in> {READ, WRITE})"

fun fc_ok :: "FiberOrCb \<Rightarrow> bool" where
  "fc_ok (FiberPtr f) = True"
| "fc_ok (Callback c) = (\<forall>cb \<in> set_option c. cb_ok cb)"

definition items_ok :: "IOManager \<Rightarrow> bool" where
  "items_ok m \<longleftrightarrow> (\<forall>fc \<in># items m. fc_ok fc)"

definition rt_good :: "Runtime \<Rightarrow> bool" where
  "rt_good w \<longleftrightarrow> rt_inv w \<and> t_iom w \<and> one_shot (io_timers (iom w)) \<and> items_ok (iom w) \<and>
     m_policy (io_sched (iom w)) \<noteq> MLFQ"

text \<open>Timers of addresses below \<open>n\<close> are the same or gone.\<close>

definition kept_timers :: "nat \<Rightarrow> TimerManager \<Rightarrow> TimerManager \<Rightarrow> bool" where
  "kept_timers n t t' \<longleftrightarrow>
     (\<forall>a \<in> set (m_timers t'). a < n \<longrightarrow> a \<in> set (m_timers t) \<and> timer_at t' a = timer_at t a)"

definition moves :: "Runtime \<Rightarrow> fid multiset \<Rightarrow> Runtime \<Rightarrow> bool" where
  "moves w fs w1 \<longleftrightarrow> rt_good w1 \<and> wakes (iom w1) = wakes (iom w) + fs \<and> next_timer w \<le> next_timer w1 \<and>
     kept_timers (next_timer w) (io_timers (iom w)) (io_timers (iom w1))"

text \<open>A timer that a suspended call still holds does not carry a wake-up.\<close>

definition quiet_timer :: "Runtime \<Rightarrow> nat option \<Rightarrow> bool" where
  "quiet_timer w timer \<longleftrightarrow> (\<forall>a. timer = Some a \<longrightarrow> a < next_timer w \<and>
     (a \<in> set (m_timers (io_timers (iom w))) \<longrightarrow>
        fc_wakes (Callback (m_cb (timer_at (io_timers (iom w)) a))) = {#}))"

lemma rt_goodD:
  assumes "rt_good w"
  shows "rt_inv w" "t_iom w" "one_shot (io_timers (iom w))" "items_ok (iom w)"
    "m_policy (io_sched (iom w)) \<noteq> MLFQ" "io_inv (iom w)" "timer_inv (io_timers (iom w))" "fd_inv (fdmgr w)"
  using assms by (simp_all add: rt_good_def rt_inv_def)

lemma kept_timers_refl: "kept_timers n t t"
  by (simp add: kept_timers_def)

lemma moves_refl: "rt_good w \<Longrightarrow> moves w {#} w"
  by (simp add: moves_def kept_timers_refl)

lemma moves_trans:
  assumes "moves w fs w1" and "moves w1 gs w2"
  shows "moves w (fs + gs) w2"
proof -
  have "kept_timers (next_timer w) (io_timers (iom w)) (io_timers (iom w2))"
    using assms by (auto simp: moves_def kept_timers_def)
  with assms show ?thesis by (simp add: moves_def)
qed

lemma moves_then: "moves w {#} w1 \<Longrightarrow> moves w1 fs w2 \<Longrightarrow> moves w fs w2"
  using moves_trans [of w "{#}" w1 fs w2] by simp

lemma moves_last: "moves w fs w1 \<Longrightarrow> moves w1 {#} w2 \<Longrightarrow> moves w fs w2"
  using moves_trans [of w fs w1 "{#}" w2] by simp

lemma moves_good: "moves w fs w1 \<Longrightarrow> rt_good w1"
  by (simp add: moves_def)

lemma moves_quiet:
  assumes "moves w fs w1" and "quiet_timer w timer"
  shows "quiet_timer w1 timer"
  unfolding quiet_timer_def
proof (intro allI impI conjI)
  fix a assume a: "timer = Some a"
  with assms(2) have q: "a < next_timer w" "a \<in> set (m_timers (io_timers (iom w))) \<longrightarrow>
      fc_wakes (Callback (m_cb (timer_at (io_timers (iom w)) a))) = {#}" by (simp_all add: quiet_timer_def)
  with assms(1) show "a < next_timer w1" by (simp add: moves_def)
  assume "a \<in> set (m_timers (io_timers (iom w1)))"
  with assms(1) q(1) have "a \<in> set (m_timers (io_timers (iom w)))"
    "timer_at (io_timers (iom w1)) a = timer_at (io_timers (iom w)) a"
    by (simp_all add: moves_def kept_timers_def)
  with q(2) show "fc_wakes (Callback (m_cb (timer_at (io_timers (iom w1)) a))) = {#}" by simp
qed

text \<open>Steps that leave the manager alone, and steps that leave its timers alone.\<close>

lemma moves_frame:
  assumes "rt_good w" and "iom w1 = iom w" and "fd_inv (fdmgr w1)" and "next_timer w1 = next_timer w" and "t_iom w1 = t_iom w"
  shows "moves w {#} w1"
  using assms kept_timers_refl by (simp add: moves_def rt_good_def rt_inv_def)

lemma moves_iom:
  assumes "rt_good w" and "w1 = w\<lparr>iom := m\<rparr>" and "io_inv m" and "io_timers m = io_timers (iom w)"
    and "items m = items (iom w) + X" and "\<forall>fc \<in># X. fc_ok fc"
    and "m_policy (io_sched m) = m_policy (io_sched (iom w))"
  shows "moves w (\<Sum>fc\<in>#X. fc_wakes fc) w1"
proof -
  have "rt_good w1" using assms unfolding rt_good_def rt_inv_def items_ok_def by auto
  with assms kept_timers_refl show ?thesis by (simp add: moves_def wakes_def)
qed

lemma call_f_moves: "rt_good w \<Longrightarrow> moves w {#} (fst (call_f w r))"
  by (rule moves_frame) (simp_all add: rt_goodD)

lemma fail_moves: "rt_good w \<Longrightarrow> moves w {#} (fst (fail e w))"
  by (rule moves_frame) (simp_all add: rt_goodD fail_def)

lemma drop_moves: "rt_good w \<Longrightarrow> moves w {#} (drop_tinfo t w)"
  by (rule moves_frame) (simp_all add: rt_goodD drop_tinfo_def)

lemma new_tinfo_moves: "rt_good w \<Longrightarrow> moves w {#} (fst (new_tinfo w))"
  by (rule moves_frame) (simp_all add: rt_goodD new_tinfo_def Let_def)

section \<open>Timers\<close>

lemma add_timer_moves:
  assumes g: "rt_good w" and add: "iom_addTimer w ms cb now = (w1, a)" and cb: "cb_ok cb"
  shows "moves w (fc_wakes (Callback (Some cb))) w1" and "a < next_timer w1"
    and "m_cb (timer_at (io_timers (iom w1)) a) = Some cb"
proof -
  note A = iom_addTimer_ok [OF rt_goodD(1) [OF g] add]
  let ?t = "io_timers (iom w)"
  have fresh: "a \<notin> set (m_timers ?t)" using rt_goodD(1) [OF g] A(2) by (auto simp: rt_inv_def)
  have t: "io_timers (iom w1) = fst (addTimer ?t a ms (Some cb) False now)"
    "ctx_count (iom w1) = ctx_count (iom w)" "t_iom w1 = t_iom w" "next_timer w1 = Suc (next_timer w)"
    using add by (auto simp: iom_addTimer_def Let_def onTimerInsertedAtFront_def tickle_def split: prod.splits if_splits)
  have h: "timer_at (io_timers (iom w1)) b = timer_at ?t b" if "b \<noteq> a" for b
    using that unfolding t(1) by (rule addTimer_heap)
  have i: "items (iom w1) = items (iom w) + {#Callback (Some cb)#}"
    using addTimer_items [OF fresh, of ms cb False now] by (simp add: items_def slot_items_def A(6,7) t(1,2))
  have "\<not> m_recurring (timer_at (io_timers (iom w1)) b)" if "b \<in> set (m_timers (io_timers (iom w1)))" for b
    using that rt_goodD(3) [OF g] h [of b] A(4) unfolding A(10)
    by (cases "b = a") (simp_all add: one_shot_def Timer_ctor_def)
  then have "one_shot (io_timers (iom w1))" by (simp add: one_shot_def)
  then have "rt_good w1" using g cb A(1,6) i t(3) by (simp add: rt_good_def items_ok_def)
  moreover have "kept_timers (next_timer w) ?t (io_timers (iom w1))"
    using h A(2,10) by (auto simp: kept_timers_def)
  ultimately show "moves w (fc_wakes (Callback (Some cb))) w1"
    using i t(4) by (simp add: moves_def wakes_def)
  show "a < next_timer w1" "m_cb (timer_at (io_timers (iom w1)) a) = Some cb"
    using A(2,4) t(4) by (simp_all add: Timer_ctor_def)
qed

lemma cancel_moves:
  assumes g: "rt_good w" and q: "quiet_timer w timer"
  shows "moves w {#} (cancel_timer timer w)"
proof (cases timer)
  case None
  with moves_refl [OF g] show ?thesis by (simp add: cancel_timer_def)
next
  case (Some a)
  let ?t = "io_timers (iom w)" and ?w = "cancel_timer timer w"
  let ?x = "if a \<in> set (m_timers ?t) then fc_items (Callback (m_cb (timer_at ?t a))) else {#}"
  have t: "io_timers (iom ?w) = fst (cancel ?t a)" "ctx_count (iom ?w) = ctx_count (iom w)"
    by (simp_all add: Some cancel_timer_def)
  have i: "items (iom w) = items (iom ?w) + ?x"
    using cancel_items [OF rt_goodD(7) [OF g], of a] by (simp add: items_def slot_items_def t)
  have "(\<Sum>fc\<in>#?x. fc_wakes fc) = {#}" using q Some by (auto simp: quiet_timer_def fc_items_def)
  then have "wakes (iom w) = wakes (iom ?w)" by (simp add: wakes_def i)
  have s: "set (m_timers (fst (cancel ?t a))) = set (m_timers ?t) - {a}"
    by (rule cancel_timers [OF rt_goodD(7) [OF g]])
  have k: "kept_timers (next_timer w) ?t (io_timers (iom ?w))" "one_shot (io_timers (iom ?w))"
    using rt_goodD(3) [OF g] unfolding kept_timers_def one_shot_def t s by (auto simp: cancel_heap)
  have "items_ok (iom ?w)" using rt_goodD(4) [OF g] by (simp add: items_ok_def i)
  with g k(2) cancel_timer_ok(1) [OF rt_goodD(1) [OF g]] have "rt_good ?w" by (simp add: rt_good_def)
  with k(1) \<open>wakes (iom w) = wakes (iom ?w)\<close> show ?thesis by (simp add: moves_def)
qed

lemma arm_moves:
  assumes g: "rt_good w" and arm: "arm_timeout w fd event timeout t now = (w1, timer)"
    and ok: "0 \<le> fd" "event \<in> {READ, WRITE}"
  shows "moves w {#} w1" and "quiet_timer w1 timer"
proof -
  obtain w2 a where a: "iom_addTimer w timeout (OnTimerCb t (CancelEventCb t fd event)) now = (w2, a)"
    by fastforce
  have "cb_ok (OnTimerCb t (CancelEventCb t fd event))" using ok by simp
  note A = add_timer_moves [OF g a this]
  have "w1 = w \<and> timer = None \<or> w1 = w2 \<and> timer = Some a"
    using arm by (auto simp: arm_timeout_def iom_addConditionTimer_def a split: if_splits)
  then show "moves w {#} w1" "quiet_timer w1 timer"
    using A moves_refl [OF g] by (auto simp: quiet_timer_def)
qed
section \<open>Waiting for an event\<close>

text \<open>How far a hooked call got, and what it added to the wake-ups when it suspended \<open>cur\<close>.\<close>

fun parks :: "fid \<Rightarrow> io_pc \<Rightarrow> fid multiset" where
  "parks cur (Returned n) = {#}"
| "parks cur (Waiting timer) = {#cur#}"

fun pc_timer :: "io_pc \<Rightarrow> nat option" where
  "pc_timer (Returned n) = None"
| "pc_timer (Waiting timer) = timer"

lemma policy_scheduleLock [simp]: "m_policy (fst (scheduleLock q fc thr)) = m_policy q"
  by (simp add: scheduleLock_def scheduleEx_def Let_def)

lemma policy_schedule [simp]: "m_policy (io_sched (io_schedule m fc)) = m_policy (io_sched m)"
  by (simp add: io_schedule_sched)

lemma policy_slots [simp]: "m_policy (schedule_slots which c q) = m_policy q"
  by (simp add: schedule_slots_def Let_def)

lemma addEvent_moves:
  assumes g: "rt_good w" and ev: "event \<in> {READ, WRITE}" and fd: "0 \<le> fd" and cb: "\<forall>c \<in> set_option cb. cb_ok c"
  obtains m b where "addEvent (iom w) fd event cb cur rt = Inr (m, b)"
    "moves w (if b then fc_wakes (if cb \<noteq> None then Callback cb else FiberPtr (Some cur)) else {#}) (w\<lparr>iom := m\<rparr>)"
proof -
  let ?i = "if cb \<noteq> None then Callback cb else FiberPtr (Some cur)"
  obtain m b where m: "addEvent (iom w) fd event cb cur rt = Inr (m, b)" "io_inv m"
    "io_sched m = io_sched (iom w)" "io_timers m = io_timers (iom w)"
    using addEvent_ok [OF rt_goodD(6) [OF g] ev fd, of cb cur rt] by blast
  have i: "items m = items (iom w) + (if b then {#?i#} else {#})"
    by (rule addEvent_items [OF rt_goodD(6) [OF g] ev m(1)])
  have "moves w (\<Sum>fc\<in>#(if b then {#?i#} else {#}). fc_wakes fc) (w\<lparr>iom := m\<rparr>)"
    by (rule moves_iom [OF g refl m(2,4) i]) (use cb in \<open>simp_all add: m(3)\<close>)
  then show thesis by (intro that [OF m(1)]) (cases b; simp)
qed

lemma register_moves:
  assumes g: "rt_good w" and ev: "event \<in> {READ, WRITE}" and fd: "0 \<le> fd" and q: "quiet_timer w timer"
  obtains w1 p where "register_wait w fd event timer cur rt = Inr (w1, p)" "moves w (parks cur p) w1"
    "quiet_timer w1 (pc_timer p)"
proof -
  obtain m b where m: "addEvent (iom w) fd event None cur rt = Inr (m, b)"
    "moves w (if b then {#cur#} else {#}) (w\<lparr>iom := m\<rparr>)"
    by (rule addEvent_moves [OF g ev fd, of None cur rt]) (simp_all split: if_splits)
  note q1 = moves_quiet [OF m(2) q]
  show thesis
  proof (cases b)
    case True
    with m q1 show thesis by (intro that [of "w\<lparr>iom := m\<rparr>" "Waiting timer"]) (simp_all add: register_wait_def)
  next
    case False
    let ?w = "w\<lparr>iom := m, errno := addEvent_errno (iom w) fd event rt (errno w)\<rparr>"
    have M: "moves (w\<lparr>iom := m\<rparr>) {#} ?w"
      by (rule moves_frame [OF moves_good [OF m(2)]]) (use rt_goodD(8) [OF g] in simp_all)
    have "moves w {#} ?w" using m(2) False moves_then [OF _ M] by simp
    from moves_then [OF this cancel_moves [OF moves_good [OF M] moves_quiet [OF M q1]]]
    have "moves w {#} (cancel_timer timer ?w)" .
    with m(1) False show thesis
      by (intro that [of "cancel_timer timer ?w" "Returned (-1)"])
        (simp_all add: register_wait_def Let_def quiet_timer_def)
  qed
qed

lemma retry_moves: "rt_good w \<Longrightarrow> retry_eintr w rs = Some (w1, n, rs1) \<Longrightarrow> moves w {#} w1"
proof (rule moves_frame)
  assume "rt_good w" and r: "retry_eintr w rs = Some (w1, n, rs1)"
  note e = retry_eintr_errno [OF r]
  show "rt_good w" by fact
  show "iom w1 = iom w" "next_timer w1 = next_timer w" "t_iom w1 = t_iom w" by (subst e, simp)+
  show "fd_inv (fdmgr w1)" using rt_goodD(8) [OF \<open>rt_good w\<close>] by (subst e) simp
qed

text \<open>A call of the original function, and what comes of a result.\<close>

abbreviation attempt_ok ::
    "Runtime \<Rightarrow> fid \<Rightarrow> (Runtime \<times> sysret list \<times> io_pc) result option \<Rightarrow> bool" where
  "attempt_ok w cur r \<equiv> (\<forall>e. r \<noteq> Some (Inl e)) \<and>
     (\<forall>w1 rs p. r = Some (Inr (w1, rs, p)) \<longrightarrow> moves w (parks cur p) w1 \<and> quiet_timer w1 (pc_timer p))"

lemma returned_ok: "moves w {#} w1 \<Longrightarrow> attempt_ok w cur (Some (Inr (w1, rs, Returned n)))"
  by (simp add: quiet_timer_def)

lemma attempt_then: "moves w {#} w1 \<Longrightarrow> attempt_ok w1 cur r \<Longrightarrow> attempt_ok w cur r"
  using moves_then [of w w1] by blast

lemma direct_ok:
  assumes "rt_good w"
  shows "attempt_ok w cur (case rs of [] \<Rightarrow> None | r # rs2 \<Rightarrow>
    (case call_f w r of (w2, n2) \<Rightarrow> Some (Inr (w2, rs2, Returned n2))))"
proof (cases rs)
  case (Cons r rs2)
  with call_f_moves [OF assms, of r] show ?thesis by (auto simp: quiet_timer_def split: prod.splits)
qed simp

lemma do_io_attempt_moves:
  assumes g: "rt_good w" and ev: "event \<in> {READ, WRITE}" and fd: "0 \<le> fd"
  shows "attempt_ok w cur (do_io_attempt w rs fd event timeout t cur now rt)"
proof (cases "retry_eintr w rs")
  case None
  then show ?thesis by (simp add: do_io_attempt_def)
next
  case (Some y)
  obtain w1 n rs1 where y: "retry_eintr w rs = Some (w1, n, rs1)" using Some by (cases y) auto
  note M = retry_moves [OF g y]
  note g1 = moves_good [OF M]
  show ?thesis
  proof (cases "n = -1 \<and> errno w1 = EAGAIN")
    case True
    obtain w2 timer where arm: "arm_timeout w1 fd event timeout t now = (w2, timer)" by fastforce
    note A = arm_moves [OF g1 arm fd ev]
    obtain w3 p where r: "register_wait w2 fd event timer cur rt = Inr (w3, p)"
      "moves w2 (parks cur p) w3" "quiet_timer w3 (pc_timer p)"
      by (rule register_moves [OF moves_good [OF A(1)] ev fd A(2)])
    have "moves w (parks cur p) w3" by (rule moves_then [OF M moves_then [OF A(1) r(2)]])
    with y True arm r(1,3) rt_goodD(2) [OF g1] show ?thesis by (simp add: do_io_attempt_def)
  next
    case False
    then have "do_io_attempt w rs fd event timeout t cur now rt = Some (Inr (w1, rs1, Returned n))"
      using y by (auto simp: do_io_attempt_def)
    then show ?thesis using returned_ok [OF M] by simp
  qed
qed

lemma leave_moves:
  assumes "attempt_ok w cur r"
  shows "attempt_ok w cur (leave t r)"
proof (cases r)
  case (Some v)
  with assms obtain w1 rs p where v: "r = Some (Inr (w1, rs, p))" by (cases v) auto
  with assms have m: "moves w (parks cur p) w1" "quiet_timer w1 (pc_timer p)" by simp_all
  show ?thesis
  proof (cases p)
    case (Returned n)
    with m have "moves w {#} (drop_tinfo t w1)"
      using moves_last drop_moves [OF moves_good [OF m(1)]] by simp
    with v Returned show ?thesis by (simp add: leave_def quiet_timer_def)
  qed (use v m in \<open>simp add: leave_def\<close>)
qed (simp add: leave_def)

lemma guard_fd: "do_io_guard w fd so = Hooked timeout \<Longrightarrow> 0 \<le> fd"
  by (auto simp: do_io_guard_def dest: get_ctxD(1) split: if_splits option.splits)

lemma do_io_moves:
  assumes g: "rt_good w" and ev: "event \<in> {READ, WRITE}"
  shows "attempt_ok w cur (do_io w rs fd event so cur now rt)"
proof (cases "do_io_guard w fd so")
  case Passthrough
  then show ?thesis using direct_ok [OF g] by (simp add: do_io_def)
next
  case (Refused e)
  with fail_moves [OF g, of e] show ?thesis by (auto simp: do_io_def quiet_timer_def split: prod.splits)
next
  case (Hooked timeout)
  obtain w1 t where t: "new_tinfo w = (w1, t)" by fastforce
  have M: "moves w {#} w1" using new_tinfo_moves [OF g] by (simp add: t)
  have "attempt_ok w cur (do_io_attempt w1 rs fd event timeout t cur now rt)"
    by (rule attempt_then [OF M do_io_attempt_moves [OF moves_good [OF M] ev guard_fd [OF Hooked]]])
  then have "attempt_ok w cur (leave t (do_io_attempt w1 rs fd event timeout t cur now rt))"
    by (rule leave_moves)
  then show ?thesis by (simp add: do_io_def Hooked t)
qed

lemma do_io_resume_moves:
  assumes g: "rt_good w" and ev: "event \<in> {READ, WRITE}" and fd: "0 \<le> fd" and q: "quiet_timer w timer"
  shows "attempt_ok w cur (do_io_resume w rs fd event timeout t timer cur now rt)"
proof -
  note M = cancel_moves [OF g q]
  let ?w = "cancel_timer timer w"
  show ?thesis
  proof (cases "ti_cancelled w t = ETIMEDOUT")
    case True
    have "moves w {#} (drop_tinfo t (?w\<lparr>errno := ETIMEDOUT\<rparr>))"
      using moves_last [OF moves_last [OF M fail_moves [OF moves_good [OF M], of ETIMEDOUT]]
          drop_moves [OF moves_good [OF fail_moves [OF moves_good [OF M], of ETIMEDOUT]]], of t]
      by (simp add: fail_def)
    then show ?thesis using True by (simp add: resume_timed_out quiet_timer_def)
  next
    case False
    have "attempt_ok w cur (leave t (do_io_attempt ?w rs fd event timeout t cur now rt))"
      by (rule leave_moves [OF attempt_then [OF M do_io_attempt_moves [OF moves_good [OF M] ev fd]]])
    with False show ?thesis by (simp add: do_io_resume_def Let_def)
  qed
qed
section \<open>The other calls\<close>

lemma connect_moves:
  assumes g: "rt_good w"
  shows "\<exists>w1 p. connect_with_timeout w r r2 fd timeout cur now rt = Inr (w1, p) \<and>
    (case p of Connected n \<Rightarrow> moves w {#} w1
     | Connecting t timer \<Rightarrow> moves w {#cur#} w1 \<and> quiet_timer w1 timer)"
proof -
  let ?C = "connect_with_timeout w r r2 fd timeout cur now rt"
  obtain w1 n where c: "call_f w r = (w1, n)" by fastforce
  have M: "moves w {#} w1" using call_f_moves [OF g, of r] by (simp add: c)
  have io: "t_iom w1" using rt_goodD(2) [OF moves_good [OF M]] .
  obtain wf nf where f: "fail EBADF w = (wf, nf)" by fastforce
  have Mf: "moves w {#} wf" using fail_moves [OF g, of EBADF] by (simp add: f)
  show ?thesis
  proof (cases "t_hook_enable w \<and> (\<exists>a. get_ctx w fd = Some a \<and> \<not> m_isClosed (ctx_obj w a) \<and>
      m_isSocket (ctx_obj w a) \<and> \<not> m_userNonblock (ctx_obj w a)) \<and> n \<noteq> 0 \<and> n = -1 \<and> errno w1 = EINPROGRESS")
    case True
    then obtain a where a: "get_ctx w fd = Some a" "\<not> m_isClosed (ctx_obj w a)"
      "m_isSocket (ctx_obj w a)" "\<not> m_userNonblock (ctx_obj w a)" "t_hook_enable w" "n = -1"
      "errno w1 = EINPROGRESS" by blast
    obtain w2 t where t: "new_tinfo w1 = (w2, t)" by fastforce
    have M2: "moves w {#} w2" using moves_then [OF M] new_tinfo_moves [OF moves_good [OF M]] by (simp add: t)
    obtain w3 timer where arm: "arm_timeout w2 fd WRITE timeout t now = (w3, timer)" by fastforce
    note A = arm_moves [OF moves_good [OF M2] arm get_ctxD(1) [OF a(1)] two_events(2)]
    obtain w4 p where p: "register_wait w3 fd WRITE timer cur rt = Inr (w4, p)"
      "moves w3 (parks cur p) w4" "quiet_timer w4 (pc_timer p)"
      by (rule register_moves [OF moves_good [OF A(1)] two_events(2) get_ctxD(1) [OF a(1)] A(2)])
    have M4: "moves w (parks cur p) w4" by (rule moves_then [OF M2 moves_then [OF A(1) p(2)]])
    show ?thesis
    proof (cases p)
      case (Returned n4)
      then have "?C = Inr (drop_tinfo t w4, Connected n4)"
        using a c t arm p(1) io by (simp add: connect_with_timeout_def Let_def)
      with moves_last [OF M4 drop_moves [OF moves_good [OF M4], of t]] Returned show ?thesis by simp
    next
      case (Waiting tm)
      then have "?C = Inr (w4, Connecting t tm)"
        using a c t arm p(1) io by (simp add: connect_with_timeout_def Let_def)
      with M4 p(3) Waiting show ?thesis by simp
    qed
  next
    case False
    then have "?C = Inr (w1, Connected n) \<or> ?C = Inr (wf, Connected nf)"
      using c f by (auto simp: connect_with_timeout_def Let_def split: option.split)
    with M Mf show ?thesis by auto
  qed
qed

lemma connect_resume_moves:
  assumes g: "rt_good w" and q: "quiet_timer w timer"
  shows "moves w {#} (fst (connect_resume w t timer gs soerror))"
proof -
  note M = cancel_moves [OF g q]
  let ?w = "cancel_timer timer w"
  note D = moves_then [OF M drop_moves [OF moves_good [OF M], of t]]
  have C: "moves w {#} (drop_tinfo t (fst (call_f ?w gs)))"
    by (rule moves_then [OF M moves_then [OF call_f_moves [OF moves_good [OF M]]
      drop_moves [OF moves_good [OF call_f_moves [OF moves_good [OF M]]]]]])
  obtain w2 n where c: "call_f ?w gs = (w2, n)" by fastforce
  have E: "moves w {#} (fst (fail soerror (drop_tinfo t w2)))" "moves w {#} (drop_tinfo t w2)"
    using C moves_then [OF C fail_moves [OF moves_good [OF C], of soerror]] by (simp_all add: c)
  show ?thesis
    using E moves_then [OF D fail_moves [OF moves_good [OF D], of "ti_cancelled ?w t"]]
    by (simp add: connect_resume_def Let_def c)
qed

text \<open>The sleep hooks: an original call, or a timer that wakes the caller.\<close>

abbreviation sleeps_ok :: "Runtime \<Rightarrow> fid \<Rightarrow> (Runtime \<times> sleep_pc) result \<Rightarrow> bool" where
  "sleeps_ok w cur r \<equiv> \<exists>w1 p. r = Inr (w1, p) \<and>
     moves w (case p of Original \<Rightarrow> {#} | Asleep a \<Rightarrow> {#cur#}) w1"

lemma sleep_timer:
  assumes "rt_good w"
  shows "sleeps_ok w cur (case iom_addTimer w ms (WakeFiberCb cur) now of (w1, a) \<Rightarrow> Inr (w1, Asleep a))"
proof -
  obtain w1 a where a: "iom_addTimer w ms (WakeFiberCb cur) now = (w1, a)" by fastforce
  from add_timer_moves(1) [OF assms this] a show ?thesis by simp
qed

lemma sleep_moves:
  assumes "rt_good w"
  shows "sleeps_ok w cur (hook_sleep w s cur now)" "sleeps_ok w cur (hook_usleep w us cur now)"
    "sleeps_ok w cur (hook_nanosleep w sec nsec cur now)"
proof -
  have o: "sleeps_ok w cur (Inr (w, Original))" using moves_refl [OF assms] by simp
  show "sleeps_ok w cur (hook_sleep w s cur now)" "sleeps_ok w cur (hook_usleep w us cur now)"
    "sleeps_ok w cur (hook_nanosleep w sec nsec cur now)"
    unfolding hook_sleep_def hook_usleep_def hook_nanosleep_def Let_def
    using o sleep_timer [OF assms] rt_goodD(2) [OF assms] by (simp_all del: split_paired_Ex)
qed

text \<open>Calls on the descriptor table.\<close>

lemma adopt_moves:
  assumes g: "rt_good w" and fd: "-1 \<le> fd"
  obtains w1 where "adopt_fd st flags w fd = Inr w1" "moves w {#} w1"
proof -
  obtain m r where m: "FdManager_get st flags (fdmgr w) fd True = Inr (m, r)" "fd_inv m"
    using FdManager_get_inv [OF rt_goodD(8) [OF g] fd] by blast
  have "moves w {#} (w\<lparr>fdmgr := m\<rparr>)" by (rule moves_frame [OF g]) (simp_all add: m(2))
  with m(1) show thesis by (intro that [of "w\<lparr>fdmgr := m\<rparr>"]) (simp_all add: adopt_fd_def)
qed

lemma accept_moves:
  assumes g: "rt_good w"
  obtains w1 where "accept_return st flags w fd = Inr (w1, fd)" "moves w {#} w1"
proof (cases "0 \<le> fd")
  case True
  then have "-1 \<le> fd" by simp
  from adopt_moves [OF g this] obtain w1 where "adopt_fd st flags w fd = Inr w1" "moves w {#} w1" by blast
  with True show thesis by (intro that [of w1]) (simp_all add: accept_return_def)
next
  case False
  with moves_refl [OF g] show thesis by (intro that [of w]) (simp_all add: accept_return_def)
qed

lemma socket_moves:
  assumes g: "rt_good w" and r: "-1 \<le> fst r"
  obtains w1 where "hook_socket st flags w r = Inr (w1, fst r)" "moves w {#} w1"
proof -
  obtain w1 fd where c: "call_f w r = (w1, fd)" by fastforce
  have M: "moves w {#} w1" and fd: "fd = fst r"
    using call_f_moves [OF g, of r] call_f_frame(9) [of w r] by (simp_all add: c)
  have "-1 \<le> fd" using r fd by simp
  from adopt_moves [OF moves_good [OF M] this, of st flags] obtain w2 where
    w2: "adopt_fd st flags w1 fd = Inr w2" "moves w1 {#} w2" by blast
  show thesis
    using M w2 moves_then [OF M w2(2)] c fd
    by (cases "t_hook_enable w \<and> fd \<noteq> -1") (auto simp: hook_socket_def intro: that)
qed

lemma set_ctx_moves:
  assumes "rt_good w" and "m_fd c = m_fd (ctx_obj w a)" and "m_isSocket c = m_isSocket (ctx_obj w a)"
    and "m_sysNonblock c = m_sysNonblock (ctx_obj w a)"
  shows "moves w {#} (set_ctx a c w)"
  by (rule moves_frame [OF assms(1)])
    (use assms rt_goodD(8) [OF assms(1)] in \<open>auto simp: set_ctx_def ctx_obj_def intro!: fd_inv_settings\<close>)

lemma fcntl_moves: "rt_good w \<Longrightarrow> moves w {#} (fst (hook_fcntl k w fd cmd))"
  using set_ctx_moves [of w] moves_refl [of w]
  by (auto simp: hook_fcntl_def Let_def split: fcntl_cmd.split option.split)

lemma ioctl_moves: "rt_good w \<Longrightarrow> moves w {#} (fst (hook_ioctl w fd req v))"
  using set_ctx_moves [of w] moves_refl [of w] by (auto simp: hook_ioctl_def Let_def split: option.split)

lemma setsockopt_moves: "rt_good w \<Longrightarrow> moves w {#} (hook_setsockopt w fd level opt tv)"
  using set_ctx_moves [of w] moves_refl [of w]
  by (auto simp: hook_setsockopt_def Let_def setTimeout_def split: option.split)

lemma close_moves:
  assumes g: "rt_good w"
  obtains w1 where "hook_close w fd rt r = Inr (w1, fst r)" "moves w {#} w1"
proof (cases "t_hook_enable w \<and> get_ctx w fd \<noteq> None")
  case False
  with call_f_moves [OF g, of r] show thesis
    by (intro that [of "fst (call_f w r)"]) (auto simp: hook_close_def prod_eq_iff split: option.splits)
next
  case True
  then obtain a where a: "get_ctx w fd = Some a" by blast
  let ?w1 = "set_ctx a ((ctx_obj w a)\<lparr>m_isClosed := True\<rparr>) w"
  have M1: "moves w {#} ?w1" by (rule set_ctx_moves [OF g]) simp_all
  note g1 = moves_good [OF M1]
  obtain m b where m: "cancelAll (iom ?w1) fd rt = Inr (m, b)" "io_inv m" "\<not> b \<longrightarrow> m = iom ?w1"
    "b \<longrightarrow> io_sched m = schedule_slots (fc_events (ctx_heap (iom ?w1) (m_fdContexts (iom ?w1) ! nat fd)))
        (ctx_heap (iom ?w1) (m_fdContexts (iom ?w1) ! nat fd)) (io_sched (iom ?w1))"
    using cancelAll_ok [OF rt_goodD(6) [OF g1] get_ctxD(1) [OF a], of rt] by blast
  have pol: "m_policy (io_sched m) = m_policy (io_sched (iom ?w1))" using m(3,4) by (cases b) simp_all
  have i: "items m = items (iom ?w1) + {#}" using cancelAll_items [OF rt_goodD(6) [OF g1] m(1)] by simp
  have "moves ?w1 (\<Sum>fc\<in>#{#}. fc_wakes fc) (?w1\<lparr>iom := m\<rparr>)"
    by (rule moves_iom [OF g1 refl m(2) cancelAll_timers [OF m(1)] i _ pol]) simp
  then have M2: "moves w {#} (?w1\<lparr>iom := m\<rparr>)" using moves_then [OF M1] by simp
  let ?w2 = "?w1\<lparr>iom := m, fdmgr := FdManager_del (fdmgr ?w1) fd\<rparr>"
  have "moves (?w1\<lparr>iom := m\<rparr>) {#} ?w2"
    by (rule moves_frame [OF moves_good [OF M2]])
      (use fd_inv_del [OF rt_goodD(8) [OF g1]] in simp_all)
  note M3 = moves_then [OF M2 this]
  have "hook_close w fd rt r = Inr (fst (call_f ?w2 r), fst r)"
    using True a m(1) rt_goodD(2) [OF g] by (simp add: hook_close_def Let_def prod_eq_iff)
  with moves_then [OF M3 call_f_moves [OF moves_good [OF M3]]] show thesis by (intro that)
qed
section \<open>The worker\<close>

text \<open>Running a callback the hooks left, and taking a task off the queue.\<close>

lemma cancelEvent_moves:
  assumes g: "rt_good w" and ev: "event \<in> {READ, WRITE}" and fd: "0 \<le> fd"
  obtains m b where "cancelEvent (iom w) fd event rt = Inr (m, b)" "moves w {#} (w\<lparr>iom := m\<rparr>)"
proof -
  obtain m b where m: "cancelEvent (iom w) fd event rt = Inr (m, b)" "io_inv m" "\<not> b \<longrightarrow> m = iom w"
    "b \<longrightarrow> m_policy (io_sched m) = m_policy (io_sched (iom w))"
    using cancelEvent_ok [OF rt_goodD(6) [OF g] ev fd, of rt] by fastforce
  have i: "items m = items (iom w) + {#}" using cancelEvent_items [OF rt_goodD(6) [OF g] ev m(1)] by simp
  have "moves w (\<Sum>fc\<in>#{#}. fc_wakes fc) (w\<lparr>iom := m\<rparr>)"
    by (rule moves_iom [OF g refl m(2) cancelEvent_timers [OF m(1)] i]) (use m(3,4) in auto)
  then show thesis by (intro that [OF m(1)]) simp
qed

lemma run_cb_moves:
  assumes "rt_good w" and "cb_ok cb" and "\<not> is_user cb"
  shows "\<exists>w1. run_cb user rt w cb = Inr w1 \<and> moves w (fc_wakes (Callback (Some cb))) w1"
  using assms
proof (induction user rt w cb rule: run_cb.induct)
  case (2 user rt w f)
  let ?m = "io_schedule (iom w) (FiberPtr (Some f))"
  have "items ?m = items (iom w) + {#FiberPtr (Some f)#}" by (simp add: items_schedule)
  moreover have "io_inv ?m" using rt_goodD(6) [OF 2(1)] by (simp add: io_inv_def registered_def)
  ultimately have "moves w (\<Sum>fc\<in>#{#FiberPtr (Some f)#}. fc_wakes fc) (w\<lparr>iom := ?m\<rparr>)"
    by (intro moves_iom [OF 2(1) refl]) simp_all
  then show ?case by simp
next
  case (3 user rt w c cb)
  then show ?case using moves_refl [OF 3(2)] by auto
next
  case (4 user rt w t fd event)
  show ?case
  proof (cases "\<not> ti_alive w t \<or> ti_cancelled w t \<noteq> 0")
    case True
    then show ?thesis using moves_refl [OF 4(1)] by auto
  next
    case False
    let ?w = "w\<lparr>ti_cancelled := (ti_cancelled w)(t := ETIMEDOUT)\<rparr>"
    have M: "moves w {#} ?w" by (rule moves_frame [OF 4(1)]) (simp_all add: rt_goodD(8) [OF 4(1)])
    have ev: "event \<in> {READ, WRITE}" "0 \<le> fd" using 4(2) by simp_all
    obtain m b where "cancelEvent (iom ?w) fd event rt = Inr (m, b)" "moves ?w {#} (?w\<lparr>iom := m\<rparr>)"
      by (rule cancelEvent_moves [OF moves_good [OF M] ev])
    with False moves_then [OF M] show ?thesis by simp
  qed
qed simp

lemma pick_moves:
  assumes g: "rt_good w" and p: "pickNextTaskLocked (io_sched (iom w)) thr = (q, Some task, tk)"
    and w1: "w1 = w\<lparr>iom := (iom w)\<lparr>io_sched := q\<rparr>\<rparr>"
  shows "rt_good w1" and "wakes (iom w) = wakes (iom w1) + fc_wakes (task_item task)" and "fc_ok (task_item task)"
    and "quiet_timer w timer \<Longrightarrow> quiet_timer w1 timer"
proof -
  have i: "items (iom w) = items (iom w1) + fc_items (task_item task)"
    using queue_items_pick [OF p] by (simp add: items_def slot_items_def w1)
  then have ok: "items_ok (iom w1)" "\<forall>fc\<in>#fc_items (task_item task). fc_ok fc"
    using rt_goodD(4) [OF g] by (simp_all add: items_ok_def)
  have "io_inv (iom w1)" using rt_goodD(6) [OF g] by (simp add: w1 io_inv_def registered_def)
  with g ok(1) pick_state(2) [OF p] show "rt_good w1" by (simp add: rt_good_def rt_inv_def w1)
  show "wakes (iom w) = wakes (iom w1) + fc_wakes (task_item task)"
    using i by (auto simp: wakes_def fc_items_def)
  show "fc_ok (task_item task)" using ok(2) by (auto simp: fc_items_def split: if_splits)
  show "quiet_timer w timer \<Longrightarrow> quiet_timer w1 timer" by (simp add: quiet_timer_def w1)
qed

text \<open>What the user of the library asks of the manager.\<close>

lemma schedule_moves:
  assumes g: "rt_good w" and ok: "fc_ok fc" and ne: "fc \<noteq> FiberPtr None" "fc \<noteq> Callback None"
  shows "moves w (fc_wakes fc) (w\<lparr>iom := io_schedule (iom w) fc\<rparr>)"
proof -
  let ?m = "io_schedule (iom w) fc"
  have "items ?m = items (iom w) + {#fc#}" using ne by (simp add: items_schedule fc_items_def)
  moreover have "io_inv ?m" using rt_goodD(6) [OF g] by (simp add: io_inv_def registered_def)
  ultimately have "moves w (\<Sum>fc\<in>#{#fc#}. fc_wakes fc) (w\<lparr>iom := ?m\<rparr>)"
    by (intro moves_iom [OF g refl]) (use ok in simp_all)
  then show ?thesis by simp
qed

lemma user_event_moves:
  assumes g: "rt_good w" and ev: "event \<in> {READ, WRITE}"
  obtains m b where "addEvent (iom w) fd event (Some (UserCb n)) cur rt = Inr (m, b)" "moves w {#} (w\<lparr>iom := m\<rparr>)"
proof (cases "0 \<le> fd")
  case True
  obtain m b where "addEvent (iom w) fd event (Some (UserCb n)) cur rt = Inr (m, b)"
    "moves w (if b then fc_wakes (if Some (UserCb n) \<noteq> None then Callback (Some (UserCb n)) else FiberPtr (Some cur))
      else {#}) (w\<lparr>iom := m\<rparr>)"
    by (rule addEvent_moves [OF g ev True, of "Some (UserCb n)" cur rt]) (simp, rule that, assumption+)
  then show thesis by (intro that [of m b]) (simp_all split: if_splits)
next
  case False
  then show thesis using moves_refl [OF g] by (intro that [of "iom w" False]) (simp_all add: addEvent_def)
qed

lemma io_return_moves:
  assumes "attempt_ok w cur r"
  shows "attempt_ok w cur (io_return call st flags r)" and "io_return call st flags r = None \<longleftrightarrow> r = None"
    and "io_return call st flags r = Some (Inr (w1, rs, Waiting timer)) \<Longrightarrow> r = Some (Inr (w1, rs, Waiting timer))"
proof -
  have M: "attempt_ok w cur (io_return call st flags r) \<and> (io_return call st flags r = None \<longleftrightarrow> r = None) \<and>
    (io_return call st flags r = Some (Inr (w1, rs, Waiting timer)) \<longrightarrow> r = Some (Inr (w1, rs, Waiting timer)))"
  proof (cases "\<exists>w1 rs n. r = Some (Inr (w1, rs, Returned n)) \<and> call = Accept")
    case True
    then obtain w1 rs n where r: "r = Some (Inr (w1, rs, Returned n))" "call = Accept" by blast
    then have M: "moves w {#} w1" using assms by simp
    obtain w2 where w2: "accept_return st flags w1 n = Inr (w2, n)" "moves w1 {#} w2"
      by (rule accept_moves [OF moves_good [OF M]])
    with r moves_then [OF M w2(2)] show ?thesis by (simp add: io_return_def quiet_timer_def)
  next
    case False
    then have e: "io_return call st flags r = r"
      by (auto simp: io_return_def split: option.split sum.split io_pc.split)
    show ?thesis unfolding e by (intro conjI impI assms [THEN conjunct1] assms [THEN conjunct2]) simp_all
  qed
  show "attempt_ok w cur (io_return call st flags r)" by (rule M [THEN conjunct1])
  show "io_return call st flags r = None \<longleftrightarrow> r = None" by (rule M [THEN conjunct2, THEN conjunct1])
  show "io_return call st flags r = Some (Inr (w1, rs, Waiting timer)) \<Longrightarrow> r = Some (Inr (w1, rs, Waiting timer))"
    by (rule M [THEN conjunct2, THEN conjunct2, THEN mp])
qed

text \<open>
  What \<^verbatim>\<open>epoll_wait\<close> reports: each context once, a context that exists, with what its documentation
  says of one report. The lemmas are about one worker: nothing changes the registrations of a
  context between the report and its turn in the loop.
\<close>

fun ready_ctx :: "ready \<Rightarrow> nat set" where
  "ready_ctx Tickled = {}"
| "ready_ctx (Ready a ev rt) = {a}"

fun ready_ok :: "IOManager \<Rightarrow> ready list \<Rightarrow> bool" where
  "ready_ok m [] = True"
| "ready_ok m (Tickled # es) = ready_ok m es"
| "ready_ok m (Ready a ev rt # es) =
     (a < ctx_count m \<and> kernel_report (ctx_heap m a) ev \<and> a \<notin> (\<Union>e\<in>set es. ready_ctx e) \<and> ready_ok m es)"

lemma ready_ok_frame:
  "ready_ok m es \<Longrightarrow> ctx_count m' = ctx_count m \<Longrightarrow>
    (\<And>a. a \<in> (\<Union>e\<in>set es. ready_ctx e) \<Longrightarrow> ctx_heap m' a = ctx_heap m a) \<Longrightarrow> ready_ok m' es"
  by (induction m es rule: ready_ok.induct) auto

lemma trigger_if_heap: "trigger_if which event a m = Inr m' \<Longrightarrow> b \<noteq> a \<Longrightarrow> ctx_heap m' b = ctx_heap m b"
  by (auto simp: trigger_if_def trigger_at_def split: if_splits sum.splits)

lemma handle_ready_heap: "handle_ready m a ev rt = Inr m' \<Longrightarrow> b \<noteq> a \<Longrightarrow> ctx_heap m' b = ctx_heap m b"
  by (auto simp: handle_ready_def Let_def dest!: trigger_if_heap [where b = b] split: if_splits sum.splits)

lemma handle_all_ok:
  assumes "io_inv m" and "ready_ok m es"
  shows "\<exists>m1. handle_all m es = Inr m1 \<and> io_inv m1 \<and> items m1 = items m \<and> io_timers m1 = io_timers m \<and>
    m_policy (io_sched m1) = m_policy (io_sched m)"
  using assms
proof (induction m es rule: handle_all.induct)
  case (3 m a ev rt es)
  have a: "a < ctx_count m" "\<not> stale (ctx_heap m a) ev" "a \<notin> (\<Union>e\<in>set es. ready_ctx e)" "ready_ok m es"
    using 3(3) by (simp_all add: kernel_report_fresh)
  obtain m1 where m1: "handle_ready m a ev rt = Inr m1" "io_inv m1"
    "m_policy (io_sched m1) = m_policy (io_sched m)"
    using handle_ready_ok [OF 3(2) a(1,2), of rt] by fastforce
  note I = handle_ready_items [OF m1(1) a(1)]
  have "ctx_heap m1 b = ctx_heap m b" if "b \<in> (\<Union>e\<in>set es. ready_ctx e)" for b
    by (rule handle_ready_heap [OF m1(1)]) (use that a(3) in blast)
  with I ready_ok_frame [OF a(4)] have "ready_ok m1 es" by blast
  from 3(1) [OF m1(1,2) this] m1 I show ?case by auto
qed simp_all

lemma idle_moves:
  assumes g: "rt_good w" and ok: "ready_ok (iom w) es"
  shows "\<exists>r m. idle_round (iom w) n1 n2 n3 n4 es = Some (Inr r) \<and> (r = Inl m \<or> r = Inr m) \<and>
    moves w {#} (w\<lparr>iom := m\<rparr>) \<and>
    (r = Inl m \<longrightarrow> snd (io_stopping (iom w) n1) \<and> items m = items (iom w))"
proof -
  let ?t = "io_timers (iom w)" and ?n = "next_timer w"
  have tick: "\<exists>t b. getNextTimer t0 n = (t, b) \<and> t = t0\<lparr>m_tickled := False\<rparr>" for t0 n
    by (simp add: getNextTimer_def Let_def)
  let ?t1 = "?t\<lparr>m_tickled := False\<rparr>" and ?m1 = "(iom w)\<lparr>io_timers := ?t\<lparr>m_tickled := False\<rparr>\<rparr>"
  obtain b where s1: "io_stopping (iom w) n1 = (?m1, b)" using tick [of ?t n1] by (auto simp: io_stopping_eq)
  obtain d where s2: "wait_timeout ?m1 n2 = (?m1, d)" using tick [of ?t1 n2] by (auto simp: wait_timeout_def)
  have ti: "timer_inv ?t1" "one_shot ?t1" "timer_items ?t1 = timer_items ?t"
    using rt_goodD(3,7) [OF g] by (simp_all add: timer_inv_def one_shot_def timer_items_def)
  have i1: "items ?m1 = items (iom w)" using ti(3) by (simp add: items_def slot_items_def)
  have k1: "kept_timers ?n ?t ?t1" by (simp add: kept_timers_def)
  show ?thesis
  proof (cases b)
    case True
    have "rt_good (w\<lparr>iom := ?m1\<rparr>)" using g ti i1 by (simp add: rt_good_def rt_inv_def items_ok_def)
    with i1 k1 have "moves w {#} (w\<lparr>iom := ?m1\<rparr>)" by (simp add: moves_def wakes_def)
    with True s1 i1 show ?thesis by (intro exI [of _ "Inl ?m1"] exI [of _ ?m1]) (simp add: idle_round_def)
  next
    case False
    obtain t' cbs where e: "listExpiredCb ?t1 n3 n4 = Some (t', cbs)" "timer_inv t'"
      "set (m_timers t') \<subseteq> set (m_timers ?t1)" "\<forall>a \<in> set (m_timers t'). timer_at t' a = timer_at ?t1 a"
      "timer_items ?t1 = timer_items t' + (\<Sum>cb\<in>#mset cbs. fc_items (Callback cb))"
      using expire_items [OF ti(1,2), of n3 n4] by blast
    let ?m2 = "schedule_cbs (?m1\<lparr>io_timers := t'\<rparr>) cbs"
    have io: "io_inv ?m2" using rt_goodD(6) [OF g] by (simp add: io_inv_def registered_def)
    have i2: "items ?m2 = items (iom w)"
      using e(5) ti(3) by (simp add: schedule_cbs_items) (simp add: items_def slot_items_def)
    have p2: "m_policy (io_sched (schedule_cbs m cs)) = m_policy (io_sched m)" for m cs
      by (induction m cs rule: schedule_cbs.induct) simp_all
    have "ready_ok ?m2 es" by (rule ready_ok_frame [OF ok]) simp_all
    from handle_all_ok [OF io this] obtain m3 where m3: "handle_all ?m2 es = Inr m3" "io_inv m3"
      "items m3 = items ?m2" "io_timers m3 = t'" "m_policy (io_sched m3) = m_policy (io_sched (iom w))"
      by (auto simp: p2)
    have sub: "set (m_timers t') \<subseteq> set (m_timers ?t)" "\<forall>a \<in> set (m_timers t'). timer_at t' a = timer_at ?t a"
      using e(3,4) by simp_all
    have "one_shot t'" using rt_goodD(3) [OF g] sub by (auto simp: one_shot_def)
    moreover have "\<forall>a \<in> set (m_timers t'). a < ?n" using rt_goodD(1) [OF g] sub(1) by (auto simp: rt_inv_def)
    ultimately have "rt_good (w\<lparr>iom := m3\<rparr>)"
      using g m3 i2 e(2) by (simp add: rt_good_def rt_inv_def items_ok_def)
    moreover have "kept_timers ?n ?t t'" using sub by (auto simp: kept_timers_def)
    ultimately have "moves w {#} (w\<lparr>iom := m3\<rparr>)" using m3(3,4) i2 by (simp add: moves_def wakes_def)
    with False s1 s2 e(1) m3(1) show ?thesis
      by (intro exI [of _ "Inr m3"] exI [of _ m3]) (simp add: idle_round_def)
  qed
qed

end
