(* ===== verification/Runtime_Machine.thy ===== *)
theory Runtime_Machine
  imports Runtime_Moves Sched_Run
begin

text \<open>
  The runtime as a whole, seen by one worker of an \<^verbatim>\<open>IOManager\<close>: fibers that run, call the hooks,
  suspend themselves and end; the worker loop of \<^verbatim>\<open>Scheduler::run\<close> that takes tasks off the queue
  and resumes what they name; the idle loop that collects expired timers and ready events. The
  steps are the operations of the other theories; this one composes them and keeps, for every
  suspended fiber, where in which hook it is and the local variables it needs there.
\<close>

section \<open>State\<close>

text \<open>
  Where a fiber that is not running is: not started, at the \<^verbatim>\<open>yield()\<close> of \<^verbatim>\<open>do_io\<close> with the
  locals \<^verbatim>\<open>fd\<close>, \<^verbatim>\<open>timeout\<close>, \<^verbatim>\<open>tinfo\<close> and \<^verbatim>\<open>timer\<close>, of \<^verbatim>\<open>connect_with_timeout\<close>, or of a sleep hook.
\<close>

datatype park = Fresh | InIo io_call int u64 nat "nat option" | InConnect nat "nat option" | InSleep

text \<open>\<open>running\<close> is the fiber the worker has resumed, with the task that named it.\<close>

record Machine =
  mrt :: Runtime
  parked :: "fid \<Rightarrow> park option"
  running :: "(fid \<times> ScheduleTask) option"

text \<open>
  What the kernel answers during a step: the results of the repeated original call, those of
  single calls, \<^verbatim>\<open>fstat\<close> and \<^verbatim>\<open>F_GETFL\<close> of a new descriptor, the clock, \<^verbatim>\<open>epoll_ctl\<close>, and the
  \<^verbatim>\<open>SO_ERROR\<close> of a socket; and the fiber that the coroutine pool hands out for a callback.
\<close>

record Kernel =
  k_results :: "sysret list"
  k_ret :: sysret
  k_ret2 :: sysret
  k_stat :: "bool option"
  k_flags :: u32
  k_now :: int
  k_ctl :: int
  k_soerror :: int
  k_fiber :: fid

definition start_machine :: "SchedulePolicy \<Rightarrow> bool \<Rightarrow> int \<Rightarrow> int \<Rightarrow> Machine" where
  "start_machine policy hook efd now =
     \<lparr>mrt = \<lparr>t_hook_enable = hook, t_iom = True,
        iom = (init_IOManager efd now)\<lparr>io_sched := setPolicy init_Scheduler policy\<rparr>, fdmgr = FdManager_ctor,
        ti_cancelled = (\<lambda>_. 0), ti_alive = (\<lambda>_. False), ti_count = 0, next_timer = 0, errno = 0\<rparr>,
      parked = Map.empty, running = None\<rparr>"

section \<open>The worker around a fiber\<close>

definition on_sched :: "(Scheduler \<Rightarrow> Scheduler) \<Rightarrow> Runtime \<Rightarrow> Runtime" where
  "on_sched g w = w\<lparr>iom := (iom w)\<lparr>io_sched := g (io_sched (iom w))\<rparr>\<rparr>"

definition tickle_rt :: "bool \<Rightarrow> Runtime \<Rightarrow> Runtime" where
  "tickle_rt b w = (if b then w\<lparr>iom := tickle (iom w)\<rparr> else w)"

text \<open>After \<^verbatim>\<open>resume\<close> has come back: the \<^verbatim>\<open>MLFQ\<close> section, its tickle and the count of active threads.\<close>

definition after_resume :: "ScheduleTask \<Rightarrow> bool \<Rightarrow> Runtime \<Rightarrow> Runtime" where
  "after_resume task ready w =
     (case mlfq_requeue (io_sched (iom w)) task ready of
        (q, requeued) \<Rightarrow>
          on_sched (\<lambda>q. q\<lparr>m_activeThreadCount := m_activeThreadCount q - 1\<rparr>)
            (tickle_rt requeued (on_sched (\<lambda>_. q) w)))"

definition suspend :: "fid \<Rightarrow> ScheduleTask \<Rightarrow> park \<Rightarrow> Runtime \<Rightarrow> Machine \<Rightarrow> Machine" where
  "suspend f task p w m =
     m\<lparr>mrt := after_resume task True w, parked := (parked m)(f \<mapsto> p), running := None\<rparr>"

definition finish :: "ScheduleTask \<Rightarrow> Machine \<Rightarrow> Machine" where
  "finish task m = m\<lparr>mrt := after_resume task False (mrt m), running := None\<rparr>"

text \<open>A call came to its end or to the \<^verbatim>\<open>yield()\<close> in \<^verbatim>\<open>do_io\<close>.\<close>

definition io_outcome ::
    "io_call \<Rightarrow> int \<Rightarrow> u64 \<Rightarrow> nat \<Rightarrow> fid \<Rightarrow> ScheduleTask \<Rightarrow> Machine \<Rightarrow>
     (Runtime \<times> sysret list \<times> io_pc) result option \<Rightarrow> Machine result option" where
  "io_outcome call fd timeout t f task m r =
     (case r of
        None \<Rightarrow> None
      | Some (Inl e) \<Rightarrow> Some (Inl e)
      | Some (Inr (w, _, Waiting timer)) \<Rightarrow> Some (Inr (suspend f task (InIo call fd timeout t timer) w m))
      | Some (Inr (w, _, Returned n)) \<Rightarrow> Some (Inr (m\<lparr>mrt := w\<rparr>)))"

definition sleep_outcome ::
    "fid \<Rightarrow> ScheduleTask \<Rightarrow> Machine \<Rightarrow> (Runtime \<times> sleep_pc) result \<Rightarrow> Machine result" where
  "sleep_outcome f task m r =
     (case r of
        Inl e \<Rightarrow> Inl e
      | Inr (w, Original) \<Rightarrow> Inr (m\<lparr>mrt := w\<rparr>)
      | Inr (w, Asleep a) \<Rightarrow> Inr (suspend f task InSleep w m))"

definition connect_outcome ::
    "fid \<Rightarrow> ScheduleTask \<Rightarrow> Machine \<Rightarrow> (Runtime \<times> connect_pc) result \<Rightarrow> Machine result" where
  "connect_outcome f task m r =
     (case r of
        Inl e \<Rightarrow> Inl e
      | Inr (w, Connected n) \<Rightarrow> Inr (m\<lparr>mrt := w\<rparr>)
      | Inr (w, Connecting t timer) \<Rightarrow> Inr (suspend f task (InConnect t timer) w m))"

text \<open>The fiber goes on where it was. \<open>m\<close> already has it running.\<close>

definition resume_at :: "fid \<Rightarrow> ScheduleTask \<Rightarrow> park \<Rightarrow> Kernel \<Rightarrow> Machine \<Rightarrow> Machine result option" where
  "resume_at f task p k m =
     (case p of
        Fresh \<Rightarrow> Some (Inr m)
      | InIo call fd timeout t timer \<Rightarrow>
          io_outcome call fd timeout t f task m
            (hooked_io_resume call (k_stat k) (k_flags k) (mrt m) (k_results k) fd timeout t timer f (k_now k) (k_ctl k))
      | InConnect t timer \<Rightarrow>
          Some (Inr (m\<lparr>mrt := fst (connect_resume (mrt m) t timer (k_ret k) (k_soerror k))\<rparr>))
      | InSleep \<Rightarrow> Some (Inr m))"

text \<open>
  One round of the worker loop up to the resumption: the locked pick with the count of active
  threads, the tickle, then the fiber (skipped when it has ended), the callback, or nothing,
  when the idle fiber is next. A callback of the user becomes a fiber, which then may do
  what any other does; those the hooks leave do not suspend and are run to their end.
\<close>

definition take_step :: "int \<Rightarrow> Kernel \<Rightarrow> Machine \<Rightarrow> Machine result option" where
  "take_step thr k m =
     (case pickNextTaskLocked (io_sched (iom (mrt m))) thr of
        (q, None, tickle_me) \<Rightarrow> Some (Inr (m\<lparr>mrt := tickle_rt tickle_me (on_sched (\<lambda>_. q) (mrt m))\<rparr>))
      | (q, Some task, tickle_me) \<Rightarrow>
          let w = tickle_rt tickle_me
                (on_sched (\<lambda>_. q\<lparr>m_activeThreadCount := m_activeThreadCount q + 1\<rparr>) (mrt m))
          in (case task_fiber task of
                Some f \<Rightarrow>
                  (case parked m f of
                     None \<Rightarrow> Some (Inr (m\<lparr>mrt := after_resume task False w\<rparr>))
                   | Some p \<Rightarrow>
                       resume_at f task p k (m\<lparr>mrt := w, parked := (parked m)(f := None), running := Some (f, task)\<rparr>))
              | None \<Rightarrow>
                  (case task_cb task of
                     None \<Rightarrow> Some (Inr (m\<lparr>mrt := w\<rparr>))
                   | Some (UserCb n) \<Rightarrow> Some (Inr (m\<lparr>mrt := w, running := Some (k_fiber k, task)\<rparr>))
                   | Some cb \<Rightarrow>
                       (case run_cb (\<lambda>_ w. w) (k_ctl k) w cb of
                          Inl e \<Rightarrow> Some (Inl e)
                        | Inr w1 \<Rightarrow> Some (Inr (m\<lparr>mrt := on_sched
                            (\<lambda>q. q\<lparr>m_activeThreadCount := m_activeThreadCount q - 1\<rparr>) w1\<rparr>))))))"

section \<open>Steps\<close>

text \<open>
  What can happen: a task for a new fiber or with a callback, \<^verbatim>\<open>stop()\<close>, a round of the idle
  loop, a round of the worker loop; and, of the running fiber, each of the hooked calls, the
  timers and events it asks the manager for with a callback of its own (\<^verbatim>\<open>addTimer\<close>,
  \<^verbatim>\<open>Timer::cancel\<close>, \<^verbatim>\<open>addEvent\<close>, \<^verbatim>\<open>cancelEvent\<close>), and its end.
\<close>

datatype action =
    Spawn fid
  | Submit nat
  | StopCalled
  | Idle int int int int "ready list"
  | Take int Kernel
  | DoIo io_call int Kernel
  | DoConnect int u64 Kernel
  | DoSleep u32 int
  | DoUsleep u32 int
  | DoNanosleep int int int
  | DoSocket Kernel
  | DoClose int Kernel
  | DoFcntl "fcntl_cmd \<Rightarrow> u32" int fcntl_cmd
  | DoIoctl int u64 int
  | DoSetsockopt int int int "int \<times> int"
  | DoAddTimer u64 nat int
  | DoCancelTimer nat
  | DoAddEvent int u32 nat int
  | DoCancelEvent int u32 int
  | End

definition guard_timeout :: "io_guard \<Rightarrow> u64" where
  "guard_timeout g = (case g of Hooked timeout \<Rightarrow> timeout | _ \<Rightarrow> 0)"

text \<open>A call of the running fiber \<open>f\<close>.\<close>

fun fiber_step :: "Machine \<Rightarrow> fid \<Rightarrow> ScheduleTask \<Rightarrow> action \<Rightarrow> Machine result option" where
  "fiber_step m f task (DoIo call fd k) =
     io_outcome call fd (guard_timeout (do_io_guard (mrt m) fd (call_timeout call))) (ti_count (mrt m)) f task m
       (hooked_io call (k_stat k) (k_flags k) (mrt m) (k_results k) fd f (k_now k) (k_ctl k))"
| "fiber_step m f task (DoConnect fd timeout k) =
     Some (connect_outcome f task m
       (connect_with_timeout (mrt m) (k_ret k) (k_ret2 k) fd timeout f (k_now k) (k_ctl k)))"
| "fiber_step m f task (DoSleep s now) = Some (sleep_outcome f task m (hook_sleep (mrt m) s f now))"
| "fiber_step m f task (DoUsleep us now) = Some (sleep_outcome f task m (hook_usleep (mrt m) us f now))"
| "fiber_step m f task (DoNanosleep sec nsec now) =
     Some (sleep_outcome f task m (hook_nanosleep (mrt m) sec nsec f now))"
| "fiber_step m f task (DoSocket k) =
     Some (map_sum id (\<lambda>(w, _). m\<lparr>mrt := w\<rparr>) (hook_socket (k_stat k) (k_flags k) (mrt m) (k_ret k)))"
| "fiber_step m f task (DoClose fd k) =
     Some (map_sum id (\<lambda>(w, _). m\<lparr>mrt := w\<rparr>) (hook_close (mrt m) fd (k_ctl k) (k_ret k)))"
| "fiber_step m f task (DoFcntl kern fd cmd) = Some (Inr (m\<lparr>mrt := fst (hook_fcntl kern (mrt m) fd cmd)\<rparr>))"
| "fiber_step m f task (DoIoctl fd req v) = Some (Inr (m\<lparr>mrt := fst (hook_ioctl (mrt m) fd req v)\<rparr>))"
| "fiber_step m f task (DoSetsockopt fd level opt tv) =
     Some (Inr (m\<lparr>mrt := hook_setsockopt (mrt m) fd level opt tv\<rparr>))"
| "fiber_step m f task (DoAddTimer ms n now) =
     Some (Inr (m\<lparr>mrt := fst (iom_addTimer (mrt m) ms (UserCb n) now)\<rparr>))"
| "fiber_step m f task (DoCancelTimer a) = Some (Inr (m\<lparr>mrt := cancel_timer (Some a) (mrt m)\<rparr>))"
| "fiber_step m f task (DoAddEvent fd event n rt) =
     Some (map_sum id (\<lambda>(s, _). m\<lparr>mrt := (mrt m)\<lparr>iom := s\<rparr>\<rparr>) (addEvent (iom (mrt m)) fd event (Some (UserCb n)) f rt))"
| "fiber_step m f task (DoCancelEvent fd event rt) =
     Some (map_sum id (\<lambda>(s, _). m\<lparr>mrt := (mrt m)\<lparr>iom := s\<rparr>\<rparr>) (cancelEvent (iom (mrt m)) fd event rt))"
| "fiber_step m f task End = Some (Inr (finish task m))"
| "fiber_step m f task (Spawn g) = None"
| "fiber_step m f task (Submit n) = None"
| "fiber_step m f task StopCalled = None"
| "fiber_step m f task (Idle n1 n2 n3 n4 es) = None"
| "fiber_step m f task (Take thr k) = None"

text \<open>\<open>None\<close>: the step is not possible now, or the original call has not returned.\<close>

fun mstep :: "Machine \<Rightarrow> action \<Rightarrow> Machine result option" where
  "mstep m (Spawn f) =
     Some (Inr (m\<lparr>mrt := (mrt m)\<lparr>iom := io_schedule (iom (mrt m)) (FiberPtr (Some f))\<rparr>, parked := (parked m)(f \<mapsto> Fresh)\<rparr>))"
| "mstep m (Submit n) =
     Some (Inr (m\<lparr>mrt := (mrt m)\<lparr>iom := io_schedule (iom (mrt m)) (Callback (Some (UserCb n)))\<rparr>\<rparr>))"
| "mstep m StopCalled = Some (Inr (m\<lparr>mrt := on_sched (\<lambda>q. q\<lparr>m_stopping := True\<rparr>) (mrt m)\<rparr>))"
| "mstep m (Idle n1 n2 n3 n4 es) =
     (if running m \<noteq> None then None
      else case idle_round (iom (mrt m)) n1 n2 n3 n4 es of
             None \<Rightarrow> None
           | Some (Inl e) \<Rightarrow> Some (Inl e)
           | Some (Inr (Inl s)) \<Rightarrow> Some (Inr (m\<lparr>mrt := (mrt m)\<lparr>iom := s\<rparr>\<rparr>))
           | Some (Inr (Inr s)) \<Rightarrow> Some (Inr (m\<lparr>mrt := (mrt m)\<lparr>iom := s\<rparr>\<rparr>)))"
| "mstep m (Take thr k) = (if running m \<noteq> None then None else take_step thr k m)"
| "mstep m a = (case running m of None \<Rightarrow> None | Some (f, task) \<Rightarrow> fiber_step m f task a)"

text \<open>
  What the program and the kernel owe. A fiber is submitted once, and the pool hands out one that
  nobody else has; fibers call while they run and the worker works while none does. The
  original call returns at last with something other than an interruption. \<^verbatim>\<open>epoll_wait\<close>
  reports what \<open>ready_ok\<close> says. A program cancels only timers it has made, cancels events only of
  descriptors, and arms no timer whose deadline does not fit into the clock.
\<close>

definition timeout_fits :: "int \<Rightarrow> u64 \<Rightarrow> bool" where
  "timeout_fits now timeout \<longleftrightarrow> timeout = - 1 \<or> deadline_ok now timeout"

fun park_fits :: "int \<Rightarrow> park \<Rightarrow> bool" where
  "park_fits now (InIo call fd timeout t timer) = timeout_fits now timeout"
| "park_fits now _ = True"

definition answered :: "Kernel \<Rightarrow> bool" where
  "answered k \<longleftrightarrow> (\<exists>r \<in> set (k_results k). r \<noteq> (-1, EINTR))"

fun act_ok :: "Machine \<Rightarrow> action \<Rightarrow> bool" where
  "act_ok m (Spawn f) = (parked m f = None \<and> \<not> (\<exists>task. running m = Some (f, task)))"
| "act_ok m (Submit n) = True"
| "act_ok m StopCalled = True"
| "act_ok m (Idle n1 n2 n3 n4 es) = (running m = None \<and> ready_ok (iom (mrt m)) es)"
| "act_ok m (Take thr k) = (running m = None \<and> answered k \<and> parked m (k_fiber k) = None \<and>
     (\<forall>p \<in> ran (parked m). park_fits (k_now k) p))"
| "act_ok m (DoIo call fd k) = (running m \<noteq> None \<and> answered k \<and>
     timeout_fits (k_now k) (guard_timeout (do_io_guard (mrt m) fd (call_timeout call))))"
| "act_ok m (DoConnect fd timeout k) = (running m \<noteq> None \<and> timeout_fits (k_now k) timeout)"
| "act_ok m (DoSleep s now) = (running m \<noteq> None \<and> deadline_ok now (ucast (s * 1000)))"
| "act_ok m (DoUsleep us now) = (running m \<noteq> None \<and> deadline_ok now (ucast (us div 1000)))"
| "act_ok m (DoNanosleep sec nsec now) =
     (running m \<noteq> None \<and> deadline_ok now (word_of_int sec * 1000 + word_of_int (nsec sdiv 1000000)))"
| "act_ok m (DoAddTimer ms n now) = (running m \<noteq> None \<and> deadline_ok now ms)"
| "act_ok m (DoCancelTimer a) = (running m \<noteq> None \<and> a < next_timer (mrt m) \<and>
     (a \<in> set (m_timers (io_timers (iom (mrt m)))) \<longrightarrow>
        (\<exists>n. m_cb (timer_at (io_timers (iom (mrt m))) a) = Some (UserCb n))))"
| "act_ok m (DoAddEvent fd event n rt) = (running m \<noteq> None \<and> event \<in> {READ, WRITE})"
| "act_ok m (DoCancelEvent fd event rt) = (running m \<noteq> None \<and> event \<in> {READ, WRITE} \<and> 0 \<le> fd)"
| "act_ok m (DoSocket k) = (running m \<noteq> None \<and> -1 \<le> fst (k_ret k))"
| "act_ok m a = (running m \<noteq> None)"

inductive mreach :: "SchedulePolicy \<Rightarrow> Machine \<Rightarrow> bool" for policy where
  mreach_start: "mreach policy (start_machine policy hook efd now)"
| mreach_step: "mreach policy m \<Longrightarrow> act_ok m a \<Longrightarrow> mstep m a = Some (Inr m1) \<Longrightarrow> mreach policy m1"

section \<open>The invariant\<close>

fun park_ok :: "Runtime \<Rightarrow> park \<Rightarrow> bool" where
  "park_ok w Fresh = True"
| "park_ok w (InIo call fd timeout t timer) = (0 \<le> fd \<and> quiet_timer w timer)"
| "park_ok w (InConnect t timer) = quiet_timer w timer"
| "park_ok w InSleep = True"

text \<open>The wake-ups the manager holds are the suspended fibers, each once.\<close>

definition m_inv :: "Machine \<Rightarrow> bool" where
  "m_inv m \<longleftrightarrow> rt_good (mrt m) \<and> finite (dom (parked m)) \<and> wakes (iom (mrt m)) = mset_set (dom (parked m)) \<and>
     (\<forall>f task. running m = Some (f, task) \<longrightarrow> parked m f = None) \<and>
     (\<forall>f p. parked m f = Some p \<longrightarrow> park_ok (mrt m) p)"
lemma on_sched_moves:
  assumes g: "rt_good w" and q: "m_tasks (h (io_sched (iom w))) = m_tasks (io_sched (iom w))"
    "m_policy (h (io_sched (iom w))) = m_policy (io_sched (iom w))"
  shows "moves w {#} (on_sched h w)"
proof -
  let ?m = "(iom w)\<lparr>io_sched := h (io_sched (iom w))\<rparr>"
  have "items ?m = items (iom w) + {#}" using q(1) by (simp add: items_def slot_items_def queue_items_def)
  moreover have "io_inv ?m" using rt_goodD(6) [OF g] by (simp add: io_inv_def registered_def)
  ultimately have "moves w (\<Sum>fc\<in>#{#}. fc_wakes fc) (w\<lparr>iom := ?m\<rparr>)"
    by (intro moves_iom [OF g refl]) (simp_all add: q(2))
  then show ?thesis by (simp add: on_sched_def)
qed

lemma tickle_moves:
  assumes g: "rt_good w"
  shows "moves w {#} (tickle_rt b w)"
proof (cases b)
  case True
  have "moves w (\<Sum>fc\<in>#{#}. fc_wakes fc) (w\<lparr>iom := tickle (iom w)\<rparr>)"
    by (rule moves_iom [OF g refl]) (use rt_goodD(6) [OF g] in simp_all)
  with True show ?thesis by (simp add: tickle_rt_def)
qed (use moves_refl [OF g] in \<open>simp add: tickle_rt_def\<close>)

lemma after_resume_moves:
  assumes g: "rt_good w"
  shows "moves w {#} (after_resume task ready w)"
proof -
  let ?h = "\<lambda>q. q\<lparr>m_activeThreadCount := m_activeThreadCount q - 1\<rparr>"
  have "mlfq_requeue (io_sched (iom w)) task ready = (io_sched (iom w), False)"
    using rt_goodD(5) [OF g] by (simp add: mlfq_requeue_def)
  then have "after_resume task ready w = on_sched ?h w"
    by (simp add: after_resume_def tickle_rt_def) (simp add: on_sched_def)
  with on_sched_moves [OF g, of ?h] show ?thesis by simp
qed

lemma m_invD:
  assumes "m_inv m"
  shows "rt_good (mrt m)" "finite (dom (parked m))" "wakes (iom (mrt m)) = mset_set (dom (parked m))"
    "running m = Some (f, task) \<Longrightarrow> parked m f = None" "parked m f = Some p \<Longrightarrow> park_ok (mrt m) p"
  using assms by (auto simp: m_inv_def)

lemma park_ok_quiet:
  "park_ok w p \<Longrightarrow> (\<And>timer. quiet_timer w timer \<Longrightarrow> quiet_timer w1 timer) \<Longrightarrow> park_ok w1 p"
  by (cases p) auto

text \<open>A step that moves wake-ups without adding one.\<close>

lemma m_inv_moves:
  assumes inv: "m_inv m" and M: "moves (mrt m) {#} w"
  shows "m_inv (m\<lparr>mrt := w\<rparr>)"
proof -
  have "park_ok w p" if "parked m f = Some p" for f p
    by (rule park_ok_quiet [OF m_invD(5) [OF inv that] moves_quiet [OF M]])
  with inv M show ?thesis by (simp add: m_inv_def moves_def)
qed

lemma mset_set_upd: "finite (dom p) \<Longrightarrow> p f = None \<Longrightarrow> mset_set (dom (p(f \<mapsto> x))) = mset_set (dom p) + {#f#}"
  by (simp add: domIff)

text \<open>A step that adds the wake-up of a fiber and suspends it.\<close>

lemma m_inv_park:
  assumes inv: "m_inv m" and f: "parked m f = None" and M: "moves (mrt m) {#f#} w" and ok: "park_ok w p"
    and r: "\<forall>task. r \<noteq> Some (f, task)" "\<forall>g task. r = Some (g, task) \<longrightarrow> running m = Some (g, task)"
  shows "m_inv (m\<lparr>mrt := w, parked := (parked m)(f \<mapsto> p), running := r\<rparr>)"
  unfolding m_inv_def
proof (intro conjI allI impI)
  show "wakes (iom (mrt (m\<lparr>mrt := w, parked := (parked m)(f \<mapsto> p), running := r\<rparr>))) =
      mset_set (dom (parked (m\<lparr>mrt := w, parked := (parked m)(f \<mapsto> p), running := r\<rparr>)))"
    using mset_set_upd [OF m_invD(2) [OF inv] f, of p] M m_invD(3) [OF inv] by (simp add: moves_def del: fun_upd_apply)
  fix g q assume "parked (m\<lparr>mrt := w, parked := (parked m)(f \<mapsto> p), running := r\<rparr>) g = Some q"
  then have "g = f \<and> q = p \<or> parked m g = Some q" by (auto split: if_splits)
  then show "park_ok (mrt (m\<lparr>mrt := w, parked := (parked m)(f \<mapsto> p), running := r\<rparr>)) q"
    using ok park_ok_quiet [OF m_invD(5) [OF inv] moves_quiet [OF M]] by auto
next
  fix g task assume g: "running (m\<lparr>mrt := w, parked := (parked m)(f \<mapsto> p), running := r\<rparr>) = Some (g, task)"
  then have "g \<noteq> f" "running m = Some (g, task)" using r by auto
  with m_invD(4) [OF inv this(2)] show "parked (m\<lparr>mrt := w, parked := (parked m)(f \<mapsto> p), running := r\<rparr>) g = None"
    by simp
qed (use inv moves_good [OF M] in \<open>simp_all add: m_inv_def\<close>)

lemma m_suspend_inv:
  assumes inv: "m_inv m" and run: "running m = Some (f, task)" and M: "moves (mrt m) {#f#} w" and ok: "park_ok w p"
  shows "m_inv (suspend f task p w m)"
proof -
  note A = after_resume_moves [OF moves_good [OF M], of task True]
  show ?thesis unfolding suspend_def
    by (rule m_inv_park [OF inv m_invD(4) [OF inv run] moves_last [OF M A] park_ok_quiet [OF ok moves_quiet [OF A]]])
      simp_all
qed

text \<open>
  The pieces of the worker loop are those of the step relation of \<open>Sched_Run\<close>, seen on the
  manager: picking with its tickle, and the second locked section with the end of the task.
\<close>

lemma pick_agrees:
  assumes "mgr s = iom w" and "pickNextTaskLocked (io_sched (iom w)) i = (q, Some task, tk)" and "task_fiber task = Some f"
  shows "mgr (run_branch i (run_pick i s)) =
    iom (tickle_rt tk (on_sched (\<lambda>_. q\<lparr>m_activeThreadCount := m_activeThreadCount q + 1\<rparr>) w))"
  using assms by (simp add: run_pick_def run_branch_def set_pc_def with_sched_def tickle_if_def tickle_rt_def
      on_sched_def Let_def)

lemma after_resume_agrees:
  assumes "mgr s = iom w" and "wpc s i = Yielded task f"
  shows "mgr (run_count i (run_requeue i s)) = iom (after_resume task (fstate s f = READY) w)"
  using assms by (simp add: run_count_def run_requeue_def after_resume_def set_pc_def with_sched_def tickle_if_def
      tickle_rt_def on_sched_def Let_def split: prod.split)

section \<open>Every step keeps the invariant\<close>

text \<open>A step is good when it neither faults nor breaks the invariant, and happens if it has to.\<close>

abbreviation step_good_m :: "bool \<Rightarrow> Machine result option \<Rightarrow> bool" where
  "step_good_m must r \<equiv> (\<forall>e. r \<noteq> Some (Inl e)) \<and> (\<forall>m1. r = Some (Inr m1) \<longrightarrow> m_inv m1) \<and> (must \<longrightarrow> r \<noteq> None)"

lemma io_outcome_good:
  assumes inv: "m_inv m" and run: "running m = Some (f, task)" and r: "attempt_ok (mrt m) f r"
    and fd: "\<And>w1 rs timer. r = Some (Inr (w1, rs, Waiting timer)) \<Longrightarrow> 0 \<le> fd" and must: "must \<longrightarrow> r \<noteq> None"
  shows "step_good_m must (io_outcome call fd timeout t f task m r)"
proof (cases r)
  case (Some v)
  with r obtain w1 rs p where v: "r = Some (Inr (w1, rs, p))" by (cases v) auto
  with r have m: "moves (mrt m) (parks f p) w1" "quiet_timer w1 (pc_timer p)" by simp_all
  show ?thesis
  proof (cases p)
    case (Waiting timer)
    have "m_inv (suspend f task (InIo call fd timeout t timer) w1 m)"
      by (rule m_suspend_inv [OF inv run]) (use m Waiting fd v in simp_all)
    with v Waiting show ?thesis by (simp add: io_outcome_def)
  next
    case (Returned n)
    have M: "moves (mrt m) {#} w1" using m(1) Returned by simp
    with v Returned m_inv_moves [OF inv M] show ?thesis by (simp add: io_outcome_def)
  qed
qed (use must in \<open>simp add: io_outcome_def\<close>)

lemma sleep_outcome_good:
  assumes inv: "m_inv m" and run: "running m = Some (f, task)" and r: "sleeps_ok (mrt m) f r"
  shows "step_good_m must (Some (sleep_outcome f task m r))"
proof -
  obtain w1 p where p: "r = Inr (w1, p)"
    "moves (mrt m) (case p of Original \<Rightarrow> {#} | Asleep a \<Rightarrow> {#f#}) w1" using r by blast
  show ?thesis
  proof (cases p)
    case Original
    with p m_inv_moves [OF inv] show ?thesis by (simp add: sleep_outcome_def)
  next
    case (Asleep a)
    with p m_suspend_inv [OF inv run, of w1 InSleep] show ?thesis by (simp add: sleep_outcome_def)
  qed
qed

lemma connect_outcome_good:
  assumes inv: "m_inv m" and run: "running m = Some (f, task)"
  shows "step_good_m must (Some (connect_outcome f task m
    (connect_with_timeout (mrt m) r r2 fd timeout f now ctl)))"
proof -
  obtain w1 p where p: "connect_with_timeout (mrt m) r r2 fd timeout f now ctl = Inr (w1, p)"
    "case p of Connected n \<Rightarrow> moves (mrt m) {#} w1
     | Connecting t timer \<Rightarrow> moves (mrt m) {#f#} w1 \<and> quiet_timer w1 timer"
    using connect_moves [OF m_invD(1) [OF inv]] by blast
  show ?thesis
  proof (cases p)
    case (Connected n)
    with p m_inv_moves [OF inv] show ?thesis by (simp add: connect_outcome_def)
  next
    case (Connecting t timer)
    with p m_suspend_inv [OF inv run, of w1 "InConnect t timer"] show ?thesis by (simp add: connect_outcome_def)
  qed
qed

lemma retry_answered:
  "\<exists>r \<in> set rs. r \<noteq> (-1, EINTR) \<Longrightarrow> retry_eintr w rs \<noteq> None"
proof (induction w rs rule: retry_eintr.induct)
  case (2 w r rs)
  obtain w1 n where c: "call_f w r = (w1, n)" by fastforce
  have e: "n = -1 \<and> errno w1 = EINTR \<longleftrightarrow> r = (-1, EINTR)"
    using c by (cases r) (auto simp: call_f_def split: if_splits)
  show ?case
  proof (cases "r = (-1, EINTR)")
    case True
    with 2(1) [OF c [symmetric]] 2(2) c e show ?thesis by auto
  qed (use c e in auto)
qed simp

lemma attempt_answered:
  assumes "answered k" and "t_iom w"
  shows "do_io_attempt w (k_results k) fd event timeout t cur now ctl \<noteq> None"
proof -
  obtain w1 n rs1 where y: "retry_eintr w (k_results k) = Some (w1, n, rs1)"
    using retry_answered [of "k_results k" w] assms(1) by (fastforce simp: answered_def)
  have "t_iom w1" using retry_eintr_errno [OF y] assms(2) by (metis Runtime.simps(2) Runtime.surjective Runtime.update_convs(9))
  with y show ?thesis by (auto simp: do_io_attempt_def split: prod.split sum.split)
qed

lemma leave_None [simp]: "leave t r = None \<longleftrightarrow> r = None"
  by (auto simp: leave_def split: option.split sum.split io_pc.split)

lemma do_io_answered:
  assumes "answered k" and "t_iom w"
  shows "do_io w (k_results k) fd event so cur now ctl \<noteq> None"
    and "do_io_resume w (k_results k) fd event timeout t timer cur now ctl \<noteq> None"
proof -
  obtain r rs where ne: "k_results k = r # rs" using assms(1) by (cases "k_results k") (auto simp: answered_def)
  obtain w1 t1 where n: "new_tinfo w = (w1, t1)" by fastforce
  have "t_iom w1" using assms(2) n by (auto simp: new_tinfo_def Let_def)
  note a = attempt_answered [OF assms(1) this]
  show "do_io w (k_results k) fd event so cur now ctl \<noteq> None"
  proof (cases "do_io_guard w fd so")
    case (Hooked to)
    with a show ?thesis by (simp add: do_io_def n del: not_None_eq)
  qed (simp_all add: do_io_def ne split: prod.split)
  have "t_iom (cancel_timer timer w)" using assms(2) by simp
  note b = attempt_answered [OF assms(1) this]
  show "do_io_resume w (k_results k) fd event timeout t timer cur now ctl \<noteq> None"
  proof (cases "ti_cancelled w t = ETIMEDOUT")
    case False
    with b show ?thesis by (simp add: do_io_resume_def Let_def del: not_None_eq)
  qed (simp add: resume_timed_out)
qed
lemma call_event_ok: "call_event call \<in> {READ, WRITE}"
  by (cases call) simp_all

lemma hooked_io_good:
  assumes inv: "m_inv m" and run: "running m = Some (f, task)" and k: "answered k"
  shows "step_good_m True (fiber_step m f task (DoIo call fd k))"
proof -
  note g = m_invD(1) [OF inv]
  let ?d = "do_io (mrt m) (k_results k) fd (call_event call) (call_timeout call) f (k_now k) (k_ctl k)"
  let ?r = "hooked_io call (k_stat k) (k_flags k) (mrt m) (k_results k) fd f (k_now k) (k_ctl k)"
  note R = io_return_moves [OF do_io_moves [OF g call_event_ok], where call = call]
  have a: "attempt_ok (mrt m) f ?r" unfolding hooked_io_def by (rule R(1))
  have "0 \<le> fd" if r: "?r = Some (Inr (w1, rs, Waiting timer))" for w1 rs timer
  proof (cases "do_io_guard (mrt m) fd (call_timeout call)")
    case (Hooked to)
    then show ?thesis by (rule guard_fd)
  qed (use R(3) [OF r [unfolded hooked_io_def]] in \<open>auto simp: do_io_def split: list.splits prod.splits\<close>)
  moreover have "?r \<noteq> None"
    unfolding hooked_io_def R(2) by (rule do_io_answered(1) [OF k rt_goodD(2) [OF g]])
  ultimately show ?thesis using io_outcome_good [OF inv run a, of fd True] by simp
qed

text \<open>The actions of the running fiber.\<close>

fun of_fiber :: "action \<Rightarrow> bool" where
  "of_fiber (Spawn f) = False"
| "of_fiber (Submit n) = False"
| "of_fiber StopCalled = False"
| "of_fiber (Idle n1 n2 n3 n4 es) = False"
| "of_fiber (Take thr k) = False"
| "of_fiber a = True"

lemma fiber_step_good:
  assumes inv: "m_inv m" and run: "running m = Some (f, task)" and ok: "act_ok m a" and a: "of_fiber a"
  shows "step_good_m True (fiber_step m f task a)"
proof (cases a)
  case (DoIo call fd k)
  with hooked_io_good [OF inv run, of k call fd] ok show ?thesis by (simp del: fiber_step.simps)
next
  case (DoConnect fd to k)
  then show ?thesis using connect_outcome_good [OF inv run] by simp
next
  case (DoSleep s now)
  then show ?thesis using sleep_outcome_good [OF inv run sleep_moves(1) [OF m_invD(1) [OF inv]]] by simp
next
  case (DoUsleep us now)
  then show ?thesis using sleep_outcome_good [OF inv run sleep_moves(2) [OF m_invD(1) [OF inv]]] by simp
next
  case (DoNanosleep sec nsec now)
  then show ?thesis using sleep_outcome_good [OF inv run sleep_moves(3) [OF m_invD(1) [OF inv]]] by simp
next
  case (DoSocket k)
  with ok have "- 1 \<le> fst (k_ret k)" by simp
  from socket_moves [OF m_invD(1) [OF inv] this, of "k_stat k" "k_flags k"] obtain w1 where
    "hook_socket (k_stat k) (k_flags k) (mrt m) (k_ret k) = Inr (w1, fst (k_ret k))" "moves (mrt m) {#} w1" by blast
  with DoSocket m_inv_moves [OF inv] show ?thesis by simp
next
  case (DoClose fd k)
  from close_moves [OF m_invD(1) [OF inv], of fd "k_ctl k" "k_ret k"] obtain w1 where
    "hook_close (mrt m) fd (k_ctl k) (k_ret k) = Inr (w1, fst (k_ret k))" "moves (mrt m) {#} w1" by blast
  with DoClose m_inv_moves [OF inv] show ?thesis by simp
next
  case (DoFcntl kern fd cmd)
  with m_inv_moves [OF inv fcntl_moves [OF m_invD(1) [OF inv]]] show ?thesis by simp
next
  case (DoIoctl fd req v)
  with m_inv_moves [OF inv ioctl_moves [OF m_invD(1) [OF inv]]] show ?thesis by simp
next
  case (DoSetsockopt fd level opt tv)
  with m_inv_moves [OF inv setsockopt_moves [OF m_invD(1) [OF inv]]] show ?thesis by simp
next
  case (DoAddTimer ms n now)
  obtain w1 a where t: "iom_addTimer (mrt m) ms (UserCb n) now = (w1, a)" by fastforce
  have "moves (mrt m) {#} w1" using add_timer_moves(1) [OF m_invD(1) [OF inv] t] by simp
  with m_inv_moves [OF inv] DoAddTimer t show ?thesis by simp
next
  case (DoCancelTimer a)
  with ok have "quiet_timer (mrt m) (Some a)" by (auto simp: quiet_timer_def)
  from m_inv_moves [OF inv cancel_moves [OF m_invD(1) [OF inv] this]] DoCancelTimer show ?thesis by simp
next
  case (DoAddEvent fd event n rt)
  with ok have ev: "event \<in> {READ, WRITE}" by simp
  obtain s b where "addEvent (iom (mrt m)) fd event (Some (UserCb n)) f rt = Inr (s, b)"
    "moves (mrt m) {#} ((mrt m)\<lparr>iom := s\<rparr>)"
    by (rule user_event_moves [OF m_invD(1) [OF inv] ev])
  with m_inv_moves [OF inv] DoAddEvent show ?thesis by simp
next
  case (DoCancelEvent fd event rt)
  with ok have ev: "event \<in> {READ, WRITE}" "0 \<le> fd" by simp_all
  obtain s b where "cancelEvent (iom (mrt m)) fd event rt = Inr (s, b)" "moves (mrt m) {#} ((mrt m)\<lparr>iom := s\<rparr>)"
    by (rule cancelEvent_moves [OF m_invD(1) [OF inv] ev])
  with m_inv_moves [OF inv] DoCancelEvent show ?thesis by simp
next
  case End
  have "m_inv (m\<lparr>mrt := after_resume task False (mrt m)\<rparr>)"
    by (rule m_inv_moves [OF inv after_resume_moves [OF m_invD(1) [OF inv]]])
  then have "m_inv (finish task m)" by (simp add: m_inv_def finish_def)
  with End show ?thesis by simp
qed (use a ok run in simp_all)

text \<open>The worker takes a task: its wake-up leaves the queue, and the fiber runs or the callback passes it on.\<close>

lemma resume_good:
  assumes inv: "m_inv m" and run: "running m = Some (f, task)" and p: "park_ok (mrt m) p" and k: "answered k"
  shows "step_good_m True (resume_at f task p k m)"
proof (cases p)
  case (InIo call fd timeout t timer)
  note g = m_invD(1) [OF inv]
  have fd: "0 \<le> fd" "quiet_timer (mrt m) timer" using p InIo by simp_all
  let ?r = "hooked_io_resume call (k_stat k) (k_flags k) (mrt m) (k_results k) fd timeout t timer f (k_now k) (k_ctl k)"
  note R = io_return_moves [OF do_io_resume_moves [OF g call_event_ok fd], where call = call]
  have "step_good_m True (io_outcome call fd timeout t f task m ?r)"
  proof (rule io_outcome_good [OF inv run])
    show "True \<longrightarrow> ?r \<noteq> None"
      unfolding hooked_io_resume_def R(2) using do_io_answered(2) [OF k rt_goodD(2) [OF g]] by (rule impI)
    show "attempt_ok (mrt m) f ?r" unfolding hooked_io_resume_def by (rule R(1))
  qed (rule fd(1))
  then show ?thesis by (simp add: resume_at_def InIo)
next
  case (InConnect t timer)
  have "quiet_timer (mrt m) timer" using p InConnect by simp
  from m_inv_moves [OF inv connect_resume_moves [OF m_invD(1) [OF inv] this]]
  show ?thesis by (simp add: resume_at_def InConnect)
qed (use inv in \<open>simp_all add: resume_at_def\<close>)

lemma take_step_good:
  assumes inv: "m_inv m" and idle: "running m = None" and k: "answered k" and kf: "parked m (k_fiber k) = None"
  shows "step_good_m True (take_step thr k m)"
proof -
  note g = m_invD(1) [OF inv]
  obtain q r tk where pick: "pickNextTaskLocked (io_sched (iom (mrt m))) thr = (q, r, tk)" by (metis prod.exhaust)
  show ?thesis
  proof (cases r)
    case None
    with pick have "q = io_sched (iom (mrt m))" by (auto elim: pick_result)
    then have "moves (mrt m) {#} (on_sched (\<lambda>_. q) (mrt m))" by (intro on_sched_moves [OF g]) simp_all
    from m_inv_moves [OF inv moves_last [OF this tickle_moves [OF moves_good [OF this]]]]
    show ?thesis by (simp add: take_step_def pick None)
  next
    case (Some task)
    let ?h = "\<lambda>q. q\<lparr>m_activeThreadCount := m_activeThreadCount q + 1\<rparr>"
    let ?v = "(mrt m)\<lparr>iom := (iom (mrt m))\<lparr>io_sched := q\<rparr>\<rparr>"
    let ?w = "tickle_rt tk (on_sched (\<lambda>_. ?h q) (mrt m))"
    note P = pick_moves [OF g pick [unfolded Some] refl]
    have e: "on_sched (\<lambda>_. ?h q) (mrt m) = on_sched ?h ?v" by (simp add: on_sched_def)
    have A: "moves ?v {#} (on_sched ?h ?v)" by (rule on_sched_moves [OF P(1)]) simp_all
    have M: "moves ?v {#} ?w" unfolding e by (rule moves_last [OF A tickle_moves [OF moves_good [OF A]]])
    have wk: "mset_set (dom (parked m)) = wakes (iom ?w) + fc_wakes (task_item task)"
      using m_invD(3) [OF inv] P(2) M by (simp add: moves_def)
    have parks: "park_ok ?w p" if "parked m f = Some p" for f p
      by (rule park_ok_quiet [OF m_invD(5) [OF inv that] moves_quiet [OF M P(4)]])
    have T: "take_step thr k m = (case task_fiber task of
          Some f \<Rightarrow> (case parked m f of
             None \<Rightarrow> Some (Inr (m\<lparr>mrt := after_resume task False ?w\<rparr>))
           | Some p \<Rightarrow> resume_at f task p k (m\<lparr>mrt := ?w, parked := (parked m)(f := None), running := Some (f, task)\<rparr>))
        | None \<Rightarrow> (case task_cb task of
             None \<Rightarrow> Some (Inr (m\<lparr>mrt := ?w\<rparr>))
           | Some (UserCb n) \<Rightarrow> Some (Inr (m\<lparr>mrt := ?w, running := Some (k_fiber k, task)\<rparr>))
           | Some cb \<Rightarrow> (case run_cb (\<lambda>_ w. w) (k_ctl k) ?w cb of
                Inl e \<Rightarrow> Some (Inl e)
              | Inr w1 \<Rightarrow> Some (Inr (m\<lparr>mrt := on_sched
                  (\<lambda>q. q\<lparr>m_activeThreadCount := m_activeThreadCount q - 1\<rparr>) w1\<rparr>)))))"
      by (simp add: take_step_def pick Some Let_def)
    show ?thesis
    proof (cases "task_fiber task")
      case f: (Some f)
      then have wf: "mset_set (dom (parked m)) = wakes (iom ?w) + {#f#}" using wk by (simp add: task_item_def)
      then have "f \<in># mset_set (dom (parked m))" by simp
      then obtain p where p: "parked m f = Some p" using m_invD(2) [OF inv] by auto
      let ?m = "m\<lparr>mrt := ?w, parked := (parked m)(f := None), running := Some (f, task)\<rparr>"
      have "wakes (iom ?w) = mset_set (dom (parked m) - {f})"
        using wf m_invD(2) [OF inv] p by (simp add: mset_set_Diff domIff)
      then have "m_inv ?m"
        using moves_good [OF M] m_invD(2) [OF inv] parks by (auto simp: m_inv_def)
      from resume_good [OF this _ _ k, of f task p] parks [OF p] show ?thesis unfolding T by (simp add: f p)
    next
      case nf: None
      show ?thesis
      proof (cases "task_cb task")
        case None
        then have "wakes (iom ?w) = mset_set (dom (parked m))" using nf wk by (simp add: task_item_def)
        then have "m_inv (m\<lparr>mrt := ?w\<rparr>)" using inv moves_good [OF M] parks by (auto simp: m_inv_def)
        then show ?thesis unfolding T by (simp add: nf None)
      next
        case cb: (Some cb)
        have cbok: "cb_ok cb" using P(3) nf cb by (simp add: task_item_def)
        show ?thesis
        proof (cases "is_user cb")
          case True
          then obtain n where n: "cb = UserCb n" by (cases cb) auto
          have "wakes (iom ?w) = mset_set (dom (parked m))" using nf cb n wk by (simp add: task_item_def)
          then have "m_inv (m\<lparr>mrt := ?w, running := Some (k_fiber k, task)\<rparr>)"
            using inv moves_good [OF M] parks kf by (auto simp: m_inv_def)
          then show ?thesis unfolding T by (simp add: nf cb n)
        next
          case False
          from run_cb_moves [OF moves_good [OF M] cbok False, of "\<lambda>_ w. w" "k_ctl k"] obtain w1 where
            w1: "run_cb (\<lambda>_ w. w) (k_ctl k) ?w cb = Inr w1" "moves ?w (fc_wakes (Callback (Some cb))) w1" by blast
          let ?d = "\<lambda>q. q\<lparr>m_activeThreadCount := m_activeThreadCount q - 1\<rparr>"
          have M2: "moves ?w (fc_wakes (Callback (Some cb))) (on_sched ?d w1)"
            by (rule moves_last [OF w1(2) on_sched_moves [OF moves_good [OF w1(2)]]]) simp_all
          have "wakes (iom (on_sched ?d w1)) = mset_set (dom (parked m))"
            using M2 wk nf cb by (simp add: task_item_def moves_def)
          moreover have "park_ok (on_sched ?d w1) p" if "parked m f = Some p" for f p
            by (rule park_ok_quiet [OF parks [OF that] moves_quiet [OF M2]])
          ultimately have "m_inv (m\<lparr>mrt := on_sched ?d w1\<rparr>)" using inv moves_good [OF M2] by (auto simp: m_inv_def)
          then show ?thesis unfolding T using False w1(1) by (cases cb) (simp_all add: nf cb)
        qed
      qed
    qed
  qed
qed
lemma spawn_moves:
  assumes "rt_good w"
  shows "moves w {#f#} (w\<lparr>iom := io_schedule (iom w) (FiberPtr (Some f))\<rparr>)"
  using schedule_moves [OF assms, of "FiberPtr (Some f)"] by simp

lemma mstep_fiber:
  assumes "of_fiber a"
  shows "mstep m a = (case running m of None \<Rightarrow> None | Some (f, task) \<Rightarrow> fiber_step m f task a)"
    and "act_ok m a \<Longrightarrow> running m \<noteq> None"
proof -
  show "mstep m a = (case running m of None \<Rightarrow> None | Some (f, task) \<Rightarrow> fiber_step m f task a)"
    using assms by (cases a) (simp_all only: mstep.simps of_fiber.simps)
  show "act_ok m a \<Longrightarrow> running m \<noteq> None"
    using assms by (cases a) (simp_all only: act_ok.simps of_fiber.simps simp_thms)
qed

lemma mstep_good:
  assumes inv: "m_inv m" and ok: "act_ok m a"
  shows "step_good_m True (mstep m a)"
proof -
  note g = m_invD(1) [OF inv]
  consider (spawn) f where "a = Spawn f" | (submit) n where "a = Submit n" | (stop) "a = StopCalled"
    | (idle) n1 n2 n3 n4 es where "a = Idle n1 n2 n3 n4 es" | (take) thr k where "a = Take thr k"
    | (fiber) "of_fiber a" by (cases a) simp_all
  then show ?thesis
  proof cases
    case spawn
    let ?w = "(mrt m)\<lparr>iom := io_schedule (iom (mrt m)) (FiberPtr (Some f))\<rparr>"
    have "m_inv (m\<lparr>mrt := ?w, parked := (parked m)(f \<mapsto> Fresh), running := running m\<rparr>)"
      by (rule m_inv_park [OF inv _ spawn_moves [OF g]]) (use ok spawn in auto)
    with spawn show ?thesis by simp
  next
    case submit
    have "moves (mrt m) {#} ((mrt m)\<lparr>iom := io_schedule (iom (mrt m)) (Callback (Some (UserCb n)))\<rparr>)"
      using schedule_moves [OF g, of "Callback (Some (UserCb n))"] by simp
    from m_inv_moves [OF inv this] submit show ?thesis by simp
  next
    case stop
    have "moves (mrt m) {#} (on_sched (\<lambda>q. q\<lparr>m_stopping := True\<rparr>) (mrt m))"
      by (rule on_sched_moves [OF g]) simp_all
    from m_inv_moves [OF inv this] stop show ?thesis by simp
  next
    case idle
    with ok have i: "running m = None" "ready_ok (iom (mrt m)) es" by simp_all
    obtain r s where r: "idle_round (iom (mrt m)) n1 n2 n3 n4 es = Some (Inr r)" "r = Inl s \<or> r = Inr s"
      "moves (mrt m) {#} ((mrt m)\<lparr>iom := s\<rparr>)"
      using idle_moves [OF g i(2), of n1 n2 n3 n4] by blast
    from m_inv_moves [OF inv r(3)] r(1,2) i(1) idle show ?thesis by auto
  next
    case take
    then have i: "running m = None" "answered k" "parked m (k_fiber k) = None" "mstep m a = take_step thr k m"
      using ok by simp_all
    show ?thesis unfolding i(4) by (rule take_step_good [OF inv i(1-3)])
  next
    case fiber
    note F = mstep_fiber [OF fiber]
    obtain f task where "running m = Some (f, task)" using F(2) [OF ok] by auto
    with fiber_step_good [OF inv this ok fiber] F(1) show ?thesis by simp
  qed
qed

lemma start_inv:
  assumes "policy \<noteq> MLFQ"
  shows "m_inv (start_machine policy hook efd now)"
proof -
  let ?m = "start_machine policy hook efd now"
  let ?i = "(init_IOManager efd now)\<lparr>io_sched := setPolicy init_Scheduler policy\<rparr>"
  have f: "m_timers (io_timers ?i) = []" "m_tasks (io_sched ?i) = []" "m_policy (io_sched ?i) = policy"
    "timer_inv (io_timers ?i)"
    using timer_inv_ctor by (simp_all add: init_IOManager_def contextResize_def TimerManager_ctor_def Let_def
        setPolicy_def init_Scheduler_def)
  have c: "ctx_items (ctx_heap ?i a) = {#}" if "a < ctx_count ?i" for a
    using that by (simp add: init_IOManager_def contextResize_def Let_def)
  have i: "items ?i = {#}" using f c by (simp add: items_def slot_items_def queue_items_def timer_items_def)
  have io: "io_inv ?i" using init_io_inv [of efd now] by (simp add: io_inv_def registered_def)
  have "rt_inv (mrt ?m)" using io f fd_inv_ctor by (simp add: rt_inv_def start_machine_def)
  then have "rt_good (mrt ?m)"
    using f i assms by (simp add: rt_good_def one_shot_def items_ok_def start_machine_def)
  then show ?thesis using i by (simp add: m_inv_def wakes_def start_machine_def)
qed

lemma mreach_inv: "mreach policy m \<Longrightarrow> policy \<noteq> MLFQ \<Longrightarrow> m_inv m"
proof (induction rule: mreach.induct)
  case (mreach_step m a m1)
  with mstep_good [OF mreach_step.IH [OF mreach_step.prems] mreach_step.hyps(2)] show ?case by simp
qed (rule start_inv)

section \<open>What the runtime guarantees\<close>



text \<open>
  What other threads can do to the manager of a worker that is in its idle loop: submit, and
  stop. It does not touch the timers or the registrations.
\<close>

fun external :: "action \<Rightarrow> bool" where
  "external (Spawn f) = True"
| "external (Submit n) = True"
| "external StopCalled = True"
| "external _ = False"

inductive others :: "Machine \<Rightarrow> Machine \<Rightarrow> bool" for m where
  others_none: "others m m"
| others_more: "others m m1 \<Longrightarrow> external a \<Longrightarrow> act_ok m1 a \<Longrightarrow> mstep m1 a = Some (Inr m2) \<Longrightarrow> others m m2"

lemma external_frame:
  assumes "external a" and "mstep m a = Some (Inr m1)"
  shows "io_timers (iom (mrt m1)) = io_timers (iom (mrt m))" and "ctx_heap (iom (mrt m1)) = ctx_heap (iom (mrt m))"
    and "ctx_count (iom (mrt m1)) = ctx_count (iom (mrt m))" and "running m1 = running m"
    and "m_pendingEventCount (iom (mrt m1)) = m_pendingEventCount (iom (mrt m))"
  using assms by (cases a; auto simp: on_sched_def)+

lemma others_frame:
  assumes "others m m1"
  shows "io_timers (iom (mrt m1)) = io_timers (iom (mrt m)) \<and> ctx_heap (iom (mrt m1)) = ctx_heap (iom (mrt m)) \<and>
    ctx_count (iom (mrt m1)) = ctx_count (iom (mrt m)) \<and> running m1 = running m \<and>
    m_pendingEventCount (iom (mrt m1)) = m_pendingEventCount (iom (mrt m)) \<and> (m_inv m \<longrightarrow> m_inv m1)"
  using assms
proof (induction rule: others.induct)
  case (others_more m1 a m2)
  have "m_inv m1 \<longrightarrow> m_inv m2" using mstep_good [OF _ others_more.hyps(3)] others_more.hyps(4) by auto
  with others_more.IH external_frame [OF others_more.hyps(2,4)] show ?case by simp
qed simp

lemma reading_moves:
  assumes "rt_good w"
  shows "moves w {#} (w\<lparr>iom := (iom w)\<lparr>io_timers := (io_timers (iom w))\<lparr>m_tickled := False\<rparr>\<rparr>\<rparr>)"
  using assms by (simp add: moves_def rt_good_def rt_inv_def one_shot_def items_ok_def items_def slot_items_def
      timer_items_def timer_inv_def kept_timers_def wakes_def)

text \<open>Nothing pending and nobody in the queue: nobody waits.\<close>

lemma nobody_waits:
  assumes inv: "m_inv m" and q: "m_timers (io_timers (iom (mrt m))) = []" "registered (iom (mrt m)) = 0"
    "m_tasks (io_sched (iom (mrt m))) = []"
  shows "items (iom (mrt m)) = {#}" and "parked m f = None"
proof -
  let ?s = "iom (mrt m)"
  have "ctx_items (ctx_heap ?s a) = {#}" if a: "a < ctx_count ?s" for a
  proof -
    have ok: "ctx_ok (ctx_heap ?s a)" using rt_goodD(6) [OF m_invD(1) [OF inv]] a by (simp add: io_inv_def)
    have "evcount (fc_events (ctx_heap ?s a)) = 0" using q(2) a by (simp add: registered_def)
    then have "fc_events (ctx_heap ?s a) AND READ = 0" "fc_events (ctx_heap ?s a) AND WRITE = 0"
      by (simp_all add: evcount_def split: if_splits)
    with ok show ?thesis by (simp add: ctx_ok_def slot_ok_def ctx_items_def)
  qed
  then show i: "items ?s = {#}" using q by (simp add: items_def slot_items_def queue_items_def timer_items_def)
  then have "mset_set (dom (parked m)) = {#}" using m_invD(3) [OF inv] by (simp add: wakes_def)
  then have "dom (parked m) = {}" using m_invD(2) [OF inv] by (simp add: mset_set_empty_iff)
  then show "parked m f = None" by blast
qed

lemma no_timer_left:
  assumes "stopping_timers s now = (s1, True)"
    and "\<forall>a \<in> set (m_timers (io_timers s)). Timer.m_next (timer_at (io_timers s) a) - now < 2 ^ 63"
  shows "s1 = s\<lparr>io_timers := (io_timers s)\<lparr>m_tickled := False\<rparr>\<rparr>" and "m_timers (io_timers s) = []"
proof -
  show "s1 = s\<lparr>io_timers := (io_timers s)\<lparr>m_tickled := False\<rparr>\<rparr>"
    using assms(1) by (auto simp: stopping_timers_def getNextTimer_def Let_def split: if_splits)
  show "m_timers (io_timers s) = []"
    using assms(1) no_next_timer [OF assms(2)] by (auto simp: stopping_timers_def split: prod.splits)
qed


text \<open>
  With a second worker the three reads are not of one moment: the fiber it runs may go to sleep
  after the timers have been read. Then the first worker leaves while that fiber sleeps.
\<close>

theorem stopping_race:
  assumes "mreach policy m" and "policy \<noteq> MLFQ" and "running m = Some (f, task)" and "t_hook_enable (mrt m)"
    and "m_timers (io_timers (iom (mrt m))) = []" and "m_pendingEventCount (iom (mrt m)) = 0"
    and "m_stopping (io_sched (iom (mrt m)))" and "m_tasks (io_sched (iom (mrt m))) = []"
    and "m_activeThreadCount (io_sched (iom (mrt m))) = 1"
  shows "\<exists>s m1. stopping_timers (iom (mrt m)) n = (s, True) \<and>
    mstep (m\<lparr>mrt := (mrt m)\<lparr>iom := s\<rparr>\<rparr>) (DoSleep sec now) = Some (Inr m1) \<and>
    stopping_events (iom (mrt m1)) \<and> stopping (io_sched (iom (mrt m1))) \<and>
    parked m1 f = Some InSleep \<and> m_timers (io_timers (iom (mrt m1))) \<noteq> []"
proof -
  note g = m_invD(1) [OF mreach_inv [OF assms(1,2)]]
  let ?s = "(iom (mrt m))\<lparr>io_timers := (io_timers (iom (mrt m)))\<lparr>m_tickled := False\<rparr>\<rparr>"
  let ?w = "(mrt m)\<lparr>iom := ?s\<rparr>"
  have st: "stopping_timers (iom (mrt m)) n = (?s, True)"
    using assms(5) by (simp add: stopping_timers_def getNextTimer_def Let_def)
  have gw: "rt_good ?w" by (rule moves_good [OF reading_moves [OF g]])
  obtain w1 a where a: "iom_addTimer ?w (ucast (sec * 1000)) (WakeFiberCb f) now = (w1, a)" by fastforce
  note A = iom_addTimer_ok [OF rt_goodD(1) [OF gw] a]
  have q: "io_sched (iom w1) = io_sched (iom (mrt m))" "m_pendingEventCount (iom w1) = 0"
    using A(6,9) assms(6) by simp_all
  have "mlfq_requeue (io_sched (iom w1)) task True = (io_sched (iom w1), False)"
    using rt_goodD(5) [OF g] q(1) by (simp add: mlfq_requeue_def)
  then have ar: "after_resume task True w1 =
      on_sched (\<lambda>q. q\<lparr>m_activeThreadCount := m_activeThreadCount q - 1\<rparr>) w1"
    by (simp add: after_resume_def tickle_rt_def) (simp add: on_sched_def)
  have "mstep (m\<lparr>mrt := ?w\<rparr>) (DoSleep sec now) = Some (Inr (suspend f task InSleep w1 (m\<lparr>mrt := ?w\<rparr>)))"
    using assms(3,4) rt_goodD(2) [OF g] a by (simp add: hook_sleep_def sleep_outcome_def)
  moreover have "stopping (io_sched (iom (mrt (suspend f task InSleep w1 (m\<lparr>mrt := ?w\<rparr>)))))"
    using assms(7-9) q(1) by (simp add: suspend_def ar on_sched_def stopping_def)
  moreover have "stopping_events (iom (mrt (suspend f task InSleep w1 (m\<lparr>mrt := ?w\<rparr>))))"
    using q(2) by (simp add: suspend_def ar on_sched_def stopping_events_def)
  moreover have "m_timers (io_timers (iom (mrt (suspend f task InSleep w1 (m\<lparr>mrt := ?w\<rparr>))))) \<noteq> []"
    using A(3) by (auto simp: suspend_def ar on_sched_def)
  moreover have "parked (suspend f task InSleep w1 (m\<lparr>mrt := ?w\<rparr>)) f = Some InSleep" by (simp add: suspend_def)
  ultimately show ?thesis using st by blast
qed

section \<open>A concrete run\<close>

text \<open>Fiber 7 is submitted, taken, sleeps for a second; or ends, and the manager is stopped.\<close>

definition quiet_kernel :: Kernel where
  "quiet_kernel = \<lparr>k_results = [(1, 0)], k_ret = (0, 0), k_ret2 = (0, 0), k_stat = None, k_flags = 0,
     k_now = 0, k_ctl = 0, k_soerror = 0, k_fiber = 100\<rparr>"

definition idle_task :: "fid \<Rightarrow> ScheduleTask" where
  "idle_task f = \<lparr>task_fiber = Some f, task_cb = None, task_thread = -1, task_priority = 0,
     mlfq_level = 0, deadline_ms = 0, sequence = 0\<rparr>"

lemma demo_spawned:
  obtains m where "mreach FIFO m" "parked m = [7 \<mapsto> Fresh]" "running m = None" "t_hook_enable (mrt m)"
    "m_tasks (io_sched (iom (mrt m))) = [idle_task 7]" "m_policy (io_sched (iom (mrt m))) = FIFO"
    "m_timers (io_timers (iom (mrt m))) = []" "get_ctx (mrt m) 5 = None"
    "m_pendingEventCount (iom (mrt m)) = 0" "m_activeThreadCount (io_sched (iom (mrt m))) = 0"
proof -
  let ?m = "start_machine FIFO True 4 0"
  let ?s = "?m\<lparr>mrt := (mrt ?m)\<lparr>iom := io_schedule (iom (mrt ?m)) (FiberPtr (Some 7))\<rparr>, parked := (parked ?m)(7 \<mapsto> Fresh)\<rparr>"
  have "act_ok ?m (Spawn 7)" by (simp add: start_machine_def)
  from mreach_step [OF mreach_start this] have "mreach FIFO ?s" by simp
  moreover have "m_tasks (io_sched (iom (mrt ?s))) = [idle_task 7]"
    by (simp add: io_schedule_sched scheduleLock_def scheduleEx_def Let_def default_options_def start_machine_def
        setPolicy_def init_Scheduler_def idle_task_def)
  moreover have "m_policy (io_sched (iom (mrt ?s))) = FIFO" "m_timers (io_timers (iom (mrt ?s))) = []"
    by (simp_all add: start_machine_def setPolicy_def init_IOManager_def contextResize_def TimerManager_ctor_def)
  moreover have "m_pendingEventCount (iom (mrt ?s)) = 0" "m_activeThreadCount (io_sched (iom (mrt ?s))) = 0"
    by (simp_all add: io_schedule_sched scheduleLock_def scheduleEx_def Let_def start_machine_def setPolicy_def
        init_Scheduler_def init_IOManager_def contextResize_def)
  moreover have "get_ctx (mrt ?s) 5 = None"
    by (simp add: start_machine_def get_ctx_def get_lookup_def too_short_def FdManager_ctor_def)
  ultimately show thesis by (intro that [of ?s]) (simp_all add: start_machine_def)
qed

lemma demo_taken:
  obtains m where "mreach FIFO m" "parked m = Map.empty" "running m = Some (7, idle_task 7)" "t_hook_enable (mrt m)"
    "m_tasks (io_sched (iom (mrt m))) = []" "m_policy (io_sched (iom (mrt m))) = FIFO"
    "m_timers (io_timers (iom (mrt m))) = []" "get_ctx (mrt m) 5 = None"
    "m_pendingEventCount (iom (mrt m)) = 0" "m_activeThreadCount (io_sched (iom (mrt m))) = 1"
proof -
  obtain m where m: "mreach FIFO m" "parked m = [7 \<mapsto> Fresh]" "running m = None" "t_hook_enable (mrt m)"
    "m_tasks (io_sched (iom (mrt m))) = [idle_task 7]" "m_policy (io_sched (iom (mrt m))) = FIFO"
    "m_timers (io_timers (iom (mrt m))) = []" "get_ctx (mrt m) 5 = None"
    "m_pendingEventCount (iom (mrt m)) = 0" "m_activeThreadCount (io_sched (iom (mrt m))) = 0" by (rule demo_spawned)
  let ?q = "(io_sched (iom (mrt m)))\<lparr>m_tasks := []\<rparr>"
  have p: "pickNextTaskLocked (io_sched (iom (mrt m))) 3 = (?q, Some (idle_task 7), False)"
    by (simp add: pickNextTaskLocked_def m(5,6) match_thread_def idle_task_def take_task_def erase_at_def)
  let ?w = "on_sched (\<lambda>_. ?q\<lparr>m_activeThreadCount := m_activeThreadCount ?q + 1\<rparr>) (mrt m)"
  let ?m = "m\<lparr>mrt := ?w, parked := Map.empty, running := Some (7, idle_task 7)\<rparr>"
  have s: "mstep m (Take 3 quiet_kernel) = Some (Inr ?m)"
    using m(2,3) p by (simp add: take_step_def tickle_rt_def idle_task_def resume_at_def)
  have "act_ok m (Take 3 quiet_kernel)"
    using m(2,3) by (simp add: answered_def quiet_kernel_def EINTR_def)
  from mreach_step [OF m(1) this s] have "mreach FIFO ?m" .
  then show thesis by (rule that) (use m in \<open>simp_all add: on_sched_def get_ctx_def\<close>)
qed




lemma stopping_race_witness:
  "\<exists>m s m1. mreach FIFO m \<and> stopping_timers (iom (mrt m)) 0 = (s, True) \<and>
    mstep (m\<lparr>mrt := (mrt m)\<lparr>iom := s\<rparr>\<rparr>) (DoSleep 1 0) = Some (Inr m1) \<and> parked m1 7 = Some InSleep \<and>
    stopping_events (iom (mrt m1)) \<and> stopping (io_sched (iom (mrt m1)))"
proof -
  obtain m where m: "mreach FIFO m" "parked m = Map.empty" "running m = Some (7, idle_task 7)" "t_hook_enable (mrt m)"
    "m_tasks (io_sched (iom (mrt m))) = []" "m_policy (io_sched (iom (mrt m))) = FIFO"
    "m_timers (io_timers (iom (mrt m))) = []" "get_ctx (mrt m) 5 = None"
    "m_pendingEventCount (iom (mrt m)) = 0" "m_activeThreadCount (io_sched (iom (mrt m))) = 1" by (rule demo_taken)
  let ?s = "m\<lparr>mrt := on_sched (\<lambda>q. q\<lparr>m_stopping := True\<rparr>) (mrt m)\<rparr>"
  have r: "mreach FIFO ?s" using mreach_step [OF m(1), of StopCalled] by simp
  have "FIFO \<noteq> MLFQ" "running ?s = Some (7, idle_task 7)" "t_hook_enable (mrt ?s)"
    "m_timers (io_timers (iom (mrt ?s))) = []" "m_pendingEventCount (iom (mrt ?s)) = 0"
    "m_stopping (io_sched (iom (mrt ?s)))" "m_tasks (io_sched (iom (mrt ?s))) = []"
    "m_activeThreadCount (io_sched (iom (mrt ?s))) = 1"
    using m by (simp_all add: on_sched_def)
  from stopping_race [OF r this, of 0 1 0] r show ?thesis by blast
qed

end
