(* ===== verification/Shared_Stack.thy ===== *)
theory Shared_Stack
  imports Fiber_Stack
begin

text \<open>
  Shared stacks are exact: a fiber that is switched out of a slot and back in finds its stack
  as it left it, whoever used the slot meanwhile. The proof follows the life of the fibers of
  one thread as a step relation with a ghost \<open>im\<close>, the memory as each fiber left it.
\<close>

section \<open>The invariant\<close>

definition lo :: "Stacks \<Rightarrow> nat \<Rightarrow> nat" where "lo s k = unat (slot_stack (slots s k))"
definition hi :: "Stacks \<Rightarrow> nat \<Rightarrow> nat" where "hi s k = lo s k + unat (slot_size (slots s k))"
definition esp :: "Stacks \<Rightarrow> nat \<Rightarrow> nat" where
  "esp s k = unat (entry_sp (slot_stack (slots s k)) (slot_size (slots s k)))"
definition sp :: "Fiber \<Rightarrow> nat" where "sp c = unat (GetContextStackPointer (m_ctx c))"

text \<open>What \<^verbatim>\<open>malloc\<close> guarantees of the slots.\<close>

definition slots_ok :: "Stacks \<Rightarrow> bool" where
  "slots_ok s \<longleftrightarrow>
     (\<forall>k < n_slots s. slot_stack (slots s k) \<noteq> 0 \<and> 24 \<le> unat (slot_size (slots s k)) \<and>
        unat (slot_size (slots s k)) < 2 ^ 32 \<and> hi s k < 2 ^ 64) \<and>
     (\<forall>j < n_slots s. \<forall>k < n_slots s. j \<noteq> k \<longrightarrow> hi s j \<le> lo s k \<or> hi s k \<le> lo s j)"

definition zeros :: "Stacks \<Rightarrow> nat \<Rightarrow> bool" where
  "zeros s k \<longleftrightarrow> (\<forall>x. esp s k \<le> x \<and> x < esp s k + 8 \<longrightarrow> mem s x = 0)"

text \<open>A fiber that has a slot has a context on it.\<close>

definition fib_ok :: "int \<Rightarrow> Stacks \<Rightarrow> Fiber \<Rightarrow> bool" where
  "fib_ok tid s c \<longleftrightarrow> m_ownerThread c \<in> {-1, tid} \<and>
     (case m_sharedStackSlot c of
        None \<Rightarrow> \<not> m_ctxInitialized c \<and> m_stackSnapshot c = [] \<and> 24 \<le> unat (m_stacksize c)
      | Some k \<Rightarrow> m_ctxInitialized c \<and> k < n_slots s \<and> m_stack c = slot_stack (slots s k) \<and>
          m_stacksize c = ucast (slot_size (slots s k)) \<and> zeros s k)"

text \<open>
  The bytes of a suspended fiber, from its stack pointer to its entry frame, are in the slot if it
  owns the slot, else in its snapshot; a fresh fiber that does not own the slot needs none.
\<close>

definition img_ok :: "Stacks \<Rightarrow> (fid \<Rightarrow> nat \<Rightarrow> u8) \<Rightarrow> fid \<Rightarrow> Fiber \<Rightarrow> nat \<Rightarrow> bool" where
  "img_ok s im f c k \<longleftrightarrow> lo s k \<le> sp c \<and> sp c \<le> esp s k \<and>
     (\<forall>x. esp s k \<le> x \<and> x < esp s k + 8 \<longrightarrow> im f x = 0) \<and>
     (if slot_owner (slots s k) = Some f
      then \<forall>x. sp c \<le> x \<and> x < esp s k + 8 \<longrightarrow> mem s x = im f x
      else (m_stackSnapshot c = [] \<and> sp c = esp s k) \<or>
        (length (m_stackSnapshot c) = hi s k - sp c \<and>
         (\<forall>x. sp c \<le> x \<and> x < esp s k + 8 \<longrightarrow> m_stackSnapshot c ! (x - sp c) = im f x)))"

definition pools_ok :: "Stacks \<Rightarrow> bool" where
  "pools_ok s \<longleftrightarrow> (\<forall>sz p. t_shared_stack_pools s sz = Some p \<longrightarrow> m_slots p \<noteq> [] \<and>
     (\<forall>k \<in> set (m_slots p). k < n_slots s \<and> slot_size (slots s k) = sz))"

definition owners_ok :: "Stacks \<Rightarrow> bool" where
  "owners_ok s \<longleftrightarrow> (\<forall>k w c. slot_owner (slots s k) = Some w \<longrightarrow> fibers s w = Some c \<longrightarrow>
     m_useSharedStack c \<and> m_sharedStackSlot c = Some k)"

text \<open>\<open>E\<close> are the fibers whose bytes are in motion: the one that runs.\<close>

definition inv :: "int \<Rightarrow> Stacks \<Rightarrow> (fid \<Rightarrow> nat \<Rightarrow> u8) \<Rightarrow> fid set \<Rightarrow> bool" where
  "inv tid s im E \<longleftrightarrow> slots_ok s \<and> pools_ok s \<and> owners_ok s \<and>
     (\<forall>f c. fibers s f = Some c \<longrightarrow> m_useSharedStack c \<longrightarrow> fib_ok tid s c \<and>
        (\<forall>k. m_sharedStackSlot c = Some k \<longrightarrow> f \<notin> E \<longrightarrow> img_ok s im f c k))"

lemma inv_fib: "inv tid s im E \<Longrightarrow> fibers s f = Some c \<Longrightarrow> m_useSharedStack c \<Longrightarrow> fib_ok tid s c"
  by (simp add: inv_def)

lemma inv_img: "inv tid s im E \<Longrightarrow> fibers s f = Some c \<Longrightarrow> m_useSharedStack c \<Longrightarrow>
    m_sharedStackSlot c = Some k \<Longrightarrow> f \<notin> E \<Longrightarrow> img_ok s im f c k \<and> k < n_slots s \<and> zeros s k"
  by (simp add: inv_def fib_ok_def split: option.splits)

lemma slot_bounds:
  assumes "slots_ok s" and "k < n_slots s"
  shows "lo s k \<le> esp s k" and "esp s k + 8 \<le> hi s k" and "hi s k < 2 ^ 64"
    and "unat (slot_stack (slots s k) + slot_size (slots s k)) = hi s k" and "0 < lo s k"
proof -
  have a: "24 \<le> unat (slot_size (slots s k))" "hi s k < 2 ^ 64" "slot_stack (slots s k) \<noteq> 0"
    using assms by (auto simp: slots_ok_def)
  have b: "unat (slot_stack (slots s k)) + unat (slot_size (slots s k)) < 2 ^ 64"
    using a(2) by (simp add: hi_def lo_def)
  from entry_sp_bounds [OF a(1) b] a(2,3) show "lo s k \<le> esp s k" "esp s k + 8 \<le> hi s k" "hi s k < 2 ^ 64"
    "unat (slot_stack (slots s k) + slot_size (slots s k)) = hi s k" "0 < lo s k"
    by (simp_all add: lo_def hi_def esp_def unat_gt_0)
qed

lemma set_fiber_addr [simp]:
  "lo (set_fiber f c s) k = lo s k" "hi (set_fiber f c s) k = hi s k" "esp (set_fiber f c s) k = esp s k"
  "sp (c\<lparr>m_stackSnapshot := bs\<rparr>) = sp c" "sp (c\<lparr>m_ownerThread := t\<rparr>) = sp c"
  by (simp_all add: lo_def hi_def esp_def sp_def)

lemma slots_ok_cong:
  "n_slots s' = n_slots s \<Longrightarrow> (\<And>k. slot_stack (slots s' k) = slot_stack (slots s k) \<and>
    slot_size (slots s' k) = slot_size (slots s k)) \<Longrightarrow> slots_ok s' = slots_ok s"
  by (simp add: slots_ok_def hi_def lo_def)

text \<open>What does not touch the slots' addresses and memory keeps the facts about a fiber.\<close>

definition same_slots :: "Stacks \<Rightarrow> Stacks \<Rightarrow> bool" where
  "same_slots s s' \<longleftrightarrow> n_slots s \<le> n_slots s' \<and> (\<forall>k < n_slots s. slots s' k = slots s k)"

lemma same_slotsD:
  assumes "same_slots s s'" and "k < n_slots s"
  shows "lo s' k = lo s k" "hi s' k = hi s k" "esp s' k = esp s k" "slots s' k = slots s k" "k < n_slots s'"
  using assms by (auto simp: same_slots_def lo_def hi_def esp_def)

lemma fib_ok_frame:
  assumes "fib_ok tid s c" and "same_slots s s'"
    and "\<And>k. m_sharedStackSlot c = Some k \<Longrightarrow> k < n_slots s \<Longrightarrow> zeros s k \<Longrightarrow> zeros s' k"
  shows "fib_ok tid s' c"
  using assms same_slotsD [OF assms(2)] by (auto simp: fib_ok_def split: option.splits)

lemma img_ok_frame:
  assumes "img_ok s im f c k" and "same_slots s s'" and "k < n_slots s"
    and "\<And>x. slot_owner (slots s k) = Some f \<Longrightarrow> sp c \<le> x \<Longrightarrow> x < esp s k + 8 \<Longrightarrow> mem s' x = mem s x"
  shows "img_ok s' im f c k"
  using assms(1,4) same_slotsD [OF assms(2,3)] by (auto simp: img_ok_def split: if_splits)

section \<open>Saving, restoring, taking over\<close>

lemma snapshot_from_ok:
  assumes ok: "slots_ok s" and k: "k < n_slots s" and p: "lo s k \<le> unat p" "unat p \<le> hi s k"
  shows "snapshot_from p s f k = Inr (set_fiber f ((fiber_at s f)\<lparr>m_stackSnapshot :=
    read_bytes (mem s) (unat p) (hi s k - unat p)\<rparr>) s)"
proof -
  note B = slot_bounds [OF ok k]
  let ?b = "slot_stack (slots s k)" and ?t = "slot_stack (slots s k) + slot_size (slots s k)"
  have le: "?b \<le> p" "p \<le> ?t" using p B(4) by (simp_all add: word_le_nat_alt lo_def)
  have "unat (?t - p) = hi s k - unat p" using le(2) B(4) by (simp add: unat_sub)
  moreover have "?b \<noteq> 0" using B(5) by (auto simp: lo_def)
  ultimately show ?thesis using le by (simp add: snapshot_from_def Let_def)
qed

text \<open>The tail of \<^verbatim>\<open>prepareSharedStack\<close> for a fiber that has its slot and context.\<close>

lemma save_owner_ok:
  assumes inv: "inv tid s im E" and f: "fibers s f = Some c" "m_useSharedStack c" "m_sharedStackSlot c = Some k"
    and E: "E \<subseteq> {f}" and t: "\<forall>w. t_fiber s = Some w \<longrightarrow> fibers s w \<noteq> None \<longrightarrow> \<not> m_useSharedStack (fiber_at s w)"
  obtains s' where "save_owner marker s f k = Inr s'" "inv tid s' im E" "fibers s' f = Some c"
    "slots s' = slots s" "n_slots s' = n_slots s" "mem s' = mem s" "t_fiber s' = t_fiber s"
    "\<And>w co. slot_owner (slots s k) = Some w \<Longrightarrow> w \<noteq> f \<Longrightarrow> fibers s' w = Some co \<Longrightarrow>
      length (m_stackSnapshot co) = hi s k - sp co \<and>
      (\<forall>x. sp co \<le> x \<and> x < esp s k + 8 \<longrightarrow> m_stackSnapshot co ! (x - sp co) = im w x)"
    "\<And>g. (fibers s' g = None) = (fibers s g = None)"
proof (cases "\<exists>w co. slot_owner (slots s k) = Some w \<and> w \<noteq> f \<and> fibers s w = Some co")
  case False
  then have "lock_owner s k = None \<or> lock_owner s k = Some f"
    by (fastforce simp: lock_owner_def split: option.splits)
  then have "save_owner marker s f k = Inr s" by (auto simp: save_owner_def)
  with False inv f show ?thesis by (intro that [of s]) auto
next
  case True
  then obtain w' co where w: "slot_owner (slots s k) = Some w'" "w' \<noteq> f" "fibers s w' = Some co" by blast
  have sl: "slots_ok s" and ow: "owners_ok s" using inv by (simp_all add: inv_def)
  have co: "m_useSharedStack co" "m_sharedStackSlot co = Some k"
    using ow w by (auto simp: owners_ok_def)
  have ok: "fib_ok tid s co" "img_ok s im w' co k"
    using inv w(2,3) co E by (auto simp: inv_def)
  have k: "k < n_slots s" "m_ctxInitialized co" using ok(1) co(2) by (simp_all add: fib_ok_def)
  note B = slot_bounds [OF sl k(1)]
  have p: "lo s k \<le> sp co" "sp co \<le> esp s k" using ok(2) by (simp_all add: img_ok_def)
  have at: "fiber_at s w' = co" using w(3) by (simp add: fiber_at_def)
  let ?c = "co\<lparr>m_stackSnapshot := read_bytes (mem s) (sp co) (hi s k - sp co)\<rparr>"
  let ?s = "set_fiber w' ?c s"
  have "t_fiber s \<noteq> Some w'" using t w(3) co(1) at by auto
  then have r: "save_owner marker s f k = Inr ?s"
    using w co k(2) at snapshot_from_ok [OF sl k(1), of "GetContextStackPointer (m_ctx co)" w'] p B(2)
    by (simp add: save_owner_def lock_owner_def saveSharedStackSnapshot_def Let_def sp_def)
  have ss: "same_slots s ?s" by (simp add: same_slots_def)
  have z: "zeros ?s j = zeros s j" for j by (simp add: zeros_def esp_def)
  have snap: "length (m_stackSnapshot ?c) = hi s k - sp ?c \<and>
      (\<forall>x. sp ?c \<le> x \<and> x < esp s k + 8 \<longrightarrow> m_stackSnapshot ?c ! (x - sp ?c) = im w' x)"
  proof (intro conjI allI impI)
    fix x assume x: "sp ?c \<le> x \<and> x < esp s k + 8"
    then have "mem s x = im w' x" using ok(2) w(1) by (simp add: img_ok_def sp_def)
    moreover have "read_bytes (mem s) (sp co) (hi s k - sp co) ! (x - sp co) = mem s x"
      using x B(2) nth_read [of "x - sp co" "hi s k - sp co" "mem s" "sp co"]
      by (simp add: sp_def less_diff_conv2)
    ultimately show "m_stackSnapshot ?c ! (x - sp ?c) = im w' x" by (simp add: sp_def)
  qed (simp add: sp_def)
  have i: "inv tid ?s im E" unfolding inv_def
  proof (intro conjI allI impI)
    show "slots_ok ?s" using sl by (simp add: slots_ok_def hi_def lo_def)
    show "pools_ok ?s" using inv by (simp add: inv_def pools_ok_def)
    show "owners_ok ?s" unfolding owners_ok_def
    proof (intro allI impI)
      fix j g cg assume g: "slot_owner (slots ?s j) = Some g" "fibers ?s g = Some cg"
      have "\<exists>cg'. fibers s g = Some cg' \<and> m_useSharedStack cg' = m_useSharedStack cg \<and>
          m_sharedStackSlot cg' = m_sharedStackSlot cg"
        using g(2) w(3) by (cases "g = w'") auto
      with ow g(1) show "m_useSharedStack cg \<and> m_sharedStackSlot cg = Some j"
        unfolding owners_ok_def by (metis set_fiber_simps(2))
    qed
    fix g cg assume g: "fibers ?s g = Some cg" "m_useSharedStack cg"
    show "fib_ok tid ?s cg"
    proof (cases "g = w'")
      case True
      with g ok(1) co(2) show ?thesis by (auto simp: fib_ok_def z split: option.splits)
    next
      case False
      with g inv have "fib_ok tid s cg" by (auto simp: inv_def)
      then show ?thesis by (rule fib_ok_frame [OF _ ss]) (simp add: z)
    qed
    fix j assume j: "m_sharedStackSlot cg = Some j" "g \<notin> E"
    show "img_ok ?s im g cg j"
    proof (cases "g = w'")
      case True
      with g j co ok(2) w(1) show ?thesis
        by (auto simp: img_ok_def split: if_splits)
    next
      case False
      with g j inv have "img_ok s im g cg j" "fib_ok tid s cg" by (auto simp: inv_def)
      then show ?thesis using j(1) by (intro img_ok_frame [OF _ ss]) (auto simp: fib_ok_def)
    qed
  qed
  show ?thesis by (rule that [OF r i]) (use w f snap in \<open>auto simp: sp_def\<close>)
qed

lemma restore_ok:
  assumes sl: "slots_ok s" and k: "k < n_slots s" and f: "fibers s f = Some c" "m_useSharedStack c"
      "m_sharedStackSlot c = Some k"
    and p: "lo s k \<le> p" "p \<le> hi s k" and len: "m_stackSnapshot c = [] \<or> length (m_stackSnapshot c) = hi s k - p"
  shows "restoreSharedStackSnapshot s f = Inr (if m_stackSnapshot c = [] then s
    else s\<lparr>mem := write_bytes p (m_stackSnapshot c) (mem s)\<rparr>)"
proof (cases "m_stackSnapshot c = []")
  case False
  with len have len: "length (m_stackSnapshot c) = hi s k - p" by simp
  note B = slot_bounds [OF sl k]
  let ?t = "slot_stack (slots s k) + slot_size (slots s k)"
  have le: "hi s k - p \<le> hi s k" by simp
  have u: "unat (of_nat (hi s k - p) :: u64) = hi s k - p" using B(3) by (simp add: unat_of_nat)
  then have "(of_nat (hi s k - p) :: u64) \<le> ?t" using B(4) by (simp add: word_le_nat_alt)
  then have "unat (?t - of_nat (hi s k - p)) = p" using u B(4) p by (simp add: unat_sub)
  moreover have "slot_stack (slots s k) \<noteq> 0" using B(5) by (auto simp: lo_def)
  moreover have "hi s k - p \<le> unat (slot_size (slots s k))" using p by (simp add: hi_def)
  ultimately show ?thesis using f len False
    by (simp add: restoreSharedStackSnapshot_def fiber_at_def Let_def)
qed (use f in \<open>simp add: restoreSharedStackSnapshot_def fiber_at_def Let_def\<close>)

lemma take_over_ok:
  assumes inv: "inv tid s im E" and f: "fibers s f = Some c" "m_useSharedStack c" "m_sharedStackSlot c = Some k"
    and E: "E \<subseteq> {f}" and new: "f \<in> E \<Longrightarrow> m_stackSnapshot c = []"
    and old: "\<And>w cw. slot_owner (slots s k) = Some w \<Longrightarrow> w \<noteq> f \<Longrightarrow> fibers s w = Some cw \<Longrightarrow>
      length (m_stackSnapshot cw) = hi s k - sp cw \<and>
      (\<forall>x. sp cw \<le> x \<and> x < esp s k + 8 \<longrightarrow> m_stackSnapshot cw ! (x - sp cw) = im w x)"
    and own: "owner = lock_owner s k"
  obtains s' where "take_over owner s f k = Inr s'" "inv tid s' im {f}" "fibers s' = fibers s"
    "slot_owner (slots s' k) = Some f" "f \<notin> E \<longrightarrow> (\<forall>x. sp c \<le> x \<and> x < esp s k + 8 \<longrightarrow> mem s' x = im f x)"
    "\<And>x. \<not> (lo s k \<le> x \<and> x < hi s k) \<Longrightarrow> mem s' x = mem s x"
proof -
  have sl: "slots_ok s" and po: "pools_ok s" and ow: "owners_ok s" using inv by (simp_all add: inv_def)
  have fo: "fib_ok tid s c" and im: "f \<notin> E \<longrightarrow> img_ok s im f c k" using inv f by (auto simp: inv_def)
  have k: "k < n_slots s" and zk: "zeros s k" using fo f(3) by (simp_all add: fib_ok_def)
  note B = slot_bounds [OF sl k]
  have weaken: "inv tid s im {f}" using inv E by (auto simp: inv_def)
  show ?thesis
  proof (cases "slot_owner (slots s k) = Some f")
    case True
    then have "owner = Some f" using f(1) by (simp add: own lock_owner_def)
    then have "take_over owner s f k = Inr s" by (simp add: take_over_def)
    then show ?thesis using True im weaken by (intro that [of s]) (auto simp: img_ok_def)
  next
    case False
    then have no: "owner \<noteq> Some f" by (auto simp: own lock_owner_def split: option.splits if_splits)
    let ?b = "m_stackSnapshot c"
    have snap: "?b = [] \<or> lo s k \<le> sp c \<and> sp c \<le> esp s k \<and> length ?b = hi s k - sp c"
      using im new False by (auto simp: img_ok_def)
    define s1 where "s1 = (if ?b = [] then s else s\<lparr>mem := write_bytes (sp c) ?b (mem s)\<rparr>)"
    have r: "restoreSharedStackSnapshot s f = Inr s1"
    proof (cases "?b = []")
      case True
      then show ?thesis using restore_ok [OF sl k f, of "lo s k"] by (simp add: s1_def hi_def)
    next
      case False
      with snap B(2) restore_ok [OF sl k f, of "sp c"] show ?thesis by (simp add: s1_def)
    qed
    define t where "t = s1\<lparr>slots := (slots s1)(k := (slots s1 k)\<lparr>slot_owner := Some f\<rparr>)\<rparr>"
    have fr: "slots s1 = slots s" "fibers s1 = fibers s" "n_slots s1 = n_slots s"
      "t_shared_stack_pools s1 = t_shared_stack_pools s" by (simp_all add: s1_def)
    have tf: "fibers t = fibers s" "n_slots t = n_slots s"
      "t_shared_stack_pools t = t_shared_stack_pools s" "mem t = mem s1"
      "\<And>j. slot_size (slots t j) = slot_size (slots s j)" "\<And>j. slot_stack (slots t j) = slot_stack (slots s j)"
      by (simp_all add: t_def fr)
    have to: "take_over owner s f k = Inr t" using no r by (simp add: take_over_def t_def)
    have mout: "mem t x = mem s x" if "\<not> (lo s k \<le> x \<and> x < hi s k)" for x
      using that snap B(2) by (auto simp: tf s1_def write_bytes_def)
    have adr: "lo t j = lo s j" "hi t j = hi s j" "esp t j = esp s j" for j
      by (simp_all add: lo_def hi_def esp_def tf)
    have ownj: "slot_owner (slots t j) = (if j = k then Some f else slot_owner (slots s j))" for j
      by (simp add: t_def fr)
    have img: "\<forall>x. sp c \<le> x \<and> x < esp s k + 8 \<longrightarrow> mem t x = im f x" if "f \<notin> E"
    proof (cases "?b = []")
      case True
      with im that False have "sp c = esp s k" using B(2) by (auto simp: img_ok_def)
      with True im that zk show ?thesis by (auto simp: tf s1_def zeros_def img_ok_def)
    next
      case ne: False
      with snap im that False B(2) show ?thesis by (auto simp: tf s1_def write_bytes_def img_ok_def)
    qed
    have zf: "zeros t j" if "zeros s j" "j < n_slots s" for j
    proof (cases "j = k")
      case True
      show ?thesis
      proof (cases "?b = []")
        case True
        with that(1) show ?thesis by (simp add: zeros_def tf s1_def adr)
      next
        case ne: False
        with new have "f \<notin> E" by blast
        with img im True snap ne show ?thesis by (auto simp: zeros_def adr img_ok_def)
      qed
    next
      case False
      with sl that(2) k have d: "hi s j \<le> lo s k \<or> hi s k \<le> lo s j" by (simp add: slots_ok_def)
      note Bj = slot_bounds [OF sl that(2)]
      have "mem t x = mem s x" if "esp s j \<le> x" "x < esp s j + 8" for x
        by (rule mout) (use that d Bj(1,2) in linarith)
      with that(1) show ?thesis by (simp add: zeros_def adr)
    qed
    have "inv tid t im {f}" unfolding inv_def
    proof (intro conjI allI impI)
      show "slots_ok t" using slots_ok_cong [of t s] sl by (simp add: tf)
      show "pools_ok t" using po by (simp add: pools_ok_def tf)
      show "owners_ok t" using ow f by (auto simp: owners_ok_def ownj tf)
      fix g cg assume g: "fibers t g = Some cg" "m_useSharedStack cg"
      then have go: "fib_ok tid s cg" using inv tf(1) by (auto simp: inv_def)
      then show "fib_ok tid t cg"
        using zf by (auto simp: fib_ok_def tf split: option.splits)
      fix j assume j: "m_sharedStackSlot cg = Some j" "g \<notin> {f}"
      have jn: "j < n_slots s" using go j(1) by (simp add: fib_ok_def)
      have gi: "img_ok s im g cg j" using inv g j E tf(1) by (auto simp: inv_def)
      show "img_ok t im g cg j"
      proof (cases "j = k")
        case True
        with gi old [of g cg] g(1) [unfolded tf(1)] j(2) show ?thesis
          by (auto simp: img_ok_def adr ownj split: if_splits)
      next
        case False
        with sl jn k have d: "hi s j \<le> lo s k \<or> hi s k \<le> lo s j" by (simp add: slots_ok_def)
        note Bj = slot_bounds [OF sl jn]
        have "mem t x = mem s x" if "sp cg \<le> x" "x < esp s j + 8" for x
          by (rule mout) (use that d Bj(1,2) gi in \<open>auto simp: img_ok_def\<close>)
        with gi False show ?thesis by (auto simp: img_ok_def adr ownj)
      qed
    qed
    then show ?thesis using that [OF to] img mout ownj [of k] tf(1) by simp
  qed
qed

section \<open>A first slot\<close>

lemma unat_ucast_u32_u64: "unat (ucast (x :: u32) :: u64) = unat x"
proof -
  have "unat x < 2 ^ 32" using unsigned_less [of x] by simp
  then show ?thesis by (simp add: unsigned_ucast_eq take_bit_nat_eq_self)
qed

lemma ucast_u64_u32: "(ucast (ucast (x :: u32) :: u64) :: u32) = x"
  by (rule bit_word_eqI) (simp add: bit_ucast_iff)

lemma pool_ok:
  assumes po: "pools_ok s" and get: "GetSharedStackPool blocks sz s = Inr (s1, p)" and acq: "acquireSlot p = Inr (p1, k)"
  shows "same_slots s s1" and "k < n_slots s1" and "slot_size (slots s1 k) = sz" and "fibers s1 = fibers s"
    and "mem s1 = mem s" and "t_fiber s1 = t_fiber s"
    and "pools_ok (s1\<lparr>t_shared_stack_pools := (t_shared_stack_pools s1)(sz \<mapsto> p1)\<rparr>)"
    and "\<And>j. \<not> j < n_slots s \<Longrightarrow> j < n_slots s1 \<Longrightarrow> slot_owner (slots s1 j) = None"
    and "\<And>j. j \<ge> n_slots s1 \<Longrightarrow> slots s1 j = slots s j"
proof -
  have a: "m_slots p1 = m_slots p" "k \<in> set (m_slots p)"
    using acq by (auto simp: acquireSlot_def split: if_splits)
  have G: "same_slots s s1 \<and> fibers s1 = fibers s \<and> mem s1 = mem s \<and> t_fiber s1 = t_fiber s \<and>
    m_slots p \<noteq> [] \<and> (\<forall>j \<in> set (m_slots p). j < n_slots s1 \<and> slot_size (slots s1 j) = sz) \<and> pools_ok s1 \<and>
    (\<forall>j. \<not> j < n_slots s \<and> j < n_slots s1 \<longrightarrow> slot_owner (slots s1 j) = None) \<and>
    (\<forall>j \<ge> n_slots s1. slots s1 j = slots s j)"
  proof (cases "t_shared_stack_pools s sz")
    case (Some q)
    with get po show ?thesis by (auto simp: GetSharedStackPool_def pools_ok_def same_slots_def)
  next
    case None
    let ?n = "unat (if s_shared_stack_slot_count s = 0 then 1 else s_shared_stack_slot_count s)"
    have n: "0 < ?n" by (simp add: unat_gt_0)
    let ?ids = "[n_slots s..<n_slots s + ?n]"
    let ?t = "s\<lparr>slots := (\<lambda>k. if k \<in> set ?ids
        then \<lparr>slot_stack = blocks k, slot_size = sz, slot_owner = None\<rparr> else slots s k),
      n_slots := n_slots s + ?n\<rparr>"
    have e: "s1 = ?t\<lparr>t_shared_stack_pools := (t_shared_stack_pools s)(sz \<mapsto> p)\<rparr>" "m_slots p = ?ids"
      using get None by (auto simp: GetSharedStackPool_def SharedStackPool_ctor_def Let_def split: if_splits)
    have q: "m_slots q \<noteq> [] \<and> (\<forall>k \<in> set (m_slots q). k < n_slots s1 \<and> slot_size (slots s1 k) = sz')"
      if "t_shared_stack_pools s1 sz' = Some q" for sz' q
    proof (cases "sz' = sz")
      case True
      with that have "q = p" by (simp add: e(1))
      with True n show ?thesis by (simp add: e)
    next
      case False
      with that have q: "t_shared_stack_pools s sz' = Some q" by (simp add: e(1))
      have "k < n_slots s \<and> slot_size (slots s k) = sz'" if "k \<in> set (m_slots q)" for k
        using po q that by (auto simp: pools_ok_def)
      moreover have "m_slots q \<noteq> []" using po q by (auto simp: pools_ok_def)
      ultimately show ?thesis by (fastforce simp: e(1))
    qed
    have "pools_ok s1" unfolding pools_ok_def using q by blast
    then show ?thesis using n by (auto simp: e same_slots_def)
  qed
  then show "same_slots s s1" "k < n_slots s1" "slot_size (slots s1 k) = sz" "fibers s1 = fibers s"
    "mem s1 = mem s" "t_fiber s1 = t_fiber s"
    "\<And>j. \<not> j < n_slots s \<Longrightarrow> j < n_slots s1 \<Longrightarrow> slot_owner (slots s1 j) = None"
    "\<And>j. j \<ge> n_slots s1 \<Longrightarrow> slots s1 j = slots s j"
    using a(2) by blast+
  show "pools_ok (s1\<lparr>t_shared_stack_pools := (t_shared_stack_pools s1)(sz \<mapsto> p1)\<rparr>)"
    using G a(1) by (auto simp: pools_ok_def)
qed

lemma ensure_slot_new:
  assumes inv: "inv tid s im {}" and f: "fibers s f = Some c" "m_useSharedStack c" "m_sharedStackSlot c = None"
    and es: "ensure_slot blocks s f = Inr (s1, k)" and sl1: "slots_ok s1"
  obtains c1 where "fibers s1 = (fibers s)(f \<mapsto> c1)" "same_slots s s1" "k < n_slots s1" "mem s1 = mem s"
    "t_fiber s1 = t_fiber s" "pools_ok s1" "owners_ok s1"
    "c1 = use_slot k s1 (c\<lparr>m_sharedStackSlot := Some k\<rparr>)" "24 \<le> unat (m_stacksize c1)"
    "ucast (m_stacksize c1) = slot_size (slots s1 k)"
proof -
  let ?sz = "ucast (m_stacksize c) :: u64"
  have at: "fiber_at s f = c" using f(1) by (simp add: fiber_at_def)
  have po: "pools_ok s" and ow: "owners_ok s" and fo: "fib_ok tid s c" using inv f by (auto simp: inv_def)
  obtain s0 p p1 where g: "GetSharedStackPool blocks ?sz s = Inr (s0, p)" "acquireSlot p = Inr (p1, k)"
    and s1: "s1 = set_fiber f (use_slot k s0 (c\<lparr>m_sharedStackSlot := Some k\<rparr>))
      (s0\<lparr>t_shared_stack_pools := (t_shared_stack_pools s0)(?sz \<mapsto> p1)\<rparr>)"
    using es f(3) at pool_ok(4) [OF po]
    by (auto simp: ensure_slot_def Let_def use_slot_def fiber_at_def split: sum.splits)
  note P = pool_ok [OF po g]
  let ?c1 = "use_slot k s1 (c\<lparr>m_sharedStackSlot := Some k\<rparr>)"
  have u: "unat ?sz = unat (m_stacksize c)" "(ucast ?sz :: u32) = m_stacksize c"
    by (rule unat_ucast_u32_u64, rule ucast_u64_u32)
  have "m_sharedStackSlot c = Some j \<Longrightarrow> False" for j using f(3) by simp
  have own: "owners_ok s1" unfolding owners_ok_def
  proof (intro allI impI)
    fix j g cg assume j: "slot_owner (slots s1 j) = Some g" "fibers s1 g = Some cg"
    have "slot_owner (slots s j) = Some g"
    proof (cases "j < n_slots s \<or> n_slots s0 \<le> j")
      case True
      then show ?thesis using j(1) P(1,9) by (auto simp: s1 same_slots_def)
    next
      case False
      with P(8) [of j] j(1) show ?thesis by (simp add: s1)
    qed
    moreover from this have "g \<noteq> f" using ow f by (auto simp: owners_ok_def)
    ultimately show "m_useSharedStack cg \<and> m_sharedStackSlot cg = Some j"
      using ow j(2) P(4) by (auto simp: s1 owners_ok_def)
  qed
  show ?thesis
  proof (rule that [of ?c1])
    show "pools_ok s1" using P(7) by (simp add: s1 pools_ok_def)
    show "24 \<le> unat (m_stacksize ?c1)" "ucast (m_stacksize ?c1) = slot_size (slots s1 k)"
      using fo f(3) P(3) u by (simp_all add: use_slot_def s1 fib_ok_def)
  qed (use P own in \<open>simp_all add: s1 use_slot_def same_slots_def\<close>)
qed

lemma ensure_ctx_new:
  assumes inv: "inv tid s im {}" and f: "fibers s f = Some c" "m_useSharedStack c" "m_sharedStackSlot c = None"
    and es: "ensure_slot blocks s f = Inr (s1, k)" and sl1: "slots_ok s1"
  obtains s2 c2 where "ensure_ctx entry s1 f k = Inr s2" "inv tid s2 im {f}" "fibers s2 = (fibers s)(f \<mapsto> c2)"
    "m_useSharedStack c2" "m_sharedStackSlot c2 = Some k" "m_stackSnapshot c2 = []" "t_fiber s2 = t_fiber s"
    "slots s2 = slots s1" "n_slots s2 = n_slots s1"
proof -
  obtain c1 where c1: "fibers s1 = (fibers s)(f \<mapsto> c1)" "same_slots s s1" "k < n_slots s1" "mem s1 = mem s"
    "t_fiber s1 = t_fiber s" "pools_ok s1" "owners_ok s1"
    "c1 = use_slot k s1 (c\<lparr>m_sharedStackSlot := Some k\<rparr>)" "24 \<le> unat (m_stacksize c1)"
    "ucast (m_stacksize c1) = slot_size (slots s1 k)"
    by (rule ensure_slot_new [OF assms])
  have fo: "fib_ok tid s c" using inv f by (auto simp: inv_def)
  note B = slot_bounds [OF sl1 c1(3)]
  have st: "m_stack c1 = slot_stack (slots s1 k)" "slot_stack (slots s1 k) \<noteq> 0"
    using c1(8) B(5) by (auto simp: use_slot_def lo_def)
  have nz: "m_stacksize c1 \<noteq> 0" "slot_size (slots s1 k) \<noteq> 0"
    using c1(9) sl1 c1(3) by (auto simp: slots_ok_def)
  have same: "use_slot k s1 c1 = c1" by (simp add: c1(8) use_slot_def)
  let ?e = "entry_sp (slot_stack (slots s1 k)) (slot_size (slots s1 k))"
  let ?c2 = "c1\<lparr>m_ctx := empty_FiberContext\<lparr>c_rsp := ?e, c_rip := entry\<rparr>, m_ctxInitialized := True\<rparr>"
  define s2 where "s2 = set_fiber f ?c2 (s1\<lparr>mem := write_bytes (esp s1 k) (replicate 8 0) (mem s1)\<rparr>)"
  have at: "fiber_at s1 f = c1" using c1(1) by (simp add: fiber_at_def)
  have r: "ensure_ctx entry s1 f k = Inr s2"
  proof -
    have i: "m_ctxInitialized c1 = False" using fo f(3) by (simp add: c1(8) use_slot_def fib_ok_def)
    have e: "set_fiber f c1 s1 = s1" using c1(1) by (simp add: set_fiber_def)
    show ?thesis
      using i st nz c1(10) InitFiberContextStack_eq [OF st(2) nz(2), of entry] at
      by (simp add: ensure_ctx_def initFiberContext_def Let_def same e s2_def esp_def)
  qed
  have s2f: "fibers s2 = (fibers s)(f \<mapsto> ?c2)" "slots s2 = slots s1" "n_slots s2 = n_slots s1"
    "t_fiber s2 = t_fiber s" "t_shared_stack_pools s2 = t_shared_stack_pools s1"
    by (simp_all add: s2_def c1)
  have m: "mem s2 x = (if esp s1 k \<le> x \<and> x < esp s1 k + 8 then 0 else mem s x)" for x
    by (auto simp: s2_def write_bytes_def c1(4) nth_replicate less_diff_conv2)
  have adr: "lo s2 j = lo s1 j" "hi s2 j = hi s1 j" "esp s2 j = esp s1 j" for j
    by (simp_all add: lo_def hi_def esp_def s2f)
  have ss: "same_slots s s2" using c1(2) by (simp add: same_slots_def s2f)
  have keep: "mem s2 x = mem s x"
    if j: "j < n_slots s" "zeros s j" "lo s j \<le> x" "x < hi s j" for j x
  proof (cases "j = k")
    case True
    then have "esp s1 k = esp s k" using j(1) same_slotsD(3) [OF c1(2), of k] by simp
    with j(2) True show ?thesis by (auto simp: m zeros_def)
  next
    case False
    note D = same_slotsD [OF c1(2) j(1)]
    have "hi s1 j \<le> lo s1 k \<or> hi s1 k \<le> lo s1 j"
      using sl1 D(5) c1(3) False by (simp add: slots_ok_def)
    then have "\<not> (esp s1 k \<le> x \<and> x < esp s1 k + 8)" using j(3,4) D B(1,2) by linarith
    then show ?thesis by (auto simp: m)
  qed
  have "inv tid s2 im {f}" unfolding inv_def
  proof (intro conjI allI impI)
    show "slots_ok s2" using sl1 slots_ok_cong [of s2 s1] by (simp add: s2f)
    show "pools_ok s2" using c1(6) by (simp add: pools_ok_def s2f)
    show "owners_ok s2" unfolding owners_ok_def
    proof (intro allI impI)
      fix j g cg assume j: "slot_owner (slots s2 j) = Some g" "fibers s2 g = Some cg"
      have "\<exists>c'. fibers s1 g = Some c' \<and> m_useSharedStack c' = m_useSharedStack cg \<and>
          m_sharedStackSlot c' = m_sharedStackSlot cg"
        using j(2) c1(1) by (auto simp: s2f(1) split: if_splits)
      with c1(7) j(1) show "m_useSharedStack cg \<and> m_sharedStackSlot cg = Some j"
        unfolding owners_ok_def s2f(2) by metis
    qed
    fix g cg assume g: "fibers s2 g = Some cg" "m_useSharedStack cg"
    show "fib_ok tid s2 cg"
    proof (cases "g = f")
      case True
      with g fo c1(3,8) show ?thesis
        by (auto simp: s2f fib_ok_def use_slot_def zeros_def m adr)
    next
      case False
      with g inv have go: "fib_ok tid s cg" by (auto simp: inv_def s2f)
      have sls: "slots_ok s" using inv by (simp add: inv_def)
      show ?thesis
      proof (rule fib_ok_frame [OF go ss])
        fix j assume j: "m_sharedStackSlot cg = Some j" "j < n_slots s" "zeros s j"
        note Bj = slot_bounds [OF sls j(2)]
        show "zeros s2 j" unfolding zeros_def
          using keep [OF j(2,3)] Bj(1,2) j(3) same_slotsD(3) [OF ss j(2)] by (auto simp: zeros_def)
      qed
    qed
    fix j assume j: "m_sharedStackSlot cg = Some j" "g \<notin> {f}"
    then have gi: "img_ok s im g cg j" "fib_ok tid s cg" using g inv by (auto simp: inv_def s2f)
    then have jn: "j < n_slots s" "zeros s j" using j(1) by (simp_all add: fib_ok_def)
    have sls: "slots_ok s" using inv by (simp add: inv_def)
    note Bj = slot_bounds [OF sls jn(1)]
    show "img_ok s2 im g cg j"
      by (rule img_ok_frame [OF gi(1) ss jn(1)])
        (rule keep [OF jn], use gi(1) Bj in \<open>auto simp: img_ok_def\<close>)
  qed
  then show ?thesis
    by (rule that [OF r _ s2f(1)])
      (use f s2f fo in \<open>simp_all add: c1(8) use_slot_def fib_ok_def\<close>)
qed
section \<open>The whole of prepareSharedStack\<close>

text \<open>What \<^verbatim>\<open>malloc\<close> owes when a pool has to be made: blocks that are slots.\<close>

definition malloc_ok :: "(nat \<Rightarrow> u64) \<Rightarrow> u64 \<Rightarrow> Stacks \<Rightarrow> bool" where
  "malloc_ok blocks sz s \<longleftrightarrow> t_shared_stack_pools s sz \<noteq> None \<or>
     (case SharedStackPool_ctor blocks (s_shared_stack_slot_count s) sz s of
        Inl _ \<Rightarrow> False | Inr (s1, p) \<Rightarrow> slots_ok s1)"

definition unshared :: "Stacks \<Rightarrow> bool" where
  "unshared s \<longleftrightarrow> (\<forall>w. t_fiber s = Some w \<longrightarrow> fibers s w \<noteq> None \<longrightarrow> \<not> m_useSharedStack (fiber_at s w))"

lemma slots_ok_pools [simp]:
  "slots_ok (s\<lparr>t_shared_stack_pools := P\<rparr>) = slots_ok s" "slots_ok (set_fiber f c s) = slots_ok s"
  by (rule slots_ok_cong; simp)+

lemma ensure_slot_total:
  assumes inv: "inv tid s im {}" and f: "fibers s f = Some c" "m_useSharedStack c" "m_sharedStackSlot c = None"
    and mal: "malloc_ok blocks (ucast (m_stacksize c)) s"
  obtains s1 k where "ensure_slot blocks s f = Inr (s1, k)" "slots_ok s1"
proof -
  let ?sz = "ucast (m_stacksize c) :: u64"
  have at: "fiber_at s f = c" using f(1) by (simp add: fiber_at_def)
  have po: "pools_ok s" and sl: "slots_ok s" using inv by (simp_all add: inv_def)
  obtain s0 p where g: "GetSharedStackPool blocks ?sz s = Inr (s0, p)" and s0: "slots_ok s0"
  proof (cases "t_shared_stack_pools s ?sz")
    case (Some p)
    then show thesis using that [of s p] sl by (simp add: GetSharedStackPool_def)
  next
    case None
    with mal obtain s1 p where "SharedStackPool_ctor blocks (s_shared_stack_slot_count s) ?sz s = Inr (s1, p)"
      "slots_ok s1" by (auto simp: malloc_ok_def split: sum.splits)
    with None show thesis using that by (simp add: GetSharedStackPool_def)
  qed
  have "m_slots p \<noteq> []"
  proof (cases "t_shared_stack_pools s ?sz")
    case (Some q)
    with g po show ?thesis by (auto simp: GetSharedStackPool_def pools_ok_def)
  next
    case None
    with g show ?thesis
      by (auto simp: GetSharedStackPool_def SharedStackPool_ctor_def Let_def unat_eq_zero split: if_splits)
  qed
  then obtain p1 k where "acquireSlot p = Inr (p1, k)" by (simp add: acquireSlot_def)
  with g f(3) at
  have "ensure_slot blocks s f = Inr (set_fiber f (use_slot k (s0\<lparr>t_shared_stack_pools :=
      (t_shared_stack_pools s0)(?sz \<mapsto> p1)\<rparr>) ((fiber_at s0 f)\<lparr>m_sharedStackSlot := Some k\<rparr>))
    (s0\<lparr>t_shared_stack_pools := (t_shared_stack_pools s0)(?sz \<mapsto> p1)\<rparr>), k)"
    by (simp add: ensure_slot_def Let_def fiber_at_def)
  then show thesis by (rule that) (simp add: s0)
qed

lemma malloc_ok_set_fiber: "malloc_ok blocks sz (set_fiber f c s) = malloc_ok blocks sz s"
proof -
  have "slots_ok ((set_fiber f c s)\<lparr>slots := A, n_slots := n\<rparr>) = slots_ok (s\<lparr>slots := A, n_slots := n\<rparr>)" for A n
    by (rule slots_ok_cong) simp_all
  moreover have "s_shared_stack_slot_count (set_fiber f c s) = s_shared_stack_slot_count s"
    by (simp add: set_fiber_def)
  ultimately show ?thesis
    by (simp add: malloc_ok_def SharedStackPool_ctor_def Let_def cong: if_cong)
qed

lemma rebind_inv:
  assumes inv: "inv tid s im {}" and f: "fibers s f = Some c"
  shows "inv tid (set_fiber f (c\<lparr>m_ownerThread := tid\<rparr>) s) im {}"
proof -
  let ?s = "set_fiber f (c\<lparr>m_ownerThread := tid\<rparr>) s"
  have old: "\<exists>c'. fibers s g = Some c' \<and> (cg = c' \<or> cg = c'\<lparr>m_ownerThread := tid\<rparr>)"
    if "fibers ?s g = Some cg" for g cg
    using that f by (cases "g = f") auto
  have z: "zeros ?s j = zeros s j" for j by (simp add: zeros_def)
  show ?thesis unfolding inv_def
  proof (intro conjI allI impI)
    show "slots_ok ?s" "pools_ok ?s" using inv by (simp_all add: inv_def pools_ok_def)
    show "owners_ok ?s" unfolding owners_ok_def
    proof (intro allI impI)
      fix j g cg assume j: "slot_owner (slots ?s j) = Some g" "fibers ?s g = Some cg"
      from old [OF j(2)] j(1) inv show "m_useSharedStack cg \<and> m_sharedStackSlot cg = Some j"
        by (auto simp: inv_def owners_ok_def)
    qed
    fix g cg assume g: "fibers ?s g = Some cg" "m_useSharedStack cg"
    obtain c' where c': "fibers s g = Some c'" "cg = c' \<or> cg = c'\<lparr>m_ownerThread := tid\<rparr>"
      using old [OF g(1)] by blast
    have ok: "fib_ok tid s c'" using inv c' g(2) by (auto simp: inv_def)
    with c'(2) show "fib_ok tid ?s cg" by (auto simp: fib_ok_def z split: option.splits)
    fix j assume j: "m_sharedStackSlot cg = Some j" "g \<notin> {}"
    have "img_ok s im g c' j" using inv c' g(2) j by (auto simp: inv_def)
    with c'(2) show "img_ok ?s im g cg j" by (auto simp: img_ok_def split: if_splits)
  qed
qed

lemma bind_ok:
  assumes "inv tid s im {}" and "fibers s f = Some c" and "m_useSharedStack c"
  shows "bind_thread tid (fiber_at s f) = Inr (c\<lparr>m_ownerThread := tid\<rparr>)"
proof -
  have "m_ownerThread c \<in> {-1, tid}" using assms by (auto simp: inv_def fib_ok_def)
  then show ?thesis using assms(2) by (auto simp: bind_thread_def fiber_at_def)
qed

lemma prepare_ok:
  assumes inv: "inv tid s im {}" and f: "fibers s f = Some c" "m_useSharedStack c" and t: "unshared s"
    and mal: "m_sharedStackSlot c = None \<longrightarrow> malloc_ok blocks (ucast (m_stacksize c)) s"
  obtains s' c' k where "prepareSharedStack blocks entry tid marker s f = Inr s'" "inv tid s' im {f}"
    "fibers s' f = Some c'" "m_useSharedStack c'" "m_sharedStackSlot c' = Some k" "slot_owner (slots s' k) = Some f"
    "\<forall>j. m_sharedStackSlot c = Some j \<longrightarrow> k = j \<and> m_ctx c' = m_ctx c \<and>
       (\<forall>x. sp c \<le> x \<and> x < esp s j + 8 \<longrightarrow> mem s' x = im f x)"
proof -
  let ?c = "c\<lparr>m_ownerThread := tid\<rparr>" and ?s = "set_fiber f (c\<lparr>m_ownerThread := tid\<rparr>) s"
  have use: "m_useSharedStack (fiber_at s f)" using f by (simp add: fiber_at_def)
  note b = bind_ok [OF inv f]
  have i: "inv tid ?s im {}" by (rule rebind_inv [OF inv f(1)])
  have fs: "fibers ?s f = Some ?c" "m_useSharedStack ?c" using f(2) by simp_all
  have ts: "\<forall>w. t_fiber ?s = Some w \<longrightarrow> fibers ?s w \<noteq> None \<longrightarrow> \<not> m_useSharedStack (fiber_at ?s w)"
    using t f by (auto simp: unshared_def fiber_at_def)
  show thesis
  proof (cases "m_sharedStackSlot c")
    case (Some j)
    then have sl: "m_sharedStackSlot ?c = Some j" by simp
    have "fib_ok tid ?s ?c" using i fs unfolding inv_def by blast
    then have ci: "m_ctxInitialized c" using Some by (simp add: fib_ok_def)
    obtain s3 where s3: "save_owner marker ?s f j = Inr s3" "inv tid s3 im {}" "fibers s3 f = Some ?c"
      "slots s3 = slots ?s" "n_slots s3 = n_slots ?s" "mem s3 = mem ?s"
      "\<And>w co. slot_owner (slots ?s j) = Some w \<Longrightarrow> w \<noteq> f \<Longrightarrow> fibers s3 w = Some co \<Longrightarrow>
        length (m_stackSnapshot co) = hi ?s j - sp co \<and>
        (\<forall>x. sp co \<le> x \<and> x < esp ?s j + 8 \<longrightarrow> m_stackSnapshot co ! (x - sp co) = im w x)"
      "\<And>g. (fibers s3 g = None) = (fibers ?s g = None)"
      by (rule save_owner_ok [OF i fs sl _ ts]) (simp, blast)
    have lo3: "lock_owner ?s j = lock_owner s3 j" using s3(8) by (simp add: lock_owner_def s3(4) split: option.splits)
    have adr: "hi s3 j = hi s j" "esp s3 j = esp s j" "lo s3 j = lo s j"
      by (simp_all add: hi_def lo_def esp_def s3(4))
    obtain s' where s': "take_over (lock_owner ?s j) s3 f j = Inr s'" "inv tid s' im {f}" "fibers s' = fibers s3"
      "slot_owner (slots s' j) = Some f" "\<forall>x. sp ?c \<le> x \<and> x < esp s3 j + 8 \<longrightarrow> mem s' x = im f x"
      by (rule take_over_ok [OF s3(2,3) fs(2) sl _ _ _ lo3]) (use s3(4,7) adr in \<open>auto simp: \<close>)
    have r: "prepareSharedStack blocks entry tid marker s f = Inr s'"
      using use b Some ci s3(1) s'(1)
      by (simp add: prepareSharedStack_def ensure_slot_def ensure_ctx_def)
    show thesis by (rule that [OF r s'(2), of ?c j]) (use s' s3 f Some adr in auto)
  next
    case None
    then have sl: "m_sharedStackSlot ?c = None" by simp
    have "malloc_ok blocks (ucast (m_stacksize ?c)) ?s"
      using mal None by (simp add: malloc_ok_set_fiber)
    then obtain s1 k where s1: "ensure_slot blocks ?s f = Inr (s1, k)" "slots_ok s1"
      by (rule ensure_slot_total [OF i fs sl])
    obtain s2 c2 where s2: "ensure_ctx entry s1 f k = Inr s2" "inv tid s2 im {f}" "fibers s2 = (fibers ?s)(f \<mapsto> c2)"
      "m_useSharedStack c2" "m_sharedStackSlot c2 = Some k" "m_stackSnapshot c2 = []" "t_fiber s2 = t_fiber ?s"
      by (rule ensure_ctx_new [OF i fs sl s1])
    have f2: "fibers s2 f = Some c2" using s2(3) by simp
    have "\<forall>w. t_fiber s2 = Some w \<longrightarrow> fibers s2 w \<noteq> None \<longrightarrow> \<not> m_useSharedStack (fiber_at s2 w)"
      using ts s2(3,7) t f by (auto simp: fiber_at_def unshared_def split: if_splits)
    then obtain s3 where s3: "save_owner marker s2 f k = Inr s3" "inv tid s3 im {f}" "fibers s3 f = Some c2"
      "slots s3 = slots s2" "n_slots s3 = n_slots s2" "mem s3 = mem s2"
      "\<And>w co. slot_owner (slots s2 k) = Some w \<Longrightarrow> w \<noteq> f \<Longrightarrow> fibers s3 w = Some co \<Longrightarrow>
        length (m_stackSnapshot co) = hi s2 k - sp co \<and>
        (\<forall>x. sp co \<le> x \<and> x < esp s2 k + 8 \<longrightarrow> m_stackSnapshot co ! (x - sp co) = im w x)"
      "\<And>g. (fibers s3 g = None) = (fibers s2 g = None)"
      by (rule save_owner_ok [OF s2(2) f2 s2(4,5) subset_refl]) blast
    have lo3: "lock_owner s2 k = lock_owner s3 k" using s3(8) by (simp add: lock_owner_def s3(4) split: option.splits)
    have adr: "hi s3 k = hi s2 k" "esp s3 k = esp s2 k"
      by (simp_all add: hi_def lo_def esp_def s3(4))
    obtain s' where s': "take_over (lock_owner s2 k) s3 f k = Inr s'" "inv tid s' im {f}" "fibers s' = fibers s3"
      "slot_owner (slots s' k) = Some f"
      by (rule take_over_ok [OF s3(2,3) s2(4,5) subset_refl _ _ lo3]) (use s2(6) s3(4,7) adr in \<open>auto simp: \<close>)
    have r: "prepareSharedStack blocks entry tid marker s f = Inr s'"
      using use b s1(1) s2(1) s3(1) s'(1) by (simp add: prepareSharedStack_def)
    show thesis by (rule that [OF r s'(2), of c2 k]) (use s' s3 s2 None in auto)
  qed
qed
section \<open>The life of the fibers\<close>

lemma new_fiber_ok: "24 \<le> unat (m_stacksize (new_Fiber i cb sz r u)) \<Longrightarrow> fib_ok tid s (new_Fiber i cb sz r u)"
  by (simp add: fib_ok_def new_Fiber_def)

lemma create_inv:
  assumes inv: "inv tid s im E" and fresh: "fibers s f = None" "\<forall>k. slot_owner (slots s k) \<noteq> Some f"
    and sz: "24 \<le> unat (m_stacksize (new_Fiber i cb sz r True))"
  shows "inv tid (set_fiber f (new_Fiber i cb sz r True) s) im E"
proof -
  let ?c = "new_Fiber i cb sz r True"
  let ?s = "set_fiber f ?c s"
  have ss: "same_slots s ?s" by (simp add: same_slots_def)
  show ?thesis unfolding inv_def
  proof (intro conjI allI impI)
    show "slots_ok ?s" "pools_ok ?s" using inv by (simp_all add: inv_def pools_ok_def)
    show "owners_ok ?s" using inv fresh by (auto simp: inv_def owners_ok_def)
    fix g c assume g: "fibers ?s g = Some c" "m_useSharedStack c"
    show "fib_ok tid ?s c"
    proof (cases "g = f")
      case False
      with g inv have "fib_ok tid s c" by (auto simp: inv_def)
      then show ?thesis by (rule fib_ok_frame [OF _ ss]) (simp add: zeros_def)
    qed (use g new_fiber_ok [OF sz] in simp)
    fix j assume j: "m_sharedStackSlot c = Some j" "g \<notin> E"
    then have "g \<noteq> f" using g by (auto simp: new_Fiber_def)
    with g j inv_img [OF inv, of g c j] have "img_ok s im g c j" "j < n_slots s" by auto
    then show "img_ok ?s im g c j" by (rule img_ok_frame [OF _ ss]) simp
  qed
qed

text \<open>What else may happen: other memory, other fibers, fibers that go away.\<close>

definition elsewhere :: "Stacks \<Rightarrow> Stacks \<Rightarrow> bool" where
  "elsewhere s s' \<longleftrightarrow> slots s' = slots s \<and> n_slots s' = n_slots s \<and>
     t_shared_stack_pools s' = t_shared_stack_pools s \<and>
     (\<forall>k < n_slots s. \<forall>x. lo s k \<le> x \<and> x < hi s k \<longrightarrow> mem s' x = mem s x) \<and>
     (\<forall>f c. fibers s' f = Some c \<longrightarrow> (if m_useSharedStack c then fibers s f = Some c
        else \<forall>k. slot_owner (slots s k) \<noteq> Some f))"

lemma elsewhere_inv:
  assumes inv: "inv tid s im E" and el: "elsewhere s s'"
  shows "inv tid s' im E"
proof -
  have ss: "same_slots s s'" using el by (simp add: elsewhere_def same_slots_def)
  have sl: "slots_ok s" using inv by (simp add: inv_def)
  have m: "mem s' x = mem s x" if "k < n_slots s" "lo s k \<le> x" "x < hi s k" for k x
    using el that by (simp add: elsewhere_def)
  have old: "if m_useSharedStack c then fibers s f = Some c else \<forall>k. slot_owner (slots s k) \<noteq> Some f"
    if "fibers s' f = Some c" for f c
    using el that unfolding elsewhere_def by blast
  have sls: "slots s' = slots s" using el by (simp add: elsewhere_def)
  show ?thesis unfolding inv_def
  proof (intro conjI allI impI)
    show "slots_ok s'" using sl slots_ok_cong [of s' s] el by (simp add: elsewhere_def)
    show "pools_ok s'" using inv el by (simp add: inv_def pools_ok_def elsewhere_def)
    show "owners_ok s'" unfolding owners_ok_def
    proof (intro allI impI)
      fix k w c assume w: "slot_owner (slots s' k) = Some w" "fibers s' w = Some c"
      with old [OF w(2)] have "fibers s w = Some c" by (auto simp: sls split: if_splits)
      with w(1) inv show "m_useSharedStack c \<and> m_sharedStackSlot c = Some k"
        unfolding inv_def owners_ok_def sls by blast
    qed
    fix f c assume f: "fibers s' f = Some c" "m_useSharedStack c"
    have fs: "fibers s f = Some c" using old [OF f(1)] f(2) by simp
    have ok: "fib_ok tid s c" by (rule inv_fib [OF inv fs f(2)])
    show "fib_ok tid s' c"
    proof (rule fib_ok_frame [OF ok ss])
      fix k assume k: "k < n_slots s" "zeros s k"
      note B = slot_bounds [OF sl k(1)]
      show "zeros s' k" unfolding zeros_def
        using m [OF k(1)] B(1,2) k(2) same_slotsD(3) [OF ss k(1)] by (auto simp: zeros_def)
    qed
    fix k assume k: "m_sharedStackSlot c = Some k" "f \<notin> E"
    have i: "img_ok s im f c k" and kn: "k < n_slots s" using inv_img [OF inv fs f(2) k] by simp_all
    note B = slot_bounds [OF sl kn]
    show "img_ok s' im f c k"
      by (rule img_ok_frame [OF i ss kn], rule m [OF kn]) (use i B in \<open>auto simp: img_ok_def\<close>)
  qed
qed
text \<open>A running fiber may write below its entry frame, and outside the slots.\<close>

definition own_writes :: "Stacks \<Rightarrow> nat \<Rightarrow> (nat \<Rightarrow> u8) \<Rightarrow> bool" where
  "own_writes s k m \<longleftrightarrow>
     (\<forall>j < n_slots s. j \<noteq> k \<longrightarrow> (\<forall>x. lo s j \<le> x \<and> x < hi s j \<longrightarrow> m x = mem s x)) \<and>
     (\<forall>x. esp s k \<le> x \<and> x < esp s k + 8 \<longrightarrow> m x = mem s x)"

lemma suspend_inv:
  assumes inv: "inv tid s im {f}" and f: "fibers s f = Some c" "m_useSharedStack c" "m_sharedStackSlot c = Some k"
      "slot_owner (slots s k) = Some f"
    and w: "own_writes s k m"
    and c': "c' = c\<lparr>m_ctx := ctx, m_state := st, f_cb := cb\<rparr>" and p: "lo s k \<le> sp c'" "sp c' \<le> esp s k"
  shows "inv tid ((set_fiber f c' s)\<lparr>mem := m\<rparr>) (im(f := m)) {}"
proof -
  define t where "t = (set_fiber f c' s)\<lparr>mem := m\<rparr>"
  have tf: "fibers t = (fibers s)(f \<mapsto> c')" "slots t = slots s" "n_slots t = n_slots s"
    "t_shared_stack_pools t = t_shared_stack_pools s" "mem t = m"
    by (simp_all add: t_def)
  have adr: "lo t j = lo s j" "hi t j = hi s j" "esp t j = esp s j" for j
    by (simp_all add: lo_def hi_def esp_def tf)
  have same: "m_useSharedStack c' = m_useSharedStack c" "m_sharedStackSlot c' = m_sharedStackSlot c"
    "m_ctxInitialized c' = m_ctxInitialized c" "m_stack c' = m_stack c" "m_stacksize c' = m_stacksize c"
    "m_ownerThread c' = m_ownerThread c" "m_stackSnapshot c' = m_stackSnapshot c" by (simp_all add: c')
  have sl: "slots_ok s" and ow: "owners_ok s" using inv by (simp_all add: inv_def)
  have ok: "fib_ok tid s c" by (rule inv_fib [OF inv f(1,2)])
  have kn: "k < n_slots s" and zk: "zeros s k" using ok f(3) by (simp_all add: fib_ok_def)
  have out: "m x = mem s x" if "j < n_slots s" "j \<noteq> k" "lo s j \<le> x" "x < hi s j" for j x
    using w that by (simp add: own_writes_def)
  have z: "zeros t j" if "zeros s j" "j < n_slots s" for j
  proof (cases "j = k")
    case True
    with that w show ?thesis by (auto simp: zeros_def adr tf own_writes_def)
  next
    case False
    note B = slot_bounds [OF sl that(2)]
    show ?thesis unfolding zeros_def using out [OF that(2) False] B(1,2) that(1)
      by (auto simp: zeros_def adr tf)
  qed
  have "inv tid t (im(f := m)) {}" unfolding inv_def
  proof (intro conjI allI impI)
    show "slots_ok t" using sl slots_ok_cong [of t s] by (simp add: tf)
    show "pools_ok t" using inv by (simp add: inv_def pools_ok_def tf)
    show "owners_ok t" unfolding owners_ok_def
    proof (intro allI impI)
      fix j g cg assume j: "slot_owner (slots t j) = Some g" "fibers t g = Some cg"
      then obtain c0 where "fibers s g = Some c0" "m_useSharedStack c0 = m_useSharedStack cg"
        "m_sharedStackSlot c0 = m_sharedStackSlot cg"
        using f same by (cases "g = f") (auto simp: tf)
      with ow j(1) show "m_useSharedStack cg \<and> m_sharedStackSlot cg = Some j"
        by (auto simp: owners_ok_def tf)
    qed
    fix g cg assume g: "fibers t g = Some cg" "m_useSharedStack cg"
    show "fib_ok tid t cg"
    proof (cases "g = f")
      case True
      with g(1) have e: "cg = c'" by (simp add: tf)
      show ?thesis unfolding e using ok f(3) z [OF zk kn] by (simp add: tf fib_ok_def same)
    next
      case False
      with g have "fib_ok tid s cg" using inv_fib [OF inv, of g cg] by (simp add: tf)
      with z show ?thesis by (auto simp: tf fib_ok_def split: option.splits)
    qed
    fix j assume j: "m_sharedStackSlot cg = Some j" "g \<notin> {}"
    show "img_ok t (im(f := m)) g cg j"
    proof (cases "g = f")
      case True
      with g(1) j f(3) same have e: "cg = c'" "j = k" by (auto simp: tf)
      show ?thesis using p f(4) w zk unfolding e True
        by (auto simp: img_ok_def adr tf own_writes_def zeros_def)
    next
      case False
      then have gs: "fibers s g = Some cg" using g(1) by (simp add: tf)
      have i: "img_ok s im g cg j" and jn: "j < n_slots s"
        using inv_img [OF inv gs g(2) j(1)] False by simp_all
      note B = slot_bounds [OF sl jn]
      have "m x = mem s x" if "slot_owner (slots s j) = Some g" "sp cg \<le> x" "x < esp s j + 8" for x
        by (rule out [OF jn]) (use that f(4) False i B in \<open>auto simp: img_ok_def\<close>)
      with i False show ?thesis by (auto simp: img_ok_def adr tf split: if_splits)
    qed
  qed
  then show ?thesis by (simp add: t_def)
qed

lemma ucast_u32_fits: "unat (x :: u64) < 2 ^ 32 \<Longrightarrow> (ucast (ucast x :: u32) :: u64) = x"
  by (simp add: word_unat_eq_iff unat_ucast_u32_u64 unsigned_ucast_eq unsigned_take_bit_eq
      take_bit_nat_eq_self)

lemma reset_inv:
  assumes inv: "inv tid s im E" and f: "fibers s f = Some c" "m_useSharedStack c"
    and r: "fiber_reset entry s f cb = Inr s'"
  shows "inv tid s' (im(f := \<lambda>_. 0)) E" and "\<And>g. g \<noteq> f \<Longrightarrow> fibers s' g = fibers s g" and "slots s' = slots s"
proof -
  have sl: "slots_ok s" and ow: "owners_ok s" using inv by (simp_all add: inv_def)
  have ok: "fib_ok tid s c" by (rule inv_fib [OF inv f])
  have at: "fiber_at s f = c" using f(1) by (simp add: fiber_at_def)
  let ?c = "c\<lparr>m_state := READY, f_cb := cb, m_stackSnapshot := [], m_parent := None, m_returnToParent := False\<rparr>"
  let ?P = "\<lambda>c'. fibers s' = (fibers s)(f \<mapsto> c') \<and> slots s' = slots s \<and> n_slots s' = n_slots s \<and>
    t_shared_stack_pools s' = t_shared_stack_pools s \<and> mem s' = mem s \<and> m_useSharedStack c' \<and>
    m_sharedStackSlot c' = m_sharedStackSlot c \<and> m_stackSnapshot c' = [] \<and> fib_ok tid s c' \<and>
    (\<forall>k. m_sharedStackSlot c = Some k \<longrightarrow> sp c' = esp s k)"
  obtain c' where c': "?P c'"
  proof (cases "m_sharedStackSlot c")
    case None
    with r f at have s': "s' = set_fiber f (?c\<lparr>m_ctxInitialized := False\<rparr>) (set_fiber f ?c s)"
      by (auto simp: fiber_reset_def Let_def split: if_splits)
    have "fib_ok tid s (?c\<lparr>m_ctxInitialized := False\<rparr>)" using ok None by (simp add: fib_ok_def)
    with s' None f(2) have "?P (?c\<lparr>m_ctxInitialized := False\<rparr>)" by simp
    then show thesis by (rule that)
  next
    case (Some k)
    have k: "k < n_slots s" "m_stack c = slot_stack (slots s k)" "m_stacksize c = ucast (slot_size (slots s k))"
      and zk: "zeros s k" using ok Some by (simp_all add: fib_ok_def)
    have st: "slot_stack (slots s k) \<noteq> 0" "slot_size (slots s k) \<noteq> 0" "unat (slot_size (slots s k)) < 2 ^ 32"
      using sl k(1) by (auto simp: slots_ok_def)
    note fits = ucast_u32_fits [OF st(3)]
    have nz: "(ucast (slot_size (slots s k)) :: u32) \<noteq> 0" using fits st(2) by auto
    let ?e = "entry_sp (slot_stack (slots s k)) (slot_size (slots s k))"
    let ?d = "?c\<lparr>m_ctx := empty_FiberContext\<lparr>c_rsp := ?e, c_rip := entry\<rparr>, m_ctxInitialized := True\<rparr>"
    have u: "use_slot k (set_fiber f ?c s) ?c = ?c" using k(2,3) by (simp add: use_slot_def)
    have m: "write_bytes (esp s k) (replicate 8 0) (mem s) = mem s"
      using zk by (auto simp: write_bytes_def zeros_def less_diff_conv2)
    have "s' = set_fiber f ?d ((set_fiber f ?c (set_fiber f ?c s))\<lparr>mem := mem s\<rparr>)"
      using r f at Some k(2,3) st nz fits InitFiberContextStack_eq [OF st(1,2), of entry] m
      by (auto simp: fiber_reset_def Let_def u initFiberContext_def esp_def split: if_splits)
    moreover have "fib_ok tid s ?d" using ok Some by (simp add: fib_ok_def)
    moreover have "sp ?d = esp s k" by (simp add: sp_def esp_def GetContextStackPointer_def)
    ultimately have "?P ?d" using Some f(2) by simp
    then show thesis by (rule that)
  qed
  note C = c' [THEN conjunct1] c' [THEN conjunct2]
  have adr: "lo s' j = lo s j" "hi s' j = hi s j" "esp s' j = esp s j" "zeros s' j = zeros s j" for j
    using C(2) by (simp_all add: lo_def hi_def esp_def zeros_def)
  have ss: "same_slots s s'" using C(2) by (simp add: same_slots_def)
  show "inv tid s' (im(f := \<lambda>_. 0)) E" unfolding inv_def
  proof (intro conjI allI impI)
    show "slots_ok s'" using sl slots_ok_cong [of s' s] C(2) by simp
    show "pools_ok s'" using inv C(2) by (simp add: inv_def pools_ok_def)
    show "owners_ok s'" unfolding owners_ok_def
    proof (intro allI impI)
      fix j g cg assume j: "slot_owner (slots s' j) = Some g" "fibers s' g = Some cg"
      then obtain c0 where "fibers s g = Some c0" "m_useSharedStack c0 = m_useSharedStack cg"
        "m_sharedStackSlot c0 = m_sharedStackSlot cg"
        using f C by (cases "g = f") auto
      with ow j(1) C(2) show "m_useSharedStack cg \<and> m_sharedStackSlot cg = Some j"
        by (auto simp: owners_ok_def)
    qed
    fix g cg assume g: "fibers s' g = Some cg" "m_useSharedStack cg"
    have "fib_ok tid s cg" using g C inv_fib [OF inv, of g cg] by (cases "g = f") auto
    then show "fib_ok tid s' cg" by (rule fib_ok_frame [OF _ ss]) (simp add: adr)
    fix j assume j: "m_sharedStackSlot cg = Some j" "g \<notin> E"
    show "img_ok s' (im(f := \<lambda>_. 0)) g cg j"
    proof (cases "g = f")
      case True
      with g(1) C(1) have e: "cg = c'" by simp
      have jk: "m_sharedStackSlot c = Some j" using j(1) C(2) by (simp add: e)
      then have jn: "j < n_slots s" "zeros s j" using ok by (simp_all add: fib_ok_def)
      note B = slot_bounds [OF sl jn(1)]
      show ?thesis using C(2) jk jn(2) B unfolding e True
        by (auto simp: img_ok_def adr zeros_def)
    next
      case False
      then have gs: "fibers s g = Some cg" using g(1) C(1) by simp
      have "img_ok s im g cg j" using inv_img [OF inv gs g(2) j] by simp
      with False C(2) show ?thesis by (auto simp: img_ok_def adr split: if_splits)
    qed
  qed
  show "\<And>g. g \<noteq> f \<Longrightarrow> fibers s' g = fibers s g" "slots s' = slots s" using C by simp_all
qed
section \<open>Exactness\<close>

text \<open>
  The life of one thread's fibers: \<open>cur\<close> is the shared-stack fiber that runs. Switching in is
  \<open>prepareSharedStack\<close> called from a fiber with a stack of its own.
\<close>

inductive shared_life :: "int \<Rightarrow> u64 \<Rightarrow> Stacks \<Rightarrow> (fid \<Rightarrow> nat \<Rightarrow> u8) \<Rightarrow> fid option \<Rightarrow> bool" for tid entry where
  life_start: "fibers s = Map.empty \<Longrightarrow> n_slots s = 0 \<Longrightarrow> t_shared_stack_pools s = Map.empty \<Longrightarrow>
    (\<forall>k. slot_owner (slots s k) = None) \<Longrightarrow> shared_life tid entry s im None"
| life_create: "shared_life tid entry s im cur \<Longrightarrow> fibers s f = None \<Longrightarrow> (\<forall>k. slot_owner (slots s k) \<noteq> Some f) \<Longrightarrow>
    24 \<le> unat (m_stacksize (new_Fiber i cb sz r True)) \<Longrightarrow> Fiber_ctor i b entry s f cb sz r True = Inr s' \<Longrightarrow>
    shared_life tid entry s' im cur"
| life_in: "shared_life tid entry s im None \<Longrightarrow> fibers s f = Some c \<Longrightarrow> m_useSharedStack c \<Longrightarrow> unshared s \<Longrightarrow>
    (m_sharedStackSlot c = None \<longrightarrow> malloc_ok blocks (ucast (m_stacksize c)) s) \<Longrightarrow>
    prepareSharedStack blocks entry tid marker s f = Inr s' \<Longrightarrow> shared_life tid entry s' im (Some f)"
| life_out: "shared_life tid entry s im (Some f) \<Longrightarrow> fibers s f = Some c \<Longrightarrow> m_sharedStackSlot c = Some k \<Longrightarrow>
    own_writes s k m \<Longrightarrow> c' = c\<lparr>m_ctx := ctx, m_state := st, f_cb := cb\<rparr> \<Longrightarrow> lo s k \<le> sp c' \<Longrightarrow> sp c' \<le> esp s k \<Longrightarrow>
    shared_life tid entry ((set_fiber f c' s)\<lparr>mem := m\<rparr>) (im(f := m)) None"
| life_reset: "shared_life tid entry s im cur \<Longrightarrow> fibers s f = Some c \<Longrightarrow> m_useSharedStack c \<Longrightarrow> cur \<noteq> Some f \<Longrightarrow>
    fiber_reset entry s f cb = Inr s' \<Longrightarrow> shared_life tid entry s' (im(f := \<lambda>_. 0)) cur"
| life_destroy: "shared_life tid entry s im cur \<Longrightarrow> cur \<noteq> Some f \<Longrightarrow>
    shared_life tid entry (fst (Fiber_dtor f s)) im cur"
| life_elsewhere: "shared_life tid entry s im cur \<Longrightarrow> elsewhere s s' \<Longrightarrow> (\<forall>f. cur = Some f \<longrightarrow> fibers s' f = fibers s f) \<Longrightarrow>
    shared_life tid entry s' im cur"

lemma destroy_inv:
  assumes "inv tid s im E"
  shows "inv tid (fst (Fiber_dtor f s)) im E"
proof -
  let ?s = "fst (Fiber_dtor f s)"
  have h: "slots ?s = slots s" "n_slots ?s = n_slots s" "mem ?s = mem s"
    "t_shared_stack_pools ?s = t_shared_stack_pools s" "fibers ?s = (fibers s)(f := None)"
    by (simp_all add: Fiber_dtor_def)
  have "zeros ?s = zeros s" by (simp add: fun_eq_iff zeros_def esp_def h)
  then have a: "img_ok ?s im g c k = img_ok s im g c k" "fib_ok tid ?s c = fib_ok tid s c" for g c k
    by (simp_all add: esp_def lo_def hi_def img_ok_def fib_ok_def h split: option.split)
  have "slots_ok ?s = slots_ok s" by (rule slots_ok_cong) (simp_all add: h)
  with assms show ?thesis
    by (auto simp: inv_def a pools_ok_def owners_ok_def h split: if_splits)
qed

lemma life_inv:
  "shared_life tid entry s im cur \<Longrightarrow> inv tid s im (set_option cur) \<and>
     (\<forall>f. cur = Some f \<longrightarrow> (\<exists>c k. fibers s f = Some c \<and> m_useSharedStack c \<and>
        m_sharedStackSlot c = Some k \<and> slot_owner (slots s k) = Some f))"
proof (induction rule: shared_life.induct)
  case (life_start s im)
  then show ?case by (auto simp: inv_def slots_ok_def pools_ok_def owners_ok_def)
next
  case (life_create s im cur f i cb sz r b s')
  then have "s' = set_fiber f (new_Fiber i cb sz r True) s" by (simp add: Fiber_ctor_def)
  with life_create create_inv [of tid s im "set_option cur" f i cb sz r] show ?case by auto
next
  case (life_in s im f c blocks marker s')
  then have "inv tid s im {}" by simp
  from prepare_ok [OF this life_in(2,3,4,5), of entry marker] obtain t c' k where
    "prepareSharedStack blocks entry tid marker s f = Inr t" "inv tid t im {f}" "fibers t f = Some c'"
    "m_useSharedStack c'" "m_sharedStackSlot c' = Some k" "slot_owner (slots t k) = Some f" by metis
  with life_in(6) show ?case by auto
next
  case (life_out s im f c k m c' ctx st cb)
  then have "inv tid s im {f}" "m_useSharedStack c" "slot_owner (slots s k) = Some f" by auto
  from suspend_inv [OF this(1) life_out(2) this(2) life_out(3) this(3) life_out(4,5,6,7)]
  show ?case by (simp del: fun_upd_apply)
next
  case (life_reset s im cur f c cb s')
  then have i: "inv tid s im (set_option cur)" by simp
  note R = reset_inv [OF i life_reset(2,3,5)]
  have "fibers s' g = fibers s g" if "cur = Some g" for g using R(2) life_reset(4) that by auto
  with R(1,3) life_reset(6) show ?case by (auto simp del: fun_upd_apply)
next
  case (life_destroy s im cur f)
  then show ?case using destroy_inv [of tid s im "set_option cur" f] by (auto simp: Fiber_dtor_def)
next
  case (life_elsewhere s im cur s')
  then have "inv tid s' im (set_option cur)" using elsewhere_inv by blast
  moreover have "slots s' = slots s" using life_elsewhere(2) by (simp add: elsewhere_def)
  ultimately show ?case using life_elsewhere(3,4) by auto
qed

text \<open>
  Property C10. A shared-stack fiber finds its stack as it left it: in every run of a thread's
  fibers, whichever fibers used the slot in between or were destroyed, \<^verbatim>\<open>prepareSharedStack\<close> on a
  suspended fiber fails no assertion, leaves its context alone, and from its stack pointer to its
  entry frame the memory is what it was when the fiber was switched out. A fiber with no slot yet
  gets one whose owner it is.
\<close>

theorem shared_stack_exact:
  assumes "shared_life tid entry s im None" and "fibers s f = Some c" and "m_useSharedStack c" and "unshared s"
    and "m_sharedStackSlot c = None \<longrightarrow> malloc_ok blocks (ucast (m_stacksize c)) s"
  shows "\<exists>s' c' k. prepareSharedStack blocks entry tid marker s f = Inr s' \<and> fibers s' f = Some c' \<and>
    m_sharedStackSlot c' = Some k \<and> slot_owner (slots s' k) = Some f \<and>
    (\<forall>j. m_sharedStackSlot c = Some j \<longrightarrow> k = j \<and> m_ctx c' = m_ctx c \<and>
       (\<forall>x. sp c \<le> x \<and> x < esp s j + 8 \<longrightarrow> mem s' x = im f x))"
proof -
  have "inv tid s im {}" using life_inv [OF assms(1)] by simp
  from prepare_ok [OF this assms(2-5), of entry marker] show ?thesis by metis
qed
text \<open>
  Two fibers on one slot of 64 bytes at 4096: the first leaves the byte 7 at its stack pointer
  4096, the second runs and leaves 9 there, then the first is due again.
\<close>

definition placed :: "u64 \<Rightarrow> u64 \<Rightarrow> u8 list \<Rightarrow> Fiber" where
  "placed i p snap = (new_Fiber i None 64 True True)\<lparr>m_ctx := empty_FiberContext\<lparr>c_rsp := p, c_rip := 1\<rparr>,
     m_stack := 4096, m_ctxInitialized := True, m_ownerThread := 5, m_sharedStackSlot := Some 0,
     m_stackSnapshot := snap\<rparr>"

definition two :: "Fiber \<Rightarrow> Fiber \<Rightarrow> fid option \<Rightarrow> u64 \<Rightarrow> (nat \<Rightarrow> u8) \<Rightarrow> Stacks" where
  "two c0 c1 w n m = \<lparr>fibers = [0 \<mapsto> c0, 1 \<mapsto> c1],
     slots = (\<lambda>k. if k = 0 then \<lparr>slot_stack = 4096, slot_size = 64, slot_owner = w\<rparr>
       else \<lparr>slot_stack = 0, slot_size = 0, slot_owner = None\<rparr>), n_slots = 1,
     t_shared_stack_pools = [64 \<mapsto> \<lparr>m_slots = [0], m_next = n\<rparr>],
     s_shared_stack_slot_count = 1, mem = m, t_fiber = None\<rparr>"

definition two_new :: Stacks where
  "two_new = \<lparr>fibers = [0 \<mapsto> new_Fiber 0 None 64 True True, 1 \<mapsto> new_Fiber 1 None 64 True True],
      slots = (\<lambda>_. \<lparr>slot_stack = 0, slot_size = 0, slot_owner = None\<rparr>), n_slots = 0,
      t_shared_stack_pools = Map.empty, s_shared_stack_slot_count = 1, mem = (\<lambda>_. 0), t_fiber = None\<rparr>"

lemmas prepare_defs = prepareSharedStack_def fiber_at_def new_Fiber_def bind_thread_def ensure_slot_def Let_def
  GetSharedStackPool_def SharedStackPool_ctor_def acquireSlot_def use_slot_def ensure_ctx_def initFiberContext_def
  set_fiber_def InitFiberContextStack_eq entry_sp_def AlignDown_def save_owner_def lock_owner_def take_over_def
  restoreSharedStackSnapshot_def saveSharedStackSnapshot_def snapshot_from_def GetContextStackPointer_def

lemma zeros_again: "write_bytes 4152 (replicate 8 0) (\<lambda>_. 0) = (\<lambda>_. 0)"
  by (auto simp: write_bytes_def less_diff_conv2)

lemma two_in0: "prepareSharedStack (\<lambda>_. 4096) 1 5 0 two_new 0 =
    Inr (two (placed 0 4152 []) (new_Fiber 1 None 64 True True) (Some 0) 1 (\<lambda>_. 0))"
  by (simp add: prepare_defs two_new_def two_def placed_def zeros_again) (auto simp: fun_eq_iff)

definition m7 :: "nat \<Rightarrow> u8" where "m7 = (\<lambda>_. 0)(4096 := 7)"
definition two_snap :: "u8 list" where "two_snap = read_bytes m7 4096 64"

lemma zeros_m7: "write_bytes 4152 (replicate 8 0) m7 = m7"
  by (auto simp: write_bytes_def m7_def less_diff_conv2)

lemma two_in1: "prepareSharedStack (\<lambda>_. 4096) 1 5 0
    (two (placed 0 4096 []) (new_Fiber 1 None 64 True True) (Some 0) 1 m7) 1 =
    Inr (two (placed 0 4096 two_snap) (placed 1 4152 []) (Some 1) 2 m7)"
  by (simp add: prepare_defs two_def placed_def zeros_m7 two_snap_def) (auto simp: fun_eq_iff)

lemma two_addr:
  "sp (placed i p snap) = unat p" "lo (two c0 c1 w n m) 0 = 4096" "hi (two c0 c1 w n m) 0 = 4160"
  "esp (two c0 c1 w n m) 0 = 4152"
  by (simp_all add: sp_def placed_def GetContextStackPointer_def lo_def hi_def esp_def two_def entry_sp_def
      AlignDown_def)
lemma two_life:
  defines "n1 \<equiv> new_Fiber 1 None 64 True True"
  shows "shared_life 5 1 (two (placed 0 4096 two_snap) (placed 1 4096 []) (Some 1) 2 (m7(4096 := 9)))
    ((\<lambda>_ _. 0)(0 := m7, 1 := m7(4096 := 9))) None"
proof -
  let ?e = "\<lparr>fibers = Map.empty, slots = (\<lambda>_. \<lparr>slot_stack = 0, slot_size = 0, slot_owner = None\<rparr>), n_slots = 0,
      t_shared_stack_pools = Map.empty, s_shared_stack_slot_count = 1, mem = (\<lambda>_. 0), t_fiber = None\<rparr> :: Stacks"
  let ?n0 = "new_Fiber 0 None 64 True True"
  have sz: "24 \<le> unat (m_stacksize (new_Fiber i None 64 True True))" for i by (simp add: new_Fiber_def)
  have "shared_life 5 1 ?e (\<lambda>_ _. 0) None" by (rule life_start) simp_all
  then have "shared_life 5 1 (set_fiber 0 ?n0 ?e) (\<lambda>_ _. 0) None"
    by (rule life_create [where f = 0 and i = 0 and cb = None and sz = 64 and r = True and b = 0, OF _ _ _ sz])
      (simp_all add: Fiber_ctor_def)
  then have "shared_life 5 1 (set_fiber 1 n1 (set_fiber 0 ?n0 ?e)) (\<lambda>_ _. 0) None"
    by (rule life_create [where f = 1 and i = 1 and cb = None and sz = 64 and r = True and b = 0, OF _ _ _ sz])
      (simp_all add: Fiber_ctor_def n1_def)
  moreover have "set_fiber 1 n1 (set_fiber 0 ?n0 ?e) = two_new" by (simp add: set_fiber_def two_new_def n1_def)
  ultimately have "shared_life 5 1 two_new (\<lambda>_ _. 0) None" by simp
  moreover have "malloc_ok (\<lambda>_. 4096) (ucast (m_stacksize ?n0)) two_new"
    by (simp add: malloc_ok_def two_new_def SharedStackPool_ctor_def new_Fiber_def slots_ok_def hi_def lo_def)
  ultimately have "shared_life 5 1 (two (placed 0 4152 []) n1 (Some 0) 1 (\<lambda>_. 0)) (\<lambda>_ _. 0) (Some 0)"
    using life_in [where c = ?n0, OF _ _ _ _ _ two_in0]
    by (simp add: two_new_def new_Fiber_def unshared_def n1_def)
  then have "shared_life 5 1 ((set_fiber 0 (placed 0 4096 []) (two (placed 0 4152 []) n1 (Some 0) 1 (\<lambda>_. 0)))\<lparr>mem := m7\<rparr>)
      ((\<lambda>_ _. 0)(0 := m7)) None"
    by (rule life_out [where k = 0 and c = "placed 0 4152 []" and st = READY and cb = None
        and ctx = "empty_FiberContext\<lparr>c_rsp := 4096, c_rip := 1\<rparr>"])
      (simp_all add: two_addr own_writes_def, simp_all add: two_def placed_def new_Fiber_def m7_def)
  moreover have "(set_fiber 0 (placed 0 4096 []) (two (placed 0 4152 []) n1 (Some 0) 1 (\<lambda>_. 0)))\<lparr>mem := m7\<rparr> =
      two (placed 0 4096 []) n1 (Some 0) 1 m7" by (simp add: two_def set_fiber_def fun_upd_twist)
  ultimately have "shared_life 5 1 (two (placed 0 4096 []) n1 (Some 0) 1 m7) ((\<lambda>_ _. 0)(0 := m7)) None" by simp
  then have "shared_life 5 1 (two (placed 0 4096 two_snap) (placed 1 4152 []) (Some 1) 2 m7)
      ((\<lambda>_ _. 0)(0 := m7)) (Some 1)"
    by (rule life_in [where c = n1, OF _ _ _ _ _ two_in1 [folded n1_def]])
      (simp_all add: two_def n1_def new_Fiber_def unshared_def malloc_ok_def)
  then have "shared_life 5 1 ((set_fiber 1 (placed 1 4096 []) (two (placed 0 4096 two_snap) (placed 1 4152 [])
      (Some 1) 2 m7))\<lparr>mem := m7(4096 := 9)\<rparr>) ((\<lambda>_ _. 0)(0 := m7, 1 := m7(4096 := 9))) None"
    by (rule life_out [where k = 0 and c = "placed 1 4152 []" and st = READY and cb = None
        and ctx = "empty_FiberContext\<lparr>c_rsp := 4096, c_rip := 1\<rparr>"])
      (simp_all add: two_addr own_writes_def, simp_all add: two_def placed_def new_Fiber_def)
  moreover have "(set_fiber 1 (placed 1 4096 []) (two (placed 0 4096 two_snap) (placed 1 4152 []) (Some 1) 2 m7))
      \<lparr>mem := m7(4096 := 9)\<rparr> = two (placed 0 4096 two_snap) (placed 1 4096 []) (Some 1) 2 (m7(4096 := 9))"
    by (simp add: two_def set_fiber_def)
  ultimately show ?thesis by simp
qed

theorem shared_stack_exact_witness:
  "\<exists>s'. prepareSharedStack (\<lambda>_. 4096) 1 5 0
      (two (placed 0 4096 two_snap) (placed 1 4096 []) (Some 1) 2 (m7(4096 := 9))) 0 = Inr s' \<and> mem s' 4096 = 7"
proof -
  let ?c = "placed 0 4096 two_snap"
  have c: "fibers (two ?c (placed 1 4096 []) (Some 1) 2 (m7(4096 := 9))) 0 = Some ?c"
    "m_useSharedStack ?c" "m_sharedStackSlot ?c = Some 0"
    "unshared (two ?c (placed 1 4096 []) (Some 1) 2 (m7(4096 := 9)))"
    by (simp_all add: two_def placed_def new_Fiber_def unshared_def)
  from shared_stack_exact [OF two_life c(1,2,4), of "\<lambda>_. 4096" 0] c(3)
  show ?thesis by (auto simp: two_addr m7_def)
qed

end
