(* ===== verification/Co_Fiber.thy ===== *)
theory Co_Fiber
  imports Fiber_Stack
begin

text \<open>
  Switching between fibers (src/fiber.cpp): the thread's current, main and scheduler fiber,
  \<^verbatim>\<open>resume\<close>, \<^verbatim>\<open>call\<close>, \<^verbatim>\<open>yield\<close>, \<^verbatim>\<open>back\<close> and the end of \<^verbatim>\<open>MainFunc\<close>. A switch is
  the effect of \<^verbatim>\<open>mycoroutine_context_swap\<close> on the two contexts and on the registers of the
  processor, \<open>cpu\<close>; the definitions end at the switch, since what follows it in the source runs
  when control comes back.
\<close>

section \<open>The state of a thread\<close>

record Thread_State =
  st :: Stacks
  t_thread_fiber :: "fid option"
  t_scheduler_fiber :: "fid option"
  s_fiber_id :: u64
  s_fiber_count :: u64
  cpu :: FiberContext

text \<open>
  What \<^verbatim>\<open>prepareSharedStack\<close> depends on: the blocks \<^verbatim>\<open>malloc\<close> returns, the entry point, the
  thread id, the address of its local variable.
\<close>

record Env =
  e_blocks :: "nat \<Rightarrow> u64"
  e_entry :: u64
  e_tid :: int
  e_marker :: u64

definition prepare :: "Env \<Rightarrow> Stacks \<Rightarrow> fid \<Rightarrow> Stacks result" where
  "prepare e s f = prepareSharedStack (e_blocks e) (e_entry e) (e_tid e) (e_marker e) s f"

definition fib :: "Thread_State \<Rightarrow> fid \<Rightarrow> Fiber" where
  "fib w f = fiber_at (st w) f"

definition put_fib :: "fid \<Rightarrow> Fiber \<Rightarrow> Thread_State \<Rightarrow> Thread_State" where
  "put_fib f c w = w\<lparr>st := set_fiber f c (st w)\<rparr>"

definition SetThis :: "fid \<Rightarrow> Thread_State \<Rightarrow> Thread_State" where
  "SetThis f w = w\<lparr>st := (st w)\<lparr>t_fiber := Some f\<rparr>\<rparr>"

definition SetSchedulerFiber :: "fid \<Rightarrow> Thread_State \<Rightarrow> Thread_State" where
  "SetSchedulerFiber f w = w\<lparr>t_scheduler_fiber := Some f\<rparr>"

section \<open>Construction\<close>

definition count_fiber :: "Thread_State \<Rightarrow> Thread_State" where
  "count_fiber w = w\<lparr>s_fiber_id := s_fiber_id w + 1, s_fiber_count := s_fiber_count w + 1\<rparr>"

text \<open>The private constructor, of the fiber that is the thread itself.\<close>

definition Fiber_main :: "fid \<Rightarrow> Thread_State \<Rightarrow> Thread_State" where
  "Fiber_main f w = count_fiber (put_fib f
     ((new_Fiber (s_fiber_id w) None 0 True False)\<lparr>m_stacksize := 0, m_state := RUNNING,
        m_ctx := empty_FiberContext, m_ctxInitialized := True\<rparr>) (SetThis f w))"

text \<open>\<^verbatim>\<open>GetThis\<close>; \<open>f\<close> is the fiber it makes when there is none.\<close>

definition GetThis :: "fid \<Rightarrow> Thread_State \<Rightarrow> Thread_State \<times> fid" where
  "GetThis f w =
     (case t_fiber (st w) of
        Some g \<Rightarrow> (w, g)
      | None \<Rightarrow> ((Fiber_main f w)\<lparr>t_thread_fiber := Some f, t_scheduler_fiber := Some f\<rparr>, f))"

definition Fiber_child ::
    "Env \<Rightarrow> u64 \<Rightarrow> Thread_State \<Rightarrow> fid \<Rightarrow> callback option \<Rightarrow> u64 \<Rightarrow> bool \<Rightarrow> bool \<Rightarrow> Thread_State result" where
  "Fiber_child e block w f cb stacksize run_in_scheduler use_shared_stack =
     (case Fiber_ctor (s_fiber_id w) block (e_entry e) (st w) f cb stacksize run_in_scheduler use_shared_stack of
        Inl err \<Rightarrow> Inl err
      | Inr s \<Rightarrow> Inr (count_fiber (w\<lparr>st := s\<rparr>)))"

section \<open>Switching\<close>

text \<open>The registers are saved in the one context and loaded from the other.\<close>

definition swapWithSanitizer :: "fid \<Rightarrow> fid \<Rightarrow> Thread_State \<Rightarrow> Thread_State" where
  "swapWithSanitizer from to w =
     (let w1 = put_fib from ((fib w from)\<lparr>m_ctx := cpu w\<rparr>) w
      in w1\<lparr>cpu := m_ctx (fib w1 to)\<rparr>)"

text \<open>The fiber that a fiber without a parent belongs to.\<close>

definition base :: "Thread_State \<Rightarrow> Fiber \<Rightarrow> fid option" where
  "base w c = (if m_runInScheduler c then t_scheduler_fiber w else t_thread_fiber w)"

definition prepare_if_shared :: "Env \<Rightarrow> Thread_State \<Rightarrow> fid \<Rightarrow> Thread_State result" where
  "prepare_if_shared e w f =
     (if m_useSharedStack (fib w f)
      then (case prepare e (st w) f of Inl err \<Rightarrow> Inl err | Inr s \<Rightarrow> Inr (w\<lparr>st := s\<rparr>))
      else Inr w)"

definition resume :: "Env \<Rightarrow> Thread_State \<Rightarrow> fid \<Rightarrow> Thread_State result" where
  "resume e w f =
     (if m_state (fib w f) \<noteq> READY then Inl Assertion_Failed
      else case prepare_if_shared e w f of
             Inl err \<Rightarrow> Inl err
           | Inr w1 \<Rightarrow>
               let w2 = put_fib f ((fib w1 f)\<lparr>m_state := RUNNING\<rparr>) w1
               in (case base w2 (fib w2 f) of
                     None \<Rightarrow> Inl Assertion_Failed
                   | Some b \<Rightarrow> Inr (swapWithSanitizer b f (SetThis f w2))))"

datatype CallCode =
    CALL_OK | CALL_ERR_NOT_READY | CALL_ERR_NO_CURRENT_FIBER | CALL_ERR_SELF_CALL
  | CALL_ERR_SHARED_NESTED_UNSUPPORTED

text \<open>
  \<^verbatim>\<open>call\<close>: an error code, or \<open>None\<close> when it has switched to the child; \<open>call_return\<close> is what it
  does when control is back. \<open>g\<close> is the fiber \<^verbatim>\<open>GetThis\<close> makes when there is none, so that
  its result is never null.
\<close>

definition call :: "Env \<Rightarrow> Thread_State \<Rightarrow> fid \<Rightarrow> fid \<Rightarrow> (Thread_State \<times> CallCode option) result" where
  "call e w g f =
     (if m_state (fib w f) \<noteq> READY then Inr (w, Some CALL_ERR_NOT_READY)
      else case GetThis g w of
             (w0, parent) \<Rightarrow>
               if parent = f then Inr (w0, Some CALL_ERR_SELF_CALL)
               else if m_useSharedStack (fib w0 f) \<and> m_useSharedStack (fib w0 parent)
               then Inr (w0, Some CALL_ERR_SHARED_NESTED_UNSUPPORTED)
               else (case prepare_if_shared e w0 f of
                       Inl err \<Rightarrow> Inl err
                     | Inr w1 \<Rightarrow>
                         let w2 = put_fib f ((fib w1 f)\<lparr>m_parent := Some parent, m_returnToParent := True,
                               m_state := RUNNING\<rparr>) w1
                         in Inr (swapWithSanitizer parent f (SetThis f w2), None)))"

definition call_return :: "Thread_State \<Rightarrow> fid \<Rightarrow> Thread_State \<times> CallCode" where
  "call_return w f = (put_fib f ((fib w f)\<lparr>m_parent := None, m_returnToParent := False\<rparr>) w, CALL_OK)"

text \<open>\<^verbatim>\<open>m_parent.lock()\<close>\<close>

definition lock_parent :: "Thread_State \<Rightarrow> fid \<Rightarrow> fid option" where
  "lock_parent w f = (case m_parent (fib w f) of
     None \<Rightarrow> None | Some p \<Rightarrow> if fibers (st w) p = None then None else Some p)"

definition Fiber_back :: "Env \<Rightarrow> Thread_State \<Rightarrow> fid \<Rightarrow> Thread_State result" where
  "Fiber_back e w f =
     (case lock_parent w f of
        None \<Rightarrow> Inl Assertion_Failed
      | Some parent \<Rightarrow>
          let w1 = put_fib f ((fib w f)\<lparr>m_parent := None, m_returnToParent := False\<rparr>) w
          in (case prepare_if_shared e w1 parent of
                Inl err \<Rightarrow> Inl err
              | Inr w2 \<Rightarrow> Inr (swapWithSanitizer f parent (SetThis parent w2))))"

text \<open>The last part of \<^verbatim>\<open>yield\<close>: where it switches to.\<close>

definition yield_switch :: "Env \<Rightarrow> Thread_State \<Rightarrow> fid \<Rightarrow> Thread_State result" where
  "yield_switch e w f =
     (if m_returnToParent (fib w f) \<and> lock_parent w f \<noteq> None then Fiber_back e w f
      else (case base w (fib w f) of
              None \<Rightarrow> Inl Assertion_Failed
            | Some b \<Rightarrow> Inr (swapWithSanitizer f b (SetThis b w))))"

definition yield :: "Env \<Rightarrow> Thread_State \<Rightarrow> fid \<Rightarrow> Thread_State result" where
  "yield e w f =
     (if \<not> (m_state (fib w f) = RUNNING \<or> m_state (fib w f) = TERMINATED) then Inl Assertion_Failed
      else let w1 = (if m_state (fib w f) \<noteq> TERMINATED
                     then put_fib f ((fib w f)\<lparr>m_state := READY\<rparr>) w else w)
           in yield_switch e w1 f)"

text \<open>\<^verbatim>\<open>MainFunc\<close> after the callback has returned or thrown.\<close>

definition MainFunc_end :: "Env \<Rightarrow> Thread_State \<Rightarrow> fid \<Rightarrow> Thread_State result" where
  "MainFunc_end e w f = yield e (put_fib f ((fib w f)\<lparr>f_cb := None, m_state := TERMINATED\<rparr>) w) f"

section \<open>What prepareSharedStack leaves alone\<close>

definition same_ctrl :: "Fiber \<Rightarrow> Fiber \<Rightarrow> bool" where
  "same_ctrl c c' \<longleftrightarrow> m_state c' = m_state c \<and> m_runInScheduler c' = m_runInScheduler c \<and>
     m_useSharedStack c' = m_useSharedStack c \<and> m_returnToParent c' = m_returnToParent c \<and>
     m_parent c' = m_parent c \<and>
     (m_ctxInitialized c \<longrightarrow> m_ctx c' = m_ctx c \<and> m_ctxInitialized c')"

definition keeps :: "Stacks \<Rightarrow> Stacks \<Rightarrow> bool" where
  "keeps s s' \<longleftrightarrow> t_fiber s' = t_fiber s \<and> (\<forall>g. rel_option same_ctrl (fibers s g) (fibers s' g))"

lemma same_ctrl_refl [simp]: "same_ctrl c c"
  by (simp add: same_ctrl_def)

lemma same_ctrl_trans: "same_ctrl a b \<Longrightarrow> same_ctrl b c \<Longrightarrow> same_ctrl a c"
  by (auto simp: same_ctrl_def)

lemma keeps_refl [simp]: "keeps s s"
  by (simp add: keeps_def option.rel_refl)

lemma keeps_trans: "keeps s t \<Longrightarrow> keeps t u \<Longrightarrow> keeps s u"
  unfolding keeps_def
proof (intro conjI allI)
  fix g assume "t_fiber t = t_fiber s \<and> (\<forall>g. rel_option same_ctrl (fibers s g) (fibers t g))"
    "t_fiber u = t_fiber t \<and> (\<forall>g. rel_option same_ctrl (fibers t g) (fibers u g))"
  then have "rel_option same_ctrl (fibers s g) (fibers t g)" "rel_option same_ctrl (fibers t g) (fibers u g)" by auto
  then show "rel_option same_ctrl (fibers s g) (fibers u g)"
    by (cases "fibers s g"; cases "fibers t g"; cases "fibers u g") (auto intro: same_ctrl_trans)
qed auto

lemma keeps_fibers: "fibers s' = fibers s \<Longrightarrow> t_fiber s' = t_fiber s \<Longrightarrow> keeps s s'"
  by (simp add: keeps_def option.rel_refl)

lemma keeps_set: "fibers s f = Some c \<Longrightarrow> same_ctrl c c' \<Longrightarrow> keeps s (set_fiber f c' s)"
  by (simp add: keeps_def option.rel_refl)

lemma keepsD: "keeps s s' \<Longrightarrow> fibers s f = Some c \<Longrightarrow> \<exists>c'. fibers s' f = Some c' \<and> same_ctrl c c'"
  unfolding keeps_def by (metis option_rel_Some1)

lemma keeps_dom: "keeps s s' \<Longrightarrow> (fibers s' f = None) = (fibers s f = None)"
  unfolding keeps_def by (metis option_rel_Some1 option_rel_Some2 not_None_eq)

lemma at_Some: "fibers s f = Some c \<Longrightarrow> fiber_at s f = c"
  by (simp add: fiber_at_def)

lemma keeps_pool:
  assumes "GetSharedStackPool blocks sz s = Inr (s1, p)"
  shows "fibers s1 = fibers s \<and> t_fiber s1 = t_fiber s"
  using assms
  by (auto simp: GetSharedStackPool_def SharedStackPool_ctor_def Let_def split: option.splits if_splits)

lemma keeps_ensure_slot:
  assumes "ensure_slot blocks s f = Inr (s1, k)" and f: "fibers s f = Some c"
  shows "keeps s s1"
proof (cases "m_sharedStackSlot c")
  case (Some j)
  with assms show ?thesis by (simp add: ensure_slot_def at_Some)
next
  case None
  with assms obtain s0 p p1 where g: "GetSharedStackPool blocks (ucast (m_stacksize c)) s = Inr (s0, p)"
    and s1: "s1 = (let t = s0\<lparr>t_shared_stack_pools := (t_shared_stack_pools s0)(ucast (m_stacksize c) \<mapsto> p1)\<rparr>
      in set_fiber f (use_slot k t ((fiber_at t f)\<lparr>m_sharedStackSlot := Some k\<rparr>)) t)"
    by (auto simp: ensure_slot_def at_Some Let_def split: sum.splits)
  from keeps_pool [OF g] show ?thesis
    using f by (simp add: s1 Let_def keeps_def option.rel_refl fiber_at_def use_slot_def same_ctrl_def)
qed

lemma keeps_ensure_ctx:
  assumes "ensure_ctx entry s f k = Inr s1" and f: "fibers s f = Some c"
  shows "keeps s s1"
proof (cases "m_ctxInitialized c")
  case True
  with assms show ?thesis by (simp add: ensure_ctx_def at_Some)
next
  case False
  with assms show ?thesis
    by (cases "InitFiberContextStack entry (m_stack (use_slot k s c)) (ucast (m_stacksize (use_slot k s c)))")
      (auto simp: ensure_ctx_def at_Some initFiberContext_def Let_def keeps_def option.rel_refl use_slot_def
        same_ctrl_def split: if_splits)
qed

lemma keeps_snapshot: "snapshot_from p s f k = Inr s1 \<Longrightarrow> fibers s f = Some c \<Longrightarrow> keeps s s1"
  by (auto simp: snapshot_from_def Let_def at_Some same_ctrl_def split: if_splits intro!: keeps_set)

lemma keeps_save_owner: "save_owner marker s f k = Inr s1 \<Longrightarrow> keeps s s1"
  by (auto simp: save_owner_def lock_owner_def saveSharedStackSnapshot_def saveCurrentSharedStackSnapshot_def Let_def
      split: option.splits if_splits intro: keeps_snapshot)

lemma keeps_take_over: "take_over w s f k = Inr s1 \<Longrightarrow> keeps s s1"
  by (auto simp: take_over_def restoreSharedStackSnapshot_def Let_def split: option.splits if_splits sum.splits
      intro!: keeps_fibers)

lemma keeps_prepare:
  assumes "prepareSharedStack blocks entry tid marker s f = Inr s'" and f: "fibers s f = Some c"
  shows "keeps s s'"
proof -
  obtain c0 s1 k s2 s3 where c0: "bind_thread tid c = Inr c0" and s1: "ensure_slot blocks (set_fiber f c0 s) f = Inr (s1, k)"
    and s2: "ensure_ctx entry s1 f k = Inr s2" and s3: "save_owner marker s2 f k = Inr s3"
    and s': "take_over (lock_owner s2 k) s3 f k = Inr s'"
    using assms by (auto simp: prepareSharedStack_def at_Some split: if_splits sum.splits)
  have "same_ctrl c c0" using c0 by (auto simp: bind_thread_def same_ctrl_def split: if_splits)
  then have k0: "keeps s (set_fiber f c0 s)" using f by (rule keeps_set [rotated])
  have f0: "fibers (set_fiber f c0 s) f = Some c0" by simp
  note k1 = keeps_ensure_slot [OF s1 f0]
  obtain c1 where "fibers s1 f = Some c1" using keepsD [OF k1 f0] by blast
  note k2 = keeps_ensure_ctx [OF s2 this]
  show ?thesis
    using k0 k1 k2 keeps_save_owner [OF s3] keeps_take_over [OF s'] by (blast intro: keeps_trans)
qed
section \<open>The chain of active fibers\<close>

text \<open>
  \<open>chain\<close> is the running fiber, the one that resumed or called it, and so on down to the
  thread's main fiber; \<open>saved\<close> is the context each fiber had when it was last switched out.
\<close>

definition returns_to :: "Thread_State \<Rightarrow> Fiber \<Rightarrow> fid option" where
  "returns_to w c = (if m_returnToParent c then m_parent c else base w c)"

fun linked :: "Thread_State \<Rightarrow> fid list \<Rightarrow> bool" where
  "linked w (a # b # r) = (returns_to w (fib w a) = Some b \<and> linked w (b # r))"
| "linked w _ = True"

definition chain_inv :: "Thread_State \<Rightarrow> fid list \<Rightarrow> (fid \<Rightarrow> FiberContext option) \<Rightarrow> bool" where
  "chain_inv w chain saved \<longleftrightarrow> chain \<noteq> [] \<and> distinct chain \<and> t_fiber (st w) = Some (hd chain) \<and>
     (\<forall>f \<in> set chain. \<exists>c. fibers (st w) f = Some c \<and> m_ctxInitialized c) \<and>
     (\<forall>f c. fibers (st w) f = Some c \<longrightarrow> (m_state c = RUNNING) = (f \<in> set chain) \<and>
        (f \<notin> set chain \<longrightarrow> \<not> m_returnToParent c) \<and> (m_useSharedStack c \<or> m_ctxInitialized c)) \<and>
     linked w chain \<and> (\<forall>f \<in> set (tl chain). saved f \<noteq> None) \<and>
     (\<forall>f x c. saved f = Some x \<longrightarrow> fibers (st w) f = Some c \<longrightarrow> m_ctxInitialized c \<and> m_ctx c = x)"

lemma chain_fiber: "chain_inv w ch sv \<Longrightarrow> fibers (st w) f = Some c \<Longrightarrow>
    (m_state c = RUNNING) = (f \<in> set ch) \<and> (f \<notin> set ch \<longrightarrow> \<not> m_returnToParent c) \<and>
    (m_useSharedStack c \<or> m_ctxInitialized c)"
  by (simp add: chain_inv_def)

lemma linked_cong:
  "(\<And>f. f \<in> set ch \<Longrightarrow> returns_to w' (fib w' f) = returns_to w (fib w f)) \<Longrightarrow> linked w' ch = linked w ch"
  by (induction w ch rule: linked.induct) auto

lemma fib_Some: "fibers (st w) f = Some c \<Longrightarrow> fib w f = c"
  by (simp add: fib_def at_Some)

lemma base_thread:
  "base (w\<lparr>st := s\<rparr>) c = base w c" "base (put_fib f d w) c = base w c" "base (SetThis f w) c = base w c"
  "base (swapWithSanitizer a b w) c = base w c"
  by (simp_all add: base_def put_fib_def SetThis_def swapWithSanitizer_def Let_def)

lemma returns_to_thread [simp]: "returns_to (w\<lparr>st := s\<rparr>) c = returns_to w c"
  "returns_to (w\<lparr>cpu := x\<rparr>) c = returns_to w c"
  by (simp_all add: returns_to_def base_def)

lemma returns_to_same: "same_ctrl c c' \<Longrightarrow> returns_to w c' = returns_to w c"
  by (simp add: returns_to_def base_def same_ctrl_def)

lemma keeps_inv:
  assumes inv: "chain_inv w ch sv" and k: "keeps (st w) s"
  shows "chain_inv (w\<lparr>st := s\<rparr>) ch sv"
proof -
  have old: "\<exists>c0. fibers (st w) f = Some c0 \<and> same_ctrl c0 c" if "fibers s f = Some c" for f c
    using k that unfolding keeps_def by (metis option_rel_Some2)
  have "linked (w\<lparr>st := s\<rparr>) ch = linked w ch"
  proof (rule linked_cong)
    fix f assume "f \<in> set ch"
    with inv obtain c where c: "fibers (st w) f = Some c" by (auto simp: chain_inv_def)
    with keepsD [OF k c] show "returns_to (w\<lparr>st := s\<rparr>) (fib (w\<lparr>st := s\<rparr>) f) = returns_to w (fib w f)"
      by (auto simp: fib_def at_Some returns_to_same)
  qed
  moreover have "\<exists>c'. fibers s f = Some c' \<and> m_ctxInitialized c'" if "f \<in> set ch" for f
  proof -
    from inv that obtain c where c: "fibers (st w) f = Some c" "m_ctxInitialized c" by (auto simp: chain_inv_def)
    with keepsD [OF k c(1)] show ?thesis by (auto simp: same_ctrl_def)
  qed
  moreover have "t_fiber s = t_fiber (st w)" using k by (simp add: keeps_def)
  moreover have "(m_state c = RUNNING) = (f \<in> set ch) \<and> (f \<notin> set ch \<longrightarrow> \<not> m_returnToParent c) \<and>
      (m_useSharedStack c \<or> m_ctxInitialized c)" if c: "fibers s f = Some c" for f c
  proof -
    from old [OF c] obtain c0 where "fibers (st w) f = Some c0" "same_ctrl c0 c" by blast
    with inv show ?thesis by (auto simp: chain_inv_def same_ctrl_def)
  qed
  moreover have "m_ctxInitialized c \<and> m_ctx c = x" if "sv f = Some x" "fibers s f = Some c" for f x c
  proof -
    from old [OF that(2)] obtain c0 where "fibers (st w) f = Some c0" "same_ctrl c0 c" by blast
    with inv that(1) show ?thesis by (auto simp: chain_inv_def same_ctrl_def)
  qed
  ultimately show ?thesis using inv by (simp add: chain_inv_def)
qed

lemma prepare_init:
  assumes "prepareSharedStack blocks entry tid marker s f = Inr s'" and f: "fibers s f = Some c"
  shows "\<exists>c'. fibers s' f = Some c' \<and> m_ctxInitialized c'"
proof -
  obtain c0 s1 k s2 s3 where c0: "bind_thread tid c = Inr c0" and s1: "ensure_slot blocks (set_fiber f c0 s) f = Inr (s1, k)"
    and s2: "ensure_ctx entry s1 f k = Inr s2" and s3: "save_owner marker s2 f k = Inr s3"
    and s': "take_over (lock_owner s2 k) s3 f k = Inr s'"
    using assms by (auto simp: prepareSharedStack_def at_Some split: if_splits sum.splits)
  have f0: "fibers (set_fiber f c0 s) f = Some c0" by simp
  obtain c1 where c1: "fibers s1 f = Some c1" using keepsD [OF keeps_ensure_slot [OF s1 f0] f0] by blast
  have "\<exists>c2. fibers s2 f = Some c2 \<and> m_ctxInitialized c2"
    using s2 c1
    by (cases "m_ctxInitialized c1";
        cases "InitFiberContextStack entry (m_stack (use_slot k s1 c1)) (ucast (m_stacksize (use_slot k s1 c1)))")
      (auto simp: ensure_ctx_def at_Some initFiberContext_def Let_def split: if_splits)
  then obtain c2 where c2: "fibers s2 f = Some c2" "m_ctxInitialized c2" by blast
  have "keeps s2 s'" using keeps_save_owner [OF s3] keeps_take_over [OF s'] by (rule keeps_trans)
  from keepsD [OF this c2(1)] c2(2) show ?thesis by (auto simp: same_ctrl_def)
qed

lemma prepare_if_shared_ok:
  assumes p: "prepare_if_shared e w f = Inr w1" and f: "fibers (st w) f = Some c"
    and ok: "m_useSharedStack c \<or> m_ctxInitialized c"
  obtains s c1 where "w1 = w\<lparr>st := s\<rparr>" "keeps (st w) s" "fibers s f = Some c1" "same_ctrl c c1" "m_ctxInitialized c1"
proof (cases "m_useSharedStack c")
  case True
  with p f obtain s where s: "prepareSharedStack (e_blocks e) (e_entry e) (e_tid e) (e_marker e) (st w) f = Inr s"
    "w1 = w\<lparr>st := s\<rparr>"
    by (auto simp: prepare_if_shared_def fib_Some prepare_def split: sum.splits)
  note k = keeps_prepare [OF s(1) f]
  from keepsD [OF k f] prepare_init [OF s(1) f] show thesis using that [OF s(2) k] by auto
next
  case False
  with p f have "w1 = w\<lparr>st := st w\<rparr>" by (simp add: prepare_if_shared_def fib_Some)
  then show thesis by (rule that) (use f ok False in auto)
qed
lemma fibers_swap: "fibers (st (swapWithSanitizer a b w)) =
    (fibers (st w))(a \<mapsto> (fib w a)\<lparr>m_ctx := cpu w\<rparr>)"
  by (simp add: swapWithSanitizer_def Let_def put_fib_def)

lemma swap_thread [simp]:
  "t_fiber (st (swapWithSanitizer a b w)) = t_fiber (st w)"
  "t_fiber (st (SetThis f w)) = Some f" "fibers (st (SetThis f w)) = fibers (st w)"
  "t_fiber (st (put_fib f c w)) = t_fiber (st w)" "fibers (st (put_fib f c w)) = (fibers (st w))(f \<mapsto> c)"
  "cpu (SetThis f w) = cpu w" "cpu (put_fib f c w) = cpu w" "fib (SetThis g w) f = fib w f"
  by (simp_all add: swapWithSanitizer_def Let_def put_fib_def SetThis_def fib_def fiber_at_def)

lemma returns_to_frame [simp]:
  "returns_to (put_fib f d w) c = returns_to w c" "returns_to (SetThis f w) c = returns_to w c"
  "returns_to (swapWithSanitizer a b w) c = returns_to w c"
  "returns_to w (c\<lparr>m_ctx := x\<rparr>) = returns_to w c"
  by (simp_all add: returns_to_def base_thread) (simp add: base_def)

text \<open>Switching to a ready fiber puts it on the chain.\<close>

lemma push_inv:
  assumes inv: "chain_inv w ch sv" and f: "fibers (st w) f = Some c" "m_ctxInitialized c" "m_state c = READY"
    and c': "m_state c' = RUNNING" "m_ctxInitialized c'" "m_ctx c' = m_ctx c" "returns_to w c' = Some (hd ch)"
  shows "chain_inv (swapWithSanitizer (hd ch) f (SetThis f (put_fib f c' w))) (f # ch) (sv(hd ch := Some (cpu w)))"
    and "cpu (swapWithSanitizer (hd ch) f (SetThis f (put_fib f c' w))) = m_ctx c"
proof -
  let ?b = "hd ch" and ?u = "SetThis f (put_fib f c' w)"
  let ?w = "swapWithSanitizer (hd ch) f ?u"
  have nf: "f \<notin> set ch" using chain_fiber [OF inv f(1)] f(3) by auto
  have ne: "ch \<noteq> []" using inv by (simp add: chain_inv_def)
  then have hd: "?b \<in> set ch" by simp
  then have bf: "?b \<noteq> f" using nf by auto
  obtain cb where cb: "fibers (st w) ?b = Some cb" "m_ctxInitialized cb"
    using inv hd unfolding chain_inv_def by blast
  have fb: "fib ?u ?b = cb" using cb(1) bf by (simp add: fib_def fiber_at_def put_fib_def)
  have F: "fibers (st ?w) = (fibers (st w))(f \<mapsto> c', ?b \<mapsto> cb\<lparr>m_ctx := cpu w\<rparr>)"
    using fb by (simp add: fibers_swap)
  have at: "fib ?w g = (if g = ?b then cb\<lparr>m_ctx := cpu w\<rparr> else if g = f then c' else fib w g)" for g
    by (simp add: fib_def fiber_at_def F)
  have "linked ?w ch = linked w ch"
    by (rule linked_cong) (use nf fib_Some [OF cb(1)] in \<open>auto simp: at\<close>)
  moreover have "fib ?w f = c'" "linked w ch" using at bf inv by (simp_all add: chain_inv_def)
  ultimately have l: "linked ?w (f # ch)"
    using ne c'(4) by (cases ch) auto
  show "chain_inv ?w (f # ch) (sv(?b := Some (cpu w)))"
    unfolding chain_inv_def
  proof (intro conjI allI impI ballI)
    show "distinct (f # ch)" using inv nf by (simp add: chain_inv_def)
    show "t_fiber (st ?w) = Some (hd (f # ch))" by simp
    show "linked ?w (f # ch)" by (rule l)
    show "\<exists>d. fibers (st ?w) g = Some d \<and> m_ctxInitialized d" if "g \<in> set (f # ch)" for g
      using that inv c'(2) cb by (auto simp: chain_inv_def F)
    show "(sv(?b := Some (cpu w))) g \<noteq> None" if "g \<in> set (tl (f # ch))" for g
      using that inv by (cases ch) (auto simp: chain_inv_def)
    fix g d
    assume d: "fibers (st ?w) g = Some d"
    show "(m_state d = RUNNING) = (g \<in> set (f # ch))"
      using d inv c'(1) cb hd bf by (auto simp: chain_inv_def F split: if_splits)
    show "m_useSharedStack d \<or> m_ctxInitialized d"
      using d inv c'(2) cb by (auto simp: chain_inv_def F split: if_splits)
    show "\<not> m_returnToParent d" if "g \<notin> set (f # ch)"
      using d that inv hd by (auto simp: chain_inv_def F split: if_splits)
  next
    fix g x d
    assume x: "(sv(?b := Some (cpu w))) g = Some x" and d: "fibers (st ?w) g = Some d"
    show "m_ctxInitialized d" "m_ctx d = x"
      using x d inv f c'(2,3) cb bf by (auto simp: chain_inv_def F split: if_splits)
  qed simp
  show "cpu ?w = m_ctx c"
    using bf c'(3) by (simp add: swapWithSanitizer_def Let_def fib_def fiber_at_def put_fib_def SetThis_def)
qed

text \<open>
  Leaving the running fiber takes it off the chain; \<open>c'\<close> is what it leaves of itself, \<open>s\<close> the
  state in which the switch is made.
\<close>

lemma pop_inv:
  assumes inv: "chain_inv w (a # b # r) sv"
    and c': "m_state c' \<noteq> RUNNING" "m_ctxInitialized c'" "\<not> m_returnToParent c'"
    and k: "keeps (set_fiber a c' (st w)) s"
  shows "chain_inv (swapWithSanitizer a b (SetThis b (w\<lparr>st := s\<rparr>))) (b # r) (sv(a := Some (cpu w)))"
    and "Some (cpu (swapWithSanitizer a b (SetThis b (w\<lparr>st := s\<rparr>)))) = sv b"
    and "\<exists>d. fibers (st (swapWithSanitizer a b (SetThis b (w\<lparr>st := s\<rparr>)))) a = Some d \<and>
      m_state d = m_state c' \<and> m_ctx d = cpu w"
proof -
  let ?u = "SetThis b (w\<lparr>st := s\<rparr>)"
  let ?w = "swapWithSanitizer a b ?u"
  have ab: "a \<noteq> b" "a \<notin> set (b # r)" using inv by (auto simp: chain_inv_def)
  have old: "\<exists>c0. (if g = a then Some c' else fibers (st w) g) = Some c0 \<and> same_ctrl c0 d"
    if "fibers s g = Some d" for g d
    using k that by (force simp: keeps_def option_rel_Some2 dest: spec [of _ g])
  obtain ca where ca: "fibers s a = Some ca" "same_ctrl c' ca"
    using keepsD [OF k, of a c'] by auto
  have new: "\<exists>d. fibers s g = Some d \<and> same_ctrl c0 d" if "fibers (st w) g = Some c0" "g \<noteq> a" for g c0
    using keepsD [OF k, of g c0] that by simp
  have fa: "fib ?u a = ca" using ca(1) by (simp add: fib_def fiber_at_def SetThis_def)
  have F: "fibers (st ?w) = (fibers s)(a \<mapsto> ca\<lparr>m_ctx := cpu w\<rparr>)"
    using fa by (simp add: fibers_swap SetThis_def)
  have "linked ?w (b # r) = linked w (b # r)"
  proof (rule linked_cong)
    fix g assume g: "g \<in> set (b # r)"
    then have "g \<noteq> a" using ab by auto
    moreover obtain c0 where c0: "fibers (st w) g = Some c0" using inv g by (auto simp: chain_inv_def)
    moreover obtain d where "fibers s g = Some d" "same_ctrl c0 d" using new calculation by blast
    ultimately show "returns_to ?w (fib ?w g) = returns_to w (fib w g)"
      by (simp add: fib_def fiber_at_def F returns_to_same)
  qed
  then have l: "linked ?w (b # r)" using inv by (simp add: chain_inv_def)
  show "chain_inv ?w (b # r) (sv(a := Some (cpu w)))"
    unfolding chain_inv_def
  proof (intro conjI allI impI ballI)
    show "distinct (b # r)" using inv by (simp add: chain_inv_def)
    show "t_fiber (st ?w) = Some (hd (b # r))" by simp
    show "linked ?w (b # r)" by (rule l)
    show "\<exists>d. fibers (st ?w) g = Some d \<and> m_ctxInitialized d" if g: "g \<in> set (b # r)" for g
    proof -
      have "g \<noteq> a" using g ab by auto
      moreover obtain c0 where c0: "fibers (st w) g = Some c0" "m_ctxInitialized c0"
        using inv g by (auto simp: chain_inv_def)
      ultimately show ?thesis using new [of g c0] by (auto simp: F same_ctrl_def)
    qed
    show "(sv(a := Some (cpu w))) g \<noteq> None" if "g \<in> set (tl (b # r))" for g
      using that inv by (auto simp: chain_inv_def)
    fix g d
    assume d: "fibers (st ?w) g = Some d"
    have D: "\<exists>c0. (if g = a then Some c' else fibers (st w) g) = Some c0 \<and> m_state d = m_state c0 \<and>
        m_returnToParent d = m_returnToParent c0 \<and> m_useSharedStack d = m_useSharedStack c0 \<and>
        (m_ctxInitialized c0 \<longrightarrow> m_ctxInitialized d)"
      using d ca old [of g d] by (cases "g = a") (auto simp: F same_ctrl_def)
    show "(m_state d = RUNNING) = (g \<in> set (b # r))"
      using D chain_fiber [OF inv, of g] c'(1) ab by (cases "g = a") auto
    show "m_useSharedStack d \<or> m_ctxInitialized d"
      using D chain_fiber [OF inv, of g] c'(2) by (cases "g = a") auto
    show "\<not> m_returnToParent d" if "g \<notin> set (b # r)"
      using D that chain_fiber [OF inv, of g] c'(3) by (cases "g = a") auto
  next
    fix g x d
    assume x: "(sv(a := Some (cpu w))) g = Some x" and d: "fibers (st ?w) g = Some d"
    have "m_ctxInitialized d \<and> m_ctx d = x"
    proof (cases "g = a")
      case True
      with x d ca c'(2) show ?thesis by (auto simp: F same_ctrl_def)
    next
      case False
      with d old [of g d] obtain c0 where "fibers (st w) g = Some c0" "same_ctrl c0 d" by (auto simp: F)
      with False x inv show ?thesis by (auto simp: chain_inv_def same_ctrl_def)
    qed
    then show "m_ctxInitialized d" "m_ctx d = x" by blast+
  qed simp
  obtain cb where cb: "fibers (st w) b = Some cb" using inv by (auto simp: chain_inv_def)
  obtain x where x: "sv b = Some x" using inv by (auto simp: chain_inv_def)
  have "m_ctxInitialized cb \<and> m_ctx cb = x" using inv cb x by (auto simp: chain_inv_def)
  moreover obtain d where "fibers s b = Some d" "same_ctrl cb d" using new cb ab(1) by blast
  ultimately have "m_ctx (fib ?w b) = x" using ab(1) by (simp add: fib_def fiber_at_def F same_ctrl_def)
  then show "Some (cpu ?w) = sv b"
    using x by (simp add: swapWithSanitizer_def Let_def fib_def)
  show "\<exists>d. fibers (st ?w) a = Some d \<and> m_state d = m_state c' \<and> m_ctx d = cpu w"
    using ca(2) by (simp add: F same_ctrl_def)
qed
section \<open>The operations on the chain\<close>

lemma resume_step:
  assumes inv: "chain_inv w ch sv" and f: "fibers (st w) f = Some c" and b: "base w c = Some (hd ch)"
    and r: "resume e w f = Inr w'"
  shows "chain_inv w' (f # ch) (sv(hd ch := Some (cpu w)))" and "m_state c = READY"
    and "sv f = Some x \<longrightarrow> cpu w' = x"
proof -
  show rd: "m_state c = READY" using r fib_Some [OF f] by (simp add: resume_def split: if_splits)
  note ok = chain_fiber [OF inv f]
  obtain w1 where w1: "prepare_if_shared e w f = Inr w1"
    using r rd fib_Some [OF f] by (auto simp: resume_def split: sum.splits)
  obtain s c1 where s: "w1 = w\<lparr>st := s\<rparr>" "keeps (st w) s" "fibers s f = Some c1" "same_ctrl c c1" "m_ctxInitialized c1"
    using prepare_if_shared_ok [OF w1 f] ok by blast
  have i1: "chain_inv w1 ch sv" using keeps_inv [OF inv s(2)] s(1) by simp
  have f1: "fibers (st w1) f = Some c1" "fib w1 f = c1" using s(1,3) by (simp_all add: fib_def fiber_at_def)
  let ?c = "c1\<lparr>m_state := RUNNING\<rparr>"
  have "\<not> m_returnToParent c" using ok rd by auto
  then have ret: "returns_to w1 ?c = Some (hd ch)"
    using s(1,4) b by (auto simp: returns_to_def base_def same_ctrl_def split: if_splits)
  have "base w1 ?c = Some (hd ch)" using s(1,4) b by (auto simp: base_def same_ctrl_def split: if_splits)
  then have w': "w' = swapWithSanitizer (hd ch) f (SetThis f (put_fib f ?c w1))"
    using r rd fib_Some [OF f] w1 f1(2)
    by (simp add: resume_def Let_def base_thread fib_def put_fib_def)
  note P = push_inv [OF i1 f1(1) s(5), of ?c, OF _ _ _ _ ret]
  have "chain_inv w' (f # ch) (sv(hd ch := Some (cpu w1)))" "cpu w' = m_ctx c1"
    unfolding w' using P rd s(4,5) by (simp_all add: same_ctrl_def)
  moreover have "cpu w1 = cpu w" by (simp add: s(1))
  ultimately show "chain_inv w' (f # ch) (sv(hd ch := Some (cpu w)))" and "sv f = Some x \<longrightarrow> cpu w' = x"
    using i1 f1(1) by (auto simp: chain_inv_def)
qed

lemma call_step:
  assumes inv: "chain_inv w ch sv" and f: "fibers (st w) f = Some c" and r: "call e w g f = Inr (w', None)"
  shows "chain_inv w' (f # ch) (sv(hd ch := Some (cpu w)))" and "m_state c = READY"
    and "sv f = Some x \<longrightarrow> cpu w' = x"
proof -
  show rd: "m_state c = READY" using r fib_Some [OF f] by (simp add: call_def split: if_splits)
  note ok = chain_fiber [OF inv f]
  have gt: "GetThis g w = (w, hd ch)" using inv by (simp add: GetThis_def chain_inv_def)
  obtain w1 where w1: "prepare_if_shared e w f = Inr w1"
    using r rd fib_Some [OF f] gt by (auto simp: call_def split: sum.splits if_splits)
  obtain s c1 where s: "w1 = w\<lparr>st := s\<rparr>" "keeps (st w) s" "fibers s f = Some c1" "same_ctrl c c1" "m_ctxInitialized c1"
    using prepare_if_shared_ok [OF w1 f] ok by blast
  have i1: "chain_inv w1 ch sv" using keeps_inv [OF inv s(2)] s(1) by simp
  have f1: "fibers (st w1) f = Some c1" "fib w1 f = c1" using s(1,3) by (simp_all add: fib_def fiber_at_def)
  let ?c = "c1\<lparr>m_parent := Some (hd ch), m_returnToParent := True, m_state := RUNNING\<rparr>"
  have ret: "returns_to w1 ?c = Some (hd ch)" by (simp add: returns_to_def)
  have w': "w' = swapWithSanitizer (hd ch) f (SetThis f (put_fib f ?c w1))"
    using r rd fib_Some [OF f] gt w1 f1(2) by (simp add: call_def Let_def split: if_splits)
  note P = push_inv [OF i1 f1(1) s(5), of ?c, OF _ _ _ _ ret]
  have "chain_inv w' (f # ch) (sv(hd ch := Some (cpu w1)))" "cpu w' = m_ctx c1"
    unfolding w' using P rd s(4,5) by (simp_all add: same_ctrl_def)
  moreover have "cpu w1 = cpu w" by (simp add: s(1))
  ultimately show "chain_inv w' (f # ch) (sv(hd ch := Some (cpu w)))" and "sv f = Some x \<longrightarrow> cpu w' = x"
    using i1 f1(1) by (auto simp: chain_inv_def)
qed

text \<open>Both ends of a fiber's turn: \<open>c0\<close> is \<open>READY\<close> or \<open>TERMINATED\<close>.\<close>

lemma leave_step:
  assumes inv: "chain_inv w (a # b # r) sv" and a: "fibers (st w) a = Some ca"
    and c0: "c0 = ca\<lparr>m_state := q, f_cb := cb\<rparr>" "q \<noteq> RUNNING"
    and y: "yield_switch e (put_fib a c0 w) a = Inr w'"
  shows "chain_inv w' (b # r) (sv(a := Some (cpu w)))" and "Some (cpu w') = sv b"
    and "\<exists>d. fibers (st w') a = Some d \<and> m_state d = q \<and> m_ctx d = cpu w"
proof -
  let ?w = "put_fib a c0 w"
  obtain cb' where b: "fibers (st w) b = Some cb'" using inv by (auto simp: chain_inv_def)
  have ab: "a \<noteq> b" using inv by (auto simp: chain_inv_def)
  have ret: "returns_to w ca = Some b" using inv fib_Some [OF a] by (simp add: chain_inv_def)
  have init: "m_ctxInitialized ca" using inv a by (auto simp: chain_inv_def)
  have fa: "fib ?w a = c0" by (simp add: fib_def fiber_at_def put_fib_def)
  have "\<exists>c' s. w' = swapWithSanitizer a b (SetThis b (w\<lparr>st := s\<rparr>)) \<and> keeps (set_fiber a c' (st w)) s \<and>
      m_state c' = q \<and> m_ctxInitialized c' \<and> \<not> m_returnToParent c'"
  proof (cases "m_returnToParent ca")
    case True
    let ?c = "c0\<lparr>m_parent := None, m_returnToParent := False\<rparr>"
    have "m_parent ca = Some b" using ret True by (simp add: returns_to_def)
    then have lp: "lock_parent ?w a = Some b" using b ab fa by (simp add: lock_parent_def c0(1))
    have put: "put_fib a ?c ?w = put_fib a ?c w" by (simp add: put_fib_def set_fiber_def)
    from y True lp fa obtain w2 where w2: "prepare_if_shared e (put_fib a ?c w) b = Inr w2"
      "w' = swapWithSanitizer a b (SetThis b w2)"
      by (auto simp: yield_switch_def c0(1) Fiber_back_def Let_def put [unfolded c0(1)] split: sum.splits)
    have bs: "fibers (st (put_fib a ?c w)) b = Some cb'" using b ab by simp
    have "m_useSharedStack cb' \<or> m_ctxInitialized cb'" using chain_fiber [OF inv b] by simp
    then obtain s where "w2 = (put_fib a ?c w)\<lparr>st := s\<rparr>" "keeps (st (put_fib a ?c w)) s"
      using prepare_if_shared_ok [OF w2(1) bs] by blast
    then have "w2 = w\<lparr>st := s\<rparr>" "keeps (set_fiber a ?c (st w)) s" by (simp_all add: put_fib_def)
    then show ?thesis using w2(2) init
      by (intro exI [of _ ?c] exI [of _ s]) (simp add: c0(1))
  next
    case False
    then have "base ?w c0 = Some b" using ret by (auto simp: returns_to_def base_def put_fib_def c0(1) split: if_splits)
    then have "w' = swapWithSanitizer a b (SetThis b ?w)"
      using y fa False by (simp add: yield_switch_def c0(1))
    then show ?thesis using init False
      by (intro exI [of _ c0] exI [of _ "st ?w"]) (simp add: put_fib_def c0(1))
  qed
  then obtain c' s where P: "w' = swapWithSanitizer a b (SetThis b (w\<lparr>st := s\<rparr>))" "keeps (set_fiber a c' (st w)) s"
    "m_state c' = q" "m_ctxInitialized c'" "\<not> m_returnToParent c'" by blast
  note pop = pop_inv [OF inv _ P(4,5,2), unfolded P(3), OF c0(2)]
  show "chain_inv w' (b # r) (sv(a := Some (cpu w)))" "Some (cpu w') = sv b"
    "\<exists>d. fibers (st w') a = Some d \<and> m_state d = q \<and> m_ctx d = cpu w"
    using pop by (simp_all add: P(1))
qed

lemma leave_total:
  assumes inv: "chain_inv w (a # b # r) sv" and a: "fibers (st w) a = Some ca"
    and c0: "c0 = ca\<lparr>m_state := q, f_cb := cb\<rparr>" and ns: "\<not> m_useSharedStack (fib w b)"
  shows "\<exists>w'. yield_switch e (put_fib a c0 w) a = Inr w'"
proof -
  obtain cb' where b: "fibers (st w) b = Some cb'" using inv by (auto simp: chain_inv_def)
  have ab: "a \<noteq> b" using inv by (auto simp: chain_inv_def)
  have ret: "returns_to w ca = Some b" using inv fib_Some [OF a] by (simp add: chain_inv_def)
  have fa: "fib (put_fib a c w) a = c" "fib (put_fib a c w) b = fib w b" for c
    using ab by (simp_all add: fib_def fiber_at_def put_fib_def)
  have put: "put_fib a d (put_fib a c w) = put_fib a d w" for c d by (simp add: put_fib_def set_fiber_def)
  show ?thesis
  proof (cases "m_returnToParent ca")
    case True
    then have "lock_parent (put_fib a c0 w) a = Some b"
      using ret b ab fa(1) [of c0] by (simp add: lock_parent_def c0 returns_to_def)
    then show ?thesis using True ns
      by (simp add: yield_switch_def fa c0 Fiber_back_def Let_def put prepare_if_shared_def)
  next
    case False
    then have "base (put_fib a c0 w) c0 = Some b" using ret by (auto simp: returns_to_def base_def put_fib_def c0 split: if_splits)
    then show ?thesis using False by (simp add: yield_switch_def fa c0)
  qed
qed
section \<open>Runs\<close>

text \<open>
  The life of a thread from its first \<^verbatim>\<open>GetThis\<close>. \<open>thread_exec\<close>: the running code changes
  registers, memory and other stacks; \<open>thread_arrive\<close>: a fiber is made, or comes from another
  thread; \<open>thread_gone\<close>: one is destroyed or leaves. A fiber is resumed from the fiber it
  belongs to, as the scheduler does; it may be called from anywhere. The scheduler fiber is set
  while no fiber that returns to it is active.
\<close>

inductive thread_run :: "Env \<Rightarrow> Thread_State \<Rightarrow> fid list \<Rightarrow> (fid \<Rightarrow> FiberContext option) \<Rightarrow> bool" for e where
  thread_start: "t_fiber (st w) = None \<Longrightarrow> fibers (st w) = Map.empty \<Longrightarrow>
    thread_run e (fst (GetThis m w)) [m] Map.empty"
| thread_exec: "thread_run e w ch sv \<Longrightarrow> fibers s = fibers (st w) \<Longrightarrow> t_fiber s = t_fiber (st w) \<Longrightarrow>
    thread_run e (w\<lparr>st := s, cpu := x\<rparr>) ch sv"
| thread_arrive: "thread_run e w ch sv \<Longrightarrow> fibers (st w) f = None \<Longrightarrow> m_state c \<noteq> RUNNING \<Longrightarrow>
    \<not> m_returnToParent c \<Longrightarrow> m_useSharedStack c \<or> m_ctxInitialized c \<Longrightarrow>
    thread_run e (put_fib f c w) ch (sv(f := None))"
| thread_gone: "thread_run e w ch sv \<Longrightarrow> f \<notin> set ch \<Longrightarrow>
    thread_run e (w\<lparr>st := (st w)\<lparr>fibers := (fibers (st w))(f := None)\<rparr>\<rparr>) ch sv"
| thread_sched: "thread_run e w ch sv \<Longrightarrow>
    (\<forall>f \<in> set ch. m_returnToParent (fib w f) \<or> \<not> m_runInScheduler (fib w f) \<or> f = last ch) \<Longrightarrow>
    thread_run e (SetSchedulerFiber f w) ch sv"
| thread_reset: "thread_run e w ch sv \<Longrightarrow> fibers (st w) f \<noteq> None \<Longrightarrow>
    fiber_reset (e_entry e) (st w) f cb = Inr s \<Longrightarrow> thread_run e (w\<lparr>st := s\<rparr>) ch (sv(f := None))"
| thread_resume: "thread_run e w ch sv \<Longrightarrow> fibers (st w) f \<noteq> None \<Longrightarrow> base w (fib w f) = Some (hd ch) \<Longrightarrow>
    resume e w f = Inr w' \<Longrightarrow> thread_run e w' (f # ch) (sv(hd ch := Some (cpu w)))"
| thread_call: "thread_run e w ch sv \<Longrightarrow> fibers (st w) f \<noteq> None \<Longrightarrow> call e w g f = Inr (w', None) \<Longrightarrow>
    thread_run e w' (f # ch) (sv(hd ch := Some (cpu w)))"
| thread_returned: "thread_run e w ch sv \<Longrightarrow> fibers (st w) f \<noteq> None \<Longrightarrow> f \<notin> set ch \<Longrightarrow>
    thread_run e (fst (call_return w f)) ch sv"
| thread_yield: "thread_run e w (a # b # r) sv \<Longrightarrow> yield e w a = Inr w' \<Longrightarrow>
    thread_run e w' (b # r) (sv(a := Some (cpu w)))"
| thread_finish: "thread_run e w (a # b # r) sv \<Longrightarrow> MainFunc_end e w a = Inr w' \<Longrightarrow>
    thread_run e w' (b # r) (sv(a := Some (cpu w)))"

lemma chain_running:
  assumes "chain_inv w (a # r) sv"
  obtains ca where "fibers (st w) a = Some ca" "fib w a = ca" "m_state ca = RUNNING"
proof -
  obtain ca where ca: "fibers (st w) a = Some ca" using assms by (auto simp: chain_inv_def)
  with chain_fiber [OF assms ca] that fib_Some [OF ca] show thesis by simp
qed

lemma yield_eq:
  assumes "chain_inv w (a # r) sv" and "fibers (st w) a = Some ca"
  shows "yield e w a = yield_switch e (put_fib a (ca\<lparr>m_state := READY, f_cb := f_cb ca\<rparr>) w) a"
    and "MainFunc_end e w a = yield_switch e (put_fib a (ca\<lparr>m_state := TERMINATED, f_cb := None\<rparr>) w) a"
proof -
  have "fib w a = ca" "m_state ca = RUNNING" using assms(2) chain_fiber [OF assms] by (simp_all add: fib_Some)
  then show "yield e w a = yield_switch e (put_fib a (ca\<lparr>m_state := READY, f_cb := f_cb ca\<rparr>) w) a"
    by (simp add: yield_def Let_def)
  have "fib (put_fib a c w) a = c" for c by (simp add: fib_def fiber_at_def put_fib_def)
  then have "MainFunc_end e w a = yield_switch e (put_fib a (ca\<lparr>f_cb := None, m_state := TERMINATED\<rparr>) w) a"
    using \<open>fib w a = ca\<close> by (simp add: MainFunc_end_def yield_def Let_def)
  moreover have "ca\<lparr>f_cb := None, m_state := TERMINATED\<rparr> = ca\<lparr>m_state := TERMINATED, f_cb := None\<rparr>" by simp
  ultimately show "MainFunc_end e w a = yield_switch e (put_fib a (ca\<lparr>m_state := TERMINATED, f_cb := None\<rparr>) w) a"
    by (simp only:)
qed

lemma thread_start_inv:
  assumes "t_fiber (st w) = None" and "fibers (st w) = Map.empty"
  shows "chain_inv (fst (GetThis m w)) [m] Map.empty"
  using assms
  by (simp add: GetThis_def Fiber_main_def count_fiber_def chain_inv_def put_fib_def SetThis_def new_Fiber_def)

text \<open>A change to a fiber that is not on the chain.\<close>

lemma outside_inv:
  assumes inv: "chain_inv w ch sv" and f: "f \<notin> set ch" and s: "fibers s = (fibers (st w))(f := d)" "t_fiber s = t_fiber (st w)"
    and d: "\<forall>c. d = Some c \<longrightarrow> m_state c \<noteq> RUNNING \<and> \<not> m_returnToParent c \<and> (m_useSharedStack c \<or> m_ctxInitialized c)"
    and sv: "sv' = sv \<or> sv' = sv(f := None)" "\<forall>c x. d = Some c \<longrightarrow> sv' f = Some x \<longrightarrow> m_ctxInitialized c \<and> m_ctx c = x"
  shows "chain_inv (w\<lparr>st := s\<rparr>) ch sv'"
proof -
  have "linked (w\<lparr>st := s\<rparr>) ch = linked w ch"
    by (rule linked_cong) (use f s(1) in \<open>auto simp: fib_def fiber_at_def\<close>)
  moreover have "\<forall>g \<in> set (tl ch). sv' g \<noteq> None"
    using inv f sv(1) by (cases ch) (auto simp: chain_inv_def)
  moreover have "m_ctxInitialized c \<and> m_ctx c = x" if "sv' g = Some x" "fibers s g = Some c" for g x c
    using that inv sv s(1) by (cases "g = f") (auto simp: chain_inv_def)
  moreover have "(m_state c = RUNNING) = (g \<in> set ch) \<and> (g \<notin> set ch \<longrightarrow> \<not> m_returnToParent c) \<and>
      (m_useSharedStack c \<or> m_ctxInitialized c)" if "fibers s g = Some c" for g c
    using that chain_fiber [OF inv, of g c] f d s(1) by (cases "g = f") auto
  ultimately show ?thesis using inv f s by (auto simp: chain_inv_def)
qed

lemma reset_shape:
  assumes r: "fiber_reset entry s f cb = Inr s'" and f: "fibers s f = Some c"
  shows "m_state c = TERMINATED \<and> (\<exists>c'. fibers s' = (fibers s)(f \<mapsto> c') \<and> t_fiber s' = t_fiber s \<and>
    m_state c' = READY \<and> \<not> m_returnToParent c' \<and> (m_useSharedStack c' \<or> m_ctxInitialized c'))"
proof -
  have i: "\<exists>c'. fibers u' = (fibers u)(f \<mapsto> c') \<and> t_fiber u' = t_fiber u \<and> m_state c' = m_state d \<and>
      m_returnToParent c' = m_returnToParent d \<and> m_ctxInitialized c'"
    if "initFiberContext entry u f = Inr u'" "fiber_at u f = d" for u u' d
    using that by (cases "InitFiberContextStack entry (m_stack d) (ucast (m_stacksize d))")
      (auto simp: initFiberContext_def Let_def split: if_splits)
  let ?c = "c\<lparr>m_state := READY, f_cb := cb, m_stackSnapshot := [], m_parent := None, m_returnToParent := False\<rparr>"
  have t: "m_state c = TERMINATED" using r at_Some [OF f] by (simp add: fiber_reset_def split: if_splits)
  show ?thesis
  proof (cases "m_useSharedStack c")
    case False
    then have "initFiberContext entry (set_fiber f ?c s) f = Inr s'"
      using r t at_Some [OF f] by (auto simp: fiber_reset_def Let_def split: if_splits)
    from i [OF this] show ?thesis using t by auto
  next
    case sh: True
    show ?thesis
    proof (cases "m_sharedStackSlot c")
      case None
      with sh r t at_Some [OF f] show ?thesis by (auto simp: fiber_reset_def Let_def)
    next
      case (Some k)
      then have "initFiberContext entry (set_fiber f (use_slot k (set_fiber f ?c s) ?c) (set_fiber f ?c s)) f = Inr s'"
        using r t sh at_Some [OF f] by (simp add: fiber_reset_def Let_def)
      from i [OF this] show ?thesis using t by (auto simp: use_slot_def)
    qed
  qed
qed

lemma thread_run_inv: "thread_run e w ch sv \<Longrightarrow> chain_inv w ch sv"
proof (induction rule: thread_run.induct)
  case (thread_start w m)
  then show ?case by (rule thread_start_inv)
next
  case (thread_exec w ch sv s x)
  have "linked (w\<lparr>st := s, cpu := x\<rparr>) ch = linked w ch"
    by (rule linked_cong) (use thread_exec(2) in \<open>simp add: fib_def fiber_at_def returns_to_def base_def\<close>)
  then show ?case using thread_exec(2,3,4) by (simp add: chain_inv_def)
next
  case (thread_arrive w ch sv f c)
  then have "f \<notin> set ch" by (auto simp: chain_inv_def)
  with thread_arrive have "chain_inv (w\<lparr>st := set_fiber f c (st w)\<rparr>) ch (sv(f := None))"
    by (intro outside_inv [where d = "Some c"]) auto
  then show ?case by (simp add: put_fib_def del: fun_upd_apply)
next
  case (thread_gone w ch sv f)
  then show ?case by (intro outside_inv [where d = None]) auto
next
  case (thread_sched w ch sv f)
  have "linked (SetSchedulerFiber f w) ch" if "linked w ch" "distinct ch"
      "\<forall>g \<in> set ch. m_returnToParent (fib w g) \<or> \<not> m_runInScheduler (fib w g) \<or> g = last ch" for ch
    using that
  proof (induction w ch rule: linked.induct)
    case (1 w a b r)
    then have "a \<noteq> last (b # r)" by auto
    with 1 show ?case
      by (auto simp: fib_def SetSchedulerFiber_def returns_to_def base_def split: if_splits)
  qed auto
  with thread_sched show ?case by (auto simp: chain_inv_def SetSchedulerFiber_def)
next
  case (thread_reset w ch sv f cb s)
  then obtain c where c: "fibers (st w) f = Some c" by auto
  from reset_shape [OF thread_reset(3) c] obtain c' where "m_state c = TERMINATED" "fibers s = (fibers (st w))(f \<mapsto> c')"
    "t_fiber s = t_fiber (st w)" "m_state c' = READY" "\<not> m_returnToParent c'"
    "m_useSharedStack c' \<or> m_ctxInitialized c'" by blast
  moreover have "f \<notin> set ch" using chain_fiber [OF thread_reset(4) c] calculation(1) by auto
  ultimately show ?case using thread_reset(4) by (intro outside_inv [where d = "Some c'"]) auto
next
  case (thread_resume w ch sv f w')
  then obtain c where c: "fibers (st w) f = Some c" by auto
  with thread_resume fib_Some [OF c] show ?case using resume_step(1) by metis
next
  case (thread_call w ch sv f g w')
  then obtain c where c: "fibers (st w) f = Some c" by auto
  with thread_call show ?case using call_step(1) by metis
next
  case (thread_returned w ch sv f)
  then obtain c where c: "fibers (st w) f = Some c" by auto
  note ok = chain_fiber [OF thread_returned(4) c]
  have "chain_inv (w\<lparr>st := set_fiber f (c\<lparr>m_parent := None, m_returnToParent := False\<rparr>) (st w)\<rparr>) ch sv"
  proof (rule outside_inv [OF thread_returned(4,3)])
    have "\<forall>x. sv f = Some x \<longrightarrow> m_ctxInitialized c \<and> m_ctx c = x"
      using thread_returned(4) c by (simp add: chain_inv_def)
    then show "\<forall>d x. Some (c\<lparr>m_parent := None, m_returnToParent := False\<rparr>) = Some d \<longrightarrow> sv f = Some x \<longrightarrow>
        m_ctxInitialized d \<and> m_ctx d = x" by auto
  qed (use ok thread_returned(3) in auto)
  then show ?case using fib_Some [OF c] by (simp add: call_return_def put_fib_def)
next
  case (thread_yield w a b r sv w')
  from thread_yield(3) obtain ca where ca: "fibers (st w) a = Some ca" by (rule chain_running)
  show ?case
    by (rule leave_step(1) [OF thread_yield(3) ca refl _ thread_yield(2) [unfolded yield_eq(1) [OF thread_yield(3) ca]]])
      simp
next
  case (thread_finish w a b r sv w')
  from thread_finish(3) obtain ca where ca: "fibers (st w) a = Some ca" by (rule chain_running)
  show ?case
    by (rule leave_step(1) [OF thread_finish(3) ca refl _ thread_finish(2) [unfolded yield_eq(2) [OF thread_finish(3) ca]]])
      simp
qed
section \<open>Properties\<close>

text \<open>Entering a fiber, and leaving the current one.\<close>

lemma chain_enters:
  assumes inv: "chain_inv w (a # r) sv" and x: "sv f = Some x" and f: "fibers (st w) f \<noteq> None"
    and e: "resume e w f = Inr w' \<and> base w (fib w f) = Some a \<or> call e w g f = Inr (w', None)"
  shows "cpu w' = x \<and> t_fiber (st w') = Some f"
proof -
  obtain c where c: "fibers (st w) f = Some c" using f by auto
  show ?thesis
  proof (cases "call e w g f = Inr (w', None)")
    case True
    from call_step [OF inv c True] x show ?thesis by (auto simp: chain_inv_def)
  next
    case False
    with e have r: "resume e w f = Inr w'" "base w c = Some (hd (a # r))" using fib_Some [OF c] by auto
    from resume_step [OF inv c r(2,1)] x show ?thesis by (auto simp: chain_inv_def)
  qed
qed

lemma chain_leaves:
  assumes inv: "chain_inv w (a # b # r) sv"
  shows "yield e w a = Inr w' \<Longrightarrow> t_fiber (st w') = Some b \<and> sv b = Some (cpu w') \<and>
      (\<exists>d. fibers (st w') a = Some d \<and> m_state d = READY \<and> m_ctx d = cpu w)"
    and "MainFunc_end e w a = Inr w' \<Longrightarrow> t_fiber (st w') = Some b \<and> sv b = Some (cpu w') \<and>
      (\<exists>d. fibers (st w') a = Some d \<and> m_state d = TERMINATED \<and> m_ctx d = cpu w)"
    and "\<not> m_useSharedStack (fib w b) \<Longrightarrow> \<exists>w'. yield e w a = Inr w'"
proof -
  obtain ca where ca: "fibers (st w) a = Some ca" using chain_running [OF inv] by blast
  note L = leave_step [OF inv ca refl]
  show "t_fiber (st w') = Some b \<and> sv b = Some (cpu w') \<and>
      (\<exists>d. fibers (st w') a = Some d \<and> m_state d = READY \<and> m_ctx d = cpu w)" if "yield e w a = Inr w'"
    using L [where q = READY and cb = "f_cb ca" and e = e and w' = w'] that
    unfolding yield_eq(1) [OF inv ca] by (auto simp: chain_inv_def)
  show "t_fiber (st w') = Some b \<and> sv b = Some (cpu w') \<and>
      (\<exists>d. fibers (st w') a = Some d \<and> m_state d = TERMINATED \<and> m_ctx d = cpu w)" if "MainFunc_end e w a = Inr w'"
    using L [where q = TERMINATED and cb = None and e = e and w' = w'] that
    unfolding yield_eq(2) [OF inv ca] by (auto simp: chain_inv_def)
  show "\<exists>w'. yield e w a = Inr w'" if "\<not> m_useSharedStack (fib w b)"
    using leave_total [OF inv ca refl that] unfolding yield_eq(1) [OF inv ca] by blast
qed

text \<open>
  Property C9. Switching keeps to the chain. In every run of a thread the current fiber is the
  running one, exactly the fibers on the chain are \<^verbatim>\<open>RUNNING\<close>, and no fiber is on it twice;
  a fiber that is resumed or called again goes on with the registers it had when it was switched
  out; a fiber that yields or ends gives control to the one that resumed or called it, which
  goes on with the registers it had then, and is left \<^verbatim>\<open>READY\<close> or \<^verbatim>\<open>TERM\<close> with its own
  registers saved. A yield can fail only in preparing the shared stack of that other fiber.
\<close>

theorem fiber_chain:
  assumes "thread_run e w (a # r) sv"
  shows "t_fiber (st w) = Some a \<and> distinct (a # r) \<and>
    (\<forall>f c. fibers (st w) f = Some c \<longrightarrow> (m_state c = RUNNING) = (f \<in> set (a # r))) \<and>
    (\<forall>f x g w'. sv f = Some x \<and> fibers (st w) f \<noteq> None \<and>
       (resume e w f = Inr w' \<and> base w (fib w f) = Some a \<or> call e w g f = Inr (w', None)) \<longrightarrow>
         cpu w' = x \<and> t_fiber (st w') = Some f) \<and>
    (\<forall>b r'. r = b # r' \<longrightarrow>
       (\<forall>w'. yield e w a = Inr w' \<longrightarrow> t_fiber (st w') = Some b \<and> sv b = Some (cpu w') \<and>
          (\<exists>d. fibers (st w') a = Some d \<and> m_state d = READY \<and> m_ctx d = cpu w)) \<and>
       (\<forall>w'. MainFunc_end e w a = Inr w' \<longrightarrow> t_fiber (st w') = Some b \<and> sv b = Some (cpu w') \<and>
          (\<exists>d. fibers (st w') a = Some d \<and> m_state d = TERMINATED \<and> m_ctx d = cpu w)) \<and>
       (\<not> m_useSharedStack (fib w b) \<longrightarrow> (\<exists>w'. yield e w a = Inr w')))"
proof (intro conjI allI impI)
  note inv = thread_run_inv [OF assms]
  show "t_fiber (st w) = Some a" "distinct (a # r)" using inv by (simp_all add: chain_inv_def)
  show "(m_state c = RUNNING) = (f \<in> set (a # r))" if "fibers (st w) f = Some c" for f c
    using chain_fiber [OF inv that] by simp
  fix f x g w'
  assume "sv f = Some x \<and> fibers (st w) f \<noteq> None \<and>
    (resume e w f = Inr w' \<and> base w (fib w f) = Some a \<or> call e w g f = Inr (w', None))"
  then show "cpu w' = x" "t_fiber (st w') = Some f" using chain_enters [OF inv, of f x e w' g] by blast+
next
  fix b r'
  assume "r = b # r'"
  note L = chain_leaves [OF thread_run_inv [OF assms, unfolded this], where e = e]
  show "t_fiber (st w') = Some b" "sv b = Some (cpu w')"
    "\<exists>d. fibers (st w') a = Some d \<and> m_state d = READY \<and> m_ctx d = cpu w" if "yield e w a = Inr w'" for w'
    using L(1) [OF that] by blast+
  show "t_fiber (st w') = Some b" "sv b = Some (cpu w')"
    "\<exists>d. fibers (st w') a = Some d \<and> m_state d = TERMINATED \<and> m_ctx d = cpu w" if "MainFunc_end e w a = Inr w'" for w'
    using L(2) [OF that] by blast+
  show "\<exists>w'. yield e w a = Inr w'" if "\<not> m_useSharedStack (fib w b)" by (rule L(3) [OF that])
qed

text \<open>The main fiber 0 resumes the fiber 1, which runs and yields.\<close>

definition two_env :: Env where
  "two_env = \<lparr>e_blocks = (\<lambda>_. 4096), e_entry = 1, e_tid = 5, e_marker = 0\<rparr>"

definition fresh_thread :: Thread_State where
  "fresh_thread = \<lparr>st = \<lparr>fibers = Map.empty, slots = (\<lambda>_. \<lparr>slot_stack = 0, slot_size = 0, slot_owner = None\<rparr>),
      n_slots = 0, t_shared_stack_pools = Map.empty, s_shared_stack_slot_count = 8, mem = (\<lambda>_. 0), t_fiber = None\<rparr>,
    t_thread_fiber = None, t_scheduler_fiber = None, s_fiber_id = 0, s_fiber_count = 0,
    cpu = empty_FiberContext\<lparr>c_rsp := 7000\<rparr>\<rparr>"

definition ready_child :: Fiber where
  "ready_child = (new_Fiber 1 None 0 True False)\<lparr>m_ctx := empty_FiberContext\<lparr>c_rsp := 4096, c_rip := 1\<rparr>,
     m_ctxInitialized := True\<rparr>"

definition main_only :: Thread_State where
  "main_only = put_fib 1 ready_child (fst (GetThis 0 fresh_thread))"

definition child_runs :: Thread_State where
  "child_runs = projr (resume two_env main_only 1)"

lemmas fiber_defs = main_only_def ready_child_def fresh_thread_def GetThis_def Fiber_main_def count_fiber_def put_fib_def
  SetThis_def fib_def fiber_at_def new_Fiber_def set_fiber_def

lemma child_runs_eq: "resume two_env main_only 1 = Inr child_runs"
  by (simp add: child_runs_def resume_def prepare_if_shared_def base_def Let_def fiber_defs)

lemma child_run: "thread_run two_env child_runs [1, 0] ((Map.empty(1 := None))(0 := Some (cpu main_only)))"
proof -
  have "thread_run two_env (fst (GetThis 0 fresh_thread)) [0] Map.empty"
    by (rule thread_start) (simp_all add: fresh_thread_def)
  then have "thread_run two_env main_only [0] (Map.empty(1 := None))"
    unfolding main_only_def
    by (rule thread_arrive) (simp_all add: fiber_defs)
  then show ?thesis
    using thread_resume [OF _ _ _ child_runs_eq] by (simp add: fiber_defs base_def)
qed

theorem fiber_chain_witness:
  "\<exists>w'. yield two_env child_runs 1 = Inr w' \<and> t_fiber (st w') = Some 0 \<and> c_rsp (cpu w') = 7000"
proof -
  note C = fiber_chain [OF child_run, THEN conjunct2, THEN conjunct2, THEN conjunct2, THEN conjunct2, THEN spec [of _ 0],
      THEN spec [of _ "[]"], THEN mp, OF refl]
  have "\<not> m_useSharedStack (fib child_runs 0)"
    by (simp add: child_runs_def resume_def prepare_if_shared_def base_def Let_def fiber_defs swapWithSanitizer_def)
  then obtain w' where w': "yield two_env child_runs 1 = Inr w'"
    using C [THEN conjunct2, THEN conjunct2] by blast
  have "((Map.empty(1 := None))(0 := Some (cpu main_only))) (0 :: fid) = Some (cpu w') \<and> t_fiber (st w') = Some 0"
    using C [THEN conjunct1, THEN spec [of _ w'], THEN mp, OF w'] by (elim conjE) (intro conjI)
  moreover have "c_rsp (cpu main_only) = 7000" by (simp add: fiber_defs)
  ultimately have "t_fiber (st w') = Some 0 \<and> c_rsp (cpu w') = 7000" by simp
  then show ?thesis using w' by blast
qed

text \<open>
  The result of \<^verbatim>\<open>call\<close>: a fiber that is not ready is refused, and that includes the
  caller itself and everybody on the chain; a shared-stack fiber is refused from a shared-stack
  fiber; any other call switches to the fiber, unless preparing its shared stack fails, and does
  not return a code. The codes for a call to oneself and for a missing current fiber are never
  returned. \<^verbatim>\<open>resume\<close> of a fiber that is not ready fails its assertion.
\<close>

theorem call_codes:
  assumes "thread_run e w (a # r) sv" and "fibers (st w) f = Some c"
  shows "(m_state c \<noteq> READY \<longrightarrow> call e w g f = Inr (w, Some CALL_ERR_NOT_READY) \<and> resume e w f = Inl Assertion_Failed) \<and>
    (f \<in> set (a # r) \<longrightarrow> m_state c \<noteq> READY) \<and>
    (m_state c = READY \<longrightarrow>
       (if m_useSharedStack c \<and> m_useSharedStack (fib w a)
        then call e w g f = Inr (w, Some CALL_ERR_SHARED_NESTED_UNSUPPORTED)
        else m_useSharedStack c \<and> (\<exists>err. prepare e (st w) f = Inl err \<and> call e w g f = Inl err) \<or>
          (\<exists>w'. call e w g f = Inr (w', None) \<and> t_fiber (st w') = Some f \<and> m_parent (fib w' f) = Some a))) \<and>
    (\<forall>w' code. call e w g f = Inr (w', Some code) \<longrightarrow>
       code \<noteq> CALL_ERR_SELF_CALL \<and> code \<noteq> CALL_ERR_NO_CURRENT_FIBER \<and> w' = w)"
proof -
  note inv = thread_run_inv [OF assms(1)]
  note c = chain_fiber [OF inv assms(2)] fib_Some [OF assms(2)]
  have gt: "GetThis g w = (w, a)" using inv by (simp add: GetThis_def chain_inv_def)
  have nr: "m_state c \<noteq> READY \<longrightarrow> call e w g f = Inr (w, Some CALL_ERR_NOT_READY) \<and> resume e w f = Inl Assertion_Failed"
    using c(2) by (simp add: call_def resume_def)
  have act: "f \<in> set (a # r) \<longrightarrow> m_state c \<noteq> READY" using c(1) by auto
  have rd: "if m_useSharedStack c \<and> m_useSharedStack (fib w a)
      then call e w g f = Inr (w, Some CALL_ERR_SHARED_NESTED_UNSUPPORTED)
      else m_useSharedStack c \<and> (\<exists>err. prepare e (st w) f = Inl err \<and> call e w g f = Inl err) \<or>
        (\<exists>w'. call e w g f = Inr (w', None) \<and> t_fiber (st w') = Some f \<and> m_parent (fib w' f) = Some a)"
    if r: "m_state c = READY"
  proof -
    have fa: "f \<noteq> a" using act r by auto
    let ?c = "\<lambda>d. d\<lparr>m_parent := Some a, m_returnToParent := True, m_state := RUNNING\<rparr>"
    have sw: "t_fiber (st (swapWithSanitizer a f (SetThis f (put_fib f (?c d) w1)))) = Some f \<and>
        m_parent (fib (swapWithSanitizer a f (SetThis f (put_fib f (?c d) w1))) f) = Some a" for d w1
      using fa by (simp add: fib_def [of "swapWithSanitizer _ _ _"] fiber_at_def fibers_swap)
    show ?thesis
    proof (cases "m_useSharedStack c \<and> m_useSharedStack (fib w a)")
      case True
      then show ?thesis using c(2) r gt fa by (simp add: call_def)
    next
      case ns: False
      show ?thesis
      proof (cases "prepare_if_shared e w f")
        case (Inl err)
        then have "m_useSharedStack c \<and> prepare e (st w) f = Inl err"
          using c(2) by (auto simp: prepare_if_shared_def split: if_splits sum.splits)
        then show ?thesis using c(2) r gt fa ns Inl by (auto simp: call_def)
      next
        case (Inr w1)
        then have "call e w g f = Inr (swapWithSanitizer a f (SetThis f (put_fib f (?c (fib w1 f)) w1)), None)"
          using c(2) r gt fa ns by (auto simp: call_def Let_def)
        with sw [of "fib w1 f" w1] ns show ?thesis by auto
      qed
    qed
  qed
  have "code \<noteq> CALL_ERR_SELF_CALL \<and> code \<noteq> CALL_ERR_NO_CURRENT_FIBER \<and> w' = w"
    if "call e w g f = Inr (w', Some code)" for w' code
    using that nr rd by (cases "m_state c = READY") (auto split: if_splits)
  with nr act rd show ?thesis by blast
qed

theorem call_codes_witness:
  "call two_env child_runs 9 1 = Inr (child_runs, Some CALL_ERR_NOT_READY) \<and>
    resume two_env child_runs 1 = Inl Assertion_Failed"
proof -
  have "fibers (st child_runs) 1 = Some (ready_child\<lparr>m_state := RUNNING\<rparr>)"
    by (simp add: child_runs_def resume_def prepare_if_shared_def base_def Let_def fiber_defs swapWithSanitizer_def)
  from call_codes [OF child_run this] show ?thesis by simp
qed

end
