(* ===== verification/Coroutine_Pool.thy ===== *)
theory Coroutine_Pool
  imports Co_Fiber
begin

text \<open>
  \<^verbatim>\<open>CoroutinePool\<close> (include/mycoroutine/coroutine_pool.h, src/coroutine_pool.cpp): ended fibers
  are kept by kind and reused. Every operation holds the mutex, so each is one step.
\<close>

unbundle bit_operations_syntax

section \<open>The pool\<close>

text \<open>\<open>m_cache\<close> is the unordered map; the back of a vector is the end of the list.\<close>

record CoroutinePool =
  m_cache :: "u64 \<Rightarrow> fid list option"
  m_maxCachedPerKey :: u64

definition kDefaultFiberStackSize :: u64 where "kDefaultFiberStackSize = 128000"

definition normalizeStackSize :: "u64 \<Rightarrow> u64" where
  "normalizeStackSize stacksize = (if stacksize \<noteq> 0 then stacksize else kDefaultFiberStackSize)"

definition CoroutinePool_ctor :: "u64 \<Rightarrow> CoroutinePool" where
  "CoroutinePool_ctor max_cached_per_key = \<lparr>m_cache = Map.empty,
     m_maxCachedPerKey = (if max_cached_per_key \<noteq> 0 then max_cached_per_key else 1)\<rparr>"

definition makeKey :: "u64 \<Rightarrow> bool \<Rightarrow> bool \<Rightarrow> u64" where
  "makeKey stacksize run_in_scheduler use_shared_stack =
     (let normalized = normalizeStackSize stacksize AND (push_bit 60 1 - 1);
          run_flag = (if run_in_scheduler then push_bit 62 1 else 0);
          shared_flag = (if use_shared_stack then push_bit 63 1 else 0)
      in normalized OR run_flag OR shared_flag)"

text \<open>
  \<^verbatim>\<open>acquire\<close>: \<open>f\<close> and \<open>block\<close> are the fiber and its stack that the constructor makes if
  nothing is cached.
\<close>

definition acquire ::
    "Env \<Rightarrow> u64 \<Rightarrow> CoroutinePool \<Rightarrow> Thread_State \<Rightarrow> fid \<Rightarrow> callback option \<Rightarrow> u64 \<Rightarrow> bool \<Rightarrow> bool \<Rightarrow>
     (CoroutinePool \<times> Thread_State \<times> fid option) result" where
  "acquire e block p w f cb stacksize run_in_scheduler use_shared_stack =
     (if cb = None then Inr (p, w, None)
      else let key = makeKey stacksize run_in_scheduler use_shared_stack;
               bucket = (case m_cache p key of None \<Rightarrow> [] | Some b \<Rightarrow> b)
           in if bucket \<noteq> []
              then let g = last bucket; p1 = p\<lparr>m_cache := (m_cache p)(key \<mapsto> butlast bucket)\<rparr>
                   in (case fiber_reset (e_entry e) (st w) g cb of
                         Inl err \<Rightarrow> Inl err | Inr s \<Rightarrow> Inr (p1, w\<lparr>st := s\<rparr>, Some g))
              else (case Fiber_child e block w f cb stacksize run_in_scheduler use_shared_stack of
                      Inl err \<Rightarrow> Inl err | Inr w1 \<Rightarrow> Inr (p, w1, Some f)))"

text \<open>\<^verbatim>\<open>release\<close>; the caller's pointer afterwards is the second component.\<close>

definition release ::
    "CoroutinePool \<Rightarrow> Thread_State \<Rightarrow> fid option \<Rightarrow> u64 \<Rightarrow> bool \<Rightarrow> bool \<Rightarrow> CoroutinePool \<times> fid option" where
  "release p w fiber stacksize run_in_scheduler use_shared_stack =
     (case fiber of
        None \<Rightarrow> (p, fiber)
      | Some f \<Rightarrow>
          if m_state (fib w f) \<noteq> TERMINATED then (p, fiber)
          else let key = makeKey stacksize run_in_scheduler use_shared_stack;
                   bucket = (case m_cache p key of None \<Rightarrow> [] | Some b \<Rightarrow> b);
                   bucket1 = (if length bucket < unat (m_maxCachedPerKey p) then bucket @ [f] else bucket)
               in (p\<lparr>m_cache := (m_cache p)(key \<mapsto> bucket1)\<rparr>, None))"

definition setMaxCachedPerKey :: "u64 \<Rightarrow> CoroutinePool \<Rightarrow> CoroutinePool" where
  "setMaxCachedPerKey max_cached_per_key p =
     p\<lparr>m_maxCachedPerKey := (if max_cached_per_key \<noteq> 0 then max_cached_per_key else 1)\<rparr>"

definition cachedCount :: "CoroutinePool \<Rightarrow> u64 \<Rightarrow> bool \<Rightarrow> bool \<Rightarrow> nat" where
  "cachedCount p stacksize run_in_scheduler use_shared_stack =
     (case m_cache p (makeKey stacksize run_in_scheduler use_shared_stack) of
        None \<Rightarrow> 0 | Some b \<Rightarrow> length b)"

definition clear :: "CoroutinePool \<Rightarrow> CoroutinePool" where
  "clear p = p\<lparr>m_cache := Map.empty\<rparr>"

section \<open>Keys\<close>

lemma bit_makeKey: "bit (makeKey sz r u) n \<longleftrightarrow>
    bit (normalizeStackSize sz) n \<and> n < 60 \<or> n = 62 \<and> r \<or> n = 63 \<and> u"
proof -
  have m: "(push_bit 60 1 - 1 :: u64) = mask 60" by (simp add: mask_eq_exp_minus_1)
  have f: "bit (push_bit 62 (1 :: u64)) n = (n = 62)" "bit (push_bit 63 (1 :: u64)) n = (n = 63)"
    unfolding bit_push_bit_iff bit_1_iff possible_bit_word by auto
  have "bit (mask 60 :: u64) n = (n < 60)" unfolding bit_mask_iff possible_bit_word by auto
  then show ?thesis
    unfolding makeKey_def Let_def bit_or_iff bit_and_iff m by (cases r; cases u) (simp_all only: f if_True if_False bit_0_eq bot_apply, auto)
qed

lemma key_flags: "bit (makeKey sz r u) 62 = r" "bit (makeKey sz r u) 63 = u"
  by (simp_all add: bit_makeKey)

lemma key_size: "(ucast (makeKey sz r u) :: u32) = ucast (normalizeStackSize sz)"
  by (rule bit_word_eqI) (auto simp: bit_ucast_iff bit_makeKey)

lemma key_eq_iff: "makeKey sz r u = makeKey sz' r' u' \<longleftrightarrow>
    take_bit 60 (normalizeStackSize sz) = take_bit 60 (normalizeStackSize sz') \<and> r = r' \<and> u = u'"
proof
  assume e: "makeKey sz r u = makeKey sz' r' u'"
  have "r = r'" "u = u'" using key_flags [of sz r u] key_flags [of sz' r' u'] e by simp_all
  moreover have "take_bit 60 (normalizeStackSize sz) = take_bit 60 (normalizeStackSize sz')"
  proof (rule bit_word_eqI)
    fix n show "bit (take_bit 60 (normalizeStackSize sz)) n = bit (take_bit 60 (normalizeStackSize sz')) n"
      using bit_makeKey [of sz r u n] bit_makeKey [of sz' r' u' n] e by (auto simp: bit_take_bit_iff)
  qed
  ultimately show "take_bit 60 (normalizeStackSize sz) = take_bit 60 (normalizeStackSize sz') \<and> r = r' \<and> u = u'"
    by simp
next
  assume e: "take_bit 60 (normalizeStackSize sz) = take_bit 60 (normalizeStackSize sz') \<and> r = r' \<and> u = u'"
  show "makeKey sz r u = makeKey sz' r' u'"
  proof (rule bit_word_eqI)
    fix n
    have "bit (take_bit 60 (normalizeStackSize sz)) n = bit (take_bit 60 (normalizeStackSize sz')) n" using e by simp
    then have "n < 60 \<Longrightarrow> bit (normalizeStackSize sz) n = bit (normalizeStackSize sz') n"
      by (simp add: bit_take_bit_iff)
    with e show "bit (makeKey sz r u) n = bit (makeKey sz' r' u') n"
      by (auto simp: bit_makeKey)
  qed
qed

section \<open>What acquire makes of a fiber\<close>

definition of_kind :: "u64 \<Rightarrow> Fiber \<Rightarrow> bool" where
  "of_kind key c \<longleftrightarrow> m_runInScheduler c = bit key 62 \<and> m_useSharedStack c = bit key 63 \<and>
     m_stacksize c = ucast key"

text \<open>A shared-stack fiber with a slot has the slot's size.\<close>

definition slot_match :: "Stacks \<Rightarrow> Fiber \<Rightarrow> bool" where
  "slot_match s c \<longleftrightarrow> (m_useSharedStack c \<longrightarrow> (\<forall>k. m_sharedStackSlot c = Some k \<longrightarrow>
     m_stacksize c = ucast (slot_size (slots s k))))"

definition made :: "callback option \<Rightarrow> u64 \<Rightarrow> Stacks \<Rightarrow> Stacks \<Rightarrow> fid \<Rightarrow> bool" where
  "made cb key s s' g \<longleftrightarrow> slots s' = slots s \<and> (\<exists>c. fibers s' = (fibers s)(g \<mapsto> c) \<and> m_state c = READY \<and>
     f_cb c = cb \<and> of_kind key c \<and> slot_match s c)"

lemma init_shape:
  assumes "initFiberContext entry u f = Inr u'" and "fiber_at u f = d"
  shows "\<exists>x. fibers u' = (fibers u)(f \<mapsto> d\<lparr>m_ctx := x, m_ctxInitialized := True\<rparr>) \<and> slots u' = slots u"
  using assms by (cases "InitFiberContextStack entry (m_stack d) (ucast (m_stacksize d))")
    (auto simp: initFiberContext_def Let_def split: if_splits)

lemma made_reset:
  assumes r: "fiber_reset entry s f cb = Inr s'" and f: "fibers s f = Some c" and k: "of_kind key c" "slot_match s c"
  shows "made cb key s s' f"
proof -
  let ?c = "c\<lparr>m_state := READY, f_cb := cb, m_stackSnapshot := [], m_parent := None, m_returnToParent := False\<rparr>"
  have t: "m_state c = TERMINATED" using r at_Some [OF f] by (simp add: fiber_reset_def split: if_splits)
  show ?thesis
  proof (cases "m_useSharedStack c")
    case False
    then have "initFiberContext entry (set_fiber f ?c s) f = Inr s'"
      using r t at_Some [OF f] by (auto simp: fiber_reset_def Let_def split: if_splits)
    from init_shape [OF this refl] k show ?thesis by (auto simp: made_def of_kind_def slot_match_def)
  next
    case sh: True
    show ?thesis
    proof (cases "m_sharedStackSlot c")
      case None
      with sh r t at_Some [OF f] k show ?thesis
        by (auto simp: fiber_reset_def Let_def made_def of_kind_def slot_match_def)
    next
      case (Some j)
      then have "initFiberContext entry (set_fiber f (use_slot j (set_fiber f ?c s) ?c) (set_fiber f ?c s)) f = Inr s'"
        using r t sh at_Some [OF f] by (simp add: fiber_reset_def Let_def)
      from init_shape [OF this refl] k sh Some show ?thesis
        by (auto simp: made_def of_kind_def slot_match_def use_slot_def)
    qed
  qed
qed

lemma of_kind_new: "of_kind (makeKey sz r u) (new_Fiber i cb sz r u)"
  by (simp add: of_kind_def new_Fiber_def key_flags key_size normalizeStackSize_def kDefaultFiberStackSize_def)

lemma made_ctor:
  assumes r: "Fiber_ctor i block entry s f cb sz r u = Inr s'"
  shows "made cb (makeKey sz r u) s s' f"
proof -
  let ?c = "new_Fiber i cb sz r u"
  have c: "m_state ?c = READY" "f_cb ?c = cb" "m_sharedStackSlot ?c = None" by (simp_all add: new_Fiber_def)
  note k = of_kind_new [of sz r u i cb]
  show ?thesis
  proof (cases u)
    case True
    with r c k show ?thesis by (auto simp: Fiber_ctor_def made_def slot_match_def)
  next
    case False
    then have "initFiberContext entry (set_fiber f (?c\<lparr>m_stack := block\<rparr>) s) f = Inr s'"
      using r by (auto simp: Fiber_ctor_def Let_def split: if_splits)
    from init_shape [OF this refl] c k show ?thesis by (auto simp: made_def of_kind_def slot_match_def)
  qed
qed

section \<open>Runs of a pool\<close>

definition cached :: "CoroutinePool \<Rightarrow> fid \<Rightarrow> bool" where
  "cached p f \<longleftrightarrow> (\<exists>key b. m_cache p key = Some b \<and> f \<in> set b)"

text \<open>\<open>lent\<close> are the fibers in the hands of users, with the key they asked for.\<close>

definition pool_inv :: "CoroutinePool \<Rightarrow> Thread_State \<Rightarrow> (fid \<Rightarrow> u64 option) \<Rightarrow> bool" where
  "pool_inv p w lent \<longleftrightarrow>
     (\<forall>key b. m_cache p key = Some b \<longrightarrow> distinct b \<and> (\<forall>f \<in> set b. lent f = None \<and>
        (\<exists>c. fibers (st w) f = Some c \<and> m_state c = TERMINATED \<and> of_kind key c))) \<and>
     (\<forall>f key. lent f = Some key \<longrightarrow> (\<exists>c. fibers (st w) f = Some c \<and> of_kind key c)) \<and>
     (\<forall>f c. fibers (st w) f = Some c \<longrightarrow> slot_match (st w) c) \<and>
     (\<forall>k1 k2 b1 b2. m_cache p k1 = Some b1 \<longrightarrow> m_cache p k2 = Some b2 \<longrightarrow> k1 \<noteq> k2 \<longrightarrow> set b1 \<inter> set b2 = {})"

text \<open>
  Users release a fiber with the parameters they acquired it with. \<open>pool_work\<close> is everything
  that happens outside the pool: it does not touch cached fibers, and does not change the kind of
  lent ones.
\<close>

inductive pool_run :: "Env \<Rightarrow> CoroutinePool \<Rightarrow> Thread_State \<Rightarrow> (fid \<Rightarrow> u64 option) \<Rightarrow> bool" for e where
  pool_start: "(\<forall>f c. fibers (st w) f = Some c \<longrightarrow> slot_match (st w) c) \<Longrightarrow>
    pool_run e (CoroutinePool_ctor n) w Map.empty"
| pool_acquire: "pool_run e p w lent \<Longrightarrow> fibers (st w) f = None \<Longrightarrow>
    acquire e block p w f cb sz r u = Inr (p', w', Some g) \<Longrightarrow> pool_run e p' w' (lent(g \<mapsto> makeKey sz r u))"
| pool_release: "pool_run e p w lent \<Longrightarrow> lent f = Some (makeKey sz r u) \<Longrightarrow> release p w (Some f) sz r u = (p', x) \<Longrightarrow>
    pool_run e p' w (if x = None then lent(f := None) else lent)"
| pool_forget: "pool_run e p w lent \<Longrightarrow> pool_run e p w (lent(f := None))"
| pool_work: "pool_run e p w lent \<Longrightarrow> (\<forall>f. cached p f \<longrightarrow> fibers (st w') f = fibers (st w) f) \<Longrightarrow>
    (\<forall>f key. lent f = Some key \<longrightarrow> (\<exists>c. fibers (st w') f = Some c \<and> of_kind key c)) \<Longrightarrow>
    (\<forall>f c. fibers (st w') f = Some c \<longrightarrow> slot_match (st w') c) \<Longrightarrow> pool_run e p w' lent"
| pool_max: "pool_run e p w lent \<Longrightarrow> pool_run e (setMaxCachedPerKey n p) w lent"
| pool_clear: "pool_run e p w lent \<Longrightarrow> pool_run e (clear p) w lent"

lemma lent_fiber: "pool_inv p w lent \<Longrightarrow> lent f = Some key \<Longrightarrow> \<exists>c. fibers (st w) f = Some c \<and> of_kind key c"
  by (simp add: pool_inv_def)

lemma acquire_shape:
  assumes inv: "pool_inv p w lent" and f: "fibers (st w) f = None" and a: "acquire e block p w f cb sz r u = Inr (p', w', Some g)"
  shows "made cb (makeKey sz r u) (st w) (st w') g \<and> lent g = None \<and> cb \<noteq> None \<and>
    (p' = p \<and> g = f \<and> cachedCount p sz r u = 0 \<or>
     (\<exists>b. m_cache p (makeKey sz r u) = Some b \<and> b \<noteq> [] \<and> g = last b \<and> s_fiber_count w' = s_fiber_count w \<and>
       p' = p\<lparr>m_cache := (m_cache p)(makeKey sz r u \<mapsto> butlast b)\<rparr>))"
proof -
  let ?key = "makeKey sz r u"
  let ?b = "case m_cache p ?key of None \<Rightarrow> [] | Some b \<Rightarrow> b"
  have cb: "cb \<noteq> None" using a by (cases cb) (simp_all add: acquire_def)
  show ?thesis
  proof (cases "?b = []")
    case True
    then have "acquire e block p w f cb sz r u =
        (case Fiber_child e block w f cb sz r u of Inl err \<Rightarrow> Inl err | Inr w1 \<Rightarrow> Inr (p, w1, Some f))"
      using cb by (cases cb) (simp_all add: acquire_def Let_def)
    with a obtain w1 where w1: "Fiber_child e block w f cb sz r u = Inr w1" "p' = p" "w' = w1" "g = f"
      by (cases "Fiber_child e block w f cb sz r u") simp_all
    then obtain s where s: "Fiber_ctor (s_fiber_id w) block (e_entry e) (st w) f cb sz r u = Inr s" "st w' = s"
      by (auto simp: Fiber_child_def count_fiber_def split: sum.splits)
    have "lent f = None" using lent_fiber [OF inv, of f] f by (cases "lent f") auto
    moreover have "cachedCount p sz r u = 0" using True by (simp add: cachedCount_def split: option.splits)
    ultimately show ?thesis using made_ctor [OF s(1)] s(2) w1 cb by simp
  next
    case False
    then obtain b where b: "m_cache p ?key = Some b" "b \<noteq> []"
      by (metis option.case_eq_if option.collapse)
    have "acquire e block p w f cb sz r u = (case fiber_reset (e_entry e) (st w) (last b) cb of Inl err \<Rightarrow> Inl err
      | Inr s \<Rightarrow> Inr (p\<lparr>m_cache := (m_cache p)(?key \<mapsto> butlast b)\<rparr>, w\<lparr>st := s\<rparr>, Some (last b)))"
      using cb b by (cases cb) (simp_all add: acquire_def Let_def)
    with a obtain s where s: "fiber_reset (e_entry e) (st w) (last b) cb = Inr s" "g = last b" "w' = w\<lparr>st := s\<rparr>"
      "p' = p\<lparr>m_cache := (m_cache p)(?key \<mapsto> butlast b)\<rparr>"
      by (cases "fiber_reset (e_entry e) (st w) (last b) cb") auto
    have "last b \<in> set b" using b(2) by simp
    then obtain c where c: "fibers (st w) (last b) = Some c" "of_kind ?key c" "lent (last b) = None"
      using inv b(1) unfolding pool_inv_def by blast
    have "slot_match (st w) c" using inv c(1) by (simp add: pool_inv_def)
    from made_reset [OF s(1) c(1,2) this] show ?thesis using s b c(3) cb by simp
  qed
qed
lemma made_pool_inv:
  assumes inv: "pool_inv p w lent" and m: "made cb key (st w) (st w') g"
    and c: "\<forall>k b. m_cache p' k = Some b \<longrightarrow> (\<exists>b0. m_cache p k = Some b0 \<and> set b \<subseteq> set b0 \<and> distinct b \<and> g \<notin> set b)"
  shows "pool_inv p' w' (lent(g \<mapsto> key))"
proof -
  obtain d where d: "fibers (st w') = (fibers (st w))(g \<mapsto> d)" "of_kind key d" "slot_match (st w) d" "slots (st w') = slots (st w)"
    using m by (auto simp: made_def)
  show ?thesis unfolding pool_inv_def
  proof (intro conjI allI impI ballI)
    fix k b assume b: "m_cache p' k = Some b"
    then obtain b0 where b0: "m_cache p k = Some b0" "set b \<subseteq> set b0" "distinct b" "g \<notin> set b" using c by blast
    show "distinct b" by (rule b0(3))
    fix f assume f: "f \<in> set b"
    then have ne: "f \<noteq> g" using b0(4) by auto
    have "lent f = None \<and> (\<exists>c. fibers (st w) f = Some c \<and> m_state c = TERMINATED \<and> of_kind k c)"
      using inv b0(1,2) f unfolding pool_inv_def by blast
    with ne d(1) show "(lent(g \<mapsto> key)) f = None" "\<exists>c. fibers (st w') f = Some c \<and> m_state c = TERMINATED \<and> of_kind k c"
      by auto
  next
    fix f k assume "(lent(g \<mapsto> key)) f = Some k"
    then show "\<exists>c. fibers (st w') f = Some c \<and> of_kind k c"
      using inv d(1,2) unfolding pool_inv_def by (cases "f = g") auto
  next
    fix f c assume "fibers (st w') f = Some c"
    then have "slot_match (st w) c" using inv d(1,3) unfolding pool_inv_def by (cases "f = g") auto
    then show "slot_match (st w') c" using d(4) by (simp add: slot_match_def)
  next
    fix k1 k2 b1 b2 assume k: "m_cache p' k1 = Some b1" "m_cache p' k2 = Some b2" "k1 \<noteq> k2"
    obtain a1 a2 where "m_cache p k1 = Some a1" "set b1 \<subseteq> set a1" "m_cache p k2 = Some a2" "set b2 \<subseteq> set a2"
      using c k(1,2) by blast
    moreover have "set a1 \<inter> set a2 = {}" using inv calculation(1,3) k(3) unfolding pool_inv_def by blast
    ultimately show "set b1 \<inter> set b2 = {}" by blast
  qed
qed

lemma bucket_others:
  assumes inv: "pool_inv p w lent" and b: "m_cache p key = Some b" "b \<noteq> []" and k: "((m_cache p)(key \<mapsto> butlast b)) k = Some b'"
  shows "\<exists>b0. m_cache p k = Some b0 \<and> set b' \<subseteq> set b0 \<and> distinct b' \<and> last b \<notin> set b'"
proof (cases "k = key")
  case True
  have "distinct (butlast b @ [last b])" using inv b by (simp add: pool_inv_def)
  with True k b show ?thesis by (auto dest: in_set_butlastD)
next
  case False
  then have k': "m_cache p k = Some b'" using k by simp
  then have "distinct b'" using inv unfolding pool_inv_def by blast
  moreover have "set b' \<inter> set b = {}" using inv k' b(1) False unfolding pool_inv_def by blast
  ultimately show ?thesis using k' b(2) last_in_set by blast
qed

lemma acquire_inv:
  assumes inv: "pool_inv p w lent" and f: "fibers (st w) f = None" and a: "acquire e block p w f cb sz r u = Inr (p', w', Some g)"
  shows "pool_inv p' w' (lent(g \<mapsto> makeKey sz r u))"
proof -
  note S = acquire_shape [OF assms]
  show ?thesis
  proof (rule made_pool_inv [OF inv S [THEN conjunct1]], intro allI impI)
    fix k b assume k: "m_cache p' k = Some b"
    show "\<exists>b0. m_cache p k = Some b0 \<and> set b \<subseteq> set b0 \<and> distinct b \<and> g \<notin> set b"
    proof (cases "p' = p \<and> g = f")
      case True
      then have "distinct b" "\<forall>h \<in> set b. fibers (st w) h \<noteq> None" using inv k unfolding pool_inv_def by blast+
      with True k f show ?thesis by blast
    next
      case False
      then obtain b1 where b1: "m_cache p (makeKey sz r u) = Some b1" "b1 \<noteq> []" "g = last b1"
        "p' = p\<lparr>m_cache := (m_cache p)(makeKey sz r u \<mapsto> butlast b1)\<rparr>" using S by blast
      from bucket_others [OF inv b1(1,2), of k b] k b1(3,4) show ?thesis by simp
    qed
  qed
qed

lemma release_inv:
  assumes inv: "pool_inv p w lent" and l: "lent f = Some (makeKey sz r u)"
    and rel: "release p w (Some f) sz r u = (p', x)"
  shows "pool_inv p' w (if x = None then lent(f := None) else lent)"
proof (cases "m_state (fib w f) = TERMINATED")
  case False
  then show ?thesis using rel inv by (auto simp: release_def)
next
  case True
  let ?key = "makeKey sz r u"
  let ?b = "case m_cache p ?key of None \<Rightarrow> [] | Some b \<Rightarrow> b"
  let ?b1 = "if length ?b < unat (m_maxCachedPerKey p) then ?b @ [f] else ?b"
  have p': "p' = p\<lparr>m_cache := (m_cache p)(?key \<mapsto> ?b1)\<rparr>" "x = None"
    using rel True by (auto simp: release_def Let_def)
  obtain c where c: "fibers (st w) f = Some c" "of_kind ?key c" using inv l unfolding pool_inv_def by blast
  have t: "m_state c = TERMINATED" using True c(1) by (simp add: fib_Some)
  have nf: "f \<notin> set b" if "m_cache p k = Some b" for k b using inv l that unfolding pool_inv_def by force
  have B: "distinct b" "h \<in> set b \<Longrightarrow> lent h = None"
    "h \<in> set b \<Longrightarrow> \<exists>c. fibers (st w) h = Some c \<and> m_state c = TERMINATED \<and> of_kind k c"
    if "m_cache p k = Some b" for k b h using inv that unfolding pool_inv_def by blast+
  have D: "k1 = k2" if "m_cache p k1 = Some b1" "m_cache p k2 = Some b2" "h \<in> set b1" "h \<in> set b2" for k1 k2 b1 b2 h
    using inv that unfolding pool_inv_def by blast
  have cases: "m_cache p k = Some b \<or> k = ?key \<and> b = [f] \<and> m_cache p k = None \<or> k = ?key \<and> b = [] \<and> m_cache p k = None \<or>
      (\<exists>b0. k = ?key \<and> m_cache p k = Some b0 \<and> b = b0 @ [f])" if "m_cache p' k = Some b" for k b
    using that p'(1) by (auto split: if_splits option.splits)
  have "pool_inv p' w (lent(f := None))" unfolding pool_inv_def
  proof (intro conjI allI impI ballI)
    fix k b assume b: "m_cache p' k = Some b"
    show "distinct b" using cases [OF b] B(1) nf by auto
    fix h assume h: "h \<in> set b"
    show "(lent(f := None)) h = None" using cases [OF b] B(2) h by auto
    show "\<exists>c. fibers (st w) h = Some c \<and> m_state c = TERMINATED \<and> of_kind k c"
      using cases [OF b] B(3) h c t by auto
  next
    show "\<And>h k. (lent(f := None)) h = Some k \<Longrightarrow> \<exists>c. fibers (st w) h = Some c \<and> of_kind k c"
      using lent_fiber [OF inv] by (auto split: if_splits)
    show "\<And>h c. fibers (st w) h = Some c \<Longrightarrow> slot_match (st w) c" using inv unfolding pool_inv_def by blast
    fix k1 k2 b1 b2 assume k: "m_cache p' k1 = Some b1" "m_cache p' k2 = Some b2" "k1 \<noteq> k2"
    show "set b1 \<inter> set b2 = {}"
      using cases [OF k(1)] cases [OF k(2)] k(3) nf [of k1] nf [of k2] by (auto dest: D)
  qed
  then show ?thesis using p'(2) by simp
qed

lemma pool_run_inv: "pool_run e p w lent \<Longrightarrow> pool_inv p w lent"
proof (induction rule: pool_run.induct)
  case (pool_start w n)
  then show ?case by (simp add: pool_inv_def CoroutinePool_ctor_def)
next
  case (pool_acquire p w lent f block cb sz r u p' w' g)
  then show ?case by (blast intro: acquire_inv)
next
  case (pool_release p w lent f sz r u p' x)
  then show ?case by (blast intro: release_inv)
next
  case (pool_forget p w lent f)
  then show ?case by (fastforce simp: pool_inv_def)
next
  case (pool_work p w lent w')
  then show ?case unfolding pool_inv_def cached_def by (intro conjI allI impI ballI) (blast | metis)+
qed (simp_all add: pool_inv_def setMaxCachedPerKey_def clear_def)

section \<open>Properties\<close>

text \<open>
  Property C37. A fiber from the pool belongs to one user. In every run, with users that release a
  fiber with the parameters they acquired it with, \<^verbatim>\<open>acquire\<close> returns a fiber that is in
  nobody's hands and no longer cached, \<^verbatim>\<open>READY\<close> to run the given callback, of the requested
  stack size (in 32 bits, 0 meaning the default), scheduler mode and stack mode; the fibers of
  other users are left alone; and it makes a new fiber only when none of the kind is cached.
\<close>

theorem pool_exclusive:
  assumes "pool_run e p w lent" and "fibers (st w) f = None"
    and "acquire e block p w f cb sz r u = Inr (p', w', Some g)"
  shows "lent g = None \<and> \<not> cached p' g \<and>
    (\<exists>c. fibers (st w') g = Some c \<and> m_state c = READY \<and> f_cb c = cb \<and> cb \<noteq> None \<and> m_runInScheduler c = r \<and>
       m_useSharedStack c = u \<and> m_stacksize c = ucast (normalizeStackSize sz)) \<and>
    (\<forall>h. h \<noteq> g \<longrightarrow> fibers (st w') h = fibers (st w) h) \<and>
    cachedCount p' sz r u = cachedCount p sz r u - 1 \<and>
    (0 < cachedCount p sz r u \<longrightarrow> s_fiber_count w' = s_fiber_count w \<and> g \<noteq> f)"
proof -
  note inv = pool_run_inv [OF assms(1)]
  note S = acquire_shape [OF inv assms(2,3)]
  have "pool_inv p' w' (lent(g \<mapsto> makeKey sz r u))" by (rule acquire_inv [OF inv assms(2,3)])
  then have nc: "\<not> cached p' g" unfolding cached_def pool_inv_def by force
  obtain c where c: "fibers (st w') = (fibers (st w))(g \<mapsto> c)" "m_state c = READY" "f_cb c = cb" "of_kind (makeKey sz r u) c"
    using S by (auto simp: made_def)
  have "cachedCount p' sz r u = cachedCount p sz r u - 1 \<and>
      (0 < cachedCount p sz r u \<longrightarrow> s_fiber_count w' = s_fiber_count w \<and> g \<noteq> f)"
  proof (cases "p' = p \<and> g = f \<and> cachedCount p sz r u = 0")
    case False
    then obtain b where b: "m_cache p (makeKey sz r u) = Some b" "b \<noteq> []" "g = last b" "s_fiber_count w' = s_fiber_count w"
      "p' = p\<lparr>m_cache := (m_cache p)(makeKey sz r u \<mapsto> butlast b)\<rparr>" using S by blast
    have "fibers (st w) g \<noteq> None" using inv b(1,2,3) last_in_set unfolding pool_inv_def by fastforce
    then have "g \<noteq> f" using assms(2) by auto
    then show ?thesis using b by (simp add: cachedCount_def)
  qed auto
  with S nc c show ?thesis by (simp add: of_kind_def key_flags key_size)
qed
text \<open>A fiber is acquired, ends, is released and is acquired again.\<close>

definition pool_w0 :: Thread_State where "pool_w0 = fst (GetThis 0 fresh_thread)"
definition pool_w1 :: Thread_State where
  "pool_w1 = projr (Fiber_child two_env 4096 pool_w0 3 (Some (UserCb 7)) 0 True False)"
definition pool_w2 :: Thread_State where
  "pool_w2 = put_fib 3 ((fib pool_w1 3)\<lparr>m_state := TERMINATED\<rparr>) pool_w1"
definition pool_p1 :: CoroutinePool where
  "pool_p1 = (CoroutinePool_ctor 2)\<lparr>m_cache := [makeKey 0 True False \<mapsto> [3]]\<rparr>"

lemmas pool_defs = pool_w0_def fiber_defs two_env_def Fiber_child_def Fiber_ctor_def initFiberContext_def Let_def
  InitFiberContextStack_eq

lemma pool_w1_eq: "Fiber_child two_env 4096 pool_w0 3 (Some (UserCb 7)) 0 True False = Inr pool_w1"
  by (simp add: pool_w1_def pool_defs)

lemma pool_w1_fib: "fibers (st pool_w1) = (fibers (st pool_w0))(3 \<mapsto> fib pool_w1 3)"
    "m_state (fib pool_w1 3) = READY" "\<not> m_useSharedStack (fib pool_w1 3)" "m_stack (fib pool_w1 3) = 4096"
    "m_stacksize (fib pool_w1 3) = 128000"
  by (simp_all add: pool_w1_def pool_defs)

lemma pool_w2_reset: "\<exists>s. fiber_reset (e_entry two_env) (st pool_w2) 3 (Some (UserCb 8)) = Inr s"
proof -
  have "fiber_at (st pool_w2) 3 = (fib pool_w1 3)\<lparr>m_state := TERMINATED\<rparr>"
    by (simp add: pool_w2_def put_fib_def)
  then show ?thesis
    by (simp add: fiber_reset_def pool_w1_fib initFiberContext_def Let_def InitFiberContextStack_eq)
qed

lemma pool_run_p1: "pool_run two_env pool_p1 pool_w2 (Map.empty(3 \<mapsto> makeKey 0 True False, 3 := None))"
proof -
  let ?key = "makeKey 0 True False"
  have w0: "fibers (st pool_w0) 3 = None" "fibers (st pool_w0) f = Some c \<Longrightarrow> \<not> m_useSharedStack c" for f c
    by (auto simp: pool_defs split: if_splits)
  have "pool_run two_env (CoroutinePool_ctor 2) pool_w0 Map.empty"
    by (rule pool_start) (use w0 in \<open>auto simp: slot_match_def\<close>)
  moreover have a: "acquire two_env 4096 (CoroutinePool_ctor 2) pool_w0 3 (Some (UserCb 7)) 0 True False =
      Inr (CoroutinePool_ctor 2, pool_w1, Some 3)"
    by (simp add: acquire_def CoroutinePool_ctor_def pool_w1_eq)
  ultimately have r1: "pool_run two_env (CoroutinePool_ctor 2) pool_w1 (Map.empty(3 \<mapsto> ?key))"
    using w0(1) pool_acquire by blast
  obtain c where c: "fibers (st pool_w1) 3 = Some c" "of_kind ?key c"
    using lent_fiber [OF pool_run_inv [OF r1], of 3 ?key] by auto
  have F: "fibers (st pool_w2) = (fibers (st pool_w1))(3 \<mapsto> c\<lparr>m_state := TERMINATED\<rparr>)"
    using fib_Some [OF c(1)] by (simp add: pool_w2_def)
  have "pool_run two_env (CoroutinePool_ctor 2) pool_w2 (Map.empty(3 \<mapsto> ?key))"
  proof (rule pool_work [OF r1])
    show "\<forall>f. cached (CoroutinePool_ctor 2) f \<longrightarrow> fibers (st pool_w2) f = fibers (st pool_w1) f"
      by (simp add: cached_def CoroutinePool_ctor_def)
    show "\<forall>f k. (Map.empty(3 \<mapsto> ?key)) f = Some k \<longrightarrow> (\<exists>c. fibers (st pool_w2) f = Some c \<and> of_kind k c)"
      using c(2) by (auto simp: F of_kind_def split: if_splits)
    have "\<not> m_useSharedStack c" using c(1) pool_w1_fib(3) by (simp add: fib_Some)
    then show "\<forall>f d. fibers (st pool_w2) f = Some d \<longrightarrow> slot_match (st pool_w2) d"
      using w0(2) by (auto simp: F pool_w1_fib(1) slot_match_def split: if_splits)
  qed
  moreover have "release (CoroutinePool_ctor 2) pool_w2 (Some 3) 0 True False = (pool_p1, None)"
    by (simp add: release_def fib_def at_Some F Let_def CoroutinePool_ctor_def pool_p1_def)
  ultimately show ?thesis using pool_release [of two_env _ _ "Map.empty(3 \<mapsto> ?key)" 3] by fastforce
qed

theorem pool_exclusive_witness:
  "\<exists>p' w'. acquire two_env 8192 pool_p1 pool_w2 4 (Some (UserCb 8)) 0 True False = Inr (p', w', Some 3) \<and>
    m_state (fib w' 3) = READY \<and> \<not> cached p' 3 \<and> cachedCount p' 0 True False = 0"
proof -
  obtain s where "fiber_reset (e_entry two_env) (st pool_w2) 3 (Some (UserCb 8)) = Inr s" using pool_w2_reset by blast
  then obtain p' w' where a: "acquire two_env 8192 pool_p1 pool_w2 4 (Some (UserCb 8)) 0 True False = Inr (p', w', Some 3)"
    by (simp add: acquire_def pool_p1_def)
  have "fibers (st pool_w2) 4 = None"
    by (simp add: pool_w2_def pool_w1_fib(1)) (simp add: pool_defs)
  from pool_exclusive [OF pool_run_p1 this a] a show ?thesis
    by (auto simp: cachedCount_def pool_p1_def fib_def at_Some)
qed

end
