(* ===== verification/Co_Switch.thy ===== *)
theory Co_Switch
  imports Co_Fiber
begin

text \<open>
  The switch of the fiber model against the machine: \<^verbatim>\<open>swapWithSanitizer\<close> of src/fiber.cpp, which
  the other theories use as an assignment between contexts, is refined by the instructions of
  src/context_switch_x86_64.S on contexts laid out in memory.
\<close>

section \<open>The abstraction\<close>

text \<open>
  The machine \<open>c\<close>, about to go on at \<open>p\<close>, stands for the thread \<open>w\<close>: the context of every live
  fiber \<open>f\<close> is in memory at \<open>adr f\<close>, and the registers are those of \<open>w\<close>.
\<close>

definition represents :: "(fid \<Rightarrow> u64) \<Rightarrow> u64 \<Rightarrow> CPU \<Rightarrow> Thread_State \<Rightarrow> bool" where
  "represents adr p c w \<longleftrightarrow>
     (\<forall>f \<in> dom (fibers (st w)). m_ctx (fib w f) = ctx_at (qmem c) (adr f)) \<and> cpu w = live_ctx p c"

definition apart :: "(fid \<Rightarrow> u64) \<Rightarrow> fid set \<Rightarrow> bool" where
  "apart adr F \<longleftrightarrow> (\<forall>f \<in> F. \<forall>g \<in> F. f \<noteq> g \<longrightarrow> ctx_cells (adr f) \<inter> ctx_cells (adr g) = {})"

section \<open>Refinement\<close>

lemma swap_contexts:
  assumes "f \<in> dom (fibers (st w))"
  shows "fibers (st (swapWithSanitizer f g w)) = (fibers (st w))(f \<mapsto> (fib w f)\<lparr>m_ctx := cpu w\<rparr>)"
    and "m_ctx (fib (swapWithSanitizer f g w) h) = ((\<lambda>h. m_ctx (fib w h))(f := cpu w)) h"
  by (simp_all add: swapWithSanitizer_def Let_def put_fib_def set_fiber_def fib_def fiber_at_def)

text \<open>
  Property C15. The fiber model's switch is what the assembly does: when the machine stands for
  a thread and the swap routine is called with the contexts of two of its fibers, the machine it
  leaves stands for the thread after the switch, goes on where the other fiber was saved, and has
  written to no memory but the context of the fiber that was left. The contexts may lie anywhere,
  without overlap.
\<close>

theorem swap_refines_switch:
  assumes "represents adr lresume c w" and "apart adr (dom (fibers (st w)))"
    and "f \<in> dom (fibers (st w))" and "g \<in> dom (fibers (st w))" and "f \<noteq> g"
    and "regs c RDI = adr f" and "regs c RSI = adr g"
  shows "let c' = exec lresume swap_code c; w' = swapWithSanitizer f g w
    in represents adr (pc c') c' w' \<and> pc c' = c_rip (m_ctx (fib w g)) \<and>
      (\<forall>a. a \<notin> ctx_cells (adr f) \<longrightarrow> qmem c' a = qmem c a)"
proof -
  let ?D = "dom (fibers (st w))" and ?ctx = "\<lambda>h. m_ctx (fib w h)"
  let ?c = "exec lresume swap_code c" and ?w = "swapWithSanitizer f g w"
  have t: "\<forall>h \<in> ?D. ?ctx h = ctx_at (qmem c) (adr h)" and p: "cpu w = live_ctx lresume c"
    using assms(1) by (simp_all add: represents_def)
  have ap: "\<forall>h \<in> ?D. \<forall>k \<in> ?D. h \<noteq> k \<longrightarrow> ctx_cells (adr h) \<inter> ctx_cells (adr k) = {}"
    using assms(2) by (simp add: apart_def)
  note S = x86.switches [OF t assms(3-5) ap assms(6,7), of lresume]
  have c: "cpu ?w = ?ctx g"
    using assms(5) by (simp add: swapWithSanitizer_def Let_def put_fib_def set_fiber_def fib_def fiber_at_def)
  have "dom (fibers (st ?w)) = ?D" using assms(3) by (auto simp: swap_contexts)
  then have "represents adr (pc ?c) ?c ?w"
    using S(1,2) c p assms(3) unfolding represents_def S(3) by (simp add: swap_contexts(2))
  moreover have "\<forall>a. a \<notin> ctx_cells (adr f) \<longrightarrow> qmem ?c a = qmem c a"
    using x86.frame [of c _ lresume] ap assms(3-7) by simp
  ultimately show ?thesis using S(3) by (simp add: Let_def)
qed

section \<open>A concrete machine\<close>

definition two_fibers :: Thread_State where
  "two_fibers = \<lparr>st = \<lparr>fibers = [3 \<mapsto> new_Fiber 0 None 0 True False, 4 \<mapsto> new_Fiber 1 None 0 True False],
       slots = (\<lambda>_. \<lparr>slot_stack = 0, slot_size = 0, slot_owner = None\<rparr>), n_slots = 0,
       t_shared_stack_pools = (\<lambda>_. None), s_shared_stack_slot_count = 0, mem = (\<lambda>_. 0), t_fiber = Some 3\<rparr>,
     t_thread_fiber = Some 3, t_scheduler_fiber = Some 3, s_fiber_id = 2, s_fiber_count = 2,
     cpu = \<lparr>c_rsp = 0x8000, c_rip = 0x400100, c_rbx = 7, c_rbp = 7, c_r12 = 7, c_r13 = 7, c_r14 = 7, c_r15 = 7\<rparr>\<rparr>"

definition two_contexts :: CPU where
  "two_contexts = \<lparr>regs = (\<lambda>_. 7)(RDI := 0x1000, RSI := 0x2000, RSP := 0x8000), qmem = (\<lambda>_. 0), pc = 0\<rparr>"

lemma swap_refines_switch_witness:
  "represents (\<lambda>f. if f = 3 then 0x1000 else 0x2000) 0 (exec 0x400100 swap_code two_contexts)
     (swapWithSanitizer 3 4 two_fibers)"
proof -
  let ?adr = "\<lambda>f :: fid. if f = 3 then 0x1000 else 0x2000 :: u64"
  have "represents ?adr 0x400100 two_contexts two_fibers"
    by (auto simp: represents_def two_fibers_def two_contexts_def live_ctx_def fib_def fiber_at_def new_Fiber_def
        ctx_at_def empty_FiberContext_def)
  moreover have "apart ?adr (dom (fibers (st two_fibers)))"
    by (auto simp: apart_def two_fibers_def ctx_cells_def)
  moreover have "3 \<in> dom (fibers (st two_fibers))" "4 \<in> dom (fibers (st two_fibers))" "3 \<noteq> (4 :: fid)"
    "regs two_contexts RDI = ?adr 3" "regs two_contexts RSI = ?adr 4"
    by (simp_all add: two_fibers_def two_contexts_def)
  ultimately have "represents ?adr (pc (exec 0x400100 swap_code two_contexts))
      (exec 0x400100 swap_code two_contexts) (swapWithSanitizer 3 4 two_fibers) \<and>
    pc (exec 0x400100 swap_code two_contexts) = c_rip (m_ctx (fib two_fibers 4))"
    using swap_refines_switch [of ?adr "0x400100" two_contexts two_fibers 3 4] unfolding Let_def by blast
  moreover have "c_rip (m_ctx (fib two_fibers 4)) = 0"
    by (simp add: two_fibers_def fib_def fiber_at_def new_Fiber_def empty_FiberContext_def)
  ultimately show ?thesis by metis
qed

end
