(* ===== verification/Co_Context_A64.thy ===== *)
theory Co_Context_A64
  imports Co_Context
begin

text \<open>
  The context and the swap routine of the other architecture
  (src/context_switch_aarch64.S and the \<^verbatim>\<open>__aarch64__\<close> branches of
  include/mycoroutine/context.h and src/fiber.cpp). It keeps the contract \<open>context_swap\<close> too.
\<close>

section \<open>Contexts\<close>

record FiberContext_A64 =
  a_sp :: u64
  a_pc :: u64
  a_x19 :: u64
  a_x20 :: u64
  a_x21 :: u64
  a_x22 :: u64
  a_x23 :: u64
  a_x24 :: u64
  a_x25 :: u64
  a_x26 :: u64
  a_x27 :: u64
  a_x28 :: u64
  a_x29 :: u64
  a_x30 :: u64
  a_d8 :: u64
  a_d9 :: u64
  a_d10 :: u64
  a_d11 :: u64
  a_d12 :: u64
  a_d13 :: u64
  a_d14 :: u64
  a_d15 :: u64

definition kFiberContextEntryStackAdjust_A64 :: u64 where "kFiberContextEntryStackAdjust_A64 = 0"

definition GetContextStackPointer_A64 :: "FiberContext_A64 \<Rightarrow> u64" where
  "GetContextStackPointer_A64 ctx = a_sp ctx"

definition empty_FiberContext_A64 :: FiberContext_A64 where
  "empty_FiberContext_A64 =
     \<lparr>a_sp = 0, a_pc = 0, a_x19 = 0, a_x20 = 0, a_x21 = 0, a_x22 = 0, a_x23 = 0, a_x24 = 0,
      a_x25 = 0, a_x26 = 0, a_x27 = 0, a_x28 = 0, a_x29 = 0, a_x30 = 0, a_d8 = 0,
      a_d9 = 0, a_d10 = 0, a_d11 = 0, a_d12 = 0, a_d13 = 0, a_d14 = 0, a_d15 = 0\<rparr>"

text \<open>\<^verbatim>\<open>InitFiberContextStack\<close>; unlike the other branch it writes no memory.\<close>

definition InitFiberContextStack_A64 :: "u64 \<Rightarrow> u64 \<Rightarrow> u64 \<Rightarrow> FiberContext_A64 result" where
  "InitFiberContextStack_A64 entry stack stack_size =
     (if stack = 0 \<or> stack_size = 0 then Inl Assertion_Failed
      else let stack_top = stack + stack_size;
               aligned_top = AlignDown stack_top kFiberContextStackAlignment;
               entry_sp = aligned_top - kFiberContextEntryStackAdjust_A64
           in Inr (empty_FiberContext_A64\<lparr>a_sp := entry_sp, a_pc := entry\<rparr>))"

section \<open>The machine\<close>

text \<open>\<open>Dreg n\<close> is the lower half of the vector register \<open>n\<close>.\<close>

datatype areg = Xreg nat | StackPtr | Dreg nat

record A64 =
  aregs :: "areg \<Rightarrow> u64"
  amem :: "u64 \<Rightarrow> u64"
  apc :: u64

text \<open>\<open>Stp r r' off b\<close> is \<^verbatim>\<open>stp r, r', [b, #off]\<close>; \<open>Adr r\<close> is \<^verbatim>\<open>adr r, .Lresume\<close>.\<close>

datatype ainstr =
    MovFromSp areg
  | MovToSp areg
  | Str areg u64 areg
  | Ldr areg u64 areg
  | Stp areg areg u64 areg
  | Ldp areg areg u64 areg
  | Adr areg
  | Br areg
  | ARet

definition set_areg :: "areg \<Rightarrow> u64 \<Rightarrow> A64 \<Rightarrow> A64" where
  "set_areg r v c = c\<lparr>aregs := (aregs c)(r := v)\<rparr>"

definition put_amem :: "u64 \<Rightarrow> u64 \<Rightarrow> A64 \<Rightarrow> A64" where
  "put_amem a v c = c\<lparr>amem := (amem c)(a := v)\<rparr>"

fun exec_ainstr :: "u64 \<Rightarrow> ainstr \<Rightarrow> A64 \<Rightarrow> A64" where
  "exec_ainstr lresume (MovFromSp r) c = set_areg r (aregs c StackPtr) c"
| "exec_ainstr lresume (MovToSp r) c = set_areg StackPtr (aregs c r) c"
| "exec_ainstr lresume (Str r off b) c = put_amem (aregs c b + off) (aregs c r) c"
| "exec_ainstr lresume (Ldr r off b) c = set_areg r (amem c (aregs c b + off)) c"
| "exec_ainstr lresume (Stp r r' off b) c =
     put_amem (aregs c b + (off + 8)) (aregs c r') (put_amem (aregs c b + off) (aregs c r) c)"
| "exec_ainstr lresume (Ldp r r' off b) c =
     set_areg r' (amem c (aregs c b + (off + 8))) (set_areg r (amem c (aregs c b + off)) c)"
| "exec_ainstr lresume (Adr r) c = set_areg r lresume c"
| "exec_ainstr lresume (Br r) c = c\<lparr>apc := aregs c r\<rparr>"
| "exec_ainstr lresume ARet c = c\<lparr>apc := aregs c (Xreg 30)\<rparr>"

fun exec_a64 :: "u64 \<Rightarrow> ainstr list \<Rightarrow> A64 \<Rightarrow> A64" where
  "exec_a64 lresume [] c = c"
| "exec_a64 lresume (i # is) c = exec_a64 lresume is (exec_ainstr lresume i c)"

section \<open>The swap routine\<close>

definition swap_code_A64 :: "ainstr list" where
  "swap_code_A64 =
     [MovFromSp (Xreg 9), Str (Xreg 9) 0 (Xreg 0), Adr (Xreg 9), Str (Xreg 9) 8 (Xreg 0),
      Stp (Xreg 19) (Xreg 20) 16 (Xreg 0), Stp (Xreg 21) (Xreg 22) 32 (Xreg 0),
      Stp (Xreg 23) (Xreg 24) 48 (Xreg 0), Stp (Xreg 25) (Xreg 26) 64 (Xreg 0),
      Stp (Xreg 27) (Xreg 28) 80 (Xreg 0), Stp (Xreg 29) (Xreg 30) 96 (Xreg 0),
      Stp (Dreg 8) (Dreg 9) 112 (Xreg 0), Stp (Dreg 10) (Dreg 11) 128 (Xreg 0),
      Stp (Dreg 12) (Dreg 13) 144 (Xreg 0), Stp (Dreg 14) (Dreg 15) 160 (Xreg 0),
      Ldr (Xreg 9) 0 (Xreg 1), MovToSp (Xreg 9), Ldr (Xreg 2) 8 (Xreg 1),
      Ldp (Xreg 19) (Xreg 20) 16 (Xreg 1), Ldp (Xreg 21) (Xreg 22) 32 (Xreg 1),
      Ldp (Xreg 23) (Xreg 24) 48 (Xreg 1), Ldp (Xreg 25) (Xreg 26) 64 (Xreg 1),
      Ldp (Xreg 27) (Xreg 28) 80 (Xreg 1), Ldp (Xreg 29) (Xreg 30) 96 (Xreg 1),
      Ldp (Dreg 8) (Dreg 9) 112 (Xreg 1), Ldp (Dreg 10) (Dreg 11) 128 (Xreg 1),
      Ldp (Dreg 12) (Dreg 13) 144 (Xreg 1), Ldp (Dreg 14) (Dreg 15) 160 (Xreg 1), Br (Xreg 2)]"

definition resume_code_A64 :: "ainstr list" where "resume_code_A64 = [ARet]"

text \<open>A context in memory, its words, and the context of the running code.\<close>

definition a64_at :: "(u64 \<Rightarrow> u64) \<Rightarrow> u64 \<Rightarrow> FiberContext_A64" where
  "a64_at m a =
     \<lparr>a_sp = m a, a_pc = m (a + 8), a_x19 = m (a + 16), a_x20 = m (a + 24),
      a_x21 = m (a + 32), a_x22 = m (a + 40), a_x23 = m (a + 48), a_x24 = m (a + 56),
      a_x25 = m (a + 64), a_x26 = m (a + 72), a_x27 = m (a + 80), a_x28 = m (a + 88),
      a_x29 = m (a + 96), a_x30 = m (a + 104), a_d8 = m (a + 112), a_d9 = m (a + 120),
      a_d10 = m (a + 128), a_d11 = m (a + 136), a_d12 = m (a + 144), a_d13 = m (a + 152),
      a_d14 = m (a + 160), a_d15 = m (a + 168)\<rparr>"

definition a64_offsets :: "u64 set" where
  "a64_offsets = {0, 8, 16, 24, 32, 40, 48, 56, 64, 72, 80, 88, 96, 104, 112, 120, 128, 136, 144, 152, 160, 168}"

definition a64_cells :: "u64 \<Rightarrow> u64 set" where "a64_cells a = (\<lambda>i. a + i) ` a64_offsets"

definition a64_live :: "u64 \<Rightarrow> A64 \<Rightarrow> FiberContext_A64" where
  "a64_live p c =
     \<lparr>a_sp = aregs c StackPtr, a_pc = p, a_x19 = aregs c (Xreg 19),
      a_x20 = aregs c (Xreg 20), a_x21 = aregs c (Xreg 21), a_x22 = aregs c (Xreg 22),
      a_x23 = aregs c (Xreg 23), a_x24 = aregs c (Xreg 24), a_x25 = aregs c (Xreg 25),
      a_x26 = aregs c (Xreg 26), a_x27 = aregs c (Xreg 27), a_x28 = aregs c (Xreg 28),
      a_x29 = aregs c (Xreg 29), a_x30 = aregs c (Xreg 30), a_d8 = aregs c (Dreg 8),
      a_d9 = aregs c (Dreg 9), a_d10 = aregs c (Dreg 10), a_d11 = aregs c (Dreg 11),
      a_d12 = aregs c (Dreg 12), a_d13 = aregs c (Dreg 13), a_d14 = aregs c (Dreg 14),
      a_d15 = aregs c (Dreg 15)\<rparr>"

text \<open>The registers that the calling convention obliges a function to preserve.\<close>

definition a64_callee_saved :: "areg set" where
  "a64_callee_saved = set (StackPtr # map Xreg [19..<31] @ map Dreg [8..<16])"

section \<open>The contract\<close>

text \<open>The routine in its two halves: the first writes the source context, the second reads the other.\<close>

definition a64_save :: "ainstr list" where "a64_save = take 14 swap_code_A64"
definition a64_load :: "ainstr list" where "a64_load = drop 14 swap_code_A64"

lemma exec_a64_append: "exec_a64 l (p @ q) c = exec_a64 l q (exec_a64 l p c)"
  by (induction p arbitrary: c) simp_all

lemma a64_halves: "exec_a64 l swap_code_A64 c = exec_a64 l a64_load (exec_a64 l a64_save c)"
  unfolding exec_a64_append [symmetric] a64_save_def a64_load_def append_take_drop_id ..

lemma a64_save_regs: "r \<noteq> Xreg 9 \<Longrightarrow> aregs (exec_a64 l a64_save c) r = aregs c r"
  by (simp add: a64_save_def swap_code_A64_def set_areg_def put_amem_def)

lemma a64_save_ctx: "a64_at (amem (exec_a64 l a64_save c)) (aregs c (Xreg 0)) = a64_live l c"
  by (simp add: a64_save_def swap_code_A64_def set_areg_def put_amem_def a64_at_def a64_live_def)

lemma a64_save_frame: "a \<notin> a64_cells (aregs c (Xreg 0)) \<Longrightarrow> amem (exec_a64 l a64_save c) a = amem c a"
  by (simp add: a64_save_def swap_code_A64_def set_areg_def put_amem_def a64_cells_def a64_offsets_def)

lemma a64_load_mem: "amem (exec_a64 l a64_load c) = amem c"
  by (simp add: a64_load_def swap_code_A64_def set_areg_def)

lemma a64_load_ctx:
  "a64_live (a_pc (a64_at (amem c) (aregs c (Xreg 1)))) (exec_a64 l a64_load c) = a64_at (amem c) (aregs c (Xreg 1))"
  "apc (exec_a64 l a64_load c) = a_pc (a64_at (amem c) (aregs c (Xreg 1)))"
  by (simp_all add: a64_load_def swap_code_A64_def set_areg_def a64_at_def a64_live_def)

lemma a64_local: "(\<forall>a \<in> a64_cells d. m a = m' a) \<Longrightarrow> a64_at m d = a64_at m' d"
  by (simp add: a64_at_def a64_cells_def a64_offsets_def)

lemma a64_halves_mem: "amem (exec_a64 l swap_code_A64 c) = amem (exec_a64 l a64_save c)"
  by (simp add: a64_halves a64_load_mem)

lemma a64_source_kept:
  assumes "a64_cells (aregs c (Xreg 0)) \<inter> a64_cells (aregs c (Xreg 1)) = {}"
  shows "a64_at (amem (exec_a64 l a64_save c)) (aregs (exec_a64 l a64_save c) (Xreg 1)) =
    a64_at (amem c) (aregs c (Xreg 1))"
proof -
  have "\<forall>a \<in> a64_cells (aregs c (Xreg 1)). amem (exec_a64 l a64_save c) a = amem c a"
    using assms a64_save_frame by (metis disjoint_iff)
  then show ?thesis by (simp add: a64_save_regs a64_local)
qed

interpretation a64: context_swap "\<lambda>l. exec_a64 l swap_code_A64" amem apc "\<lambda>c. aregs c (Xreg 0)"
  "\<lambda>c. aregs c (Xreg 1)" a64_cells a64_at a64_live a_pc
proof
  show "a64_at (amem (exec_a64 l swap_code_A64 c)) (aregs c (Xreg 0)) = a64_live l c" for c l
    by (simp add: a64_halves_mem a64_save_ctx)
  show "amem (exec_a64 l swap_code_A64 c) a = amem c a" if "a \<notin> a64_cells (aregs c (Xreg 0))" for c a l
    using that by (simp add: a64_halves_mem a64_save_frame)
  show "a64_live (a_pc (a64_at (amem c) (aregs c (Xreg 1)))) (exec_a64 l swap_code_A64 c) =
      a64_at (amem c) (aregs c (Xreg 1))"
    if "a64_cells (aregs c (Xreg 0)) \<inter> a64_cells (aregs c (Xreg 1)) = {}" for c l
    using a64_load_ctx(1) [of "exec_a64 l a64_save c" l] a64_source_kept [OF that, of l] by (simp add: a64_halves)
  show "apc (exec_a64 l swap_code_A64 c) = a_pc (a64_at (amem c) (aregs c (Xreg 1)))"
    if "a64_cells (aregs c (Xreg 0)) \<inter> a64_cells (aregs c (Xreg 1)) = {}" for c l
    using a64_load_ctx(2) [where c = "exec_a64 l a64_save c"] a64_source_kept [OF that, of l] by (simp add: a64_halves)
  show "a64_at m d = a64_at m' d" if "\<forall>a \<in> a64_cells d. m a = m' a" for d m m' by (rule a64_local [OF that])
qed (simp add: a64_live_def)

lemma callee_saved_live:
  "a64_live p c = a64_live p c' \<Longrightarrow> r \<in> a64_callee_saved \<Longrightarrow> aregs c r = aregs c' r"
proof -
  assume e: "a64_live p c = a64_live p c'" and r: "r \<in> a64_callee_saved"
  from e r show "aregs c r = aregs c' r"
    by (auto simp: a64_callee_saved_def a64_live_def simp del: set_upt)
qed

text \<open>
  Property C16. On aarch64 too the swap routine is a call that returns: when a later swap switches
  to the context it saved, which nobody has written meanwhile, execution continues at the
  return address with the stack pointer, the callee-saved general registers and the lower
  halves of \<^verbatim>\<open>v8\<close> to \<^verbatim>\<open>v15\<close> as they were, and no memory has changed but the other context.
\<close>

theorem a64_swap_roundtrip:
  assumes "a64_cells (aregs c (Xreg 0)) \<inter> a64_cells (aregs c (Xreg 1)) = {}"
    and "aregs c2 (Xreg 1) = aregs c (Xreg 0)"
    and "a64_cells (aregs c2 (Xreg 0)) \<inter> a64_cells (aregs c2 (Xreg 1)) = {}"
    and "\<forall>a \<in> a64_cells (aregs c (Xreg 0)). amem c2 a = amem (exec_a64 lresume swap_code_A64 c) a"
  shows "apc (exec_a64 lresume swap_code_A64 c2) = lresume \<and>
    (let c3 = exec_a64 lresume resume_code_A64 (exec_a64 lresume swap_code_A64 c2)
     in apc c3 = aregs c (Xreg 30) \<and> (\<forall>r \<in> a64_callee_saved. aregs c3 r = aregs c r) \<and>
       (\<forall>a. a \<notin> a64_cells (aregs c2 (Xreg 0)) \<longrightarrow> amem c3 a = amem c2 a))"
proof -
  note R = a64.returns [OF assms(1,3,2,4)]
  have "Xreg 30 \<in> a64_callee_saved" by (simp add: a64_callee_saved_def)
  with callee_saved_live [OF R(1)] R(2) a64.frame [OF assms(3), of _ lresume] show ?thesis
    by (simp add: Let_def resume_code_A64_def)
qed

lemma a64_swap_roundtrip_witness:
  "let c = \<lparr>aregs = (\<lambda>r. 7)(Xreg 0 := 0x1000, Xreg 1 := 0x2000, Xreg 30 := 0x401000), amem = (\<lambda>_. 0), apc = 0\<rparr>;
     c2 = (exec_a64 0x400100 swap_code_A64 c)\<lparr>aregs := (\<lambda>r. 9)(Xreg 0 := 0x2000, Xreg 1 := 0x1000)\<rparr>
   in apc (exec_a64 0x400100 resume_code_A64 (exec_a64 0x400100 swap_code_A64 c2)) = 0x401000"
proof -
  define c where "c = \<lparr>aregs = (\<lambda>r. 7)(Xreg 0 := 0x1000, Xreg 1 := 0x2000, Xreg 30 := 0x401000),
    amem = (\<lambda>_. 0), apc = 0 :: u64\<rparr>"
  define c2 where "c2 = (exec_a64 0x400100 swap_code_A64 c)\<lparr>aregs := (\<lambda>r. 9)(Xreg 0 := 0x2000, Xreg 1 := 0x1000)\<rparr>"
  have d: "a64_cells 0x1000 \<inter> a64_cells 0x2000 = {}" by (simp add: a64_cells_def a64_offsets_def)
  have "a64_cells (aregs c (Xreg 0)) \<inter> a64_cells (aregs c (Xreg 1)) = {}"
    "aregs c2 (Xreg 1) = aregs c (Xreg 0)"
    "a64_cells (aregs c2 (Xreg 0)) \<inter> a64_cells (aregs c2 (Xreg 1)) = {}"
    "\<forall>a \<in> a64_cells (aregs c (Xreg 0)). amem c2 a = amem (exec_a64 0x400100 swap_code_A64 c) a"
    using d by (simp_all add: c_def c2_def Int_commute)
  from a64_swap_roundtrip [OF this] show ?thesis by (simp add: Let_def c_def c2_def)
qed

end
