(* ===== verification/Co_Thread.thy ===== *)
theory Co_Thread
  imports Co_Prelude
begin

text \<open>
  \<^verbatim>\<open>Semaphore\<close> and \<^verbatim>\<open>Thread\<close> (include/mycoroutine/thread.h, src/thread.cpp): the counting
  semaphore over a mutex and a condition variable, and the construction of a thread, which
  uses one to wait until the new thread has introduced itself. \<^verbatim>\<open>std::condition_variable\<close> may
  wake a waiter for no reason; \<^verbatim>\<open>pthread_create\<close> and \<^verbatim>\<open>pthread_join\<close> are not code of the
  repository, and their results are arguments.
\<close>

section \<open>Semaphore\<close>

text \<open>\<open>sem_blocked\<close> are the threads inside \<^verbatim>\<open>cv.wait\<close>.\<close>

record Semaphore =
  sem_count :: int
  sem_blocked :: "int list"

definition Semaphore_ctor :: "int \<Rightarrow> Semaphore" where
  "Semaphore_ctor n = \<lparr>sem_count = n, sem_blocked = []\<rparr>"

text \<open>
  \<^verbatim>\<open>wait\<close> from the test of its loop, with the lock held: the thread blocks, or takes one and
  returns (\<open>True\<close>).
\<close>

definition sem_wait :: "int \<Rightarrow> Semaphore \<Rightarrow> Semaphore \<times> bool" where
  "sem_wait t s =
     (if sem_count s = 0 then (s\<lparr>sem_blocked := sem_blocked s @ [t]\<rparr>, False)
      else (s\<lparr>sem_count := sem_count s - 1\<rparr>, True))"

text \<open>The end of \<^verbatim>\<open>cv.wait\<close> for a thread, before it has the lock again.\<close>

definition sem_wake :: "int \<Rightarrow> Semaphore \<Rightarrow> Semaphore" where
  "sem_wake t s = s\<lparr>sem_blocked := remove1 t (sem_blocked s)\<rparr>"

text \<open>\<^verbatim>\<open>signal\<close>; \<^verbatim>\<open>notify_one\<close> wakes \<open>w\<close>, some waiter if there is any.\<close>

definition sem_signal :: "int option \<Rightarrow> Semaphore \<Rightarrow> Semaphore" where
  "sem_signal w s =
     (let s1 = s\<lparr>sem_count := sem_count s + 1\<rparr>
      in case w of None \<Rightarrow> s1 | Some t \<Rightarrow> sem_wake t s1)"

definition notify_choice :: "Semaphore \<Rightarrow> int option \<Rightarrow> bool" where
  "notify_choice s w \<longleftrightarrow> (case w of None \<Rightarrow> sem_blocked s = [] | Some t \<Rightarrow> t \<in> set (sem_blocked s))"

text \<open>
  Any number of threads on one semaphore: \<open>woken\<close> are those that have left \<^verbatim>\<open>cv.wait\<close> and not
  yet tested again, \<open>passed\<close> and \<open>signals\<close> count the calls of \<^verbatim>\<open>wait\<close> that have returned and
  of \<^verbatim>\<open>signal\<close>.
\<close>

record SemRun =
  sem :: Semaphore
  woken :: "int list"
  passed :: nat
  signals :: nat

definition run_wait :: "int \<Rightarrow> SemRun \<Rightarrow> SemRun" where
  "run_wait t r =
     (case sem_wait t (sem r) of
        (s, done) \<Rightarrow> r\<lparr>sem := s, woken := remove1 t (woken r), passed := passed r + (if done then 1 else 0)\<rparr>)"

definition run_spurious :: "int \<Rightarrow> SemRun \<Rightarrow> SemRun" where
  "run_spurious t r = r\<lparr>sem := sem_wake t (sem r), woken := woken r @ [t]\<rparr>"

definition run_signal :: "int option \<Rightarrow> SemRun \<Rightarrow> SemRun" where
  "run_signal w r = r\<lparr>sem := sem_signal w (sem r), signals := Suc (signals r),
     woken := (case w of None \<Rightarrow> woken r | Some t \<Rightarrow> woken r @ [t])\<rparr>"

inductive sem_reach :: "int \<Rightarrow> SemRun \<Rightarrow> bool" for n where
  sem_start: "0 \<le> n \<Longrightarrow> sem_reach n \<lparr>sem = Semaphore_ctor n, woken = [], passed = 0, signals = 0\<rparr>"
| sem_wait: "sem_reach n r \<Longrightarrow> t \<notin> set (sem_blocked (sem r)) \<Longrightarrow> sem_reach n (run_wait t r)"
| sem_spurious: "sem_reach n r \<Longrightarrow> t \<in> set (sem_blocked (sem r)) \<Longrightarrow> sem_reach n (run_spurious t r)"
| sem_signal: "sem_reach n r \<Longrightarrow> notify_choice (sem r) w \<Longrightarrow> sem_reach n (run_signal w r)"

definition sem_inv :: "int \<Rightarrow> SemRun \<Rightarrow> bool" where
  "sem_inv n r \<longleftrightarrow> 0 \<le> sem_count (sem r) \<and>
     sem_count (sem r) + int (passed r) = n + int (signals r) \<and>
     distinct (sem_blocked (sem r) @ woken r) \<and>
     (sem_blocked (sem r) \<noteq> [] \<longrightarrow> sem_count (sem r) \<le> int (length (woken r)))"

lemma sem_reach_inv: "sem_reach n r \<Longrightarrow> sem_inv n r"
proof (induction rule: sem_reach.induct)
  case sem_start
  then show ?case by (simp add: sem_inv_def Semaphore_ctor_def)
next
  case (sem_wait r t)
  have "length (remove1 t (woken r)) \<ge> length (woken r) - 1" by (simp add: length_remove1)
  with sem_wait show ?case
    by (auto simp: sem_inv_def run_wait_def sem_wait_def distinct_remove1 dest: notin_set_remove1 set_remove1_subset [THEN subsetD])
next
  case (sem_spurious r t)
  then show ?case
    by (auto simp: sem_inv_def run_spurious_def sem_wake_def distinct_remove1 dest: set_remove1_subset [THEN subsetD])
next
  case (sem_signal r w)
  then show ?case
    by (auto simp: sem_inv_def run_signal_def sem_signal_def sem_wake_def notify_choice_def Let_def
        split: option.splits dest: set_remove1_subset [THEN subsetD])
qed

section \<open>Thread\<close>

record Thread =
  th_id :: int
  th_handle :: u64
  th_cb :: "callback option"
  th_name :: string
  th_semaphore :: Semaphore

definition Thread_fields :: "callback option \<Rightarrow> string \<Rightarrow> Thread" where
  "Thread_fields cb name =
     \<lparr>th_id = -1, th_handle = 0, th_cb = cb, th_name = name, th_semaphore = Semaphore_ctor 0\<rparr>"

text \<open>
  Where the constructor is: before \<^verbatim>\<open>pthread_create\<close>, with the lock of the semaphore to take,
  inside \<^verbatim>\<open>cv.wait\<close>, returned, or left by the exception; and where the new thread is: not
  there, at the head of \<^verbatim>\<open>run\<close>, before \<^verbatim>\<open>signal\<close>, before the callback, ended. \<open>self\<close> stands for
  the constructing thread among the semaphore's waiters.
\<close>

datatype ctor_pc = Creating | Acquiring | In_Wait | Constructed | Threw fault
datatype child_pc = Absent | Starting | Signalling "callback option" | Calling "callback option" | Finished

text \<open>\<open>tls_thread\<close> and \<open>tls_name\<close> are the new thread's \<^verbatim>\<open>t_thread\<close> (set or not) and name, \<open>os_name\<close>
  the one the system has, \<open>called\<close> the callbacks it has run.\<close>

record Construction =
  obj :: Thread
  ctor :: ctor_pc
  child :: child_pc
  tls_thread :: bool
  tls_name :: string
  os_name :: string
  called :: "callback option list"

definition self :: int where "self = 0"

definition Thread_ctor_create :: "int \<Rightarrow> u64 \<Rightarrow> Construction \<Rightarrow> Construction" where
  "Thread_ctor_create rt h s =
     (if rt \<noteq> 0 then s\<lparr>ctor := Threw Logic_Error\<rparr>
      else s\<lparr>obj := (obj s)\<lparr>th_handle := h\<rparr>, ctor := Acquiring, child := Starting\<rparr>)"

definition Thread_ctor_wait :: "Construction \<Rightarrow> Construction" where
  "Thread_ctor_wait s =
     (case sem_wait self (th_semaphore (obj s)) of
        (q, done) \<Rightarrow> s\<lparr>obj := (obj s)\<lparr>th_semaphore := q\<rparr>, ctor := (if done then Constructed else In_Wait)\<rparr>)"

definition Thread_ctor_woken :: "Construction \<Rightarrow> Construction" where
  "Thread_ctor_woken s =
     s\<lparr>obj := (obj s)\<lparr>th_semaphore := sem_wake self (th_semaphore (obj s))\<rparr>, ctor := Acquiring\<rparr>"

text \<open>\<^verbatim>\<open>run\<close> up to the semaphore; \<open>tid\<close> is the new thread's identifier.\<close>

definition Thread_run_init :: "int \<Rightarrow> Construction \<Rightarrow> Construction" where
  "Thread_run_init tid s =
     s\<lparr>tls_thread := True, tls_name := th_name (obj s), os_name := take 15 (th_name (obj s)),
       obj := (obj s)\<lparr>th_id := tid, th_cb := None\<rparr>, child := Signalling (th_cb (obj s))\<rparr>"

definition Thread_run_signal :: "Construction \<Rightarrow> Construction" where
  "Thread_run_signal s =
     (case child s of
        Signalling cb \<Rightarrow>
          (let q = th_semaphore (obj s);
               w = (case sem_blocked q of [] \<Rightarrow> None | t # _ \<Rightarrow> Some t)
           in s\<lparr>obj := (obj s)\<lparr>th_semaphore := sem_signal w q\<rparr>, child := Calling cb,
                ctor := (if w = None then ctor s else Acquiring)\<rparr>)
      | _ \<Rightarrow> s)"

definition Thread_run_call :: "Construction \<Rightarrow> Construction" where
  "Thread_run_call s =
     (case child s of Calling cb \<Rightarrow> s\<lparr>called := called s @ [cb], child := Finished\<rparr> | _ \<Rightarrow> s)"

text \<open>\<^verbatim>\<open>SetName\<close> on the new thread.\<close>

definition Thread_SetName :: "string \<Rightarrow> Construction \<Rightarrow> Construction" where
  "Thread_SetName name s =
     (let s1 = (if tls_thread s then s\<lparr>obj := (obj s)\<lparr>th_name := name\<rparr>\<rparr> else s)
      in s1\<lparr>tls_name := name\<rparr>)"

text \<open>\<open>rt\<close> is the result of \<^verbatim>\<open>pthread_join\<close>; the destructor's flag says whether it detaches.\<close>

definition Thread_join :: "int \<Rightarrow> Thread \<Rightarrow> Thread result" where
  "Thread_join rt t =
     (if th_handle t \<noteq> 0
      then if rt \<noteq> 0 then Inl Logic_Error else Inr (t\<lparr>th_handle := 0\<rparr>)
      else Inr t)"

definition Thread_dtor :: "Thread \<Rightarrow> Thread \<times> bool" where
  "Thread_dtor t = (if th_handle t \<noteq> 0 then (t\<lparr>th_handle := 0\<rparr>, True) else (t, False))"

definition Construction_0 :: "callback option \<Rightarrow> string \<Rightarrow> Construction" where
  "Construction_0 cb name = \<lparr>obj = Thread_fields cb name, ctor = Creating, child = Absent,
     tls_thread = False, tls_name = ''UNKNOWN'', os_name = '''', called = []\<rparr>"

inductive thread_reach :: "callback option \<Rightarrow> string \<Rightarrow> u64 \<Rightarrow> int \<Rightarrow> Construction \<Rightarrow> bool" for cb name h tid where
  th_start: "thread_reach cb name h tid (Construction_0 cb name)"
| th_create: "thread_reach cb name h tid s \<Longrightarrow> ctor s = Creating \<Longrightarrow>
    thread_reach cb name h tid (Thread_ctor_create rt h s)"
| th_wait: "thread_reach cb name h tid s \<Longrightarrow> ctor s = Acquiring \<Longrightarrow> thread_reach cb name h tid (Thread_ctor_wait s)"
| th_spurious: "thread_reach cb name h tid s \<Longrightarrow> ctor s = In_Wait \<Longrightarrow>
    thread_reach cb name h tid (Thread_ctor_woken s)"
| th_init: "thread_reach cb name h tid s \<Longrightarrow> child s = Starting \<Longrightarrow>
    thread_reach cb name h tid (Thread_run_init tid s)"
| th_signal: "thread_reach cb name h tid s \<Longrightarrow> thread_reach cb name h tid (Thread_run_signal s)"
| th_call: "thread_reach cb name h tid s \<Longrightarrow> thread_reach cb name h tid (Thread_run_call s)"

definition Thread_made :: "string \<Rightarrow> u64 \<Rightarrow> int \<Rightarrow> Thread" where
  "Thread_made name h tid =
     \<lparr>th_id = tid, th_handle = h, th_cb = None, th_name = name, th_semaphore = Semaphore_ctor 0\<rparr>"

text \<open>
  The semaphore holds one unit from the signal to the end of the wait, and the constructor
  sleeps only before the signal.
\<close>

definition thread_inv :: "callback option \<Rightarrow> string \<Rightarrow> u64 \<Rightarrow> int \<Rightarrow> Construction \<Rightarrow> bool" where
  "thread_inv cb name h tid s \<longleftrightarrow>
     th_name (obj s) = name \<and>
     (ctor s = Creating \<or> ctor s = Threw Logic_Error \<longleftrightarrow> child s = Absent) \<and>
     (\<forall>e. ctor s = Threw e \<longrightarrow> e = Logic_Error) \<and>
     (child s \<noteq> Absent \<longrightarrow> th_handle (obj s) = h) \<and>
     (if child s \<in> {Absent, Starting} then th_id (obj s) = -1 \<and> th_cb (obj s) = cb
      else th_id (obj s) = tid \<and> th_cb (obj s) = None \<and> tls_thread s \<and> tls_name s = name \<and>
        os_name s = take 15 name) \<and>
     child s \<in> {Absent, Starting, Signalling cb, Calling cb, Finished} \<and>
     called s = (if child s = Finished then [cb] else []) \<and>
     sem_count (th_semaphore (obj s)) = (if child s \<in> {Calling cb, Finished} \<and> ctor s \<noteq> Constructed then 1 else 0) \<and>
     sem_blocked (th_semaphore (obj s)) = (if ctor s = In_Wait then [self] else []) \<and>
     (ctor s = Constructed \<longrightarrow> child s \<in> {Calling cb, Finished}) \<and>
     (ctor s = In_Wait \<longrightarrow> child s \<notin> {Calling cb, Finished})"

lemma thread_reach_inv: "thread_reach cb name h tid s \<Longrightarrow> thread_inv cb name h tid s"
proof (induction rule: thread_reach.induct)
  case th_start
  then show ?case by (simp add: thread_inv_def Construction_0_def Thread_fields_def Semaphore_ctor_def)
next
  case (th_create s rt)
  then show ?case by (auto simp: thread_inv_def Thread_ctor_create_def)
next
  case (th_wait s)
  then show ?case by (auto simp: thread_inv_def Thread_ctor_wait_def sem_wait_def split: if_splits)
next
  case (th_spurious s)
  then show ?case by (auto simp: thread_inv_def Thread_ctor_woken_def sem_wake_def split: if_splits)
next
  case (th_init s)
  then show ?case by (auto simp: thread_inv_def Thread_run_init_def split: if_splits)
next
  case (th_signal s)
  show ?case
  proof (cases "child s = Signalling cb")
    case True
    with th_signal(2) have "ctor s = Acquiring \<or> ctor s = In_Wait"
      by (cases "ctor s") (simp_all add: thread_inv_def)
    with th_signal(2) True show ?thesis
      by (elim disjE) (simp_all add: thread_inv_def Thread_run_signal_def sem_signal_def sem_wake_def Let_def)
  next
    case False
    with th_signal(2) have "Thread_run_signal s = s"
      by (cases "child s") (simp_all add: thread_inv_def Thread_run_signal_def)
    with th_signal(2) show ?thesis by simp
  qed
next
  case (th_call s)
  show ?case
  proof (cases "child s = Calling cb")
    case True
    with th_call(2) show ?thesis by (simp add: thread_inv_def Thread_run_call_def)
  next
    case False
    with th_call(2) have "Thread_run_call s = s"
      by (cases "child s") (simp_all add: thread_inv_def Thread_run_call_def)
    with th_call(2) show ?thesis by simp
  qed
qed

section \<open>Properties\<close>

text \<open>
  The semaphore counts: for any number of threads, in any order, with wake-ups for
  no reason, the counter is its start value plus the signals minus the waits that have returned
  and never negative, so that never more waits return than there were units; and when nobody
  is on the way out of \<^verbatim>\<open>cv.wait\<close>, a thread sleeps there only if every unit has been taken.
\<close>

theorem semaphore_counts:
  assumes "sem_reach n r"
  shows "sem_count (sem r) = n + int (signals r) - int (passed r) \<and> 0 \<le> sem_count (sem r) \<and>
    int (passed r) \<le> n + int (signals r) \<and>
    (woken r = [] \<and> sem_blocked (sem r) \<noteq> [] \<longrightarrow> int (passed r) = n + int (signals r))"
  using sem_reach_inv [OF assms] by (auto simp: sem_inv_def)

lemma semaphore_counts_witness:
  "\<exists>r. sem_reach 0 r \<and> sem_blocked (sem r) = [6] \<and> passed r = 1 \<and> signals r = 1"
proof -
  let ?r0 = "\<lparr>sem = Semaphore_ctor 0, woken = [], passed = 0, signals = 0\<rparr>"
  let ?r1 = "run_wait 6 (run_wait 5 ?r0)"
  let ?r = "run_wait 5 (run_signal (Some 5) ?r1)"
  note simps = run_wait_def run_signal_def sem_wait_def sem_signal_def sem_wake_def Semaphore_ctor_def Let_def
  have "sem_reach 0 ?r"
    by (intro sem_reach.intros) (simp_all add: simps notify_choice_def)
  moreover from semaphore_counts [OF this] have "sem_blocked (sem ?r) = [6] \<and> passed ?r = 1 \<and> signals ?r = 1"
    by (simp add: simps)
  ultimately show ?thesis by blast
qed

text \<open>
  A constructed thread is started: in every interleaving of the constructor with
  the new thread, when the constructor has returned the thread has recorded its identifier, set
  its thread-local name and the system's (cut to fifteen characters) and taken the callback out
  of the object; once the thread has signalled the constructor does not sleep, and its next test
  lets it return. The callback runs at most once. If \<^verbatim>\<open>pthread_create\<close> fails the constructor
  throws and nothing runs.
\<close>

theorem thread_started:
  assumes "thread_reach cb name h tid s"
  shows "(ctor s = Constructed \<longrightarrow> obj s = Thread_made name h tid \<and> tls_thread s \<and> tls_name s = name \<and>
      os_name s = take 15 name) \<and>
    (child s \<in> {Calling cb, Finished} \<longrightarrow> ctor s = Constructed \<or>
      ctor s = Acquiring \<and> ctor (Thread_ctor_wait s) = Constructed) \<and>
    called s = (if child s = Finished then [cb] else []) \<and>
    (\<forall>e. ctor s = Threw e \<longrightarrow> e = Logic_Error \<and> child s = Absent)"
proof (intro conjI impI allI)
  note inv = thread_reach_inv [OF assms]
  assume c: "ctor s = Constructed"
  with inv have "th_semaphore (obj s) = Semaphore_ctor 0"
    by (intro Semaphore.equality) (simp_all add: thread_inv_def Semaphore_ctor_def)
  with inv c show "obj s = Thread_made name h tid"
    by (intro Thread.equality) (auto simp: thread_inv_def Thread_made_def)
  show "tls_thread s" "tls_name s = name" "os_name s = take 15 name"
    using inv c by (auto simp: thread_inv_def)
next
  note inv = thread_reach_inv [OF assms]
  assume c: "child s \<in> {Calling cb, Finished}"
  with inv have "ctor s = Constructed \<or> ctor s = Acquiring"
    by (cases "ctor s") (auto simp: thread_inv_def)
  with inv c show "ctor s = Constructed \<or> ctor s = Acquiring \<and> ctor (Thread_ctor_wait s) = Constructed"
    by (auto simp: thread_inv_def Thread_ctor_wait_def sem_wait_def)
qed (use thread_reach_inv [OF assms] in \<open>auto simp: thread_inv_def\<close>)

lemma thread_started_witness:
  "\<exists>s. thread_reach (Some (UserCb 1)) ''worker_with_a_long_name'' 7 42 s \<and> ctor s = Constructed \<and>
    th_id (obj s) = 42 \<and> os_name s = ''worker_with_a_l''"
proof -
  let ?c = "Construction_0 (Some (UserCb 1)) ''worker_with_a_long_name''"
  let ?s1 = "Thread_ctor_wait (Thread_ctor_create 0 7 ?c)"
  let ?s = "Thread_ctor_wait (Thread_run_signal (Thread_run_init 42 ?s1))"
  note simps = Thread_ctor_create_def Thread_ctor_wait_def Thread_run_init_def Thread_run_signal_def
    Construction_0_def Thread_fields_def sem_wait_def sem_signal_def sem_wake_def Semaphore_ctor_def Let_def self_def
  have r: "thread_reach (Some (UserCb 1)) ''worker_with_a_long_name'' 7 42 ?s"
    by (intro th_wait th_signal th_init th_create th_start) (simp_all add: simps)
  moreover have "ctor ?s = Constructed" by (simp add: simps)
  ultimately show ?thesis using thread_started [OF r] by (intro exI [of _ ?s]) (auto simp: Thread_made_def)
qed

end
