(* ===== verification/Sched_Start.thy ===== *)
theory Sched_Start
  imports Sched_Policy Coroutine_Pool Co_Thread
begin

text \<open>
  The life of a scheduler (src/scheduler.cpp): the constructor, \<^verbatim>\<open>start\<close>, \<^verbatim>\<open>stop\<close> and the
  destructor, on the fields that the task queue and the worker loop do not touch: the threads,
  their identifiers, the scheduler fiber, the pool, and which threads have this scheduler as
  their \<^verbatim>\<open>t_scheduler\<close>.
\<close>

section \<open>State\<close>

text \<open>
  \<open>tasks\<close> is the queue with its counters and flags. A null pointer in \<^verbatim>\<open>m_threads\<close> is \<open>None\<close>.
  \<open>ref_valid\<close> is false once the \<^verbatim>\<open>SchedulerRef\<close> has been invalidated, \<open>t_scheduler\<close> the set of
  threads whose current scheduler this is, \<open>thread_names\<close> the thread-local names.
\<close>

record SchedulerObj =
  s_name :: string
  m_useCaller :: bool
  tasks :: Scheduler
  m_coroutinePool :: CoroutinePool
  m_threads :: "Thread option list"
  m_threadIds :: "int list"
  m_threadCount :: u64
  m_schedulerFiber :: "fid option"
  ref_valid :: bool
  m_rootThread :: int
  t_scheduler :: "int set"
  thread_names :: "int \<Rightarrow> string"

definition Scheduler_fields :: "string \<Rightarrow> bool \<Rightarrow> (int \<Rightarrow> string) \<Rightarrow> SchedulerObj" where
  "Scheduler_fields name use_caller names =
     \<lparr>s_name = name, m_useCaller = use_caller, tasks = init_Scheduler,
      m_coroutinePool = CoroutinePool_ctor 256, m_threads = [], m_threadIds = [], m_threadCount = 0,
      m_schedulerFiber = None, ref_valid = True, m_rootThread = -1, t_scheduler = {}, thread_names = names\<rparr>"

text \<open>\<^verbatim>\<open>Scheduler::SetThis\<close> on thread \<open>tid\<close>.\<close>

definition Scheduler_SetThis :: "int \<Rightarrow> SchedulerObj \<Rightarrow> SchedulerObj" where
  "Scheduler_SetThis tid s = s\<lparr>t_scheduler := insert tid (t_scheduler s)\<rparr>"

section \<open>Construction\<close>

text \<open>
  The constructor on thread \<open>tid\<close>: \<open>current\<close> says whether that thread has a scheduler, \<open>w\<close> is
  its fiber state, \<open>g\<close> the main fiber if there is none yet, \<open>f\<close> and \<open>block\<close> the scheduler fiber
  and its stack, \<open>run_main\<close> the callback \<^verbatim>\<open>std::bind(&Scheduler::run, this)\<close>.
\<close>

definition Scheduler_ctor ::
    "Env \<Rightarrow> u64 \<Rightarrow> callback \<Rightarrow> bool \<Rightarrow> int \<Rightarrow> fid \<Rightarrow> fid \<Rightarrow> (int \<Rightarrow> string) \<Rightarrow> Thread_State \<Rightarrow>
     u64 \<Rightarrow> bool \<Rightarrow> string \<Rightarrow> (SchedulerObj \<times> Thread_State) result" where
  "Scheduler_ctor e block run_main current tid g f names w threads use_caller name =
     (if \<not> (threads > 0 \<and> \<not> current) then Inl Assertion_Failed
      else let s = Scheduler_SetThis tid (Scheduler_fields name use_caller names);
               s = s\<lparr>thread_names := (thread_names s)(tid := name)\<rparr>
           in if use_caller
              then (case Fiber_child e block (fst (GetThis g w)) f (Some run_main) 0 False False of
                      Inl err \<Rightarrow> Inl err
                    | Inr w1 \<Rightarrow>
                        Inr (s\<lparr>m_schedulerFiber := Some f, m_rootThread := tid,
                               m_threadIds := m_threadIds s @ [tid], m_threadCount := threads - 1\<rparr>,
                             SetSchedulerFiber f w1))
              else Inr (s\<lparr>m_threadCount := threads\<rparr>, w))"

text \<open>\<^verbatim>\<open>std::to_string\<close> of an unsigned number.\<close>

fun to_string :: "nat \<Rightarrow> string" where
  "to_string n = (if n < 10 then [char_of (48 + n)] else to_string (n div 10) @ [char_of (48 + n mod 10)])"

declare to_string.simps [simp del]

definition worker_name :: "SchedulerObj \<Rightarrow> nat \<Rightarrow> string" where
  "worker_name s i = s_name s @ ''_'' @ to_string i"

section \<open>start\<close>

text \<open>
  The loop from index \<open>i\<close> with \<open>n\<close> threads to go. \<open>pt i\<close> is what \<^verbatim>\<open>pthread_create\<close> returns for
  the thread \<open>i\<close>: its result, the handle and the identifier. A constructor that returns has made
  \<open>Thread_made\<close>; one that throws leaves the pointer null.
\<close>

fun start_loop :: "(nat \<Rightarrow> int \<times> u64 \<times> int) \<Rightarrow> nat \<Rightarrow> nat \<Rightarrow> SchedulerObj \<Rightarrow> SchedulerObj \<times> unit result" where
  "start_loop pt i 0 s = (s, Inr ())"
| "start_loop pt i (Suc n) s =
     (case pt i of (rt, h, tid) \<Rightarrow>
        if rt \<noteq> 0 then (s, Inl Logic_Error)
        else start_loop pt (Suc i) n
          (s\<lparr>m_threads := (m_threads s)[i := Some (Thread_made (worker_name s i) h tid)],
             m_threadIds := m_threadIds s @ [tid]\<rparr>))"

definition Scheduler_start :: "(nat \<Rightarrow> int \<times> u64 \<times> int) \<Rightarrow> SchedulerObj \<Rightarrow> SchedulerObj \<times> unit result" where
  "Scheduler_start pt s =
     (if m_stopping (tasks s) then (s, Inr ())
      else if m_threads s \<noteq> [] then (s, Inl Assertion_Failed)
      else let n = unat (m_threadCount s) in start_loop pt 0 n (s\<lparr>m_threads := replicate n None\<rparr>))"

section \<open>stop\<close>

text \<open>
  \<^verbatim>\<open>stop\<close> on thread \<open>tid\<close> in two parts: up to the wake-ups, and after \<^verbatim>\<open>m_schedulerFiber->resume()\<close>
  has come back. The first says whether the second follows. The base class's \<^verbatim>\<open>stopping\<close> is meant.
\<close>

definition Scheduler_stop_begin :: "int \<Rightarrow> SchedulerObj \<Rightarrow> SchedulerObj \<times> bool result" where
  "Scheduler_stop_begin tid s =
     (if stopping (tasks s) then (s, Inr False)
      else let s1 = s\<lparr>tasks := (tasks s)\<lparr>m_stopping := True\<rparr>\<rparr>
           in if m_useCaller s1 = (tid \<in> t_scheduler s1) then (s1, Inr True) else (s1, Inl Assertion_Failed))"

text \<open>
  The joins: \<open>jt i\<close> is the result of \<^verbatim>\<open>pthread_join\<close> for thread \<open>i\<close>. Returned: the thread objects
  as the loop leaves them, the handles that have been joined, and how the loop ended.
\<close>

fun join_all :: "(nat \<Rightarrow> int) \<Rightarrow> nat \<Rightarrow> Thread option list \<Rightarrow> Thread option list \<times> u64 list \<times> unit result" where
  "join_all jt i [] = ([], [], Inr ())"
| "join_all jt i (t # ts) =
     (case t of
        None \<Rightarrow> (t # ts, [], Inl Null_Dereference)
      | Some th \<Rightarrow>
          (case Thread_join (jt i) th of
             Inl err \<Rightarrow> (t # ts, [], Inl err)
           | Inr th1 \<Rightarrow>
               (case join_all jt (Suc i) ts of
                  (ts1, joined, r) \<Rightarrow>
                    (Some th1 # ts1, (if th_handle th \<noteq> 0 then th_handle th # joined else joined), r))))"

text \<open>The destructors of the objects, when the local vector dies: the handles they detach.\<close>

definition detached :: "Thread option list \<Rightarrow> u64 list" where
  "detached ts =
     concat (map (\<lambda>t. case t of None \<Rightarrow> [] | Some th \<Rightarrow> if snd (Thread_dtor th) then [th_handle th] else []) ts)"

text \<open>The state, the handles joined, the handles detached, and the outcome.\<close>

definition Scheduler_stop_end ::
    "(nat \<Rightarrow> int) \<Rightarrow> SchedulerObj \<Rightarrow> SchedulerObj \<times> u64 list \<times> u64 list \<times> unit result" where
  "Scheduler_stop_end jt s =
     (let thrs = m_threads s; s1 = s\<lparr>m_threads := []\<rparr>
      in case join_all jt 0 thrs of
           (thrs1, joined, Inl err) \<Rightarrow> (s1, joined, detached thrs1, Inl err)
         | (thrs1, joined, Inr _) \<Rightarrow>
             (s1\<lparr>m_coroutinePool := clear (m_coroutinePool s1)\<rparr>, joined, detached thrs1, Inr ()))"

definition Scheduler_dtor :: "int \<Rightarrow> SchedulerObj \<Rightarrow> SchedulerObj result" where
  "Scheduler_dtor tid s =
     (if \<not> stopping (tasks s) then Inl Assertion_Failed
      else Inr (s\<lparr>m_coroutinePool := clear (m_coroutinePool s), ref_valid := False,
                  t_scheduler := t_scheduler s - {tid}\<rparr>))"

section \<open>Lemmas\<close>

lemma start_loop_ok:
  assumes "\<forall>j. i \<le> j \<and> j < i + n \<longrightarrow> fst (pt j) = 0" and "length (m_threads s) = i + n"
  shows "start_loop pt i n s =
    (s\<lparr>m_threads := take i (m_threads s) @ map (\<lambda>j. Some (Thread_made (worker_name s j) (fst (snd (pt j))) (snd (snd (pt j))))) [i..<i + n],
       m_threadIds := m_threadIds s @ map (\<lambda>j. snd (snd (pt j))) [i..<i + n]\<rparr>, Inr ())"
  using assms
proof (induction n arbitrary: i s)
  case (Suc n)
  obtain h tid where p: "pt i = (0, h, tid)" using Suc.prems(1) by (cases "pt i") auto
  define s1 where "s1 = s\<lparr>m_threads := (m_threads s)[i := Some (Thread_made (worker_name s i) h tid)],
    m_threadIds := m_threadIds s @ [tid]\<rparr>"
  have n: "worker_name s1 = worker_name s" by (simp add: s1_def worker_name_def fun_eq_iff)
  have "\<forall>j. Suc i \<le> j \<and> j < Suc i + n \<longrightarrow> fst (pt j) = 0" "length (m_threads s1) = Suc i + n"
    using Suc.prems by (simp_all add: s1_def)
  note IH = Suc.IH [OF this]
  have t: "take (Suc i) (m_threads s1) = take i (m_threads s) @ [Some (Thread_made (worker_name s i) h tid)]"
    using Suc.prems(2) by (simp add: s1_def take_Suc_conv_app_nth)
  have u: "[i..<i + Suc n] = i # [Suc i..<Suc i + n]" by (simp add: upt_rec)
  have "start_loop pt i (Suc n) s = start_loop pt (Suc i) n s1" by (simp add: p s1_def)
  then show ?case unfolding IH t u n using p by (simp add: s1_def)
qed simp

lemma start_loop_fails:
  assumes "\<forall>j. i \<le> j \<and> j < i + k \<longrightarrow> fst (pt j) = 0" and "fst (pt (i + k)) \<noteq> 0" and "k < n"
    and "length (m_threads s) = i + n"
  shows "start_loop pt i n s =
    (s\<lparr>m_threads := take i (m_threads s) @ map (\<lambda>j. Some (Thread_made (worker_name s j) (fst (snd (pt j))) (snd (snd (pt j))))) [i..<i + k] @
         drop (i + k) (m_threads s),
       m_threadIds := m_threadIds s @ map (\<lambda>j. snd (snd (pt j))) [i..<i + k]\<rparr>, Inl Logic_Error)"
  using assms
proof (induction k arbitrary: i n s)
  case 0
  then obtain m where "n = Suc m" by (cases n) auto
  with 0 show ?case by (cases "pt i") auto
next
  case (Suc k)
  obtain m where m: "n = Suc m" using Suc.prems(3) by (cases n) auto
  obtain h tid where p: "pt i = (0, h, tid)" using Suc.prems(1) by (cases "pt i") auto
  define s1 where "s1 = s\<lparr>m_threads := (m_threads s)[i := Some (Thread_made (worker_name s i) h tid)],
    m_threadIds := m_threadIds s @ [tid]\<rparr>"
  have n: "worker_name s1 = worker_name s" by (simp add: s1_def worker_name_def fun_eq_iff)
  have "\<forall>j. Suc i \<le> j \<and> j < Suc i + k \<longrightarrow> fst (pt j) = 0" "fst (pt (Suc i + k)) \<noteq> 0" "k < m"
    "length (m_threads s1) = Suc i + m"
    using Suc.prems m by (simp_all add: s1_def)
  note IH = Suc.IH [OF this]
  have t: "take (Suc i) (m_threads s1) = take i (m_threads s) @ [Some (Thread_made (worker_name s i) h tid)]"
    "drop (Suc i + k) (m_threads s1) = drop (i + Suc k) (m_threads s)"
    using Suc.prems(4) m by (simp_all add: s1_def take_Suc_conv_app_nth)
  have u: "[i..<i + Suc k] = i # [Suc i..<Suc i + k]" by (simp add: upt_rec)
  have "start_loop pt i n s = start_loop pt (Suc i) m s1" by (simp add: p s1_def m)
  then show ?case unfolding IH t u n using p by (simp add: s1_def)
qed

text \<open>The loop over made threads, as far as it gets.\<close>

lemma join_all_made:
  assumes "\<forall>t \<in> set ths. th_handle t \<noteq> 0" and "\<forall>j < length ths. jt (i + j) = 0"
  shows "join_all jt i (map Some ths @ ts) =
    (case join_all jt (i + length ths) ts of (ts1, joined, r) \<Rightarrow>
       (map (\<lambda>t. Some (t\<lparr>th_handle := 0\<rparr>)) ths @ ts1, map th_handle ths @ joined, r))"
  using assms
proof (induction ths arbitrary: i)
  case (Cons t ths)
  have "jt i = 0" using Cons.prems(2) [rule_format, of 0] by simp
  moreover have "\<forall>j < length ths. jt (Suc i + j) = 0" using Cons.prems(2) by auto
  ultimately show ?case using Cons by (simp add: Thread_join_def split: prod.split)
qed simp

lemma join_all_ok:
  assumes "\<forall>t \<in> set ths. th_handle t \<noteq> 0" and "\<forall>j. jt j = 0"
  shows "join_all jt 0 (map Some ths) = (map (\<lambda>t. Some (t\<lparr>th_handle := 0\<rparr>)) ths, map th_handle ths, Inr ())"
  using join_all_made [of ths jt 0 "[]"] assms by simp

lemma join_all_fails:
  assumes "\<forall>t \<in> set ths. th_handle t \<noteq> 0" and "k < length ths" and "\<forall>j < k. jt j = 0" and "jt k \<noteq> 0"
  shows "join_all jt 0 (map Some ths) =
    (map (\<lambda>t. Some (t\<lparr>th_handle := 0\<rparr>)) (take k ths) @ map Some (drop k ths), map th_handle (take k ths), Inl Logic_Error)"
proof -
  have d: "drop k ths = ths ! k # drop (Suc k) ths" using assms(2) by (simp add: Cons_nth_drop_Suc)
  have "map Some ths = map Some (take k ths) @ map Some (drop k ths)"
    by (metis append_take_drop_id map_append)
  moreover have "\<forall>t \<in> set (take k ths). th_handle t \<noteq> 0" using assms(1) by (meson in_set_takeD)
  ultimately show ?thesis
    using join_all_made [of "take k ths" jt 0 "map Some (drop k ths)"] assms
    by (simp add: d Thread_join_def)
qed

lemma join_all_null:
  assumes "\<forall>t \<in> set ths. th_handle t \<noteq> 0" and "\<forall>j. jt j = 0"
  shows "join_all jt 0 (map Some ths @ None # ts) =
    (map (\<lambda>t. Some (t\<lparr>th_handle := 0\<rparr>)) ths @ None # ts, map th_handle ths, Inl Null_Dereference)"
  using join_all_made [of ths jt 0 "None # ts"] assms by simp

lemma detached_simps [simp]:
  "detached [] = []" "detached (None # ts) = detached ts" "detached (xs @ ys) = detached xs @ detached ys"
  "detached (map (\<lambda>t. Some (t\<lparr>th_handle := 0\<rparr>)) ths) = []"
  "\<forall>t \<in> set ths. th_handle t \<noteq> 0 \<Longrightarrow> detached (map Some ths) = map th_handle ths"
  "detached (replicate n None) = []"
proof -
  show "detached (map (\<lambda>t. Some (t\<lparr>th_handle := 0\<rparr>)) ths) = []"
    by (induction ths) (simp_all add: detached_def Thread_dtor_def)
  show "detached (map Some ths) = map th_handle ths" if "\<forall>t \<in> set ths. th_handle t \<noteq> 0"
    using that
  proof (induction ths)
    case (Cons a ths)
    have "detached (Some a # map Some ths) = th_handle a # detached (map Some ths)"
      using Cons.prems by (simp add: detached_def Thread_dtor_def)
    with Cons show ?case by simp
  qed (simp add: detached_def)
  show "detached (replicate n None) = []" by (induction n) (simp_all add: detached_def)
qed (simp_all add: detached_def)

lemma ctor_ok:
  assumes "Scheduler_ctor e block run_main False tid g f names w threads use_caller name = Inr (s, w1)"
  shows "threads > 0" and "s_name s = name" and "m_useCaller s = use_caller" and "tasks s = init_Scheduler"
    and "m_threads s = []" and "m_threadIds s = (if use_caller then [tid] else [])" and "t_scheduler s = {tid}"
    and "m_threadCount s = (if use_caller then threads - 1 else threads)"
    and "unat (m_threadCount s) = unat threads - (if use_caller then 1 else 0)"
    and "use_caller \<Longrightarrow> t_scheduler_fiber w1 = Some f"
proof -
  show t: "threads > 0" using assms by (auto simp: Scheduler_ctor_def split: if_splits)
  show "s_name s = name" "m_useCaller s = use_caller" "tasks s = init_Scheduler" "m_threads s = []"
    "m_threadIds s = (if use_caller then [tid] else [])" "t_scheduler s = {tid}"
    and c: "m_threadCount s = (if use_caller then threads - 1 else threads)"
    and "use_caller \<Longrightarrow> t_scheduler_fiber w1 = Some f"
    using assms by (auto simp: Scheduler_ctor_def Let_def Scheduler_SetThis_def Scheduler_fields_def
        SetSchedulerFiber_def split: if_splits sum.splits)
  have "unat (threads - 1) = unat threads - 1" using t by (simp add: unat_sub_if_size word_gt_0 unat_gt_0 Suc_leI)
  with c show "unat (m_threadCount s) = unat threads - (if use_caller then 1 else 0)" by simp
qed

lemma Scheduler_start_ok:
  assumes "Scheduler_ctor e block run_main False tid g f names w threads use_caller name = Inr (s, w1)"
    and "\<forall>j. fst (pt j) = 0"
  shows "Scheduler_start pt s = (s\<lparr>m_threads := map (\<lambda>j. Some (Thread_made (name @ ''_'' @ to_string j)
      (fst (snd (pt j))) (snd (snd (pt j))))) [0..<unat threads - (if use_caller then 1 else 0)],
    m_threadIds := m_threadIds s @ map (\<lambda>j. snd (snd (pt j))) [0..<unat threads - (if use_caller then 1 else 0)]\<rparr>, Inr ())"
proof -
  note C = ctor_ok [OF assms(1)]
  let ?n = "unat threads - (if use_caller then 1 else 0)"
  have "\<not> m_stopping (tasks s)" by (simp add: C(4) init_Scheduler_def)
  then show ?thesis
    using start_loop_ok [of 0 ?n pt "s\<lparr>m_threads := replicate ?n None\<rparr>"] assms(2)
    by (simp add: Scheduler_start_def C(2,5,9) Let_def worker_name_def comp_def)
qed

lemma drop_nulls: "k < n \<Longrightarrow> drop k (replicate n x) = x # replicate (n - Suc k) x"
  by (metis Suc_diff_Suc drop_replicate replicate_Suc)

section \<open>Properties\<close>

text \<open>
  Property C7. A scheduler made for \<open>threads\<close> threads and started has exactly that many workers:
  one thread object for each, in order, named after the scheduler and known by its identifier,
  less one if the caller's thread is a worker, whose identifier then comes first. A \<^verbatim>\<open>stop\<close> that has
  come to its joins calls \<^verbatim>\<open>pthread_join\<close> with success on every worker, in order and once each, detaches
  none, forgets them and empties the pool. When a join fails it throws: the workers before it are
  joined, it and those after it are detached, and the pool is not emptied. A stopped
  scheduler does not start again. But \<^verbatim>\<open>stop\<close>, called on the thread that constructed the
  scheduler, passes its assertion only if that thread is a worker: the constructor makes the
  scheduler current on it in any case.
\<close>

theorem scheduler_lifecycle:
  assumes "Scheduler_ctor e block run_main False tid g f names w threads use_caller name = Inr (s, w1)"
    and "\<forall>j. fst (pt j) = 0 \<and> fst (snd (pt j)) \<noteq> 0"
  shows "\<exists>s1. Scheduler_start pt s = (s1, Inr ()) \<and>
    m_threads s1 = map (\<lambda>j. Some (Thread_made (name @ ''_'' @ to_string j) (fst (snd (pt j))) (snd (snd (pt j)))))
      [0..<unat threads - (if use_caller then 1 else 0)] \<and>
    m_threadIds s1 = (if use_caller then [tid] else []) @
      map (\<lambda>j. snd (snd (pt j))) [0..<unat threads - (if use_caller then 1 else 0)] \<and>
    length (m_threadIds s1) = unat threads \<and>
    (\<forall>s2 jt. m_threads s2 = m_threads s1 \<and> (\<forall>j. jt j = 0) \<longrightarrow>
      Scheduler_stop_end jt s2 = (s2\<lparr>m_threads := [], m_coroutinePool := clear (m_coroutinePool s2)\<rparr>,
        map (\<lambda>j. fst (snd (pt j))) [0..<unat threads - (if use_caller then 1 else 0)], [], Inr ())) \<and>
    (\<forall>s2 jt k. m_threads s2 = m_threads s1 \<and> k < unat threads - (if use_caller then 1 else 0) \<and>
        (\<forall>j < k. jt j = 0) \<and> jt k \<noteq> 0 \<longrightarrow>
      Scheduler_stop_end jt s2 = (s2\<lparr>m_threads := []\<rparr>, map (\<lambda>j. fst (snd (pt j))) [0..<k],
        map (\<lambda>j. fst (snd (pt j))) [k..<unat threads - (if use_caller then 1 else 0)], Inl Logic_Error)) \<and>
    (\<forall>s2. m_stopping (tasks s2) \<longrightarrow> Scheduler_start pt s2 = (s2, Inr ())) \<and>
    Scheduler_stop_begin tid s1 = (s1\<lparr>tasks := (tasks s1)\<lparr>m_stopping := True\<rparr>\<rparr>,
      if use_caller then Inr True else Inl Assertion_Failed)"
proof -
  note C = ctor_ok [OF assms(1)]
  let ?n = "unat threads - (if use_caller then 1 else 0)"
  let ?made = "\<lambda>j. Thread_made (name @ ''_'' @ to_string j) (fst (snd (pt j))) (snd (snd (pt j)))"
  let ?ths = "map ?made [0..<?n]"
  define s1 where "s1 = s\<lparr>m_threads := map Some ?ths,
    m_threadIds := m_threadIds s @ map (\<lambda>j. snd (snd (pt j))) [0..<?n]\<rparr>"
  have start: "Scheduler_start pt s = (s1, Inr ())"
    using Scheduler_start_ok [OF assms(1), of pt] assms(2) by (simp add: s1_def comp_def)
  have "0 < unat threads" using C(1) by (simp add: unat_gt_0 word_gt_0)
  then have len: "length (m_threadIds s1) = unat threads" by (simp add: s1_def C(6))
  have h: "\<forall>t \<in> set ?ths. th_handle t \<noteq> 0" "map th_handle ?ths = map (\<lambda>j. fst (snd (pt j))) [0..<?n]"
    using assms(2) by (simp_all add: Thread_made_def)
  have stop: "Scheduler_stop_end jt s2 = (s2\<lparr>m_threads := [], m_coroutinePool := clear (m_coroutinePool s2)\<rparr>,
      map (\<lambda>j. fst (snd (pt j))) [0..<?n], [], Inr ())"
    if "m_threads s2 = m_threads s1" "\<forall>j. jt j = 0" for s2 jt
  proof -
    have "m_threads s2 = map Some ?ths" by (simp add: that(1) s1_def)
    then show ?thesis by (simp only: Scheduler_stop_end_def Let_def join_all_ok [OF h(1) that(2)] h(2)
        detached_simps prod.case sum.case) simp
  qed
  have fails: "Scheduler_stop_end jt s2 = (s2\<lparr>m_threads := []\<rparr>, map (\<lambda>j. fst (snd (pt j))) [0..<k],
        map (\<lambda>j. fst (snd (pt j))) [k..<?n], Inl Logic_Error)"
    if "m_threads s2 = m_threads s1" "k < ?n" "\<forall>j < k. jt j = 0" "jt k \<noteq> 0" for s2 jt k
  proof -
    have k: "k < length ?ths" using that(2) by simp
    have "\<forall>t \<in> set (drop k ?ths). th_handle t \<noteq> 0" using h(1) by (meson in_set_dropD)
    then have "detached (map Some (drop k ?ths)) = map th_handle (drop k ?ths)" by (rule detached_simps(5))
    moreover have "map th_handle (take k ?ths) = map (\<lambda>j. fst (snd (pt j))) [0..<k]"
      "map th_handle (drop k ?ths) = map (\<lambda>j. fst (snd (pt j))) [k..<?n]"
      using that(2) by (simp_all add: take_map drop_map Thread_made_def)
    moreover have "m_threads s2 = map Some ?ths" by (simp add: that(1) s1_def)
    ultimately show ?thesis
      by (simp only: Scheduler_stop_end_def Let_def join_all_fails [OF h(1) k that(3,4)] detached_simps split
          prod.case sum.case append_Nil)
  qed
  have again: "Scheduler_start pt s2 = (s2, Inr ())" if "m_stopping (tasks s2)" for s2
    using that by (simp add: Scheduler_start_def)
  have begin_stop: "Scheduler_stop_begin tid s1 = (s1\<lparr>tasks := (tasks s1)\<lparr>m_stopping := True\<rparr>\<rparr>,
      if use_caller then Inr True else Inl Assertion_Failed)"
    by (simp add: Scheduler_stop_begin_def s1_def C(3,4,7) stopping_def init_Scheduler_def Let_def)
  have "m_threads s1 = map (\<lambda>j. Some (?made j)) [0..<?n]"
    "m_threadIds s1 = (if use_caller then [tid] else []) @ map (\<lambda>j. snd (snd (pt j))) [0..<?n]"
    by (simp_all add: s1_def C(6))
  with start len stop fails again begin_stop show ?thesis by blast
qed

text \<open>
  \<^verbatim>\<open>start\<close> has no way back: when \<^verbatim>\<open>pthread_create\<close> fails for some thread the
  exception leaves the threads made so far running and null pointers behind them, so that
  \<^verbatim>\<open>start\<close> cannot be called again, \<^verbatim>\<open>stop\<close> dereferences a null pointer after joining the threads
  there are, and the destructor of the base class, which an exception in the constructor of
  \<^verbatim>\<open>IOManager\<close> runs, fails its assertion.
\<close>

theorem scheduler_start_fails:
  assumes "Scheduler_ctor e block run_main False tid g f names w threads use_caller name = Inr (s, w1)"
    and "k < unat threads - (if use_caller then 1 else 0)"
    and "\<forall>j < k. fst (pt j) = 0 \<and> fst (snd (pt j)) \<noteq> 0" and "fst (pt k) \<noteq> 0"
  shows "\<exists>s1. Scheduler_start pt s = (s1, Inl Logic_Error) \<and>
    length (m_threads s1) = unat threads - (if use_caller then 1 else 0) \<and>
    (\<forall>j < length (m_threads s1). m_threads s1 ! j = None \<longleftrightarrow> k \<le> j) \<and>
    length (m_threadIds s1) = k + (if use_caller then 1 else 0) \<and>
    (\<forall>pt'. Scheduler_start pt' s1 = (s1, Inl Assertion_Failed)) \<and>
    (\<forall>jt. (\<forall>j. jt j = 0) \<longrightarrow> Scheduler_stop_end jt s1 =
      (s1\<lparr>m_threads := []\<rparr>, map (\<lambda>j. fst (snd (pt j))) [0..<k], [], Inl Null_Dereference)) \<and>
    Scheduler_dtor tid s1 = Inl Assertion_Failed"
proof -
  note C = ctor_ok [OF assms(1)]
  let ?n = "unat threads - (if use_caller then 1 else 0)"
  let ?ths = "map (\<lambda>j. Thread_made (name @ ''_'' @ to_string j) (fst (snd (pt j))) (snd (snd (pt j)))) [0..<k]"
  define s1 where "s1 = s\<lparr>m_threads := map Some ?ths @ None # replicate (?n - Suc k) None,
    m_threadIds := m_threadIds s @ map (\<lambda>j. snd (snd (pt j))) [0..<k]\<rparr>"
  have st: "\<not> m_stopping (tasks s)" by (simp add: C(4) init_Scheduler_def)
  have d: "drop k (replicate ?n None) = None # replicate (?n - Suc k) (None :: Thread option)"
    by (rule drop_nulls [OF assms(2)])
  have start: "Scheduler_start pt s = (s1, Inl Logic_Error)"
    using start_loop_fails [of 0 k pt ?n "s\<lparr>m_threads := replicate ?n None\<rparr>"] assms(2-4) st
    by (simp add: Scheduler_start_def C(2,5,9) Let_def s1_def worker_name_def d comp_def del: drop_replicate)
  have "\<forall>pt'. Scheduler_start pt' s1 = (s1, Inl Assertion_Failed)"
    using st by (simp add: Scheduler_start_def s1_def)
  moreover have "Scheduler_stop_end jt s1 =
      (s1\<lparr>m_threads := []\<rparr>, map (\<lambda>j. fst (snd (pt j))) [0..<k], [], Inl Null_Dereference)" if "\<forall>j. jt j = 0" for jt
  proof -
    have h: "\<forall>t \<in> set ?ths. th_handle t \<noteq> 0" using assms(3) by (simp add: Thread_made_def)
    have "map th_handle ?ths = map (\<lambda>j. fst (snd (pt j))) [0..<k]" by (simp add: Thread_made_def)
    moreover have "m_threads s1 = map Some ?ths @ None # replicate (?n - Suc k) None" by (simp add: s1_def)
    ultimately show ?thesis
      by (simp only: Scheduler_stop_end_def Let_def join_all_null [OF h that] detached_simps
          prod.case sum.case append_Nil)
  qed
  moreover have "Scheduler_dtor tid s1 = Inl Assertion_Failed"
    using st by (simp add: Scheduler_dtor_def stopping_def s1_def)
  moreover have "length (m_threads s1) = ?n" using assms(2) by (simp add: s1_def)
  moreover have "\<forall>j < length (m_threads s1). m_threads s1 ! j = None \<longleftrightarrow> k \<le> j"
    by (auto simp: s1_def nth_append nth_Cons' not_le)
  moreover have "length (m_threadIds s1) = k + (if use_caller then 1 else 0)" by (simp add: s1_def C(6))
  ultimately show ?thesis using start by blast
qed

section \<open>Concrete schedulers\<close>

lemma ctor_with_caller:
  obtains s w1 where "Scheduler_ctor two_env 4096 (UserCb 1) False 5 0 1 (\<lambda>_. '''') fresh_thread 3 True ''io'' =
    Inr (s, w1)"
  by (simp add: Scheduler_ctor_def Fiber_child_def Fiber_ctor_def initFiberContext_def InitFiberContextStack_def
      GetThis_def Fiber_main_def count_fiber_def put_fib_def SetThis_def fresh_thread_def new_Fiber_def Let_def
      fiber_at_def two_env_def)



text \<open>Three workers, one of them the caller; the join of the second thread fails.\<close>

lemma scheduler_lifecycle_witness:
  "\<exists>s s1 w1. Scheduler_ctor two_env 4096 (UserCb 1) False 5 0 1 (\<lambda>_. '''') fresh_thread 3 True ''io'' = Inr (s, w1) \<and>
    Scheduler_start (\<lambda>j. (0, if j = 0 then 7 else 8, 40 + int j)) s = (s1, Inr ()) \<and> m_threadIds s1 = [5, 40, 41] \<and>
    fst (snd (Scheduler_stop_end (\<lambda>_. 0) s1)) = [7, 8] \<and>
    Scheduler_stop_end (\<lambda>j. if j = 1 then 3 else 0) s1 = (s1\<lparr>m_threads := []\<rparr>, [7], [8], Inl Logic_Error)"
proof -
  obtain s w1 where c: "Scheduler_ctor two_env 4096 (UserCb 1) False 5 0 1 (\<lambda>_. '''') fresh_thread 3 True ''io'' = Inr (s, w1)"
    by (rule ctor_with_caller)
  let ?pt = "\<lambda>j. (0 :: int, if j = 0 then 7 else 8 :: u64, 40 + int j)"
  have ne: "\<forall>j. fst (?pt j) = 0 \<and> fst (snd (?pt j)) \<noteq> 0"
    by simp
  have n: "unat (3 :: u64) - (if True then 1 else 0) = 2" by simp
  have u: "[0..<2] = [0, 1 :: nat]" "[0..<1] = [0 :: nat]" "[1..<2] = [1 :: nat]" by (simp_all add: upt_rec)
  from scheduler_lifecycle [OF c ne, unfolded n] obtain s1 where s1: "Scheduler_start ?pt s = (s1, Inr ())"
    "m_threadIds s1 = [5] @ map (\<lambda>j. snd (snd (?pt j))) [0..<2]"
    and A: "\<forall>s2 jt. m_threads s2 = m_threads s1 \<and> (\<forall>j. jt j = 0) \<longrightarrow>
      Scheduler_stop_end jt s2 = (s2\<lparr>m_threads := [], m_coroutinePool := clear (m_coroutinePool s2)\<rparr>,
        map (\<lambda>j. fst (snd (?pt j))) [0..<2], [], Inr ())"
    and B: "\<forall>s2 jt k. m_threads s2 = m_threads s1 \<and> k < 2 \<and> (\<forall>j < k. jt j = 0) \<and> jt k \<noteq> 0 \<longrightarrow>
      Scheduler_stop_end jt s2 = (s2\<lparr>m_threads := []\<rparr>, map (\<lambda>j. fst (snd (?pt j))) [0..<k],
        map (\<lambda>j. fst (snd (?pt j))) [k..<2], Inl Logic_Error)"
    by (elim exE conjE) simp
  have "Scheduler_stop_end (\<lambda>j. if j = 1 then 3 else 0) s1 = (s1\<lparr>m_threads := []\<rparr>, [7], [8], Inl Logic_Error)"
    using B [rule_format, of s1 1 "\<lambda>j. if j = 1 then 3 else 0", unfolded u] by simp
  moreover have "fst (snd (Scheduler_stop_end (\<lambda>_. 0) s1)) = [7, 8]"
    using A [rule_format, of s1 "\<lambda>_. 0"] by (simp add: u)
  ultimately show ?thesis using c s1 by (intro exI [of _ s] exI [of _ s1] exI [of _ w1]) (simp add: u)
qed

lemma scheduler_start_fails_witness:
  "\<exists>s s1 w1. Scheduler_ctor two_env 4096 (UserCb 1) False 5 0 1 (\<lambda>_. '''') fresh_thread 3 True ''io'' = Inr (s, w1) \<and>
    Scheduler_start (\<lambda>j. (if j = 1 then 11 else 0, 7, 40 + int j)) s = (s1, Inl Logic_Error) \<and>
    Scheduler_stop_end (\<lambda>_. 0) s1 = (s1\<lparr>m_threads := []\<rparr>, [7], [], Inl Null_Dereference)"
proof -
  obtain s w1 where c: "Scheduler_ctor two_env 4096 (UserCb 1) False 5 0 1 (\<lambda>_. '''') fresh_thread 3 True ''io'' = Inr (s, w1)"
    by (rule ctor_with_caller)
  let ?pt = "\<lambda>j. (if j = 1 then 11 else 0 :: int, 7 :: u64, 40 + int j)"
  have k: "1 < unat (3 :: u64) - (if True then 1 else 0)"
    "\<forall>j < 1. fst (?pt j) = 0 \<and> fst (snd (?pt j)) \<noteq> 0" "fst (?pt 1) \<noteq> 0" by simp_all
  from scheduler_start_fails [OF c k] obtain s1 where "Scheduler_start ?pt s = (s1, Inl Logic_Error)"
    and J: "\<forall>jt. (\<forall>j. jt j = 0) \<longrightarrow> Scheduler_stop_end jt s1 =
      (s1\<lparr>m_threads := []\<rparr>, map (\<lambda>j. fst (snd (?pt j))) [0..<1], [], Inl Null_Dereference)"
    by (elim exE conjE)
  moreover have "Scheduler_stop_end (\<lambda>_. 0) s1 = (s1\<lparr>m_threads := []\<rparr>, [7], [], Inl Null_Dereference)"
    using J [THEN spec, of "\<lambda>_. 0"] by simp
  ultimately show ?thesis using c by (intro exI [of _ s] exI [of _ s1] exI [of _ w1] conjI)
qed

end
