(* ===== verification/Hook_Init.thy ===== *)
theory Hook_Init
  imports Co_Hook
begin

text \<open>
  Switching the hooks on and off (src/hook.cpp): \<^verbatim>\<open>hook_init\<close>, which looks the original calls up
  before \<^verbatim>\<open>main\<close>, the flag of a thread, and what the hooked calls are on a thread whose flag is
  off. \<^verbatim>\<open>dlsym\<close> is not code of the repository: what it finds under a name is an argument, 0 for
  nothing.
\<close>

section \<open>Finding the original calls\<close>

definition HOOK_FUN :: "string list" where
  "HOOK_FUN = [''sleep'', ''usleep'', ''nanosleep'', ''socket'', ''connect'', ''accept'', ''read'',
     ''readv'', ''recv'', ''recvfrom'', ''recvmsg'', ''write'', ''writev'', ''send'', ''sendto'',
     ''sendmsg'', ''close'', ''fcntl'', ''ioctl'', ''getsockopt'', ''setsockopt'']"

text \<open>\<open>origin name\<close> is the global \<^verbatim>\<open>name_f\<close>.\<close>

record Hook_State =
  is_inited :: bool
  origin :: "string \<Rightarrow> u64"

definition hook_state_0 :: Hook_State where
  "hook_state_0 = \<lparr>is_inited = False, origin = (\<lambda>_. 0)\<rparr>"

fun load_origins :: "(string \<Rightarrow> u64) \<Rightarrow> string list \<Rightarrow> Hook_State \<Rightarrow> Hook_State" where
  "load_origins dlsym [] h = h"
| "load_origins dlsym (n # ns) h = load_origins dlsym ns (h\<lparr>origin := (origin h)(n := dlsym n)\<rparr>)"

definition hook_init :: "(string \<Rightarrow> u64) \<Rightarrow> Hook_State \<Rightarrow> Hook_State result" where
  "hook_init dlsym h =
     (if is_inited h then Inr h
      else let h1 = load_origins dlsym HOOK_FUN h
           in if list_ex (\<lambda>n. origin h1 n = 0) HOOK_FUN then Inl Assertion_Failed
              else Inr (h1\<lparr>is_inited := True\<rparr>))"

lemma load_origins_at:
  "origin (load_origins dlsym ns h) n = (if n \<in> set ns then dlsym n else origin h n)"
  by (induction ns arbitrary: h) simp_all

lemma load_origins_inited [simp]: "is_inited (load_origins dlsym ns h) = is_inited h"
  by (induction ns arbitrary: h) simp_all

text \<open>
  The initialiser ends with every original call found, or fails its assertion when one is
  missing; run again it changes nothing, whatever \<^verbatim>\<open>dlsym\<close> would say then.
\<close>

lemma hook_init_finds_all:
  "case hook_init dlsym hook_state_0 of
     Inl e \<Rightarrow> e = Assertion_Failed \<and> (\<exists>n \<in> set HOOK_FUN. dlsym n = 0)
   | Inr h \<Rightarrow> (\<forall>n \<in> set HOOK_FUN. origin h n = dlsym n \<and> dlsym n \<noteq> 0) \<and> hook_init dlsym2 h = Inr h"
  by (auto simp: hook_init_def Let_def hook_state_0_def load_origins_at list_ex_iff)

section \<open>The flag of a thread\<close>

definition is_hook_enable :: "Runtime \<Rightarrow> bool" where
  "is_hook_enable w = t_hook_enable w"

definition set_hook_enable :: "bool \<Rightarrow> Runtime \<Rightarrow> Runtime" where
  "set_hook_enable flag w = w\<lparr>t_hook_enable := flag\<rparr>"

text \<open>\<^verbatim>\<open>getsockopt\<close> forwards.\<close>

definition hook_getsockopt :: "Runtime \<Rightarrow> sysret \<Rightarrow> Runtime \<times> int" where
  "hook_getsockopt w r = call_f w r"

text \<open>A descriptor that \<^verbatim>\<open>accept\<close> returns gets its context whether the hooks are on or not.\<close>

lemma accept_adopts:
  assumes "fd_inv (fdmgr v)" and "0 \<le> fd" and "get_lookup (fdmgr v) fd True = None"
  obtains w1 a where "accept_return (Some True) flags v fd = Inr (w1, fd)" "w1 = v\<lparr>fdmgr := fdmgr w1\<rparr>"
    "open_socket w1 fd a" "setfl_calls (fdmgr w1) = setfl_calls (fdmgr v) @
      (if flags AND O_NONBLOCK = 0 then [(fd, flags OR O_NONBLOCK)] else [])"
proof -
  let ?a = "fd_count (fdmgr v)"
  obtain s1 where s1: "get_create (Some True) flags (fdmgr v) fd = Inr (s1, ?a)"
    "nat fd < length (m_datas s1)" "m_datas s1 ! nat fd = Some ?a"
    "fd_ctxs s1 = (fd_ctxs (fdmgr v))(?a := fst (FdCtx_ctor (Some True) flags fd))"
    "setfl_calls s1 = setfl_calls (fdmgr v) @
      (case snd (FdCtx_ctor (Some True) flags fd) of None \<Rightarrow> [] | Some f \<Rightarrow> [(fd, f)])"
    by (rule get_create_ok [OF assms(1,2), of "Some True" flags]) (rule that, assumption+)
  let ?w = "v\<lparr>fdmgr := s1\<rparr>"
  have "get_ctx ?w fd = Some ?a" by (simp add: get_ctx_def get_lookup_found [OF assms(2) s1(2,3)])
  then have "open_socket ?w fd ?a" by (simp add: open_socket_def ctx_obj_def s1(4))
  moreover have "accept_return (Some True) flags v fd = Inr (?w, fd)"
    using assms(2,3) s1(1) by (simp add: accept_return_def adopt_fd_def FdManager_get_def)
  moreover have "setfl_calls (fdmgr ?w) = setfl_calls (fdmgr v) @
      (if flags AND O_NONBLOCK = 0 then [(fd, flags OR O_NONBLOCK)] else [])"
    using s1(5) by (simp add: FdCtx_ctor_def FdCtx_init_def Let_def)
  ultimately show thesis by (intro that [of ?w ?a]) simp_all
qed



end
