(* ===== verification/Io_Refinement.thy ===== *)
theory Io_Refinement
  imports Io_Manager
begin

text \<open>
  What \<^verbatim>\<open>IOManager\<close> promises about events, as an abstract specification, and the proof that
  src/iomanager.cpp implements it. The specification is a table from descriptors and directions
  to continuations together with the task queue; vectors, contexts, masks and counters are gone.
  The second half of the promise concerns the kernel: the interest set that the recorded
  \<^verbatim>\<open>epoll_ctl\<close> calls build is always the one the table asks for, beside the manager's eventfd.
\<close>

section \<open>The specification\<close>

record Registry =
  reg :: "int \<Rightarrow> slot \<Rightarrow> FiberOrCb option"
  reg_queue :: Scheduler

definition empty_registry :: Registry where
  "empty_registry = \<lparr>reg = (\<lambda>_ _. None), reg_queue = init_Scheduler\<rparr>"

definition forget :: "int \<Rightarrow> slot \<Rightarrow> Registry \<Rightarrow> Registry" where
  "forget fd k r = r\<lparr>reg := (reg r)(fd := (reg r fd)(k := None))\<rparr>"

text \<open>The continuation, if there is one, goes to the queue.\<close>

definition release_reg :: "int \<Rightarrow> slot \<Rightarrow> Registry \<Rightarrow> Registry" where
  "release_reg fd k r =
     (case reg r fd k of
        None \<Rightarrow> r
      | Some fc \<Rightarrow> (forget fd k r)\<lparr>reg_queue := fst (scheduleLock (reg_queue r) fc (-1))\<rparr>)"

text \<open>
  The kernel's report \<open>ev\<close> concerns a direction when it names it, or when it names an error or a
  hang-up.
\<close>

fun epoll_bit :: "slot \<Rightarrow> u32" where
  "epoll_bit ReadSlot = EPOLLIN"
| "epoll_bit WriteSlot = EPOLLOUT"

definition concerns :: "u32 \<Rightarrow> slot \<Rightarrow> bool" where
  "concerns ev k \<longleftrightarrow> ev AND epoll_bit k \<noteq> 0 \<or> ev AND EPOLLERR \<noteq> 0 \<or> ev AND EPOLLHUP \<noteq> 0"

fun spec_io :: "io_op \<Rightarrow> Registry \<Rightarrow> Registry" where
  "spec_io (AddEvent fd ev cb cur rt) r =
     (if reg r fd (slot_for ev) = None \<and> rt = 0
      then r\<lparr>reg := (reg r)(fd := (reg r fd)(slot_for ev \<mapsto> if cb \<noteq> None then Callback cb else FiberPtr (Some cur)))\<rparr>
      else r)"
| "spec_io (DelEvent fd ev rt) r = (if rt = 0 then forget fd (slot_for ev) r else r)"
| "spec_io (CancelEvent fd ev rt) r = (if rt = 0 then release_reg fd (slot_for ev) r else r)"
| "spec_io (CancelAll fd rt) r =
     (if rt = 0 then release_reg fd WriteSlot (release_reg fd ReadSlot r) else r)"
| "spec_io (HandleReady a ev rt) r =
     (if rt \<noteq> 0 then r
      else let r1 = (if concerns ev ReadSlot then release_reg (int a) ReadSlot r else r)
           in if concerns ev WriteSlot then release_reg (int a) WriteSlot r1 else r1)"

text \<open>
  The interest set a table asks for: no entry, or the mask with the context's number; the eventfd
  \<open>efd\<close> is always in it.
\<close>

definition events_of :: "(slot \<Rightarrow> FiberOrCb option) \<Rightarrow> u32" where
  "events_of v = (if v ReadSlot \<noteq> None then READ else 0) OR (if v WriteSlot \<noteq> None then WRITE else 0)"

definition interest_of :: "int \<Rightarrow> Registry \<Rightarrow> int \<Rightarrow> (u32 \<times> ep_data) option" where
  "interest_of efd r fd =
     (if fd = efd then Some (EPOLLIN OR EPOLLET, DataFd efd)
      else if events_of (reg r fd) = 0 then None
      else Some (EPOLLET OR events_of (reg r fd), DataPtr (nat fd)))"

section \<open>The kernel\<close>

text \<open>
  \<^verbatim>\<open>epoll_ctl\<close> as documented: \<open>CtlAdd\<close> needs a descriptor that is not in the set, the other two
  one that is. \<open>kernel\<close> is the set after the successful calls of a log, \<open>None\<close> when one of them
  could not have succeeded.
\<close>

fun ctl_effect :: "epoll_op \<times> int \<times> u32 \<times> ep_data \<Rightarrow> (int \<Rightarrow> (u32 \<times> ep_data) option) \<Rightarrow> (int \<Rightarrow> (u32 \<times> ep_data) option) option" where
  "ctl_effect (CtlAdd, fd, ev, a) m = (if m fd = None then Some (m(fd \<mapsto> (ev, a))) else None)"
| "ctl_effect (CtlMod, fd, ev, a) m = (if m fd = None then None else Some (m(fd \<mapsto> (ev, a))))"
| "ctl_effect (CtlDel, fd, ev, a) m = (if m fd = None then None else Some (m(fd := None)))"

fun kernel_from :: "(int \<Rightarrow> (u32 \<times> ep_data) option) \<Rightarrow> (epoll_op \<times> int \<times> u32 \<times> ep_data) list \<Rightarrow> (int \<Rightarrow> (u32 \<times> ep_data) option) option" where
  "kernel_from m [] = Some m"
| "kernel_from m (x # xs) = (case ctl_effect x m of None \<Rightarrow> None | Some m1 \<Rightarrow> kernel_from m1 xs)"

abbreviation kernel :: "(epoll_op \<times> int \<times> u32 \<times> ep_data) list \<Rightarrow> (int \<Rightarrow> (u32 \<times> ep_data) option) option" where
  "kernel \<equiv> kernel_from Map.empty"

lemma kernel_snoc: "kernel_from m (xs @ [x]) = Option.bind (kernel_from m xs) (ctl_effect x)"
  by (induction xs arbitrary: m) (auto split: option.split)

section \<open>The abstraction\<close>

text \<open>A context is its two registered continuations.\<close>

definition view :: "FdContext \<Rightarrow> slot \<Rightarrow> FiberOrCb option" where
  "view c k = (if fc_events c AND epoll_bit k \<noteq> 0 then Some (continuation (slot_of c k)) else None)"

definition registry :: "IOManager \<Rightarrow> Registry" where
  "registry s =
     \<lparr>reg = (\<lambda>fd. if 0 \<le> fd \<and> nat fd < ctx_count s then view (ctx_heap s (nat fd)) else (\<lambda>_. None)),
      reg_queue = io_sched s\<rparr>"

text \<open>Contexts are never freed: the vector lists all of them, in order.\<close>

definition dense :: "IOManager \<Rightarrow> bool" where
  "dense s \<longleftrightarrow> m_fdContexts s = [0..<ctx_count s]"

definition mirrored :: "int \<Rightarrow> IOManager \<Rightarrow> bool" where
  "mirrored efd s \<longleftrightarrow> kernel (ctl_log s) = Some (interest_of efd (registry s)) \<and>
     events_of (reg (registry s) efd) = 0"

lemma events_view: "ctx_ok c \<Longrightarrow> events_of (view c) = fc_events c"
  by (erule ctx_ok_cases)
    (simp_all add: events_of_def view_def event_bits)

lemma view_bit: "event \<in> {READ, WRITE} \<Longrightarrow> epoll_bit (slot_for event) = event"
  by (auto simp: slot_for_def event_bits)

lemma view_iff: "event \<in> {READ, WRITE} \<Longrightarrow>
    view c (slot_for event) = (if fc_events c AND event \<noteq> 0 then Some (continuation (slot_of c (slot_for event))) else None)"
  by (simp add: view_def view_bit)

lemma view_cleared:
  assumes "ctx_ok c" and "event \<in> {READ, WRITE}"
  shows "view (set_slot (slot_for event) empty_event (c\<lparr>fc_events := fc_events c AND NOT event\<rparr>)) =
    (view c)(slot_for event := None)"
  using assms(1)
  by (cases rule: ctx_ok_cases)
    (use assms(2) in \<open>auto simp: fun_eq_iff all_slots view_def slot_for_def event_bits\<close>)

lemma view_added:
  assumes "ctx_ok c" and "event \<in> {READ, WRITE}"
  shows "view (set_slot (slot_for event) e (c\<lparr>fc_events := fc_events c OR event\<rparr>)) =
    (view c)(slot_for event \<mapsto> continuation e)"
  using assms(1)
  by (cases rule: ctx_ok_cases)
    (use assms(2) in \<open>auto simp: fun_eq_iff all_slots view_def slot_for_def event_bits\<close>)
lemma registry_sel [simp]: "reg_queue (registry s) = io_sched s"
  by (simp add: registry_def)

lemma registry_at: "a < ctx_count s \<Longrightarrow> reg (registry s) (int a) = view (ctx_heap s a)"
  by (simp add: registry_def)

lemma registry_log [simp]: "registry (log_ctl op fd ev a s) = registry s"
  by (simp add: registry_def fun_eq_iff)

lemma registry_dec [simp]: "registry (dec_pending s) = registry s"
  by (simp add: registry_def fun_eq_iff)

lemma registry_ev: "io_inv s \<Longrightarrow> a < ctx_count s \<Longrightarrow>
    events_of (reg (registry s) (int a)) = fc_events (ctx_heap s a)"
  by (simp add: registry_at events_view io_inv_def)

text \<open>Replacing one context changes one row of the table.\<close>

lemma registry_put:
  assumes "a < ctx_count s" and "ctx_heap s' = (ctx_heap s)(a := c)" and "ctx_count s' = ctx_count s"
  shows "registry s' = \<lparr>reg = (reg (registry s))(int a := view c), reg_queue = io_sched s'\<rparr>"
  using assms by (auto simp: registry_def fun_eq_iff)

lemma registry_update:
  "r\<lparr>reg := f\<rparr> = \<lparr>reg = f, reg_queue = reg_queue r\<rparr>" "r\<lparr>reg := f, reg_queue := q\<rparr> = \<lparr>reg = f, reg_queue = q\<rparr>"
  by simp_all

section \<open>One call of \<^verbatim>\<open>epoll_ctl\<close>\<close>

text \<open>
  The entry that keeps the kernel in step with the table when the row of one descriptor changes:
  deletion when the row becomes empty, else registration or modification with the new mask.
\<close>

lemma mirrored_step:
  assumes "mirrored efd s" and "ctl_log s' = ctl_log s @ [(op, int a, e, DataPtr a)]" and "int a \<noteq> efd"
    and "\<forall>fd. fd \<noteq> int a \<longrightarrow> reg (registry s') fd = reg (registry s) fd"
    and "events_of (reg (registry s') (int a)) \<noteq> 0 \<and>
        e = EPOLLET OR events_of (reg (registry s') (int a)) \<and>
        op = (if events_of (reg (registry s) (int a)) \<noteq> 0 then CtlMod else CtlAdd)
      \<or> events_of (reg (registry s') (int a)) = 0 \<and> events_of (reg (registry s) (int a)) \<noteq> 0 \<and> op = CtlDel"
  shows "mirrored efd s'"
proof -
  have "kernel (ctl_log s) = Some (interest_of efd (registry s))"
    using assms(1) by (simp add: mirrored_def)
  then have "kernel (ctl_log s') = ctl_effect (op, int a, e, DataPtr a) (interest_of efd (registry s))"
    by (simp add: assms(2) kernel_snoc)
  moreover have "interest_of efd (registry s') = (interest_of efd (registry s))(int a :=
      (if events_of (reg (registry s') (int a)) = 0 then None
       else Some (EPOLLET OR events_of (reg (registry s') (int a)), DataPtr a)))"
  proof (rule ext)
    show "interest_of efd (registry s') fd = ((interest_of efd (registry s))(int a :=
      (if events_of (reg (registry s') (int a)) = 0 then None
       else Some (EPOLLET OR events_of (reg (registry s') (int a)), DataPtr a)))) fd" for fd
      using assms(3,4) by (cases "fd = int a") (simp_all add: interest_of_def)
  qed
  moreover have "events_of (reg (registry s') efd) = 0"
    using assms(1,3,4) by (simp add: mirrored_def)
  ultimately show ?thesis
    using assms(3,5) by (auto simp: mirrored_def interest_of_def)
qed

text \<open>A registered event is not the eventfd's.\<close>

lemma not_eventfd:
  assumes "mirrored efd s" and "io_inv s" and "a < ctx_count s" and "fc_events (ctx_heap s a) \<noteq> 0"
  shows "int a \<noteq> efd"
  using assms registry_ev [OF assms(2,3)] by (auto simp: mirrored_def)

section \<open>Growing the vector\<close>

lemma grow_refines:
  assumes "io_inv s" and "dense s" and "length (m_fdContexts s) \<le> sz"
  shows "dense (contextResize sz s)" and "registry (contextResize sz s) = registry s"
    and "ctl_log (contextResize sz s) = ctl_log s"
proof -
  from assms(2) have len: "length (m_fdContexts s) = ctx_count s" by (simp add: dense_def)
  with assms upt_add_eq_append [of 0 "ctx_count s" "sz - ctx_count s"]
  show "dense (contextResize sz s)"
    by (simp add: dense_def contextResize_def Let_def)
  show "registry (contextResize sz s) = registry s"
    by (auto simp: registry_def contextResize_def Let_def fun_eq_iff view_def new_FdContext_def)
  show "ctl_log (contextResize sz s) = ctl_log s" by (simp add: contextResize_def Let_def)
qed

text \<open>In a dense vector the context of a descriptor has the descriptor's number.\<close>

lemma dense_lookup:
  assumes "dense s" and "0 \<le> fd"
  shows "lookup_ctx s fd = (if nat fd < ctx_count s then Inr (Some (nat fd)) else Inr None)"
  using assms by (auto simp: dense_def lookup_ctx_def)

lemma registry_beyond: "ctx_count s \<le> nat fd \<Longrightarrow> reg (registry s) fd = (\<lambda>_. None)"
  by (simp add: registry_def)

lemma release_none: "reg r fd k = None \<Longrightarrow> release_reg fd k r = r"
  by (simp add: release_reg_def)

lemma forget_none: "reg r fd k = None \<Longrightarrow> forget fd k r = r"
  by (cases r) (auto simp: forget_def fun_eq_iff)
section \<open>The operations\<close>

lemma cleared_view:
  assumes "ctx_ok (ctx_heap s a)" and "a < ctx_count s" and "event \<in> {READ, WRITE}"
    and "ctx_heap s' = (ctx_heap s)(a := set_slot (slot_for event) empty_event
      ((ctx_heap s a)\<lparr>fc_events := fc_events (ctx_heap s a) AND NOT event\<rparr>))"
    and "ctx_count s' = ctx_count s"
  shows "registry s' = \<lparr>reg = reg (forget (int a) (slot_for event) (registry s)), reg_queue = io_sched s'\<rparr>"
  unfolding registry_put [OF assms(2,4,5)] view_cleared [OF assms(1,3)]
  by (simp add: forget_def registry_at assms(2))

lemma trigger_refines:
  assumes "ctx_ok (ctx_heap s a)" and "a < ctx_count s" and "event \<in> {READ, WRITE}"
    and "trigger_at s a event = Inr s'"
  shows "registry s' = release_reg (int a) (slot_for event) (registry s)"
proof -
  let ?c = "ctx_heap s a"
  have reg: "fc_events ?c AND event \<noteq> 0"
    using assms(4) by (auto simp: trigger_at_def triggerEvent_def)
  have s': "s' = io_schedule (put_ctx a (set_slot (slot_for event) empty_event
      (?c\<lparr>fc_events := fc_events ?c AND NOT event\<rparr>)) s) (continuation (slot_of ?c (slot_for event)))"
    using assms(4) reg
    by (auto simp: trigger_at_def triggerEvent_def Let_def getEventContext_ok [OF assms(3)]
        continuation_def split: if_splits)
  have r: "reg (registry s) (int a) (slot_for event) = Some (continuation (slot_of ?c (slot_for event)))"
    using reg by (simp add: registry_at assms(2) view_iff [OF assms(3)])
  have h: "ctx_heap s' = (ctx_heap s)(a := set_slot (slot_for event) empty_event
      (?c\<lparr>fc_events := fc_events ?c AND NOT event\<rparr>))" "ctx_count s' = ctx_count s"
    "io_sched s' = fst (scheduleLock (io_sched s) (continuation (slot_of ?c (slot_for event))) (-1))"
    unfolding s' by (simp_all add: io_schedule_sched)
  show ?thesis
    unfolding cleared_view [OF assms(1-3) h(1,2)] by (simp add: release_reg_def r forget_def h(3))
qed

lemma trigger_if_refines:
  assumes "io_inv s" and "a < ctx_count s" and "event \<in> {READ, WRITE}"
    and "trigger_if which event a s = Inr s'"
  shows "registry s' = (if which AND event \<noteq> 0 then release_reg (int a) (slot_for event) (registry s)
      else registry s)"
    and "io_inv s'" and "ctx_count s' = ctx_count s" and "m_fdContexts s' = m_fdContexts s"
    and "ctl_log s' = ctl_log s"
    and "fc_events (ctx_heap s' a) = (if which AND event \<noteq> 0 then fc_events (ctx_heap s a) AND NOT event
      else fc_events (ctx_heap s a))"
proof -
  have ok: "ctx_ok (ctx_heap s a)" using assms(1,2) by (simp add: io_inv_def)
  have "which AND event \<noteq> 0 \<longrightarrow> fc_events (ctx_heap s a) AND event \<noteq> 0"
    using trigger_if_unregistered [of which event s a] assms(4) by auto
  from trigger_if_ok [OF assms(1-3) this] assms(4)
  show "io_inv s'" "ctx_count s' = ctx_count s" "m_fdContexts s' = m_fdContexts s" "ctl_log s' = ctl_log s"
    "fc_events (ctx_heap s' a) = (if which AND event \<noteq> 0 then fc_events (ctx_heap s a) AND NOT event
      else fc_events (ctx_heap s a))" by auto
  show "registry s' = (if which AND event \<noteq> 0 then release_reg (int a) (slot_for event) (registry s)
      else registry s)"
    using assms(4) trigger_refines [OF ok assms(2,3)]
    by (auto simp: trigger_if_def split: if_splits sum.splits)
qed

lemma release_other: "fd' \<noteq> fd \<Longrightarrow> reg (release_reg fd k r) fd' = reg r fd'"
  by (simp add: release_reg_def forget_def split: option.split)

lemma release_reg_row: "reg (release_reg fd k r) fd = (reg r fd)(k := None)"
  by (auto simp: release_reg_def forget_def split: option.split)

text \<open>What each step has to establish.\<close>

definition refines_step :: "int \<Rightarrow> io_op \<Rightarrow> IOManager \<Rightarrow> IOManager \<Rightarrow> bool" where
  "refines_step efd opn s s' \<longleftrightarrow> dense s' \<and> registry s' = spec_io opn (registry s) \<and> (mirrored efd s \<longrightarrow> mirrored efd s')"

lemma dense_frame: "dense s \<Longrightarrow> ctx_count s' = ctx_count s \<Longrightarrow> m_fdContexts s' = m_fdContexts s \<Longrightarrow> dense s'"
  by (simp add: dense_def)
lemma mirrored_ctx:
  assumes "io_inv s" and "io_inv s'" and "a < ctx_count s" and "ctx_count s' = ctx_count s" and "mirrored efd s"
    and "ctl_log s' = ctl_log s @ [(op, int a, e, DataPtr a)]" and "int a \<noteq> efd"
    and "\<forall>fd. fd \<noteq> int a \<longrightarrow> reg (registry s') fd = reg (registry s) fd"
    and "fc_events (ctx_heap s' a) \<noteq> 0 \<and> e = EPOLLET OR fc_events (ctx_heap s' a) \<and>
        op = (if fc_events (ctx_heap s a) \<noteq> 0 then CtlMod else CtlAdd)
      \<or> fc_events (ctx_heap s' a) = 0 \<and> fc_events (ctx_heap s a) \<noteq> 0 \<and> op = CtlDel"
  shows "mirrored efd s'"
  by (rule mirrored_step [OF assms(5-8)])
    (use assms(9) registry_ev [OF assms(1,3)] registry_ev [OF assms(2)] assms(3,4) in simp)

lemma or_event: "event \<in> {READ, WRITE} \<Longrightarrow> (x :: u32) OR event \<noteq> 0"
proof
  assume "event \<in> {READ, WRITE}" and "x OR event = 0"
  then have "0 AND event = event" using or_and_absorb [of x event] by metis
  with \<open>event \<in> {READ, WRITE}\<close> show False by (auto simp: event_bits)
qed

lemma add_register_refines:
  assumes "io_inv s" and "dense s" and "a < ctx_count s" and "event \<in> {READ, WRITE}"
    and "addEvent_register s a (int a) event cb cur rt = Inr (s', b)" and "int a \<noteq> efd"
  shows "refines_step efd (AddEvent (int a) event cb cur rt) s s'"
proof (cases "fc_events (ctx_heap s a) AND event = 0 \<and> rt = 0")
  case False
  with addEvent_register_ok [OF assms(1,3,4), of "int a" cb cur rt] assms(5) have "s' = s" by auto
  with False assms(2) show ?thesis
    by (auto simp: refines_step_def registry_at assms(3) view_iff [OF assms(4)])
next
  case True
  let ?c = "ctx_heap s a"
  have ok: "ctx_ok ?c" using assms(1,3) by (simp add: io_inv_def)
  from addEvent_register_ok [OF assms(1,3,4), of "int a" cb cur rt] assms(5) True
  have i: "io_inv s'" "fc_events (ctx_heap s' a) = fc_events ?c OR event" "io_sched s' = io_sched s"
    "m_fdContexts s' = m_fdContexts s" by auto
  from assms(5) True obtain x where x: "s' = put_ctx a (set_slot (slot_for event) x
      (?c\<lparr>fc_events := fc_events ?c OR event\<rparr>)) ((log_ctl (if fc_events ?c \<noteq> 0 then CtlMod else CtlAdd)
        (int a) (EPOLLET OR (fc_events ?c OR event)) a s)\<lparr>m_pendingEventCount := m_pendingEventCount s + 1\<rparr>)"
      "continuation x = (if cb \<noteq> None then Callback cb else FiberPtr (Some cur))"
    by (auto simp: addEvent_register_def Let_def getEventContext_ok [OF assms(4)] continuation_def or.assoc
        split: if_splits)
  have h: "ctx_heap s' = (ctx_heap s)(a := set_slot (slot_for event) x (?c\<lparr>fc_events := fc_events ?c OR event\<rparr>))"
    "ctx_count s' = ctx_count s"
    "ctl_log s' = ctl_log s @ [(if fc_events ?c \<noteq> 0 then CtlMod else CtlAdd, int a, EPOLLET OR (fc_events ?c OR event), DataPtr a)]"
    unfolding x(1) by simp_all
  have r: "registry s' = \<lparr>reg = (reg (registry s))(int a := (view ?c)(slot_for event \<mapsto> continuation x)),
      reg_queue = io_sched s\<rparr>"
    unfolding registry_put [OF assms(3) h(1,2)] view_added [OF ok assms(4)] i(3) ..
  have "mirrored efd s'" if "mirrored efd s"
    by (rule mirrored_ctx [OF assms(1) i(1) assms(3) h(2) that h(3) assms(6)])
      (simp_all add: r i(2) or_event [OF assms(4)])
  moreover have "registry s' = spec_io (AddEvent (int a) event cb cur rt) (registry s)"
    using True by (simp add: r x(2) registry_at assms(3) view_iff [OF assms(4)] registry_update)
  ultimately show ?thesis
    using dense_frame [OF assms(2) h(2) i(4)] by (simp add: refines_step_def)
qed

lemma add_refines:
  assumes "io_inv s" and "dense s" and "0 \<le> fd" and "event \<in> {READ, WRITE}"
    and "addEvent s fd event cb cur rt = Inr (s', b)" and "fd \<noteq> efd"
  shows "refines_step efd (AddEvent fd event cb cur rt) s s'"
proof (cases "nat fd < ctx_count s")
  case True
  then have "addEvent_register s (nat fd) (int (nat fd)) event cb cur rt = Inr (s', b)"
    using assms(3,5) by (simp add: addEvent_def dense_lookup [OF assms(2)])
  from add_register_refines [OF assms(1,2) True assms(4) this] assms(3,6) show ?thesis by simp
next
  case False
  have len: "length (m_fdContexts s) = ctx_count s" using assms(2) by (simp add: dense_def)
  let ?sz = "nat (fd * 3 div 2)"
  have "32 \<le> length (m_fdContexts s)" using assms(1) by (simp add: io_inv_def)
  with False assms(3) len have sz: "length (m_fdContexts s) \<le> ?sz" "nat fd < ?sz" by linarith+
  note G = grow_refines [OF assms(1,2) sz(1)]
  note I = io_inv_grow(1,3) [OF assms(1) sz(1)]
  have cc: "ctx_count (contextResize ?sz s) = ?sz" using I(2) G(1) by (simp add: dense_def)
  then have "m_fdContexts (contextResize ?sz s) ! nat fd = nat fd" using G(1) sz(2) by (simp add: dense_def)
  then have r: "addEvent_register (contextResize ?sz s) (nat fd) (int (nat fd)) event cb cur rt = Inr (s', b)"
    using assms(3,5) False sz(2) I(2)
    by (simp add: addEvent_def dense_lookup [OF assms(2)] addEvent_resize_def Let_def)
  have m: "mirrored efd s \<longrightarrow> mirrored efd (contextResize ?sz s)" by (simp add: mirrored_def G(2,3))
  have a: "nat fd < ctx_count (contextResize ?sz s)" using cc sz(2) by simp
  from add_register_refines [OF I(1) G(1) a assms(4) r] assms(3,6) show ?thesis
    using m by (simp add: refines_step_def G(2))
qed
text \<open>The two operations that take one event away agree on when they do nothing.\<close>

lemma registry_none:
  assumes "dense s" and "0 \<le> fd" and "event \<in> {READ, WRITE}"
    and "\<not> (\<exists>a. lookup_ctx s fd = Inr (Some a) \<and> fc_events (ctx_heap s a) AND event \<noteq> 0)"
  shows "reg (registry s) fd (slot_for event) = None"
  using assms(2,4) by (simp add: dense_lookup [OF assms(1,2)] registry_def view_iff [OF assms(3)] split: if_splits)

lemma del_refines:
  assumes "io_inv s" and "dense s" and "0 \<le> fd" and "event \<in> {READ, WRITE}"
    and "delEvent s fd event rt = Inr (s', b)"
  shows "refines_step efd (DelEvent fd event rt) s s'"
proof (cases b)
  case False
  then have "s' = s" using delEvent_ok [OF assms(1,4,3), of rt] assms(5) by auto
  moreover have "\<not> (\<exists>a. lookup_ctx s fd = Inr (Some a) \<and> fc_events (ctx_heap s a) AND event \<noteq> 0) \<or> rt \<noteq> 0"
    using False assms(5) by (auto simp: delEvent_def delEvent_at_def Let_def getEventContext_ok [OF assms(4)])
  ultimately show ?thesis
    using assms(2) registry_none [OF assms(2,3,4)] by (auto simp: refines_step_def forget_none)
next
  case True
  define a where "a = nat fd"
  have a: "fd = int a" "a < ctx_count s" "lookup_ctx s fd = Inr (Some a)"
    "fc_events (ctx_heap s a) AND event \<noteq> 0" "rt = 0"
    using assms(3,5) True
    by (auto simp: a_def delEvent_def delEvent_at_def dense_lookup [OF assms(2,3)] Let_def split: if_splits)
  have ok: "ctx_ok (ctx_heap s a)" using assms(1) a(2) by (simp add: io_inv_def)
  let ?c = "ctx_heap s a"
  let ?n = "fc_events ?c AND NOT event"
  have s': "s' = put_ctx a (set_slot (slot_for event) empty_event (?c\<lparr>fc_events := ?n\<rparr>))
      (dec_pending (log_ctl (if ?n \<noteq> 0 then CtlMod else CtlDel) fd (EPOLLET OR ?n) a s))"
    using assms(5) a(3-5) by (simp add: delEvent_def delEvent_at_def Let_def getEventContext_ok [OF assms(4)])
  have h: "ctx_heap s' = (ctx_heap s)(a := set_slot (slot_for event) empty_event (?c\<lparr>fc_events := ?n\<rparr>))"
    "ctx_count s' = ctx_count s" "m_fdContexts s' = m_fdContexts s" "io_sched s' = io_sched s"
    "ctl_log s' = ctl_log s @ [(if ?n \<noteq> 0 then CtlMod else CtlDel, int a, EPOLLET OR ?n, DataPtr a)]"
    unfolding s' by (simp_all add: a(1))
  have r: "registry s' = forget fd (slot_for event) (registry s)"
    unfolding cleared_view [OF ok a(2) assms(4) h(1,2)] h(4) a(1) by (simp add: forget_def)
  have i: "io_inv s'" using delEvent_ok [OF assms(1,4,3), of rt] assms(5) by auto
  have "fc_events (ctx_heap s a) \<noteq> 0" using a(4) by auto
  note ne = not_eventfd [OF _ assms(1) a(2) this]
  have "mirrored efd s'" if "mirrored efd s"
    by (rule mirrored_ctx [OF assms(1) i a(2) h(2) that h(5) ne [OF that]])
      (use a(4) in \<open>auto simp: r forget_def a(1) h(1)\<close>)
  with r a(5) dense_frame [OF assms(2) h(2,3)] show ?thesis by (simp add: refines_step_def)
qed

lemma cancel_refines:
  assumes "io_inv s" and "dense s" and "0 \<le> fd" and "event \<in> {READ, WRITE}"
    and "cancelEvent s fd event rt = Inr (s', b)"
  shows "refines_step efd (CancelEvent fd event rt) s s'"
proof (cases b)
  case False
  then have "s' = s" using cancelEvent_ok [OF assms(1,4,3), of rt] assms(5) by auto
  moreover have "\<not> (\<exists>a. lookup_ctx s fd = Inr (Some a) \<and> fc_events (ctx_heap s a) AND event \<noteq> 0) \<or> rt \<noteq> 0"
    using False assms(5) by (auto simp: cancelEvent_def cancelEvent_at_def Let_def split: sum.splits)
  ultimately show ?thesis
    using assms(2) registry_none [OF assms(2,3,4)] by (auto simp: refines_step_def release_none)
next
  case True
  define a where "a = nat fd"
  have a: "fd = int a" "a < ctx_count s" "lookup_ctx s fd = Inr (Some a)"
    "fc_events (ctx_heap s a) AND event \<noteq> 0" "rt = 0"
    using assms(3,5) True
    by (auto simp: a_def cancelEvent_def cancelEvent_at_def dense_lookup [OF assms(2,3)] Let_def split: if_splits)
  let ?n = "fc_events (ctx_heap s a) AND NOT event"
  let ?s1 = "log_ctl (if ?n \<noteq> 0 then CtlMod else CtlDel) fd (EPOLLET OR ?n) a s"
  have t: "trigger_at (dec_pending ?s1) a event = Inr s'"
    using assms(5) a(3-5) by (auto simp: cancelEvent_def cancelEvent_at_def Let_def split: sum.splits)
  have ok: "ctx_ok (ctx_heap (dec_pending ?s1) a)" using assms(1) a(2) by (simp add: io_inv_def)
  have reg: "fc_events (ctx_heap (dec_pending ?s1) a) AND event \<noteq> 0" using a(4) by simp
  from trigger_at_ok [OF ok assms(4) reg] t obtain c where h: "ctx_heap s' = (ctx_heap s)(a := c)"
    "fc_events c = ?n" "ctx_count s' = ctx_count s" "m_fdContexts s' = m_fdContexts s"
    "ctl_log s' = ctl_log s @ [(if ?n \<noteq> 0 then CtlMod else CtlDel, int a, EPOLLET OR ?n, DataPtr a)]"
    by (auto simp: a(1))
  have r: "registry s' = release_reg fd (slot_for event) (registry s)"
    using trigger_refines [OF ok _ assms(4) t] a(2) by (simp add: a(1))
  have i: "io_inv s'" using cancelEvent_ok [OF assms(1,4,3), of rt] assms(5) by auto
  have "fc_events (ctx_heap s a) \<noteq> 0" using a(4) by auto
  note ne = not_eventfd [OF _ assms(1) a(2) this]
  have "mirrored efd s'" if "mirrored efd s"
    by (rule mirrored_ctx [OF assms(1) i a(2) h(3) that h(5) ne [OF that]])
      (use a(4) in \<open>auto simp: r release_other a(1) h(1,2)\<close>)
  with r a(5) dense_frame [OF assms(2) h(3,4)] show ?thesis by (simp add: refines_step_def)
qed
text \<open>One call of \<^verbatim>\<open>epoll_ctl\<close> and the two triggers that follow it.\<close>

lemma log_trigger_refines:
  assumes "io_inv s" and "dense s" and "a < ctx_count s" and "fc_events (ctx_heap s a) \<noteq> 0"
    and "trigger_if w1 READ a (log_ctl op (int a) e a s) = Inr s1" and "trigger_if w2 WRITE a s1 = Inr s2"
    and "fc_events (ctx_heap s2 a) \<noteq> 0 \<and> e = EPOLLET OR fc_events (ctx_heap s2 a) \<and> op = CtlMod
      \<or> fc_events (ctx_heap s2 a) = 0 \<and> op = CtlDel"
    and "r1 = (if w1 AND READ \<noteq> 0 then release_reg (int a) ReadSlot (registry s) else registry s)"
  shows "dense s2 \<and> (mirrored efd s \<longrightarrow> mirrored efd s2) \<and>
    registry s2 = (if w2 AND WRITE \<noteq> 0 then release_reg (int a) WriteSlot r1 else r1)"
proof -
  have sl: "slot_for READ = ReadSlot" "slot_for WRITE = WriteSlot"
    by (simp_all add: slot_for_def event_bits)
  have ev: "READ \<in> {READ, WRITE}" "WRITE \<in> {READ, WRITE}" by simp_all
  let ?s0 = "log_ctl op (int a) e a s"
  have i0: "io_inv ?s0" and a0: "a < ctx_count ?s0" using assms(1,3) by simp_all
  note T1 = trigger_if_refines [OF i0 a0 ev(1) assms(5), unfolded sl]
  have a1: "a < ctx_count s1" using T1(3) assms(3) by simp
  note T2 = trigger_if_refines [OF T1(2) a1 ev(2) assms(6), unfolded sl]
  have r: "registry s2 = (if w2 AND WRITE \<noteq> 0 then release_reg (int a) WriteSlot r1 else r1)"
    using T1(1) T2(1) assms(8) by simp
  have c: "ctx_count s2 = ctx_count s" "m_fdContexts s2 = m_fdContexts s"
    "ctl_log s2 = ctl_log s @ [(op, int a, e, DataPtr a)]" using T1(3-5) T2(3-5) by simp_all
  have "mirrored efd s2" if "mirrored efd s"
    by (rule mirrored_ctx [OF assms(1) T2(2) assms(3) c(1) that c(3) not_eventfd [OF that assms(1,3,4)]])
      (use assms(4,7) in \<open>auto simp: r assms(8) release_other\<close>)
  with r dense_frame [OF assms(2) c(1,2)] show ?thesis by simp
qed

lemma cancel_all_refines:
  assumes "io_inv s" and "dense s" and "0 \<le> fd" and "cancelAll s fd rt = Inr (s', b)"
  shows "refines_step efd (CancelAll fd rt) s s'"
proof (cases "nat fd < ctx_count s \<and> fc_events (ctx_heap s (nat fd)) \<noteq> 0 \<and> rt = 0")
  case False
  then have s': "s' = s"
    using assms(4) by (auto simp: cancelAll_def cancelAll_at_def dense_lookup [OF assms(2,3)] split: if_splits)
  have "rt = 0 \<longrightarrow> (\<forall>k. reg (registry s) fd k = None)"
    using False assms(3) by (auto simp: registry_def view_def)
  then show ?thesis using assms(2) by (simp add: refines_step_def s' release_none)
next
  case True
  define a where "a = nat fd"
  have a: "fd = int a" "a < ctx_count s" "fc_events (ctx_heap s a) \<noteq> 0" "rt = 0"
    using True assms(3) by (simp_all add: a_def)
  let ?c = "ctx_heap s a"
  have l: "lookup_ctx s (int a) = Inr (Some a)" using a(2) by (simp add: dense_lookup [OF assms(2)])
  obtain s1 where t: "trigger_if (fc_events ?c) READ a (log_ctl CtlDel (int a) 0 a s) = Inr s1"
    "trigger_if (fc_events (ctx_heap s1 a)) WRITE a s1 = Inr s'" "fc_events (ctx_heap s' a) = 0"
    using assms(4) a by (auto simp: cancelAll_def cancelAll_at_def l Let_def split: sum.splits if_splits)
  have i0: "io_inv (log_ctl CtlDel (int a) 0 a s)" "a < ctx_count (log_ctl CtlDel (int a) 0 a s)"
    "READ \<in> {READ, WRITE}" using assms(1) a(2) by simp_all
  have w: "fc_events (ctx_heap s1 a) AND WRITE = fc_events ?c AND WRITE"
    using trigger_if_refines(6) [OF i0 t(1)] by (simp add: and.assoc event_bits split: if_splits)
  let ?r1 = "if fc_events ?c AND READ \<noteq> 0 then release_reg (int a) ReadSlot (registry s) else registry s"
  have R: "dense s' \<and> (mirrored efd s \<longrightarrow> mirrored efd s') \<and> registry s' =
      (if fc_events (ctx_heap s1 a) AND WRITE \<noteq> 0 then release_reg (int a) WriteSlot ?r1 else ?r1)"
    by (rule log_trigger_refines [OF assms(1,2) a(2,3) t(1,2)]) (simp_all add: t(3))
  have v: "reg (registry s) (int a) = view ?c" by (rule registry_at [OF a(2)])
  have r1: "?r1 = release_reg (int a) ReadSlot (registry s)"
    by (simp add: release_none v view_def event_bits)
  have "(if fc_events ?c AND WRITE \<noteq> 0 then release_reg (int a) WriteSlot ?r1 else ?r1) =
      release_reg (int a) WriteSlot ?r1"
    by (simp add: release_none release_reg_row v view_def event_bits)
  with R show ?thesis by (simp add: refines_step_def w r1 a(1,4))
qed
text \<open>
  The idle loop's reading of a report agrees with the specification's on every registered
  direction.
\<close>

lemma concerns_release:
  assumes "reg r fd k = view c k"
  shows "(if concerns ev k then release_reg fd k r else r) =
    (if reported c ev AND epoll_bit k \<noteq> 0 then release_reg fd k r else r)"
proof (cases "fc_events c AND epoll_bit k = 0")
  case True
  then show ?thesis using assms by (simp add: view_def release_none)
next
  case False
  then have "concerns ev k \<longleftrightarrow> reported c ev AND epoll_bit k \<noteq> 0"
    using reported_bits [of c ev] by (cases k) (simp_all add: concerns_def event_bits)
  then show ?thesis by simp
qed

lemma ready_refines:
  assumes "io_inv s" and "dense s" and "a < ctx_count s" and "handle_ready s a ev rt = Inr s'"
  shows "refines_step efd (HandleReady a ev rt) s s'"
proof -
  let ?c = "ctx_heap s a" and ?r = "registry s"
  let ?real = "reported (ctx_heap s a) ev"
  have v: "reg ?r (int a) = view ?c" by (rule registry_at [OF assms(3)])
  have e: "fc_events ?c \<in> {0, 1, 4, 5}" using assms(1,3) by (simp add: io_inv_def ctx_ok_def)
  define r1 where "r1 = (if ?real AND READ \<noteq> 0 then release_reg (int a) ReadSlot ?r else ?r)"
  have w: "reg r1 (int a) WriteSlot = view ?c WriteSlot" by (simp add: r1_def release_reg_row v)
  have spec: "spec_io (HandleReady a ev rt) ?r = (if rt \<noteq> 0 then ?r
      else if ?real AND WRITE \<noteq> 0 then release_reg (int a) WriteSlot r1 else r1)"
  proof -
    have "(if concerns ev ReadSlot then release_reg (int a) ReadSlot ?r else ?r) = r1"
      using concerns_release [of ?r "int a" ReadSlot ?c ev] v by (simp add: r1_def event_bits)
    moreover have "(if concerns ev WriteSlot then release_reg (int a) WriteSlot r1 else r1) =
        (if ?real AND WRITE \<noteq> 0 then release_reg (int a) WriteSlot r1 else r1)"
      using concerns_release [of r1 "int a" WriteSlot ?c ev] w by (simp add: event_bits)
    ultimately show ?thesis by (simp only: spec_io.simps Let_def)
  qed
  show ?thesis
  proof (cases "fc_events ?c AND ?real \<noteq> 0 \<and> rt = 0")
    case False
    then have s': "s' = s" using assms(4)
      by (auto simp: handle_ready_def Let_def simp flip: reported_def split: if_splits)
    have "fc_events ?c AND ?real = 0 \<Longrightarrow> (?real AND READ \<noteq> 0 \<longrightarrow> view ?c ReadSlot = None) \<and>
        (?real AND WRITE \<noteq> 0 \<longrightarrow> view ?c WriteSlot = None)"
      using e reported_cases [of ?c ev] by (auto simp: view_def event_bits)
    with False v w have "spec_io (HandleReady a ev rt) ?r = ?r"
      unfolding spec by (auto simp: r1_def release_none)
    with assms(2) show ?thesis by (simp add: refines_step_def s')
  next
    case True
    have fd: "fc_fd ?c = int a"
      using assms(1,2,3) by (auto simp: io_inv_def dense_def)
    let ?l = "fc_events ?c AND NOT ?real"
    obtain s1 where t: "trigger_if ?real READ a (log_ctl (if ?l \<noteq> 0 then CtlMod else CtlDel) (int a)
        (EPOLLET OR ?l) a s) = Inr s1" "trigger_if ?real WRITE a s1 = Inr s'"
      using assms(4) True
      by (auto simp: handle_ready_def Let_def fd simp flip: reported_def split: sum.splits)
    let ?s0 = "log_ctl (if ?l \<noteq> 0 then CtlMod else CtlDel) (int a) (EPOLLET OR ?l) a s"
    have i0: "io_inv ?s0" "a < ctx_count ?s0" "READ \<in> {READ, WRITE}" using assms(1,3) by simp_all
    note T1 = trigger_if_refines [OF i0 t(1)]
    have a1: "a < ctx_count s1" "WRITE \<in> {READ, WRITE}" using T1(3) assms(3) by simp_all
    have left: "fc_events (ctx_heap s' a) = ?l"
      using trigger_if_refines(6) [OF T1(2) a1 t(2)] T1(6) e reported_cases [of ?c ev]
      by (auto simp: event_bits)
    have "fc_events ?c \<noteq> 0" using True by auto
    have "dense s' \<and> (mirrored efd s \<longrightarrow> mirrored efd s') \<and>
        registry s' = (if ?real AND WRITE \<noteq> 0 then release_reg (int a) WriteSlot r1 else r1)"
      by (rule log_trigger_refines [OF assms(1,2,3) \<open>fc_events ?c \<noteq> 0\<close> t _ r1_def]) (simp add: left)
    with True show ?thesis unfolding refines_step_def spec by simp
  qed
qed

lemma map_fst_InrE:
  assumes "map_sum id fst x = Inr s"
  obtains b where "x = Inr (s, b)"
  using assms by (cases x) auto

lemma io_step_refines:
  assumes "io_inv s" and "dense s" and "io_args_ok efd s opn" and "io_step s opn = Inr s'"
  shows "refines_step efd opn s s'"
proof (cases opn)
  case (AddEvent fd ev cb cur rt)
  with assms(3,4) show ?thesis by (auto intro: add_refines [OF assms(1,2)] elim!: map_fst_InrE)
next
  case (DelEvent fd ev rt)
  with assms(3,4) show ?thesis by (auto intro: del_refines [OF assms(1,2)] elim!: map_fst_InrE)
next
  case (CancelEvent fd ev rt)
  with assms(3,4) show ?thesis by (auto intro: cancel_refines [OF assms(1,2)] elim!: map_fst_InrE)
next
  case (CancelAll fd rt)
  with assms(3,4) show ?thesis by (auto intro: cancel_all_refines [OF assms(1,2)] elim!: map_fst_InrE)
next
  case (HandleReady a ev rt)
  with assms(3,4) show ?thesis by (auto intro: ready_refines [OF assms(1,2)])
qed

lemma io_run_ops: "io_run s ops = run_ops io_step s ops"
  by (induction ops arbitrary: s) (simp_all split: sum.split)

text \<open>The manager implements the table.\<close>

interpretation io_table: simulation "\<lambda>s. io_inv s \<and> dense s \<and> mirrored efd s" "io_op_ok efd" io_step spec_io registry
  for efd
proof
  fix s opn assume g: "io_inv s \<and> dense s \<and> mirrored efd s" and ok: "io_op_ok efd s opn"
  then obtain s1 where s1: "io_step s opn = Inr s1" "io_inv s1" using io_step_ok [of s efd opn] by blast
  have "io_args_ok efd s opn" using ok by (simp add: io_op_ok_def)
  with io_step_refines [OF _ _ this s1(1)] g s1
  show "\<exists>s1. io_step s opn = Inr s1 \<and> (io_inv s1 \<and> dense s1 \<and> mirrored efd s1) \<and> registry s1 = spec_io opn (registry s)"
    by (simp add: refines_step_def)
qed

lemma init_refines:
  "dense (init_IOManager efd now)" "mirrored efd (init_IOManager efd now)"
  "registry (init_IOManager efd now) = empty_registry"
  by (auto simp: dense_def mirrored_def registry_def empty_registry_def interest_of_def events_of_def
      init_IOManager_def contextResize_def view_def new_FdContext_def fun_eq_iff)



end
