(* ===== verification/Sched_Base.thy ===== *)
theory Sched_Base
  imports Sched_Start Hook_Init Io_Refinement
begin

text \<open>
  What is left of the classes: the accessors, the singleton of include/mycoroutine/fd_manager.h,
  the destructors of a shared-stack pool and of \<^verbatim>\<open>IOManager\<close>, the beginning of
  \<^verbatim>\<open>Scheduler::run\<close>, and the idle fiber and tickle of the base class, which a plain
  \<^verbatim>\<open>Scheduler\<close> uses.
\<close>

section \<open>Accessors\<close>

definition getPolicy :: "Scheduler \<Rightarrow> SchedulePolicy" where
  "getPolicy s = m_policy s"

definition getMLFQConfig :: "Scheduler \<Rightarrow> MLFQConfig" where
  "getMLFQConfig s = m_mlfqConfig s"

definition setCoroutinePoolMaxCachedPerKey :: "u64 \<Rightarrow> SchedulerObj \<Rightarrow> SchedulerObj" where
  "setCoroutinePoolMaxCachedPerKey max_cached_per_key s =
     s\<lparr>m_coroutinePool := setMaxCachedPerKey max_cached_per_key (m_coroutinePool s)\<rparr>"

definition getCoroutinePoolCachedCount :: "SchedulerObj \<Rightarrow> u64 \<Rightarrow> bool \<Rightarrow> bool \<Rightarrow> nat" where
  "getCoroutinePoolCachedCount s stacksize run_in_scheduler use_shared_stack =
     cachedCount (m_coroutinePool s) stacksize run_in_scheduler use_shared_stack"

definition getMaxCachedPerKey :: "CoroutinePool \<Rightarrow> u64" where
  "getMaxCachedPerKey p = m_maxCachedPerKey p"

definition GetFiberId :: "Thread_State \<Rightarrow> u64" where
  "GetFiberId w = (case t_fiber (st w) of Some f \<Rightarrow> m_id (fib w f) | None \<Rightarrow> - 1)"

definition GetSharedStackSlotCount :: "Stacks \<Rightarrow> u64" where
  "GetSharedStackSlotCount s = s_shared_stack_slot_count s"

text \<open>A setting reads back as it was given, but zero as one and a configuration as it is normalised.\<close>

lemma settings_read_back:
  "getPolicy (setPolicy s p) = p"
  "getMLFQConfig (setMLFQConfig s c) = NormalizeMLFQConfig c" "config_ok (getMLFQConfig (setMLFQConfig s c))"
  "getMaxCachedPerKey (m_coroutinePool (setCoroutinePoolMaxCachedPerKey n o1)) = (if n = 0 then 1 else n)"
  "GetSharedStackSlotCount (SetSharedStackSlotCount n t) = (if n = 0 then 1 else n)"
  by (simp_all add: getPolicy_def setPolicy_def getMLFQConfig_def setMLFQConfig_def NormalizeMLFQConfig_ok
      getMaxCachedPerKey_def setCoroutinePoolMaxCachedPerKey_def setMaxCachedPerKey_def
      GetSharedStackSlotCount_def SetSharedStackSlotCount_def)

text \<open>\<^verbatim>\<open>GetThis\<close> makes the first fiber of a thread, which from then on has an identifier.\<close>

lemma main_fiber_id:
  "t_fiber (st w) = None \<Longrightarrow> GetFiberId w = - 1"
  "t_fiber (st w) = None \<Longrightarrow> GetFiberId (fst (GetThis f w)) = s_fiber_id w"
  by (simp_all add: GetFiberId_def GetThis_def Fiber_main_def count_fiber_def put_fib_def SetThis_def fib_def
      fiber_at_def set_fiber_def new_Fiber_def)

section \<open>The singleton\<close>

text \<open>\<open>fresh\<close> is what \<^verbatim>\<open>new T()\<close> makes.\<close>

definition GetInstance :: "'a \<Rightarrow> 'a option \<Rightarrow> 'a option \<times> 'a" where
  "GetInstance fresh ptr = (case ptr of None \<Rightarrow> (Some fresh, fresh) | Some x \<Rightarrow> (ptr, x))"

definition DestroyInstance :: "'a option \<Rightarrow> 'a option" where
  "DestroyInstance ptr = None"

text \<open>All callers get the object the first one made, until it is destroyed.\<close>

fun instances :: "'a option \<Rightarrow> 'a list \<Rightarrow> 'a list" where
  "instances ptr [] = []"
| "instances ptr (fresh # rest) = (case GetInstance fresh ptr of (ptr1, x) \<Rightarrow> x # instances ptr1 rest)"

lemma one_instance:
  "instances (Some x) ys = replicate (length ys) x"
  "instances (DestroyInstance ptr) (y # ys) = replicate (Suc (length ys)) y"
proof -
  show *: "instances (Some x) ys = replicate (length ys) x" for x
    by (induction ys) (simp_all add: GetInstance_def)
  show "instances (DestroyInstance ptr) (y # ys) = replicate (Suc (length ys)) y"
    by (simp add: DestroyInstance_def GetInstance_def *)
qed

section \<open>Destructors\<close>

text \<open>\<^verbatim>\<open>~SharedStackPool\<close>: the slots are emptied; the second component is what \<^verbatim>\<open>free\<close> is given.\<close>

definition SharedStackPool_dtor :: "SharedStackPool \<Rightarrow> Stacks \<Rightarrow> Stacks \<times> u64 list" where
  "SharedStackPool_dtor p s =
     (s\<lparr>slots := (\<lambda>k. if k \<in> set (m_slots p) then \<lparr>slot_stack = 0, slot_size = 0, slot_owner = None\<rparr> else slots s k)\<rparr>,
      map (\<lambda>k. slot_stack (slots s k)) (m_slots p))"

text \<open>Every block the constructor got is freed exactly once, and no slot of another pool is touched.\<close>

lemma pool_frees_its_blocks:
  assumes "SharedStackPool_ctor blocks n sz s = Inr (s1, p)" and "slots s2 = slots s1"
  shows "snd (SharedStackPool_dtor p s2) = map blocks (m_slots p)" and "distinct (m_slots p)"
    and "k < n_slots s \<Longrightarrow> slots (fst (SharedStackPool_dtor p s2)) k = slots s k"
    and "length (m_slots p) = unat (if n = 0 then 1 else n)"
  using assms by (auto simp: SharedStackPool_ctor_def SharedStackPool_dtor_def Let_def simp del: set_upt split: if_splits)
    (simp_all add: atLeastLessThan_iff)

text \<open>
  \<^verbatim>\<open>~IOManager\<close> after \<^verbatim>\<open>stop()\<close>: the descriptors closed and the contexts deleted, in order.
\<close>

definition IOManager_dtor :: "int \<Rightarrow> IOManager \<Rightarrow> int list \<times> nat list" where
  "IOManager_dtor epfd m = ([epfd, m_tickleFds m], m_fdContexts m)"

text \<open>After a run of whole operations every context ever made is deleted exactly once.\<close>

lemma contexts_deleted_once:
  assumes "io_runs_ok tickle_fd (init_IOManager tickle_fd now) ops"
    and "io_run (init_IOManager tickle_fd now) ops = Inr s"
  shows "distinct (snd (IOManager_dtor epfd s))" and "set (snd (IOManager_dtor epfd s)) = {..<ctx_count s}"
proof -
  have g: "io_inv (init_IOManager tickle_fd now) \<and> dense (init_IOManager tickle_fd now) \<and>
      mirrored tickle_fd (init_IOManager tickle_fd now)"
    using init_io_inv init_refines by blast
  from io_table.run_sim [OF g assms(1)] assms(2) have "dense s" by (auto simp: io_run_ops)
  then show "distinct (snd (IOManager_dtor epfd s))" "set (snd (IOManager_dtor epfd s)) = {..<ctx_count s}"
    by (auto simp: IOManager_dtor_def dense_def)
qed

section \<open>A plain scheduler that has nothing to do\<close>

text \<open>
  The beginning of \<^verbatim>\<open>run()\<close> on thread \<open>tid\<close>: hooks on, this scheduler current, a main fiber \<open>f\<close>
  unless this is the constructing thread, and the idle fiber \<open>g\<close> with its stack \<open>block\<close>.
  \<open>is_io\<close> says whether the scheduler is an \<^verbatim>\<open>IOManager\<close>, which is what the \<^verbatim>\<open>dynamic_cast\<close> of
  \<^verbatim>\<open>IOManager::GetThis()\<close> finds out.
\<close>

definition IOManager_GetThis :: "bool option \<Rightarrow> bool" where
  "IOManager_GetThis t_scheduler_is_io = (case t_scheduler_is_io of None \<Rightarrow> False | Some is_io \<Rightarrow> is_io)"

definition run_prologue ::
    "Env \<Rightarrow> u64 \<Rightarrow> bool \<Rightarrow> callback \<Rightarrow> int \<Rightarrow> fid \<Rightarrow> fid \<Rightarrow> SchedulerObj \<Rightarrow> Runtime \<Rightarrow> Thread_State \<Rightarrow>
     (SchedulerObj \<times> Runtime \<times> Thread_State) result" where
  "run_prologue e block is_io run_idle tid f g s w ts =
     (let w1 = (set_hook_enable True w)\<lparr>t_iom := IOManager_GetThis (Some is_io)\<rparr>;
          s1 = Scheduler_SetThis tid s;
          ts1 = (if tid \<noteq> m_rootThread s1 then fst (GetThis f ts) else ts)
      in case Fiber_child e block ts1 g (Some run_idle) 0 True False of
           Inl err \<Rightarrow> Inl err
         | Inr ts2 \<Rightarrow> Inr (s1, w1, ts2))"

definition base_tickle :: "Scheduler \<Rightarrow> Scheduler" where
  "base_tickle q = q"

text \<open>One round of the base class's \<^verbatim>\<open>idle\<close>: the end of the fiber, or the call of \<^verbatim>\<open>sleep(1)\<close>, which is the hooked one.\<close>

datatype idle_pc = IdleEnded | IdleAsleep sleep_pc

definition base_idle :: "Scheduler \<Rightarrow> Runtime \<Rightarrow> fid \<Rightarrow> int \<Rightarrow> (Runtime \<times> idle_pc) result" where
  "base_idle q w cur now =
     (if stopping q then Inr (w, IdleEnded)
      else map_sum id (map_prod id IdleAsleep) (hook_sleep w 1 cur now))"

lemma start_loop_tasks: "start_loop pt i n s = (s', r) \<Longrightarrow> tasks s' = tasks s"
  by (induction pt i n s rule: start_loop.induct) (auto split: prod.splits if_splits)

lemma run_prologueD:
  assumes "run_prologue e block is_io run_idle tid f g s w ts = Inr (s1, w1, ts1)"
  shows "t_hook_enable w1" and "t_iom w1 = is_io" and "tasks s1 = tasks s" and "tid \<in> t_scheduler s1"
  using assms by (auto simp: run_prologue_def Let_def set_hook_enable_def IOManager_GetThis_def
      Scheduler_SetThis_def split: sum.splits)

text \<open>
  Property C8. A plain scheduler cannot wait: when it has been constructed and started, its workers
  find an empty queue and resume their idle fibers, and the \<^verbatim>\<open>sleep(1)\<close> of the base class's
  \<^verbatim>\<open>idle\<close> is the hooked one, with the hooks on and no \<^verbatim>\<open>IOManager\<close> to ask: it dereferences a null
  pointer. The idle fiber is harmless only from the moment \<^verbatim>\<open>stopping()\<close> holds, that is, for
  a scheduler that is never started and runs its tasks inside \<^verbatim>\<open>stop()\<close>.
\<close>

theorem plain_scheduler_idle_faults:
  assumes "Scheduler_ctor e block run_main False tid0 f0 g0 names ts0 threads use_caller name = Inr (s, ts)"
    and "Scheduler_start pt s = (s1, Inr ())"
    and "run_prologue e block1 False run_idle tid f g s1 w ts1 = Inr (s2, w2, ts2)"
  shows "pickNextTaskLocked (tasks s2) tid = (tasks s2, None, False) \<and>
    base_idle (tasks s2) w2 cur now = Inl Null_Dereference \<and>
    (\<forall>q. base_idle q w2 cur now = (if stopping q then Inr (w2, IdleEnded) else Inl Null_Dereference)) \<and>
    stopping ((tasks s2)\<lparr>m_stopping := True\<rparr>)"
proof -
  have "tasks s = init_Scheduler" by (rule ctor_ok(4) [OF assms(1)])
  moreover have "tasks s1 = tasks s"
    using assms(2) start_loop_tasks by (fastforce simp: Scheduler_start_def Let_def split: if_splits)
  ultimately have t: "tasks s2 = init_Scheduler" using run_prologueD(3) [OF assms(3)] by simp
  have i: "base_idle q w2 cur now = (if stopping q then Inr (w2, IdleEnded) else Inl Null_Dereference)" for q
    using run_prologueD(1,2) [OF assms(3)] by (simp add: base_idle_def hook_sleep_def)
  have "\<not> stopping (tasks s2)" by (simp add: t stopping_def init_Scheduler_def)
  then show ?thesis
    using i by (simp add: t pickNextTaskLocked_def) (simp add: stopping_def init_Scheduler_def)
qed

lemma plain_scheduler_idle_faults_witness:
  "\<exists>s1 s2 w2 ts2. Scheduler_start (\<lambda>j. (0, 7, 40 + int j)) s1 = (s2, Inr ()) \<and>
    base_idle (tasks s2) w2 8 0 = Inl Null_Dereference \<and> t_hook_enable w2"
proof -
  obtain s ts where c: "Scheduler_ctor two_env 4096 (UserCb 1) False 5 0 1 (\<lambda>_. '''') fresh_thread 3 True ''io'' = Inr (s, ts)"
    by (rule ctor_with_caller)
  obtain s1 where s1: "Scheduler_start (\<lambda>j. (0, 7, 40 + int j)) s = (s1, Inr ())"
    using Scheduler_start_ok [OF c, of "\<lambda>j. (0, 7, 40 + int j)"] by auto
  have "\<exists>r. run_prologue two_env 4096 False (UserCb 2) 40 0 1 s1 demo_rt fresh_thread = Inr r"
    by (simp add: run_prologue_def Fiber_child_def Fiber_ctor_def initFiberContext_def InitFiberContextStack_def
        GetThis_def Fiber_main_def count_fiber_def put_fib_def SetThis_def fresh_thread_def new_Fiber_def Let_def
        fiber_at_def two_env_def)
  then obtain s2 w2 ts2 where p: "run_prologue two_env 4096 False (UserCb 2) 40 0 1 s1 demo_rt fresh_thread = Inr (s2, w2, ts2)"
    by (metis prod.exhaust)
  have t: "tasks s2 = tasks s1" by (rule run_prologueD(3) [OF p])
  from plain_scheduler_idle_faults [OF c s1 p, of 8 0] s1 run_prologueD(1) [OF p] t show ?thesis by auto
qed

end
