(* ===== verification/Http_Server.thy ===== *)
theory Http_Server
  imports Io_Refinement Co_Hook
begin

text \<open>
  The example server (examples/coroutine_http_server.cpp), a program that uses the whole library:
  the callback \<^verbatim>\<open>test_accept\<close> on the listening socket, the lambda that serves a connection,
  and the start-up. The calls it makes are the hooked ones of \<open>Co_Hook\<close>; the results of the
  original calls are taken from a list in the order the calls are made, and each handler is cut
  where its fiber yields.
\<close>

section \<open>The callbacks\<close>

text \<open>\<^verbatim>\<open>test_accept\<close>, and the lambda that holds the descriptor of a connection.\<close>

definition accept_cb :: callback where "accept_cb = UserCb 0"

definition conn_cb :: "int \<Rightarrow> callback" where "conn_cb fd = UserCb (Suc (nat fd))"

text \<open>\<^verbatim>\<open>IOManager::GetThis()->addEvent(fd, READ, cb)\<close>; its result is ignored.\<close>

definition add_read :: "Runtime \<Rightarrow> int \<Rightarrow> callback \<Rightarrow> fid \<Rightarrow> int \<Rightarrow> Runtime result" where
  "add_read w fd cb cur rt =
     (if \<not> t_iom w then Inl Null_Dereference
      else case addEvent (iom w) fd READ (Some cb) cur rt of
             Inl e \<Rightarrow> Inl e
           | Inr (m, _) \<Rightarrow> Inr (w\<lparr>iom := m\<rparr>))"

section \<open>Accepting\<close>

text \<open>
  \<^verbatim>\<open>test_accept\<close> from the return of \<^verbatim>\<open>accept\<close> with \<open>fd\<close>: \<open>rt1\<close> and \<open>rt2\<close> are the results of
  \<^verbatim>\<open>epoll_ctl\<close>, \<open>k\<close> what the kernel answers to \<^verbatim>\<open>fcntl\<close>.
\<close>

definition test_accept_return ::
    "(fcntl_cmd \<Rightarrow> u32) \<Rightarrow> int \<Rightarrow> Runtime \<Rightarrow> int \<Rightarrow> fid \<Rightarrow> int \<Rightarrow> int \<Rightarrow> Runtime result" where
  "test_accept_return k sock_listen_fd w fd cur rt1 rt2 =
     (case (if fd < 0 then Inr w
            else add_read (fst (hook_fcntl k w fd (F_SETFL O_NONBLOCK))) fd (conn_cb fd) cur rt1) of
        Inl e \<Rightarrow> Inl e
      | Inr w1 \<Rightarrow> add_read w1 sock_listen_fd accept_cb cur rt2)"

text \<open>The whole callback, up to its end or to the first \<^verbatim>\<open>yield()\<close> in \<^verbatim>\<open>accept\<close>.\<close>

definition test_accept ::
    "bool option \<Rightarrow> u32 \<Rightarrow> (fcntl_cmd \<Rightarrow> u32) \<Rightarrow> int \<Rightarrow> Runtime \<Rightarrow> sysret list \<Rightarrow> fid \<Rightarrow> int \<Rightarrow> int \<Rightarrow> int \<Rightarrow> int \<Rightarrow>
     (Runtime \<times> sysret list \<times> io_pc) result option" where
  "test_accept st flags k sock_listen_fd w rs cur now rt rt1 rt2 =
     (case hooked_io Accept st flags w rs sock_listen_fd cur now rt of
        None \<Rightarrow> None
      | Some (Inl e) \<Rightarrow> Some (Inl e)
      | Some (Inr (w1, rs1, Waiting timer)) \<Rightarrow> Some (Inr (w1, rs1, Waiting timer))
      | Some (Inr (w1, rs1, Returned fd)) \<Rightarrow>
          (case test_accept_return k sock_listen_fd w1 fd cur rt1 rt2 of
             Inl e \<Rightarrow> Some (Inl e)
           | Inr w2 \<Rightarrow> Some (Inr (w2, rs1, Returned 0))))"

section \<open>Serving a connection\<close>

text \<open>
  The clock readings and results of \<^verbatim>\<open>epoll_ctl\<close> the handler meets: in its \<open>i\<close>-th \<^verbatim>\<open>recv\<close>, in
  \<^verbatim>\<open>send\<close>, and in \<^verbatim>\<open>close\<close>.
\<close>

record Handler_Env =
  he_now :: "nat \<Rightarrow> int"
  he_rt :: "nat \<Rightarrow> int"
  he_send_now :: int
  he_send_rt :: int
  he_close_rt :: int

datatype conn_pc = Conn_again | Conn_closed | Recv_waits "nat option" | Send_waits "nat option"

text \<open>\<^verbatim>\<open>close(fd); break;\<close>\<close>

definition conn_close ::
    "Handler_Env \<Rightarrow> Runtime \<Rightarrow> sysret list \<Rightarrow> int \<Rightarrow> (Runtime \<times> sysret list \<times> conn_pc) result option" where
  "conn_close e w rs fd =
     (case rs of
        [] \<Rightarrow> None
      | r # rs1 \<Rightarrow>
          (case hook_close w fd (he_close_rt e) r of
             Inl err \<Rightarrow> Some (Inl err)
           | Inr (w1, _) \<Rightarrow> Some (Inr (w1, rs1, Conn_closed))))"

text \<open>The body of the loop from the return of \<^verbatim>\<open>recv\<close> with \<open>ret\<close>.\<close>

definition conn_after_recv ::
    "Handler_Env \<Rightarrow> Runtime \<Rightarrow> sysret list \<Rightarrow> int \<Rightarrow> fid \<Rightarrow> int \<Rightarrow>
     (Runtime \<times> sysret list \<times> conn_pc) result option" where
  "conn_after_recv e w rs fd cur ret =
     (if ret > 0
      then (case hooked_io Send None 0 w rs fd cur (he_send_now e) (he_send_rt e) of
              None \<Rightarrow> None
            | Some (Inl err) \<Rightarrow> Some (Inl err)
            | Some (Inr (w1, rs1, Waiting timer)) \<Rightarrow> Some (Inr (w1, rs1, Send_waits timer))
            | Some (Inr (w1, rs1, Returned n)) \<Rightarrow> conn_close e w1 rs1 fd)
      else if ret = 0 \<or> errno w \<noteq> EAGAIN then conn_close e w rs fd
      else Some (Inr (w, rs, Conn_again)))"

definition conn_round ::
    "Handler_Env \<Rightarrow> nat \<Rightarrow> Runtime \<Rightarrow> sysret list \<Rightarrow> int \<Rightarrow> fid \<Rightarrow>
     (Runtime \<times> sysret list \<times> conn_pc) result option" where
  "conn_round e i w rs fd cur =
     (case hooked_io Recv None 0 w rs fd cur (he_now e i) (he_rt e i) of
        None \<Rightarrow> None
      | Some (Inl err) \<Rightarrow> Some (Inl err)
      | Some (Inr (w1, rs1, Waiting timer)) \<Rightarrow> Some (Inr (w1, rs1, Recv_waits timer))
      | Some (Inr (w1, rs1, Returned ret)) \<Rightarrow> conn_after_recv e w1 rs1 fd cur ret)"

text \<open>Every round of the loop that goes on has used up a result of the original call.\<close>

lemma retry_eintr_shorter: "retry_eintr w rs = Some (w1, n, rs1) \<Longrightarrow> length rs1 < length rs"
  by (induction w rs rule: retry_eintr.induct) (auto split: prod.splits if_splits)

lemma do_io_attempt_shorter:
  "do_io_attempt w rs fd event timeout t cur now rt = Some (Inr (w1, rs1, p)) \<Longrightarrow> length rs1 < length rs"
  using retry_eintr_shorter
  by (fastforce simp: do_io_attempt_def split: option.splits prod.splits if_splits list.splits sum.splits)

lemma do_io_shorter:
  assumes "do_io w rs fd event so cur now rt = Some (Inr (w1, rs1, Returned n))"
  shows "length rs1 < length rs \<or> n = -1 \<and> errno w1 = EBADF"
proof (cases "do_io_guard w fd so")
  case (Hooked timeout)
  with assms do_io_attempt_shorter show ?thesis
    by (fastforce simp: do_io_def leave_def split: prod.splits option.splits sum.splits io_pc.splits)
next
  case (Refused e)
  then have "e = EBADF" by (auto simp: do_io_guard_def split: if_splits option.splits)
  with Refused assms show ?thesis by (auto simp: do_io_def fail_def)
qed (use assms in \<open>auto simp: do_io_def split: list.splits prod.splits\<close>)

lemma conn_round_shorter:
  assumes "conn_round e i w rs fd cur = Some (Inr (w1, rs1, Conn_again))"
  shows "length rs1 < length rs"
proof -
  obtain ret where r: "do_io w rs fd READ SO_RCVTIMEO cur (he_now e i) (he_rt e i) = Some (Inr (w1, rs1, Returned ret))"
    "errno w1 = EAGAIN"
    using assms
    by (auto simp: conn_round_def conn_after_recv_def conn_close_def hooked_io_def io_return_other
        split: option.splits sum.splits prod.splits io_pc.splits if_splits list.splits)
  from do_io_shorter [OF r(1)] r(2) show ?thesis by (simp add: errno_defs)
qed

text \<open>\<^verbatim>\<open>while (true)\<close>; \<open>None\<close>: the results ran out.\<close>

function conn_loop ::
    "Handler_Env \<Rightarrow> nat \<Rightarrow> Runtime \<Rightarrow> sysret list \<Rightarrow> int \<Rightarrow> fid \<Rightarrow> (Runtime \<times> sysret list \<times> conn_pc) result option" where
  "conn_loop e i w rs fd cur =
     (case conn_round e i w rs fd cur of
        None \<Rightarrow> None
      | Some (Inl err) \<Rightarrow> Some (Inl err)
      | Some (Inr (w1, rs1, p)) \<Rightarrow>
          if p = Conn_again then conn_loop e (Suc i) w1 rs1 fd cur else Some (Inr (w1, rs1, p)))"
  by pat_completeness auto

termination
  by (relation "measure (\<lambda>(e, i, w, rs, fd, cur). length rs)") (auto dest: conn_round_shorter)

declare conn_loop.simps [simp del]

text \<open>The rest of the handler after \<^verbatim>\<open>recv\<close> has waited and its fiber is resumed.\<close>

definition conn_recv_resume ::
    "Handler_Env \<Rightarrow> nat \<Rightarrow> Runtime \<Rightarrow> sysret list \<Rightarrow> int \<Rightarrow> u64 \<Rightarrow> nat \<Rightarrow> nat option \<Rightarrow> fid \<Rightarrow>
     (Runtime \<times> sysret list \<times> conn_pc) result option" where
  "conn_recv_resume e i w rs fd timeout t timer cur =
     (case do_io_resume w rs fd READ timeout t timer cur (he_now e i) (he_rt e i) of
        None \<Rightarrow> None
      | Some (Inl err) \<Rightarrow> Some (Inl err)
      | Some (Inr (w1, rs1, Waiting timer1)) \<Rightarrow> Some (Inr (w1, rs1, Recv_waits timer1))
      | Some (Inr (w1, rs1, Returned ret)) \<Rightarrow>
          (case conn_after_recv e w1 rs1 fd cur ret of
             None \<Rightarrow> None
           | Some (Inl err) \<Rightarrow> Some (Inl err)
           | Some (Inr (w2, rs2, p)) \<Rightarrow>
               if p = Conn_again then conn_loop e (Suc i) w2 rs2 fd cur else Some (Inr (w2, rs2, p))))"

definition conn_send_resume ::
    "Handler_Env \<Rightarrow> Runtime \<Rightarrow> sysret list \<Rightarrow> int \<Rightarrow> u64 \<Rightarrow> nat \<Rightarrow> nat option \<Rightarrow> fid \<Rightarrow>
     (Runtime \<times> sysret list \<times> conn_pc) result option" where
  "conn_send_resume e w rs fd timeout t timer cur =
     (case do_io_resume w rs fd WRITE timeout t timer cur (he_send_now e) (he_send_rt e) of
        None \<Rightarrow> None
      | Some (Inl err) \<Rightarrow> Some (Inl err)
      | Some (Inr (w1, rs1, Waiting timer1)) \<Rightarrow> Some (Inr (w1, rs1, Send_waits timer1))
      | Some (Inr (w1, rs1, Returned _)) \<Rightarrow> conn_close e w1 rs1 fd)"

section \<open>Starting\<close>

definition SO_REUSEADDR :: int where "SO_REUSEADDR = 2"

text \<open>
  \<^verbatim>\<open>test_iomanager\<close>, with the results of \<^verbatim>\<open>socket\<close>, \<^verbatim>\<open>bind\<close> and \<^verbatim>\<open>listen\<close>; \<open>None\<close> is
  \<^verbatim>\<open>exit(1)\<close>. The manager is the one constructed here; the value is the listening descriptor.
\<close>

definition test_iomanager ::
    "bool option \<Rightarrow> u32 \<Rightarrow> (fcntl_cmd \<Rightarrow> u32) \<Rightarrow> Runtime \<Rightarrow> sysret \<Rightarrow> int \<Rightarrow> int \<Rightarrow> int \<Rightarrow> fid \<Rightarrow> int \<Rightarrow> int \<Rightarrow>
     (Runtime \<times> int) option result" where
  "test_iomanager st flags k w r bind_ret listen_ret efd cur now rt =
     (case hook_socket st flags w r of
        Inl e \<Rightarrow> Inl e
      | Inr (w1, fd) \<Rightarrow>
          if fd < 0 then Inr None
          else let w2 = hook_setsockopt w1 fd SOL_SOCKET SO_REUSEADDR (1, 0)
               in if bind_ret < 0 then Inr None
                  else if listen_ret < 0 then Inr None
                  else let w3 = (fst (hook_fcntl k w2 fd (F_SETFL O_NONBLOCK)))\<lparr>iom := init_IOManager efd now\<rparr>
                       in (case addEvent (iom w3) fd READ (Some accept_cb) cur rt of
                             Inl e \<Rightarrow> Inl e
                           | Inr (m, _) \<Rightarrow> Inr (Some (w3\<lparr>iom := m\<rparr>, fd))))"

section \<open>The handlers at work\<close>

lemma hooked_passthrough:
  "do_io_guard w fd (call_timeout c) = Passthrough \<Longrightarrow>
    hooked_io c st flags w (r # rs) fd cur now rt =
      io_return c st flags (Some (Inr (fst (call_f w r), rs, Returned (fst r))))"
  by (simp add: hooked_io_def do_io_def case_prod_beta)

text \<open>A descriptor whose user asked for non-blocking calls gets them, whatever the hooks do.\<close>

definition user_nonblocking :: "Runtime \<Rightarrow> int \<Rightarrow> nat \<Rightarrow> bool" where
  "user_nonblocking w fd a \<longleftrightarrow> get_ctx w fd = Some a \<and> \<not> m_isClosed (ctx_obj w a) \<and> m_userNonblock (ctx_obj w a)"

lemma nonblocking_passthrough: "user_nonblocking w fd a \<Longrightarrow> do_io_guard w fd so = Passthrough"
  by (simp add: user_nonblocking_def do_io_guard_def)

lemma user_nonblocking_frame: "user_nonblocking w fd a \<Longrightarrow> fdmgr w1 = fdmgr w \<Longrightarrow> user_nonblocking w1 fd a"
  by (simp add: user_nonblocking_def get_ctx_def ctx_obj_def)

text \<open>Without data the loop calls \<^verbatim>\<open>recv\<close> again at once.\<close>

lemma conn_loop_spins:
  assumes "user_nonblocking w fd a"
  shows "conn_loop e i w (replicate n (-1, EAGAIN) @ rs) fd cur =
    conn_loop e (i + n) (if n = 0 then w else w\<lparr>errno := EAGAIN\<rparr>) rs fd cur"
  using assms
proof (induction n arbitrary: i w)
  case (Suc n)
  have u: "user_nonblocking (w\<lparr>errno := EAGAIN\<rparr>) fd a"
    by (rule user_nonblocking_frame [OF Suc.prems]) simp
  have "conn_round e i w ((-1, EAGAIN) # replicate n (-1, EAGAIN) @ rs) fd cur =
      Some (Inr (w\<lparr>errno := EAGAIN\<rparr>, replicate n (-1, EAGAIN) @ rs, Conn_again))"
    using hooked_passthrough [OF nonblocking_passthrough [OF Suc.prems]]
    by (simp add: conn_round_def conn_after_recv_def call_f_def io_return_other)
  then have "conn_loop e i w (replicate (Suc n) (-1, EAGAIN) @ rs) fd cur =
      conn_loop e (Suc i) (w\<lparr>errno := EAGAIN\<rparr>) (replicate n (-1, EAGAIN) @ rs) fd cur"
    by (subst conn_loop.simps) simp
  with Suc.IH [OF u, of "Suc i"] show ?case by simp
qed simp

text \<open>The last round, and the closing.\<close>

lemma conn_loop_ends:
  assumes "user_nonblocking w fd a" and "rt_inv w" and "t_hook_enable w" and "t_iom w"
    and "(r, er) \<noteq> (-1, EAGAIN)" and "- 1 \<le> r" and "he_close_rt e = 0"
  obtains w0 w1 where "conn_loop e i w ((r, er) # (if r > 0 then [s, c] else [c])) fd cur = Some (Inr (w1, [], Conn_closed))"
    "hook_close w0 fd 0 c = Inr (w1, fst c)" "iom w0 = iom w" "fdmgr w0 = fdmgr w" "rt_inv w0"
    "t_hook_enable w0" "t_iom w0"
proof -
  define w2 where "w2 = fst (call_f w (r, er))"
  have u: "user_nonblocking w2 fd a" by (rule user_nonblocking_frame [OF assms(1)]) (simp add: w2_def)
  define w0 where "w0 = (if r > 0 then fst (call_f w2 s) else w2)"
  have f: "iom w0 = iom w" "fdmgr w0 = fdmgr w" "rt_inv w0" "t_hook_enable w0" "t_iom w0"
    using assms(2-4) by (simp_all add: w0_def w2_def rt_inv_def)
  have "get_ctx w0 fd = Some a" using assms(1) f(2) by (simp add: user_nonblocking_def get_ctx_def)
  from hook_close_ok [OF f(3-5) this] obtain w1 where w1: "hook_close w0 fd 0 c = Inr (w1, fst c)" by blast
  have "\<not> r > 0 \<Longrightarrow> r = 0 \<or> errno w2 \<noteq> EAGAIN"
    using assms(5,6) by (auto simp: w2_def call_f_def)
  then have "conn_round e i w ((r, er) # (if r > 0 then [s, c] else [c])) fd cur = Some (Inr (w1, [], Conn_closed))"
    using w1 assms(7) hooked_passthrough [OF nonblocking_passthrough [OF assms(1)]]
      hooked_passthrough [OF nonblocking_passthrough [OF u]]
    by (auto simp: conn_round_def conn_after_recv_def conn_close_def w0_def io_return_other simp flip: w2_def)
  then have "conn_loop e i w ((r, er) # (if r > 0 then [s, c] else [c])) fd cur = Some (Inr (w1, [], Conn_closed))"
    by (subst conn_loop.simps) simp
  from that [OF this w1 f] show ?thesis .
qed

text \<open>The manager as a table of registrations.\<close>

definition io_good :: "IOManager \<Rightarrow> bool" where
  "io_good m \<longleftrightarrow> io_inv m \<and> timer_inv (io_timers m) \<and> dense m"

definition read_cb :: "IOManager \<Rightarrow> int \<Rightarrow> FiberOrCb option" where
  "read_cb m fd = reg (registry m) fd ReadSlot"

lemma add_read_ok:
  assumes "io_good (iom w)" and "t_iom w" and "0 \<le> fd" and "read_cb (iom w) fd = None"
  obtains m where "add_read w fd cb cur 0 = Inr (w\<lparr>iom := m\<rparr>)" "io_good m" "io_timers m = io_timers (iom w)"
    "\<forall>fd'. read_cb m fd' = (if fd' = fd then Some (Callback (Some cb)) else read_cb (iom w) fd')"
    "\<forall>efd. efd \<noteq> fd \<and> mirrored efd (iom w) \<longrightarrow> mirrored efd m"
proof -
  have g: "io_inv (iom w)" "dense (iom w)" and ev: "READ \<in> {READ, WRITE}"
    using assms(1) by (simp_all add: io_good_def)
  from addEvent_ok [OF g(1) ev assms(3), of "Some cb" cur 0] obtain m b where
    m: "addEvent (iom w) fd READ (Some cb) cur 0 = Inr (m, b)" "io_inv m" "io_timers m = io_timers (iom w)"
    by blast
  note R = add_refines [OF g assms(3) ev m(1), unfolded refines_step_def]
  have r: "dense m" "registry m = spec_io (AddEvent fd READ (Some cb) cur 0) (registry (iom w))"
    using R [of "fd + 1"] by simp_all
  have sl: "slot_for READ = ReadSlot" by (simp add: slot_for_def)
  show ?thesis
  proof (rule that)
    show "add_read w fd cb cur 0 = Inr (w\<lparr>iom := m\<rparr>)" using assms(2) m(1) by (simp add: add_read_def)
    show "io_good m" using assms(1) m r(1) by (simp add: io_good_def)
    show "\<forall>fd'. read_cb m fd' = (if fd' = fd then Some (Callback (Some cb)) else read_cb (iom w) fd')"
      using assms(4) by (simp add: read_cb_def r(2) sl)
    show "\<forall>efd. efd \<noteq> fd \<and> mirrored efd (iom w) \<longrightarrow> mirrored efd m" using R by auto
  qed (rule m(3))
qed

text \<open>What \<^verbatim>\<open>accept\<close> and \<^verbatim>\<open>fcntl\<close> make of a new descriptor.\<close>

lemma accepted_nonblocking:
  assumes "rt_inv w" and "0 \<le> fd" and "get_lookup (fdmgr w) fd True = None"
  obtains f a where "accept_return (Some True) flags w fd = Inr (w\<lparr>fdmgr := f\<rparr>, fd)"
    "user_nonblocking (fst (hook_fcntl k (w\<lparr>fdmgr := f\<rparr>) fd (F_SETFL O_NONBLOCK))) fd a"
    "fst (hook_fcntl k (w\<lparr>fdmgr := f\<rparr>) fd (F_SETFL O_NONBLOCK)) =
      w\<lparr>fdmgr := fdmgr (fst (hook_fcntl k (w\<lparr>fdmgr := f\<rparr>) fd (F_SETFL O_NONBLOCK)))\<rparr>"
    "fd_inv (fdmgr (fst (hook_fcntl k (w\<lparr>fdmgr := f\<rparr>) fd (F_SETFL O_NONBLOCK))))"
proof -
  have inv: "fd_inv (fdmgr w)" using assms(1) by (simp add: rt_inv_def)
  obtain s1 where s1: "get_create (Some True) flags (fdmgr w) fd = Inr (s1, fd_count (fdmgr w))" "fd_inv s1"
    "nat fd < length (m_datas s1)" "m_datas s1 ! nat fd = Some (fd_count (fdmgr w))"
    "fd_ctxs s1 = (fd_ctxs (fdmgr w))(fd_count (fdmgr w) := fst (FdCtx_ctor (Some True) flags fd))"
    by (rule get_create_ok [OF inv assms(2), of "Some True" flags]) (rule that, assumption+)
  let ?a = "fd_count (fdmgr w)" and ?w = "w\<lparr>fdmgr := s1\<rparr>"
  have l: "get_ctx ?w fd = Some ?a"
    by (simp add: get_ctx_def get_lookup_found [OF assms(2) s1(3,4)])
  have o: "\<not> m_isClosed (ctx_obj ?w ?a)" "m_isSocket (ctx_obj ?w ?a)" by (simp_all add: ctx_obj_def s1(5))
  have f: "fst (hook_fcntl k ?w fd (F_SETFL O_NONBLOCK)) = set_ctx ?a ((ctx_obj ?w ?a)\<lparr>m_userNonblock := True\<rparr>) ?w"
    using l o by (simp add: hook_fcntl_def Let_def O_NONBLOCK_def)
  show ?thesis
  proof (rule that)
    show "accept_return (Some True) flags w fd = Inr (?w, fd)"
      using assms(2,3) s1(1) by (simp add: accept_return_def adopt_fd_def FdManager_get_def)
    show "user_nonblocking (fst (hook_fcntl k ?w fd (F_SETFL O_NONBLOCK))) fd ?a"
      unfolding f using l o by (simp add: user_nonblocking_def)
    show "fst (hook_fcntl k ?w fd (F_SETFL O_NONBLOCK)) =
        w\<lparr>fdmgr := fdmgr (fst (hook_fcntl k ?w fd (F_SETFL O_NONBLOCK)))\<rparr>"
      unfolding f by (simp add: set_ctx_def)
    show "fd_inv (fdmgr (fst (hook_fcntl k ?w fd (F_SETFL O_NONBLOCK))))"
      unfolding f by (simp add: set_ctx_def ctx_obj_def fd_inv_settings [OF s1(2)])
  qed
qed

lemma close_forgets:
  assumes "io_good (iom w)" and "t_hook_enable w" and "t_iom w" and "get_ctx w fd = Some a"
    and "hook_close w fd 0 r = Inr (w1, n)"
  shows "io_good (iom w1)" and "reg (registry (iom w1)) fd = (\<lambda>_. None)"
    and "fd' \<noteq> fd \<Longrightarrow> reg (registry (iom w1)) fd' = reg (registry (iom w)) fd'"
proof -
  have g: "io_inv (iom w)" "dense (iom w)" and fd: "0 \<le> fd"
    using assms(1) get_ctxD [OF assms(4)] by (simp_all add: io_good_def)
  obtain b where c: "cancelAll (iom w) fd 0 = Inr (iom w1, b)"
    using assms(2-5) cancelAll_ok [OF g(1) fd, of 0]
    by (auto simp: hook_close_def Let_def set_ctx_def call_f_def)
  from cancel_all_refines [OF g fd c]
  have r: "dense (iom w1)" "registry (iom w1) =
      release_reg fd WriteSlot (release_reg fd ReadSlot (registry (iom w)))"
    by (simp_all add: refines_step_def)
  show "io_good (iom w1)"
    using assms(1) cancelAll_ok [OF g(1) fd, of 0] c r(1) cancelAll_timers [OF c] by (auto simp: io_good_def)
  show "reg (registry (iom w1)) fd = (\<lambda>_. None)"
    unfolding r(2) by (rule ext, rename_tac k, case_tac k) (simp_all add: release_reg_row)
  show "fd' \<noteq> fd \<Longrightarrow> reg (registry (iom w1)) fd' = reg (registry (iom w)) fd'"
    unfolding r(2) by (simp add: release_other)
qed

lemma accept_registers:
  assumes "rt_inv w" and "io_good (iom w)" and "t_iom w"
    and "0 \<le> listen" and "get_ctx w listen = None" and "read_cb (iom w) listen = None"
    and "0 \<le> fd" and "fd \<noteq> listen" and "get_lookup (fdmgr w) fd True = None" and "read_cb (iom w) fd = None"
  obtains w1 a where
    "test_accept (Some True) flags k listen w [(fd, er)] cur now rt 0 0 = Some (Inr (w1, [], Returned 0))"
    "read_cb (iom w1) fd = Some (Callback (Some (conn_cb fd)))"
    "read_cb (iom w1) listen = Some (Callback (Some accept_cb))"
    "user_nonblocking w1 fd a" "t_iom w1" "t_hook_enable w1 = t_hook_enable w" "rt_inv w1" "io_good (iom w1)"
    "\<forall>efd. efd \<notin> {listen, fd} \<and> mirrored efd (iom w) \<longrightarrow> mirrored efd (iom w1)"
proof -
  have g: "do_io_guard w listen (call_timeout Accept) = Passthrough"
    using assms(5) by (simp add: do_io_guard_def)
  have c: "fst (call_f w (fd, er)) = w" using assms(7) by (simp add: call_f_def)
  note a = hooked_passthrough [OF g, of "Some True" flags "(fd, er)" "[]" cur now rt, unfolded c]
  obtain f x where f: "accept_return (Some True) flags w fd = Inr (w\<lparr>fdmgr := f\<rparr>, fd)"
    "user_nonblocking (fst (hook_fcntl k (w\<lparr>fdmgr := f\<rparr>) fd (F_SETFL O_NONBLOCK))) fd x"
    "fst (hook_fcntl k (w\<lparr>fdmgr := f\<rparr>) fd (F_SETFL O_NONBLOCK)) =
      w\<lparr>fdmgr := fdmgr (fst (hook_fcntl k (w\<lparr>fdmgr := f\<rparr>) fd (F_SETFL O_NONBLOCK)))\<rparr>"
    "fd_inv (fdmgr (fst (hook_fcntl k (w\<lparr>fdmgr := f\<rparr>) fd (F_SETFL O_NONBLOCK))))"
    by (rule accepted_nonblocking [OF assms(1,7,9)]) (rule that, assumption+)
  define w2 where "w2 = fst (hook_fcntl k (w\<lparr>fdmgr := f\<rparr>) fd (F_SETFL O_NONBLOCK))"
  have w2: "w2 = w\<lparr>fdmgr := fdmgr w2\<rparr>" unfolding w2_def by (rule f(3))
  have e: "iom w2 = iom w" "t_iom w2" "t_hook_enable w2 = t_hook_enable w"
    "next_timer w2 = next_timer w" using assms(3) by (subst w2, simp)+
  have g2: "io_good (iom w2)" "read_cb (iom w2) fd = None" using assms(2,10) e(1) by simp_all
  obtain m where m: "add_read w2 fd (conn_cb fd) cur 0 = Inr (w2\<lparr>iom := m\<rparr>)" "io_good m"
    "\<forall>fd'. read_cb m fd' = (if fd' = fd then Some (Callback (Some (conn_cb fd))) else read_cb (iom w2) fd')"
    "io_timers m = io_timers (iom w2)" "\<forall>efd. efd \<noteq> fd \<and> mirrored efd (iom w2) \<longrightarrow> mirrored efd m"
    by (rule add_read_ok [OF g2(1) e(2) assms(7) g2(2)]) (rule that, assumption+)
  have g3: "io_good (iom (w2\<lparr>iom := m\<rparr>))" "t_iom (w2\<lparr>iom := m\<rparr>)" "read_cb (iom (w2\<lparr>iom := m\<rparr>)) listen = None"
    using m(2,3) e(1,2) assms(6,8) by simp_all
  obtain m1 where m1: "add_read (w2\<lparr>iom := m\<rparr>) listen accept_cb cur 0 = Inr (w2\<lparr>iom := m\<rparr>\<lparr>iom := m1\<rparr>)"
    "\<forall>fd'. read_cb m1 fd' = (if fd' = listen then Some (Callback (Some accept_cb))
      else read_cb (iom (w2\<lparr>iom := m\<rparr>)) fd')" "io_good m1" "io_timers m1 = io_timers (iom (w2\<lparr>iom := m\<rparr>))"
    "\<forall>efd. efd \<noteq> listen \<and> mirrored efd (iom (w2\<lparr>iom := m\<rparr>)) \<longrightarrow> mirrored efd m1"
    by (rule add_read_ok [OF g3(1,2) assms(4) g3(3)]) (rule that, assumption+)
  show ?thesis
  proof (rule that [of "w2\<lparr>iom := m1\<rparr>" x])
    show "test_accept (Some True) flags k listen w [(fd, er)] cur now rt 0 0 =
        Some (Inr (w2\<lparr>iom := m1\<rparr>, [], Returned 0))"
      using assms(7) by (simp add: test_accept_def a io_return_def f(1) test_accept_return_def m(1) m1(1) flip: w2_def)
    show "user_nonblocking (w2\<lparr>iom := m1\<rparr>) fd x"
      by (rule user_nonblocking_frame [OF f(2) [folded w2_def]]) simp
    show "rt_inv (w2\<lparr>iom := m1\<rparr>)"
      using assms(1) f(4) [folded w2_def] m1(3,4) m(4) e by (simp add: rt_inv_def io_good_def)
    show "\<forall>efd. efd \<notin> {listen, fd} \<and> mirrored efd (iom w) \<longrightarrow> mirrored efd (iom (w2\<lparr>iom := m1\<rparr>))"
      using m(5) m1(5) e(1) by simp
  qed (use m1(2,3) m(3) assms(8) e in auto)
qed

text \<open>
  Property C36. The example serves a connection from \<^verbatim>\<open>accept\<close> to \<^verbatim>\<open>close\<close>: after
  \<^verbatim>\<open>test_accept\<close> the new descriptor is registered for reading with the handler and the
  listening socket again with \<^verbatim>\<open>test_accept\<close>. The handler, whenever it runs, ends by closing the
  descriptor, which leaves no context and no registration behind. But it never yields in between:
  as \<^verbatim>\<open>test_accept\<close> has set \<^verbatim>\<open>O_NONBLOCK\<close>, each of the \<open>n\<close> answers \<^verbatim>\<open>EAGAIN\<close> comes straight
  back and \<^verbatim>\<open>recv\<close> is called again at once, so a client that is slow keeps a worker busy.
\<close>

theorem http_connection_served:
  assumes "rt_inv w" and "io_good (iom w)" and "t_hook_enable w" and "t_iom w"
    and "0 \<le> listen" and "get_ctx w listen = None" and "read_cb (iom w) listen = None"
    and "0 \<le> fd" and "fd \<noteq> listen" and "get_lookup (fdmgr w) fd True = None" and "read_cb (iom w) fd = None"
  shows "\<exists>w1. test_accept (Some True) flags k listen w [(fd, er)] cur now rt 0 0 = Some (Inr (w1, [], Returned 0)) \<and>
    read_cb (iom w1) fd = Some (Callback (Some (conn_cb fd))) \<and>
    read_cb (iom w1) listen = Some (Callback (Some accept_cb)) \<and> rt_inv w1 \<and> io_good (iom w1) \<and>
    (\<forall>efd. efd \<notin> {listen, fd} \<and> mirrored efd (iom w) \<longrightarrow> mirrored efd (iom w1)) \<and>
    (\<forall>m e n r er1 s c cur1. io_good m \<and> rt_inv (w1\<lparr>iom := m\<rparr>) \<and> - 1 \<le> r \<and> (r, er1) \<noteq> (-1, EAGAIN) \<and>
      he_close_rt e = 0 \<longrightarrow>
      (\<exists>w2. conn_loop e 0 (w1\<lparr>iom := m\<rparr>)
          (replicate n (-1, EAGAIN) @ (r, er1) # (if r > 0 then [s, c] else [c])) fd cur1 =
        Some (Inr (w2, [], Conn_closed)) \<and>
        get_ctx w2 fd = None \<and> reg (registry (iom w2)) fd = (\<lambda>_. None)))"
proof -
  obtain w1 a where w1:
    "test_accept (Some True) flags k listen w [(fd, er)] cur now rt 0 0 = Some (Inr (w1, [], Returned 0))"
    "read_cb (iom w1) fd = Some (Callback (Some (conn_cb fd)))"
    "read_cb (iom w1) listen = Some (Callback (Some accept_cb))"
    "user_nonblocking w1 fd a" "t_iom w1" "t_hook_enable w1" "rt_inv w1" "io_good (iom w1)"
    "\<forall>efd. efd \<notin> {listen, fd} \<and> mirrored efd (iom w) \<longrightarrow> mirrored efd (iom w1)"
    using accept_registers [OF assms(1,2,4-11), of flags k er cur now rt] assms(3) by metis
  have "\<exists>w2. conn_loop e 0 (w1\<lparr>iom := m\<rparr>)
        (replicate n (-1, EAGAIN) @ (r, er1) # (if r > 0 then [s, c] else [c])) fd cur1 =
      Some (Inr (w2, [], Conn_closed)) \<and> get_ctx w2 fd = None \<and> reg (registry (iom w2)) fd = (\<lambda>_. None)"
    if h: "io_good m" "rt_inv (w1\<lparr>iom := m\<rparr>)" "- 1 \<le> r" "(r, er1) \<noteq> (-1, EAGAIN)" "he_close_rt e = 0"
    for m e n r er1 s c cur1
  proof -
    define v where "v = (if n = 0 then w1\<lparr>iom := m\<rparr> else (w1\<lparr>iom := m\<rparr>)\<lparr>errno := EAGAIN\<rparr>)"
    have v: "iom v = m" "fdmgr v = fdmgr w1" "t_iom v" "t_hook_enable v" "rt_inv v"
      using h(2) w1(5,6) by (simp_all add: v_def rt_inv_def)
    have u: "user_nonblocking (w1\<lparr>iom := m\<rparr>) fd a" by (rule user_nonblocking_frame [OF w1(4)]) simp
    have uv: "user_nonblocking v fd a" by (rule user_nonblocking_frame [OF w1(4) v(2)])
    obtain w0 w2 where E: "conn_loop e n v ((r, er1) # (if r > 0 then [s, c] else [c])) fd cur1 =
        Some (Inr (w2, [], Conn_closed))" "hook_close w0 fd 0 c = Inr (w2, fst c)"
      "iom w0 = iom v" "fdmgr w0 = fdmgr v" "rt_inv w0" "t_hook_enable w0" "t_iom w0"
      by (rule conn_loop_ends [OF uv v(5,4,3) h(4,3,5)]) (rule that, assumption+)
    have g: "get_ctx w0 fd = Some a" using uv E(4) by (simp add: user_nonblocking_def get_ctx_def)
    have gm: "io_good (iom w0)" using h(1) E(3) v(1) by simp
    have "get_ctx w2 fd = None" using hook_close_ok [OF E(5-7) g, of c] E(2) by auto
    moreover have "reg (registry (iom w2)) fd = (\<lambda>_. None)" by (rule close_forgets(2) [OF gm E(6,7) g E(2)])
    ultimately show ?thesis
      using E(1) by (simp add: conn_loop_spins [OF u] v_def)
  qed
  with w1(1-3,7-9) show ?thesis by (intro exI [of _ w1]) blast
qed

lemma init_io_good: "io_good (init_IOManager efd now)"
  using init_io_inv init_refines(1) timer_inv_ctor [of now]
  by (simp add: io_good_def init_IOManager_def contextResize_def Let_def)

text \<open>
  The start, on a thread whose hooks are off: when every call succeeds, the listening socket is
  registered with \<^verbatim>\<open>test_accept\<close> and has no context, which is where the theorem above starts.
\<close>

lemma http_server_starts:
  assumes "\<not> t_hook_enable w" and "fd_inv (fdmgr w)" and "get_ctx w fd = None"
    and "0 \<le> fd" and "0 \<le> bind_ret" and "0 \<le> listen_ret"
  shows "\<exists>w1. test_iomanager st flags k w (fd, er) bind_ret listen_ret efd cur now 0 = Inr (Some (w1, fd)) \<and>
    io_good (iom w1) \<and> read_cb (iom w1) fd = Some (Callback (Some accept_cb)) \<and> get_ctx w1 fd = None"
proof -
  have s: "hook_socket st flags w (fd, er) = Inr (w, fd)" using assms(1,4) by (simp add: hook_socket_def call_f_def)
  have o: "hook_setsockopt w fd SOL_SOCKET SO_REUSEADDR (1, 0) = w" using assms(1) by (simp add: hook_setsockopt_def)
  have f: "fst (hook_fcntl k w fd (F_SETFL O_NONBLOCK)) = w" using assms(3) by (simp add: hook_fcntl_def)
  let ?w = "w\<lparr>t_iom := True, iom := init_IOManager efd now\<rparr>"
  have n: "read_cb (iom ?w) fd = None" by (simp add: read_cb_def init_refines(3) empty_registry_def)
  have g: "io_good (iom ?w)" by (simp add: init_io_good)
  obtain m where m: "add_read ?w fd accept_cb cur 0 = Inr (?w\<lparr>iom := m\<rparr>)" "io_good m"
    "\<forall>fd'. read_cb m fd' = (if fd' = fd then Some (Callback (Some accept_cb)) else read_cb (iom ?w) fd')"
    by (rule add_read_ok [OF g _ assms(4) n]) (simp, rule that, assumption+)
  obtain b where b: "addEvent (init_IOManager efd now) fd READ (Some accept_cb) cur 0 = Inr (m, b)"
    using m(1) by (auto simp: add_read_def split: sum.splits dest!: arg_cong [where f = iom])
  have "get_ctx (w\<lparr>iom := m\<rparr>) fd = None" using assms(3) by (simp add: get_ctx_def)
  with m(2,3) assms(4-6) show ?thesis
    by (intro exI [of _ "w\<lparr>iom := m\<rparr>"]) (simp add: test_iomanager_def s o f b Let_def)
qed

definition demo_server :: Runtime where
  "demo_server = demo_rt\<lparr>iom := init_IOManager 4 0, fdmgr := FdManager_ctor\<rparr>"

lemma http_connection_served_witness:
  "\<exists>w1 w2. test_accept (Some True) 2 (\<lambda>_. 0) 3 demo_server [(7, 0)] 1 0 0 0 0 = Some (Inr (w1, [], Returned 0)) \<and>
    conn_loop \<lparr>he_now = (\<lambda>_. 0), he_rt = (\<lambda>_. 0), he_send_now = 0, he_send_rt = 0, he_close_rt = 0\<rparr> 0 w1
      [(-1, EAGAIN), (-1, EAGAIN), (42, 0), (82, 0), (0, 0)] 7 1 = Some (Inr (w2, [], Conn_closed)) \<and>
    get_ctx w2 7 = None"
proof -
  have i: "rt_inv demo_server" "io_good (iom demo_server)" "t_hook_enable demo_server" "t_iom demo_server"
    using init_io_good [of 4 0] fd_inv_ctor
    by (simp_all add: demo_server_def io_good_def rt_inv_def init_IOManager_def contextResize_def
        TimerManager_ctor_def)
  have l: "get_ctx demo_server 3 = None" "get_lookup (fdmgr demo_server) 7 True = None"
    "read_cb (iom demo_server) fd = None" for fd
    by (simp_all add: demo_server_def get_ctx_def get_lookup_def too_short_def FdManager_ctor_def
        read_cb_def init_refines(3) empty_registry_def)
  have lr: "(0::int) \<le> 3" "(0::int) \<le> 7" "(7::int) \<noteq> 3" by simp_all
  let ?e = "\<lparr>he_now = (\<lambda>_. 0), he_rt = (\<lambda>_. 0), he_send_now = 0, he_send_rt = 0, he_close_rt = 0\<rparr>"
  obtain w1 where w1: "test_accept (Some True) 2 (\<lambda>_. 0) 3 demo_server [(7, 0)] 1 0 0 0 0 = Some (Inr (w1, [], Returned 0))"
    "rt_inv w1" "io_good (iom w1)"
    and h: "\<forall>m e n r er1 s c cur1. io_good m \<and> rt_inv (w1\<lparr>iom := m\<rparr>) \<and> - 1 \<le> r \<and> (r, er1) \<noteq> (-1, EAGAIN) \<and>
      he_close_rt e = 0 \<longrightarrow>
      (\<exists>w2. conn_loop e 0 (w1\<lparr>iom := m\<rparr>)
          (replicate n (-1, EAGAIN) @ (r, er1) # (if r > 0 then [s, c] else [c])) 7 cur1 =
        Some (Inr (w2, [], Conn_closed)) \<and>
        get_ctx w2 7 = None \<and> reg (registry (iom w2)) 7 = (\<lambda>_. None))"
    using http_connection_served [OF i lr(1) l(1) l(3) lr(2,3) l(2) l(3), of 2 "\<lambda>_. 0" 0 1 0 0] by blast
  from w1(2,3) spec [OF h, of "iom w1", THEN spec, of ?e, THEN spec, of 2, THEN spec, of 42, THEN spec, of 0,
      THEN spec, of "(82, 0)", THEN spec, of "(0, 0)", THEN spec, of 1]
  obtain w2 where "conn_loop ?e 0 w1 [(-1, EAGAIN), (-1, EAGAIN), (42, 0), (82, 0), (0, 0)] 7 1 =
      Some (Inr (w2, [], Conn_closed))" "get_ctx w2 7 = None"
    by (auto simp: numeral_2_eq_2)
  with w1(1) show ?thesis by blast
qed

end
