(* ===== verification/Co_Logger.thy ===== *)
theory Co_Logger
  imports Co_Prelude "HOL-Library.Sublist"
begin

text \<open>
  \<^verbatim>\<open>Logger\<close> (include/mycoroutine/utils.h, src/utils.cpp): the levels with their order, the level
  in force, and the line a message becomes. The time and the formatted message are arguments, as
  \<^verbatim>\<open>strftime\<close> and \<^verbatim>\<open>vsnprintf\<close> make them; the output stream is the list of lines printed. A call
  of \<^verbatim>\<open>log\<close> prints under the mutex, so its line is one step.
\<close>

section \<open>Levels\<close>

datatype LogLevel = DEBUG | INFO | WARN | ERROR | FATAL | UNKNOWN

text \<open>An \<^verbatim>\<open>enum class\<close> is ordered by its values.\<close>

fun level_value :: "LogLevel \<Rightarrow> nat" where
  "level_value DEBUG = 0"
| "level_value INFO = 1"
| "level_value WARN = 2"
| "level_value ERROR = 3"
| "level_value FATAL = 4"
| "level_value UNKNOWN = 5"

lemma level_value_inj: "level_value a = level_value b \<longleftrightarrow> a = b"
  by (cases a; cases b) simp_all

instantiation LogLevel :: linorder
begin

definition less_eq_LogLevel :: "LogLevel \<Rightarrow> LogLevel \<Rightarrow> bool" where
  "a \<le> b \<longleftrightarrow> level_value a \<le> level_value b"

definition less_LogLevel :: "LogLevel \<Rightarrow> LogLevel \<Rightarrow> bool" where
  "a < b \<longleftrightarrow> level_value a < level_value b"

instance
  by standard (auto simp: less_eq_LogLevel_def less_LogLevel_def level_value_inj)

end

fun levelToString :: "LogLevel \<Rightarrow> string" where
  "levelToString DEBUG = ''DEBUG''"
| "levelToString INFO = ''INFO''"
| "levelToString WARN = ''WARN''"
| "levelToString ERROR = ''ERROR''"
| "levelToString FATAL = ''FATAL''"
| "levelToString _ = ''UNKNOWN''"

section \<open>The logger\<close>

record Logger =
  m_level :: LogLevel
  cout :: "string list"

definition Logger_ctor :: Logger where
  "Logger_ctor = \<lparr>m_level = DEBUG, cout = []\<rparr>"

definition setLevel :: "LogLevel \<Rightarrow> Logger \<Rightarrow> Logger" where
  "setLevel level s = s\<lparr>m_level := level\<rparr>"

definition getLevel :: "Logger \<Rightarrow> LogLevel" where
  "getLevel s = m_level s"

text \<open>\<^verbatim>\<open>strrchr\<close>: the position of the last occurrence.\<close>

fun strrchr :: "string \<Rightarrow> char \<Rightarrow> nat option" where
  "strrchr [] c = None"
| "strrchr (x # xs) c =
     (case strrchr xs c of Some i \<Rightarrow> Some (Suc i) | None \<Rightarrow> if x = c then Some 0 else None)"

definition file_part :: "string \<Rightarrow> string" where
  "file_part file = (case strrchr file CHR ''/'' of None \<Rightarrow> file | Some i \<Rightarrow> drop (Suc i) file)"

text \<open>A number as \<^verbatim>\<open>operator<<\<close> prints it.\<close>

fun decimal :: "nat \<Rightarrow> string" where
  "decimal n = (if n < 10 then [char_of (48 + n)] else decimal (n div 10) @ [char_of (48 + n mod 10)])"

declare decimal.simps [simp del]

definition print_int :: "int \<Rightarrow> string" where
  "print_int i = (if i < 0 then ''-'' @ decimal (nat (- i)) else decimal (nat i))"

text \<open>\<^verbatim>\<open>char msg[1024]\<close>: the formatted message is cut after 1023 characters.\<close>

definition log_line :: "string \<Rightarrow> LogLevel \<Rightarrow> string \<Rightarrow> int \<Rightarrow> string \<Rightarrow> string" where
  "log_line time level file line msg =
     ''['' @ time @ ''] '' @ ''['' @ levelToString level @ ''] '' @
     ''['' @ file_part file @ '':'' @ print_int line @ ''] '' @ take 1023 msg"

definition Logger_log :: "string \<Rightarrow> LogLevel \<Rightarrow> string \<Rightarrow> int \<Rightarrow> string \<Rightarrow> Logger \<Rightarrow> Logger" where
  "Logger_log time level file line msg s =
     (if level < m_level s then s else s\<lparr>cout := cout s @ [log_line time level file line msg]\<rparr>)"

text \<open>The macro \<^verbatim>\<open>MYCOROUTINE_LOG\<close>.\<close>

definition MYCOROUTINE_LOG :: "string \<Rightarrow> LogLevel \<Rightarrow> string \<Rightarrow> int \<Rightarrow> string \<Rightarrow> Logger \<Rightarrow> Logger" where
  "MYCOROUTINE_LOG time level file line msg s =
     (if getLevel s \<le> level then Logger_log time level file line msg s else s)"

section \<open>What is printed\<close>

lemma strrchr_last:
  "(strrchr xs c = None \<longleftrightarrow> c \<notin> set xs) \<and>
    (strrchr xs c = Some i \<longrightarrow> i < length xs \<and> xs ! i = c \<and> c \<notin> set (drop (Suc i) xs))"
  by (induction xs arbitrary: i) (auto split: option.splits)

text \<open>The name printed is the last component of the path.\<close>

lemma file_part_spec: "CHR ''/'' \<notin> set (file_part path) \<and> suffix (file_part path) path \<and>
    (file_part path = path \<or> (\<exists>dir. path = dir @ ''/'' @ file_part path))"
proof (cases "strrchr path CHR ''/''")
  case None
  with strrchr_last [where xs = path and c = "CHR ''/''"] show ?thesis by (simp add: file_part_def)
next
  case (Some i)
  with strrchr_last [where xs = path and c = "CHR ''/''" and i = i]
  have i: "i < length path" "path ! i = CHR ''/''" "CHR ''/'' \<notin> set (drop (Suc i) path)" by simp_all
  then have "path = take i path @ ''/'' @ drop (Suc i) path" using id_take_nth_drop [of i path] by simp
  with Some i(3) show ?thesis by (auto simp: file_part_def suffix_drop)
qed

datatype log_op = SetLevel LogLevel | Log string LogLevel string int string

fun log_step :: "log_op \<Rightarrow> Logger \<Rightarrow> Logger" where
  "log_step (SetLevel l) s = setLevel l s"
| "log_step (Log time level file line msg) s = MYCOROUTINE_LOG time level file line msg s"

text \<open>The specification: each message that reaches the level in force becomes its line.\<close>

fun printed :: "LogLevel \<Rightarrow> log_op list \<Rightarrow> string list" where
  "printed l [] = []"
| "printed l (SetLevel l1 # ops) = printed l1 ops"
| "printed l (Log time level file line msg # ops) =
     (if l \<le> level then [log_line time level file line msg] else []) @ printed l ops"

lemma macro_guard_redundant: "MYCOROUTINE_LOG time level file line msg s = Logger_log time level file line msg s"
  by (auto simp: MYCOROUTINE_LOG_def Logger_log_def getLevel_def)

text \<open>
  What the logger prints: in any sequence of changes of the level and messages, exactly the
  messages whose level is at least the one in force, in order, each as one line with the last
  component of its file's path.
\<close>

theorem logger_prints: "cout (fold log_step ops s) = cout s @ printed (m_level s) ops"
proof (induction ops arbitrary: s)
  case (Cons opn ops)
  then show ?case
    by (cases opn) (auto simp: macro_guard_redundant Logger_log_def setLevel_def)
qed simp

end
