(* ===== verification/Timer_Refinement.thy ===== *)
theory Timer_Refinement
  imports Co_Timer
begin

text \<open>
  What \<^verbatim>\<open>TimerManager\<close> promises, as a table from addresses to pending timers, and the proof that
  src/timer.cpp implements it: the ordered set, the order of its updates and the loop of
  \<^verbatim>\<open>listExpiredCb\<close> are gone from the specification.
\<close>

section \<open>The specification\<close>

fun spec_timer :: "int \<Rightarrow> timer_op \<Rightarrow> (addr \<Rightarrow> Timer option) \<Rightarrow> (addr \<Rightarrow> Timer option)" where
  "spec_timer clk (AddOp a ms cb recurring now) t = t(a \<mapsto> Timer_ctor ms (Some cb) recurring now)"
| "spec_timer clk (CancelOp a) t = t(a := None)"
| "spec_timer clk (RefreshOp a) t =
     t(a := map_option (\<lambda>x. x\<lparr>m_next := clk + milliseconds (m_ms x)\<rparr>) (t a))"
| "spec_timer clk (ResetOp a ms from_now) t =
     t(a := map_option (\<lambda>x. if ms = m_ms x \<and> \<not> from_now then x
         else x\<lparr>m_ms := ms, m_next := (if from_now then clk else m_next x - milliseconds (m_ms x)) + milliseconds ms\<rparr>) (t a))"
| "spec_timer clk (ExpireOp now) t =
     (\<lambda>a. case t a of
            None \<Rightarrow> None
          | Some x \<Rightarrow> if now < m_next x then Some x
                      else if m_recurring x then Some (x\<lparr>m_next := now + milliseconds (m_ms x)\<rparr>) else None)"

definition timer_table :: "TimerManager \<Rightarrow> addr \<Rightarrow> Timer option" where
  "timer_table s a = (if a \<in> set (m_timers s) then Some (timer_at s a) else None)"

text \<open>The pending timers of a table in order of expiry, as a list must be to be the set's.\<close>

definition in_order :: "(addr \<Rightarrow> Timer option) \<Rightarrow> addr list \<Rightarrow> bool" where
  "in_order t as \<longleftrightarrow> set as = dom t \<and>
     sorted_wrt (\<lambda>a b. (m_next (the (t a)), a) < (m_next (the (t b)), b)) as"

section \<open>Each operation\<close>

lemma table_upd:
  assumes "t_heap s' = (t_heap s)(a \<mapsto> x)" and "set (m_timers s') = insert a (set (m_timers s))"
  shows "timer_table s' = (timer_table s)(a \<mapsto> x)"
  using assms by (auto simp: fun_eq_iff timer_table_def timer_at_def)

lemma table_none: "a \<notin> set (m_timers s) \<Longrightarrow> timer_table s a = None"
  by (simp add: timer_table_def)

lemma table_some: "a \<in> set (m_timers s) \<Longrightarrow> timer_table s a = Some (timer_at s a)"
  by (simp add: timer_table_def)

lemma not_pending:
  assumes "timer_inv s" and "m_cb (timer_at s a) = None \<or> set_find (Comparator (t_heap s)) a (m_timers s) = None"
  shows "a \<notin> set (m_timers s)"
  using assms timer_invD(4) [OF assms(1), of a] by (auto simp: timer_set.find_None)

lemma timer_add_refines: "timer_table (fst (addTimer s a ms cb recurring now)) = (timer_table s)(a \<mapsto> Timer_ctor ms cb recurring now)"
  by (rule table_upd) (simp_all add: addTimer_def timer_set.insert_set)

lemma timer_cancel_refines:
  assumes "timer_inv s"
  shows "timer_table (fst (cancel s a)) = (timer_table s)(a := None)"
proof -
  have "timer_at (fst (cancel s a)) b = timer_at s b" if "b \<noteq> a" for b
    using that by (simp add: cancel_def Let_def split: option.split)
  with cancel_timers [OF assms, of a] show ?thesis by (auto simp: timer_table_def fun_eq_iff)
qed

lemma timer_refresh_refines:
  assumes "timer_inv s"
  shows "timer_table (fst (refresh s a clk)) = spec_timer clk (RefreshOp a) (timer_table s)"
proof (cases "m_cb (timer_at s a) = None \<or> set_find (Comparator (t_heap s)) a (m_timers s) = None")
  case True
  then have "fst (refresh s a clk) = s" by (auto simp: refresh_def Let_def)
  moreover have "timer_table s a = None" by (rule table_none [OF not_pending [OF assms True]])
  ultimately show ?thesis by (simp add: fun_eq_iff)
next
  case False
  then obtain i where i: "m_cb (timer_at s a) \<noteq> None"
    "set_find (Comparator (t_heap s)) a (m_timers s) = Some i" by auto
  let ?s = "fst (refresh s a clk)" and ?t = "timer_at s a\<lparr>m_next := clk + milliseconds (m_ms (timer_at s a))\<rparr>"
  note f = timer_set.find_erase [OF timer_invD(1) [OF assms] i(2)]
  have h: "t_heap ?s = (t_heap s)(a \<mapsto> ?t)" "set (m_timers ?s) = insert a (set (erase_at i (m_timers s)))"
    using i by (auto simp: refresh_def Let_def timer_set.insert_set)
  have "insert a (set (erase_at i (m_timers s))) = insert a (set (m_timers s))" using f(2) by blast
  then have "timer_table ?s = (timer_table s)(a \<mapsto> ?t)" by (intro table_upd h(1)) (simp only: h(2))
  with f(3) show ?thesis by (simp add: table_some)
qed

lemma timer_reset_refines:
  assumes "timer_inv s"
  shows "timer_table (fst (reset s a ms from_now clk)) = spec_timer clk (ResetOp a ms from_now) (timer_table s)"
proof (cases "reset_detach s a ms from_now")
  case (Inl b)
  then have r: "fst (reset s a ms from_now clk) = s" by (simp add: reset_def)
  have "a \<notin> set (m_timers s) \<or> ms = m_ms (timer_at s a) \<and> \<not> from_now"
    using Inl not_pending [OF assms, of a] by (auto simp: reset_detach_def Let_def split: if_splits option.splits)
  then show ?thesis unfolding r
    by (cases "a \<in> set (m_timers s)") (auto simp: fun_eq_iff timer_table_def)
next
  case (Inr s1)
  then obtain i where i: "set_find (Comparator (t_heap s)) a (m_timers s) = Some i"
    "s1 = s\<lparr>m_timers := erase_at i (m_timers s)\<rparr>" by (rule reset_detach_Inr)
  have c: "\<not> (ms = m_ms (timer_at s a) \<and> \<not> from_now)"
    using Inr by (auto simp: reset_detach_def Let_def split: if_splits)
  note f = timer_set.find_erase [OF timer_invD(1) [OF assms] i(1)]
  let ?t = "timer_at s a\<lparr>m_ms := ms,
    m_next := (if from_now then clk else m_next (timer_at s a) - milliseconds (m_ms (timer_at s a))) + milliseconds ms\<rparr>"
  have r: "fst (reset s a ms from_now clk) = fst (addTimer_ptr (set_timer a ?t s1) a)"
    using Inr by (simp add: reset_def reset_attach_def Let_def i(2) case_prod_beta)
  have h: "t_heap (fst (addTimer_ptr (set_timer a ?t s1) a)) = (t_heap s)(a \<mapsto> ?t)"
    "set (m_timers (fst (addTimer_ptr (set_timer a ?t s1) a))) = insert a (set (erase_at i (m_timers s)))"
    by (simp_all add: i(2) timer_set.insert_set)
  have "insert a (set (erase_at i (m_timers s))) = insert a (set (m_timers s))" using f(2) by blast
  then have "timer_table (fst (reset s a ms from_now clk)) = (timer_table s)(a \<mapsto> ?t)"
    unfolding r by (intro table_upd h(1)) (simp only: h(2))
  with f(3) c show ?thesis by (simp add: table_some)
qed

lemma timer_expire_refines:
  assumes "timer_sane clk0 s" and "clk0 \<le> clk" and "listExpiredCb s now clk = Some (s', cbs)"
  shows "timer_table s' = spec_timer clk (ExpireOp now) (timer_table s)"
proof -
  from listExpired_spec [OF assms(1,2), of now] assms(3) have e:
    "set (m_timers s') = {a \<in> set (m_timers s). now < m_next (timer_at s a) \<or> m_recurring (timer_at s a)}"
    "\<forall>a. t_heap s' a = (if a \<in> set (m_timers s) \<and> m_next (timer_at s a) \<le> now
      then Some (fired now (timer_at s a)) else t_heap s a)" by auto
  have "timer_table s' a = spec_timer clk (ExpireOp now) (timer_table s) a" for a
    using e(1) e(2) [rule_format, of a] by (auto simp: timer_table_def timer_at_def fired_def)
  then show ?thesis by (rule ext)
qed

lemma timer_step_refines:
  assumes "timer_sane clk0 s" and "clk0 \<le> clk" and "timer_step s clk x = Some (s', hook)"
  shows "timer_table s' = spec_timer clk x (timer_table s)"
proof (cases x)
  case (AddOp a ms cb recurring now)
  with assms(3) timer_add_refines [of s a ms "Some cb" recurring now] show ?thesis by simp
next
  case (CancelOp a)
  with assms(3) timer_cancel_refines [OF timer_saneD(1) [OF assms(1)], of a] show ?thesis by auto
next
  case (RefreshOp a)
  with assms(3) timer_refresh_refines [OF timer_saneD(1) [OF assms(1)], of a clk] show ?thesis by auto
next
  case (ResetOp a ms from_now)
  with assms(3) timer_reset_refines [OF timer_saneD(1) [OF assms(1)], of a ms from_now clk] show ?thesis
    by (auto split: prod.splits)
next
  case (ExpireOp now)
  with assms(3) timer_expire_refines [OF assms(1,2)] show ?thesis by (auto split: option.splits)
qed

section \<open>Runs\<close>

lemma timer_run_refines:
  assumes "timer_sane clk0 s" and "run_ok s clk0 xs"
  shows "\<exists>s' hook clk. timer_run s xs = Some (s', hook) \<and> timer_sane clk s' \<and>
    timer_table s' = fold (\<lambda>(clk, x). spec_timer clk x) xs (timer_table s)"
  using assms
proof (induction xs arbitrary: s clk0)
  case (Cons y xs)
  obtain clk x where y: "y = (clk, x)" by fastforce
  with Cons.prems have ok: "clk0 \<le> clk" "op_ok s clk x" by simp_all
  from timer_step_good [OF Cons.prems(1) ok] obtain s1 hook1 where 1:
    "timer_step s clk x = Some (s1, hook1)" "timer_sane clk s1" by (auto simp: step_good_def)
  with Cons.prems(2) y have "run_ok s1 clk xs" by simp
  from Cons.IH [OF 1(2) this] 1(1) timer_step_refines [OF Cons.prems(1) ok(1) 1(1)] y show ?case by auto
qed auto



end
