(* ===== verification/Spec2Isabelle.thy ===== *)
theory Spec2Isabelle
  imports Co_Mutex Wait_Group Co_Channel Sched_Wakeup Runtime_Machine Shared_Stack Coroutine_Pool Co_Switch Co_Context_A64
    Sched_Base Http_Server Co_Logger Timer_Refinement
begin

text \<open>
  A verification development for \<^verbatim>\<open>mycoroutine\<close>, a stackful coroutine runtime in C++17.

  \<^bold>\<open>The program.\<close> A \<^verbatim>\<open>Fiber\<close> has a stack of its own, or a slot of a shared one, and a saved
  processor context; \<^verbatim>\<open>resume\<close>, \<^verbatim>\<open>call\<close>, \<^verbatim>\<open>yield\<close> and \<^verbatim>\<open>back\<close> switch between contexts. A
  \<^verbatim>\<open>Scheduler\<close> runs fibers and callbacks on worker threads: each worker picks a task from one
  queue under a policy, runs it, and otherwise runs an idle fiber. \<^verbatim>\<open>IOManager\<close> is a scheduler
  whose idle fiber waits in \<^verbatim>\<open>epoll_wait\<close>; it is also a \<^verbatim>\<open>TimerManager\<close>. It schedules the
  fibers and callbacks registered for ready descriptors and expired timers, and an eventfd wakes
  it when a task arrives. The hooks replace the blocking system calls by versions that register
  the descriptor and a timeout and yield. The synchronisation primitives \<^verbatim>\<open>CoMutex\<close>,
  \<^verbatim>\<open>WaitGroup\<close> and \<^verbatim>\<open>Channel\<close> suspend fibers and wake them through the scheduler.

  \<^bold>\<open>The theories.\<close>

  \<^item> \<open>Co_Prelude\<close>: faults and results (\<open>'a result\<close> is \<open>fault + 'a\<close>), the types of addresses and
    words, callbacks as data, lemmas on lists and 64-bit counters; the locale \<open>simulation\<close>, a
    component that implements a specification, which the IO manager and the descriptor table
    interpret.

  \<^item> \<open>Sched_Policy\<close>: the task queue of include/mycoroutine/scheduler.h and src/scheduler.cpp:
    \<^verbatim>\<open>scheduleEx\<close>, the policies, \<^verbatim>\<open>pickNextTaskLocked\<close>, the requeue of \<^verbatim>\<open>MLFQ\<close>. The locales
    \<open>task_order\<close> and \<open>task_total_order\<close> say what the selection loop needs of a comparison; every
    policy's comparison interprets them. Shown: a pick takes the least task of its policy's key,
    it is a sort of the queue, sequence numbers stay increasing, aging bounds the wait.

  \<^item> \<open>Sched_Run\<close> and \<open>Sched_Wakeup\<close>: the worker threads, \<^verbatim>\<open>Scheduler::run\<close> and \<^verbatim>\<open>stop\<close>, as
    program counters over the shared state with the step relation \<open>sched_reach\<close>. Shown: the
    counters are exact, no fiber runs on two workers, \<^verbatim>\<open>stopping()\<close> means that nothing is left;
    a wake-up that is lost; a waiting fiber that \<^verbatim>\<open>MLFQ\<close> resumes for nothing; what readiness does
    to a hooked call that waits.

  \<^item> \<open>Co_Thread\<close>, \<open>Sched_Start\<close> and \<open>Sched_Base\<close>: src/thread.cpp with its semaphore, and the
    constructor, \<^verbatim>\<open>start\<close>, \<^verbatim>\<open>stop\<close>, the destructor and the base class's \<^verbatim>\<open>idle\<close> of \<^verbatim>\<open>Scheduler\<close>;
    accessors, the singleton, the destructors of \<^verbatim>\<open>IOManager\<close> and of a shared-stack pool. Shown: a
    constructed thread has introduced itself and nobody sleeps past the signal; a started
    scheduler has the workers it was made for, and \<^verbatim>\<open>stop\<close> joins each of them once, in order; what
    is left behind when a thread cannot be created or joined; a plain scheduler that has
    nothing to do faults.

  \<^item> \<open>Co_Context\<close> and \<open>Co_Context_A64\<close>: include/mycoroutine/context.h and the swap routines of
    src/context_switch_x86_64.S and src/context_switch_aarch64.S, instruction by instruction. The
    locale \<open>context_swap\<close> is what the fiber code expects of such a routine; both interpret it.
    Shown: the swap is a call that returns.

  \<^item> \<open>Fiber_Stack\<close> and \<open>Shared_Stack\<close>: fibers, their stacks, the shared-stack pools and
    \<^verbatim>\<open>prepareSharedStack\<close> of src/fiber.cpp over byte memory. Shown: a fiber finds its stack
    exactly as it left it.

  \<^item> \<open>Co_Fiber\<close>: \<^verbatim>\<open>resume\<close>, \<^verbatim>\<open>call\<close>, \<^verbatim>\<open>yield\<close>, \<^verbatim>\<open>back\<close> and the end of \<^verbatim>\<open>MainFunc\<close> of
    src/fiber.cpp. Shown: control follows the chain of callers; the codes of \<^verbatim>\<open>call\<close>.

  \<^item> \<open>Co_Switch\<close>: the switch of the fiber model is refined by the instructions of the routine.

  \<^item> \<open>Coroutine_Pool\<close>: src/coroutine_pool.cpp over the fiber model. Shown: no fiber is handed
    out twice.

  \<^item> \<open>Sync_Wait\<close>, \<open>Co_Mutex\<close>, \<open>Wait_Group\<close>, \<open>Co_Channel\<close>: include/mycoroutine/sync.h. The locale
    \<open>monitor\<close> is the waiting protocol for any primitive that is a set of critical sections with
    a queue of waiters, over every interleaving of fibers; \<open>fifo_monitor\<close> adds that waiters leave
    in order. The three primitives interpret them. Shown: mutual exclusion and hand-off in order,
    counting, values in order, draining after a close, no lost wake-up.

  \<^item> \<open>Co_Timer\<close>: src/timer.cpp. The locale \<open>std_set\<close> is the ordered set of timer pointers.
    Shown: the set stays ordered, exactly the due timers expire, no oversleeping, cancellation is
    final; two inputs on which the expiry loop does not end, and the race in \<^verbatim>\<open>reset\<close>.

  \<^item> \<open>Timer_Refinement\<close>: what \<^verbatim>\<open>TimerManager\<close> promises, a table of pending timers. Shown: runs of
    operations that do not overlap implement it, on a clock that does not run backwards, and the
    set lists the table in order of expiry.

  \<^item> \<open>Io_Manager\<close>: src/iomanager.cpp. The operations are whole functions (\<open>io_step\<close>) and, cut at
    their locks, sections (\<open>sec_step\<close>). Shown: the contexts, the pending count and the registered
    continuations agree in every interleaving of the sections of any number of threads;
    cancellation delivers once; an assertion fails exactly when a ready event is handled whose
    report has become stale, which cannot be as long as nobody changes the registrations between
    the report and its handling; the resize race.

  \<^item> \<open>Io_Refinement\<close>: what \<^verbatim>\<open>IOManager\<close> promises about events, a table of registrations with the
    task queue, and the kernel's interest set as the log of \<^verbatim>\<open>epoll_ctl\<close> builds it, from the
    constructor's registration of the eventfd on. Shown: runs of operations that do not overlap
    implement the table up to the first stale report, and the interest set is always the one the
    table asks for.

  \<^item> \<open>Fd_Manager\<close>, \<open>Co_Hook\<close> and \<open>Hook_Init\<close>: src/fd_manager.cpp and src/hook.cpp. Shown: the
    descriptor contexts are a table, in every interleaving of the sections of \<^verbatim>\<open>get\<close> and \<^verbatim>\<open>del\<close>; what
    every hooked call returns, with which \<^verbatim>\<open>errno\<close>, on every sequence of results of the original
    calls; timeouts; the non-blocking flag; sleeping; closing; what the calls are with the hooks
    off, and that \<^verbatim>\<open>accept\<close>, \<^verbatim>\<open>fcntl\<close> and \<^verbatim>\<open>ioctl\<close> then still are not the original ones.

  \<^item> \<open>Io_Items\<close>, \<open>Runtime_Moves\<close> and \<open>Runtime_Machine\<close>: the hooks, the manager, the timers and the
    worker loop together. \<open>items\<close> is the multiset of continuations a manager holds in its slots,
    its queue and its timers; \<open>moves\<close> says how an operation changes the fibers they wake; the
    machine \<open>mstep\<close> is one worker with its fibers, each suspended one with the locals of the hook
    it waits in, with the user's timers, events and callbacks, which become fibers, and with other
    threads that submit and stop; \<open>mreach\<close> are its reachable states. Shown, for one worker and
    a policy other than \<^verbatim>\<open>MLFQ\<close>: every possible step returns without a fault; no fiber is lost or
    woken twice; the idle loop leaves only when no fiber waits, although \<^verbatim>\<open>stopping()\<close> reads in three
    sections. Under \<^verbatim>\<open>MLFQ\<close> the second fails, and with a second worker the third.

  \<^item> \<open>Http_Server\<close>: examples/coroutine_http_server.cpp over the hooked calls and the IO manager.
    Shown: a connection from \<^verbatim>\<open>accept\<close> to \<^verbatim>\<open>close\<close>, with nothing left behind, and the busy loop
    in between.

  \<^item> \<open>Co_Logger\<close>: src/utils.cpp. Shown: exactly the messages of the level in force are printed.

  \<^bold>\<open>How the code is rendered.\<close> A class is a record, a machine integer a word of its width (the
  64-bit time values of \<^verbatim>\<open>std::chrono\<close>, thread identifiers and the counter of \<^verbatim>\<open>WaitGroup\<close> are
  integers), a pointer an address into a map, an assertion or null dereference an \<open>Inl\<close>. A
  critical section under a mutex is one function; where the code works in several sections the
  pieces are functions of their own and step relations interleave them. A function that yields is
  cut there. Clock readings, results of system calls and what \<^verbatim>\<open>epoll_wait\<close> reports are
  arguments; that of \<^verbatim>\<open>epoll_ctl\<close> is 0 or the \<^verbatim>\<open>errno\<close> of its failure. \<^verbatim>\<open>errno\<close> is tracked as far as
  a caller may read it, after a call that failed; output to the standard streams is taken not
  to change it. The compiler's assertions are on.

  Where a run is one of whole operations (\<open>io_run\<close>, \<open>timer_run\<close>, \<open>mstep\<close>) the operations do
  not overlap: the statements say so, and what overlapping can do is shown separately, as runs
  of sections (\<open>sec_step\<close>, \<open>fd_step\<close>) or as a race.

  \<^bold>\<open>Bounds.\<close> The integers of time are unbounded where the source has signed 64-bit nanoseconds, whose
  overflow is undefined: the definitions speak for it within \<open>deadline_ok\<close>, that is, for
  durations and deadlines below \<open>2 ^ 63\<close> nanoseconds. The steps of \<open>Runtime_Machine\<close> respect
  this; which sleeping calls do is part of what is shown of them. The loop of \<^verbatim>\<open>listExpiredCb\<close> is a \<open>partial_function\<close>: that it returns is proved
  where it does, and that it does not where it does not. The retry loop of \<^verbatim>\<open>do_io\<close> recurs over
  the list of results of the original call, the loop of the example's handler is shown to end when
  these results do. The other loops recur structurally. No fuel is used.

  \<^bold>\<open>Not modelled.\<close> The calls of the sanitizers; the getters of \<^verbatim>\<open>Thread\<close>; the benchmarks and
  tests. The machine of \<open>Runtime_Machine\<close> has one worker, its fibers suspend themselves only in
  hooked calls, and they neither make recurring or conditional timers nor delete events:
  several workers are the subject of \<open>Sched_Run\<close> and \<open>Io_Manager\<close>, waiting in a primitive that of
  \<open>Sync_Wait\<close>, recurring timers that of \<open>Co_Timer\<close>, deleted events that of \<open>Io_Refinement\<close>.
\<close>

end
